(* ===== verification/Prelude.thy ===== *)
theory Prelude
  imports Main "HOL-Library.Word" "HOL-Library.Monad_Syntax" "HOL-Library.Signed_Division"
begin

text \<open>
  Shared vocabulary of the development: the C integer types of the TCP-Linux sources at the
  widths they have on the LP64 target, C's partial division, and the lemmas on machine words
  and on the option monad that the component theories use.

  \<^verbatim>\<open>ns-linux-util.h\<close> defines \<^verbatim>\<open>u32\<close> as \<^verbatim>\<open>unsigned long\<close> and \<^verbatim>\<open>u16\<close> as \<^verbatim>\<open>unsigned int\<close>.
  The object files shipped beside the sources are x86-64 ELF files, where \<^verbatim>\<open>unsigned long\<close> has
  64 bits, so \<^verbatim>\<open>u32\<close> is a 64-bit word here, whatever its name says, and \<^verbatim>\<open>u16\<close> a 32-bit one.

  A call that does not return normally is \<^term>\<open>None\<close>: a division by zero (a trap on this
  target), a read outside a table, a dereference of a null pointer, or a loop that never ends.
\<close>

unbundle bit_operations_syntax

section \<open>C integer types\<close>

type_synonym u64 = "64 word"
type_synonym u32 = "64 word"
type_synonym u16 = "32 word"
type_synonym u8 = "8 word"
type_synonym s32 = "64 word"
type_synonym s64 = "64 word"
type_synonym cint = "32 word"

named_theorems c_arith \<open>how the C integer operations read as natural numbers\<close>

text \<open>The implicit conversions between these types.\<close>

abbreviation int_ulong :: "cint \<Rightarrow> u32" where
  "int_ulong i \<equiv> scast i"

abbreviation uint_ulong :: "u16 \<Rightarrow> u32" where
  "uint_ulong i \<equiv> ucast i"

abbreviation ulong_uint :: "u32 \<Rightarrow> u16" where
  "ulong_uint i \<equiv> ucast i"

text \<open>Unsigned division: the trap on a zero divisor is a result.\<close>

definition udiv :: "'a::len word \<Rightarrow> 'a word \<Rightarrow> 'a word option" where
  "udiv a b = (if b = 0 then None else Some (a div b))"

lemma udiv_Some [simp]: "b \<noteq> 0 \<Longrightarrow> udiv a b = Some (a div b)"
  by (simp add: udiv_def)

lemma udiv_zero [simp]: "udiv a 0 = None"
  by (simp add: udiv_def)

lemma udiv_eq_Some_iff: "udiv a b = Some q \<longleftrightarrow> b \<noteq> 0 \<and> q = a div b"
  by (auto simp: udiv_def)

lemma udiv_eq_None_iff: "udiv a b = None \<longleftrightarrow> b = 0"
  by (simp add: udiv_def)

text \<open>Signed division, which truncates towards zero.\<close>

definition c_div :: "'a::len word \<Rightarrow> 'a word \<Rightarrow> 'a word option" where
  "c_div a b = (if b = 0 then None else Some (word_of_int (sint a sdiv sint b)))"

text \<open>Reading a constant table; past its end is undefined behaviour.\<close>

definition table_lookup :: "'b list \<Rightarrow> 'a::len word \<Rightarrow> 'b option" where
  "table_lookup t i = (if unat i < length t then Some (t ! unat i) else None)"

lemma table_lookup_Some: "unat i < length t \<Longrightarrow> table_lookup t i = Some (t ! unat i)"
  by (simp add: table_lookup_def)

section \<open>Words as natural numbers\<close>

lemma unat_less: "unat (w :: 'a::len word) < 2 ^ LENGTH('a)"
  by (rule unsigned_less)

lemma unat64_less: "unat (w :: 64 word) < 18446744073709551616"
  using unat_less [of w] by simp

lemma unat32_less: "unat (w :: 32 word) < 4294967296"
  using unat_less [of w] by simp

lemma unat8_less: "unat (w :: 8 word) < 256"
  using unat_less [of w] by simp

lemma unat_drop_bit_div: "unat (drop_bit n (x :: 'a::len word)) = unat x div 2 ^ n"
  by (simp only: unat_drop_bit_eq) (simp add: drop_bit_eq_div)

lemma unat_push_bit: "unat (push_bit n (x :: 'a::len word)) = unat x * 2 ^ n mod 2 ^ LENGTH('a)"
  by (simp add: unsigned_push_bit_eq take_bit_eq_mod) (simp add: push_bit_eq_mult)

lemma unat_max: "unat (max a b) = max (unat a) (unat b)"
  by (simp add: max_def word_le_nat_alt)

lemma unat_min: "unat (min a b) = min (unat a) (unat b)"
  by (simp add: min_def word_le_nat_alt)

lemma unat_uint_ulong [simp]: "unat (ucast (x :: 32 word) :: 64 word) = unat x"
proof -
  have "unat x < 2 ^ 64" using unat32_less [of x] by simp
  then show ?thesis by (simp add: unsigned_ucast_eq take_bit_nat_eq_self del: unsigned_less)
qed

lemma uint_ulong_eq_0_iff [simp]: "uint_ulong x = 0 \<longleftrightarrow> x = 0"
  by (metis unat_uint_ulong unat_0 unat_eq_zero)

lemma unat_u8_ulong [simp]: "unat (ucast (x :: 8 word) :: 64 word) = unat x"
proof -
  have "unat x < 2 ^ 64" using unat8_less [of x] by simp
  then show ?thesis by (simp add: unsigned_ucast_eq take_bit_nat_eq_self del: unsigned_less)
qed

lemma unat_ulong_uint: "unat (ucast (x :: 64 word) :: 32 word) = unat x mod 4294967296"
  by (simp add: unsigned_ucast_eq take_bit_eq_mod)

lemma unat_ulong_u8: "unat (ucast (x :: 64 word) :: 8 word) = unat x mod 256"
  by (simp add: unsigned_ucast_eq take_bit_eq_mod)

lemma unat_less_succ [simp]: "unat a < unat b \<Longrightarrow> unat (a + 1) = Suc (unat a)" for a b :: u32
  using unat64_less [of b] by (simp add: unat_word_ariths)

lemma unat_less_succ32: "unat a < unat (b :: u16) \<Longrightarrow> unat (a + 1) = Suc (unat a)" for a :: u32
  using unat32_less [of b] by (simp add: unat_word_ariths)

lemma unat_zero_iff: "unat w = 0 \<longleftrightarrow> w = 0"
  by (rule unat_eq_zero)

lemma unat_pos_iff: "0 < unat w \<longleftrightarrow> w \<noteq> 0"
  by (simp add: unat_gt_0)

lemma less_Suc_div_mult: "0 < m \<Longrightarrow> n < (n div m + 1) * m" for n m :: nat
  using dividend_less_times_div [of m n] by (simp add: algebra_simps)

lemma and_high_mask_eq_0_iff:
  assumes m: "m = NOT (mask n :: 'a::len word)"
  shows "x AND m = 0 \<longleftrightarrow> unat x < 2 ^ n"
proof -
  have "x AND m = 0 \<longleftrightarrow> (\<forall>i. bit x i \<longrightarrow> i < n)"
    unfolding m by (auto simp: bit_eq_iff bit_simps dest: bit_imp_le_length)
  also have "\<dots> \<longleftrightarrow> (\<forall>i. \<not> bit x (n + i))"
    by (metis le_add1 le_add_diff_inverse not_le)
  also have "\<dots> \<longleftrightarrow> drop_bit n x = 0"
    by (auto simp: bit_eq_iff bit_drop_bit_eq) (meson bit_imp_le_length le_add2 le_less_trans)
  also have "\<dots> \<longleftrightarrow> unat (drop_bit n x) = 0" by (rule unat_eq_zero [symmetric])
  also have "\<dots> \<longleftrightarrow> unat x < 2 ^ n" by (simp only: unat_drop_bit_div) (simp add: div_eq_0_iff)
  finally show ?thesis .
qed

lemmas [c_arith] = word_less_nat_alt word_le_nat_alt unat_div_distrib unat_mod_distrib
  unat_drop_bit_div unat_push_bit unat_max unat_min unat_ulong_uint unat_ulong_u8

section \<open>Signed reading\<close>

lemma int_unat_sint:
  assumes "0 \<le> sint (w :: 'a::len word)"
  shows "int (unat w) = sint w"
proof -
  have "sint w < 2 ^ (LENGTH('a) - 1)" by (rule sint_lt)
  also have "(2::int) ^ (LENGTH('a) - 1) \<le> 2 ^ LENGTH('a)" by (rule power_increasing) auto
  finally have "take_bit LENGTH('a) (sint w) = sint w"
    using assms by (simp add: take_bit_int_eq_self)
  then have "uint w = sint w" using uint_sint [of w] by simp
  then show ?thesis by simp
qed

lemma sint_of_small:
  assumes "unat (w :: 'a::len word) < 2 ^ (LENGTH('a) - 1)"
  shows "sint w = int (unat w)"
proof -
  have "- (2 ^ (LENGTH('a) - Suc 0)) \<le> uint w"
    by (rule order_trans [of _ 0]) simp_all
  moreover have "uint w < 2 ^ (LENGTH('a) - Suc 0)"
    using assms of_nat_less_iff [of "unat w" "2 ^ (LENGTH('a) - Suc 0)", where 'a=int] by simp
  ultimately have "signed_take_bit (LENGTH('a) - Suc 0) (uint w) = uint w"
    by (simp add: signed_take_bit_int_eq_self)
  then show ?thesis using sint_uint [of w] by simp
qed

lemma sint_int_ulong [simp]: "sint (scast (i :: 32 word) :: 64 word) = sint i"
  by (simp add: sint_up_scast is_up)

text \<open>A non-negative \<^verbatim>\<open>int\<close> keeps its value when C converts it to \<^verbatim>\<open>unsigned long\<close>.\<close>

lemma unat_int_ulong:
  assumes "0 \<le> sint i"
  shows "unat (int_ulong i) = nat (sint i)"
proof -
  have "int (unat (int_ulong i)) = sint i"
    using int_unat_sint [of "int_ulong i"] assms by simp
  then show ?thesis by linarith
qed

lemma int_ulong_eq_0_iff [simp]: "int_ulong i = 0 \<longleftrightarrow> i = 0"
proof
  assume "int_ulong i = 0"
  then have "sint i = 0" using sint_int_ulong [of i] by (simp del: sint_int_ulong)
  then show "i = 0" by (simp add: signed_word_eqI)
qed simp

lemma sdiv_nonneg: "0 \<le> x \<Longrightarrow> 0 < y \<Longrightarrow> x sdiv y = x div y" for x y :: int
  unfolding signed_divide_int_def by (cases "x = 0") (simp_all add: sgn_1_pos sgn_if)

section \<open>The option monad\<close>

lemma bind_Some_iff: "Option.bind m f = Some y \<longleftrightarrow> (\<exists>x. m = Some x \<and> f x = Some y)"
  by (cases m) auto

lemma bind_None_iff: "Option.bind m f = None \<longleftrightarrow> m = None \<or> (\<exists>x. m = Some x \<and> f x = None)"
  by (cases m) auto

end
