(* ===== verification/Tcp_Types.thy ===== *)
theory Tcp_Types
  imports Prelude
begin

text \<open>
  The data of \<^verbatim>\<open>tcp/linux/ns-linux-util.h\<close> and \<^verbatim>\<open>ns-linux-c.h\<close>: the per-connection
  \<^verbatim>\<open>struct tcp_sock\<close> (which is also \<^verbatim>\<open>struct sock\<close> and \<^verbatim>\<open>inet_connection_sock\<close>, by
  macro), the congestion events and states, the global clock and the sysctls, and the macros
  the congestion modules share.  The private area \<^verbatim>\<open>icsk_ca_priv\<close>, which each module casts to
  its own struct, is a separate argument of the modules' operations; \<^verbatim>\<open>icsk_ca_ops\<close> is kept in
  \<^verbatim>\<open>Cong_List\<close> and \<^verbatim>\<open>Agent\<close>.
\<close>

section \<open>The socket\<close>

record tcp_options_received =
  rcv_tsval :: u32
  rcv_tsecr :: u32
  saw_tstamp :: bool

record tcp_sock =
  snd_nxt :: u32
  snd_una :: u32
  mss_cache :: u32
  srtt :: u32
  rx_opt :: tcp_options_received
  snd_ssthresh :: u32
  snd_cwnd :: u32
  snd_cwnd_cnt :: u16
  snd_cwnd_clamp :: u16
  snd_cwnd_stamp :: u32
  bytes_acked :: u32
  icsk_ca_state :: u8

section \<open>Globals\<close>

text \<open>
  \<^verbatim>\<open>tcp_time_stamp\<close> (also called \<^verbatim>\<open>jiffies\<close>), in units of \<^verbatim>\<open>1/HZ\<close> seconds, and
  \<^verbatim>\<open>ktime_get_real\<close>, in nanoseconds, are set by the simulator before it calls a module; the
  sysctls are \<^verbatim>\<open>sysctl_tcp_abc\<close> (\<^verbatim>\<open>ns-linux-param.c\<close>) and \<^verbatim>\<open>sysctl_tcp_max_ssthresh\<close>
  (\<^verbatim>\<open>tcp_cong.c\<close>).
\<close>

record env =
  tcp_time_stamp :: u32
  ktime_get_real :: s64
  sysctl_tcp_abc :: u8
  sysctl_tcp_max_ssthresh :: cint

abbreviation HZ :: u32 where
  "HZ \<equiv> 1000"

section \<open>Events and states\<close>

datatype tcp_ca_event =
    CA_EVENT_TX_START
  | CA_EVENT_CWND_RESTART
  | CA_EVENT_COMPLETE_CWR
  | CA_EVENT_FRTO
  | CA_EVENT_LOSS
  | CA_EVENT_FAST_ACK
  | CA_EVENT_SLOW_ACK

definition TCP_CA_Open :: u8 where "TCP_CA_Open = 0"
definition TCP_CA_Disorder :: u8 where "TCP_CA_Disorder = 1"
definition TCP_CA_CWR :: u8 where "TCP_CA_CWR = 2"
definition TCP_CA_Recovery :: u8 where "TCP_CA_Recovery = 3"
definition TCP_CA_Loss :: u8 where "TCP_CA_Loss = 4"

lemmas tcp_ca_states = TCP_CA_Open_def TCP_CA_Disorder_def TCP_CA_CWR_def TCP_CA_Recovery_def
  TCP_CA_Loss_def

section \<open>Macros\<close>

definition tcp_is_cwnd_limited :: "tcp_sock \<Rightarrow> u32 \<Rightarrow> bool" where
  "tcp_is_cwnd_limited sk in_flight \<longleftrightarrow> snd_cwnd sk \<le> in_flight"

definition after :: "u32 \<Rightarrow> u32 \<Rightarrow> bool" where
  "after seq1 seq2 \<longleftrightarrow> seq2 < seq1"

definition between :: "u32 \<Rightarrow> u32 \<Rightarrow> u32 \<Rightarrow> bool" where
  "between seq1 seq2 seq3 \<longleftrightarrow> seq1 - seq2 \<le> seq3 - seq2"

definition msecs_to_jiffies :: "u32 \<Rightarrow> u32" where
  "msecs_to_jiffies x = 1 * x"

text \<open>
  The increment of the window that the modules share: \<^verbatim>\<open>if (tp->snd_cwnd <
  tp->snd_cwnd_clamp) tp->snd_cwnd++\<close>.
\<close>

definition bump_cwnd :: "tcp_sock \<Rightarrow> tcp_sock" where
  "bump_cwnd tp = (if snd_cwnd tp < uint_ulong (snd_cwnd_clamp tp)
     then tp\<lparr>snd_cwnd := snd_cwnd tp + 1\<rparr> else tp)"

lemma bump_cwnd_frame [simp]:
  "snd_nxt (bump_cwnd tp) = snd_nxt tp"
  "snd_una (bump_cwnd tp) = snd_una tp"
  "mss_cache (bump_cwnd tp) = mss_cache tp"
  "srtt (bump_cwnd tp) = srtt tp"
  "rx_opt (bump_cwnd tp) = rx_opt tp"
  "snd_ssthresh (bump_cwnd tp) = snd_ssthresh tp"
  "snd_cwnd_cnt (bump_cwnd tp) = snd_cwnd_cnt tp"
  "snd_cwnd_clamp (bump_cwnd tp) = snd_cwnd_clamp tp"
  "snd_cwnd_stamp (bump_cwnd tp) = snd_cwnd_stamp tp"
  "bytes_acked (bump_cwnd tp) = bytes_acked tp"
  "icsk_ca_state (bump_cwnd tp) = icsk_ca_state tp"
  by (simp_all add: bump_cwnd_def)

lemma unat_bump_cwnd:
  "unat (snd_cwnd (bump_cwnd tp)) =
     (if unat (snd_cwnd tp) < unat (snd_cwnd_clamp tp) then unat (snd_cwnd tp) + 1
      else unat (snd_cwnd tp))"
  by (simp add: bump_cwnd_def word_less_nat_alt unat_less_succ32)

end
