(* ===== verification/Linux_Shim.thy ===== *)
theory Linux_Shim
  imports Tcp_Types
begin

text \<open>
  \<^verbatim>\<open>tcp/linux/ns-linux-c.c\<close>: the substitutes for the kernel services the congestion modules
  call.  Bit scanning (\<^verbatim>\<open>fls\<close>, \<^verbatim>\<open>fls64\<close>), 64-bit division (\<^verbatim>\<open>do_div\<close>, \<^verbatim>\<open>div64_64\<close>),
  kernel time, and the registry of module parameters that \<^verbatim>\<open>module_param\<close> and
  \<^verbatim>\<open>MODULE_PARM_DESC\<close> fill in before \<^verbatim>\<open>main\<close> runs.
\<close>

section \<open>Find last bit set\<close>

text \<open>One of the five conditional shifts of \<^verbatim>\<open>fls\<close>, on the pair \<^verbatim>\<open>x, r\<close>.\<close>

definition fls_step :: "cint \<Rightarrow> nat \<Rightarrow> cint \<times> cint \<Rightarrow> cint \<times> cint" where
  "fls_step m k xr = (case xr of (x, r) \<Rightarrow>
     if x AND m = 0 then (push_bit k x, r - of_nat k) else (x, r))"

definition fls :: "cint \<Rightarrow> cint" where
  "fls x =
     (if x = 0 then 0
      else
        let xr = (x, 32);
            xr = fls_step 0xffff0000 16 xr;
            xr = fls_step 0xff000000 8 xr;
            xr = fls_step 0xf0000000 4 xr;
            xr = fls_step 0xc0000000 2 xr;
            xr = fls_step 0x80000000 1 xr
        in snd xr)"

definition fls64 :: "u64 \<Rightarrow> cint" where
  "fls64 x = (let h = drop_bit 32 x in if h \<noteq> 0 then fls (ucast h) + 32 else fls (ucast x))"

definition fls_inv :: "nat \<Rightarrow> nat \<Rightarrow> cint \<times> cint \<Rightarrow> bool" where
  "fls_inv X k xr \<longleftrightarrow> (case xr of (x, r) \<Rightarrow>
     unat r \<le> 32 \<and> unat x = X * 2 ^ (32 - unat r) \<and> 2 ^ (32 - k) \<le> unat x)"

lemma fls_step_inv:
  assumes inv: "fls_inv X (2 * k) xr" and m: "m = NOT (mask (32 - k))" and k: "0 < k" "2 * k \<le> 32" and X: "0 < X"
  shows "fls_inv X k (fls_step m k xr)"
proof -
  obtain x r where xr: "xr = (x, r)" by force
  have i: "unat r \<le> 32" "unat x = X * 2 ^ (32 - unat r)" "2 ^ (32 - 2 * k) \<le> unat x"
    using inv by (simp_all add: fls_inv_def xr)
  show ?thesis
  proof (cases "unat x < 2 ^ (32 - k)")
    case False
    with i show ?thesis by (simp add: fls_step_def xr and_high_mask_eq_0_iff [OF m] fls_inv_def)
  next
    case True
    have "(2::nat) ^ (32 - unat r) < 2 ^ (32 - k)"
      using True i(2) X by (metis Suc_leI le_less_trans mult.commute mult_le_mono2 nat_mult_1_right One_nat_def)
    then have rk: "k < unat r" using k by (simp add: power_strict_increasing_iff)
    have kk: "unat (of_nat k :: cint) = k" using k by (simp add: unat_of_nat)
    have r': "unat (r - of_nat k) = unat r - k"
      using rk kk by (simp add: unat_sub word_le_nat_alt)
    have "unat x * 2 ^ k < 2 ^ (32 - k) * 2 ^ k" using True by simp
    also have "\<dots> = (2::nat) ^ 32" using k by (simp flip: power_add)
    finally have ov: "unat x * 2 ^ k < 2 ^ 32" .
    then have x': "unat (push_bit k x) = unat x * 2 ^ k" by (simp add: unat_push_bit)
    have e: "32 - (unat r - k) = (32 - unat r) + k" using rk i(1) by simp
    have x'': "unat x * 2 ^ k = X * 2 ^ (32 - (unat r - k))"
      unfolding e i(2) by (simp add: power_add)
    have "2 ^ (32 - k) = (2::nat) ^ (32 - 2 * k) * 2 ^ k" using k by (simp flip: power_add)
    also have "\<dots> \<le> unat x * 2 ^ k" using i(3) by simp
    finally show ?thesis
      using True i(1) rk by (simp add: fls_step_def xr and_high_mask_eq_0_iff [OF m] fls_inv_def r' x' x'')
  qed
qed

lemma fls_bounds:
  assumes "x \<noteq> 0"
  shows "0 < unat (fls x)" "unat (fls x) \<le> 32" "2 ^ (unat (fls x) - 1) \<le> unat x" "unat x < 2 ^ unat (fls x)"
proof -
  define X where "X = unat x"
  have X: "0 < X" using assms by (simp add: X_def unat_gt_0)
  have "fls_inv X 32 (x, 32)" using X by (simp add: fls_inv_def X_def)
  then have "fls_inv X 16 (fls_step 0xffff0000 16 (x, 32))"
    by (intro fls_step_inv) (use X in \<open>simp_all add: mask_eq_exp_minus_1\<close>)
  then have "fls_inv X 8 (fls_step 0xff000000 8 (fls_step 0xffff0000 16 (x, 32)))"
    by (intro fls_step_inv) (use X in \<open>simp_all add: mask_eq_exp_minus_1\<close>)
  then have "fls_inv X 4 (fls_step 0xf0000000 4 (fls_step 0xff000000 8 (fls_step 0xffff0000 16 (x, 32))))"
    by (intro fls_step_inv) (use X in \<open>simp_all add: mask_eq_exp_minus_1\<close>)
  then have "fls_inv X 2 (fls_step 0xc0000000 2 (fls_step 0xf0000000 4 (fls_step 0xff000000 8 (fls_step 0xffff0000 16 (x, 32)))))"
    by (intro fls_step_inv) (use X in \<open>simp_all add: mask_eq_exp_minus_1\<close>)
  then have "fls_inv X 1 (fls_step 0x80000000 1 (fls_step 0xc0000000 2 (fls_step 0xf0000000 4 (fls_step 0xff000000 8 (fls_step 0xffff0000 16 (x, 32))))))"
    by (intro fls_step_inv) (use X in \<open>simp_all add: mask_eq_exp_minus_1\<close>)
  then obtain y where y: "fls_inv X 1 (y, fls x)"
    using assms by (auto simp: fls_def Let_def) (metis prod.collapse)
  define r where "r = unat (fls x)"
  have r: "r \<le> 32" "unat y = X * 2 ^ (32 - r)" "2 ^ 31 \<le> unat y"
    using y by (simp_all add: fls_inv_def r_def)
  have lt: "X * 2 ^ (32 - r) < 2 ^ r * 2 ^ (32 - r)"
    using r(1,2) unat_less [of y] by (simp flip: power_add)
  then have up: "X < 2 ^ r" by simp
  with X have r0: "0 < r" by (cases r) auto
  have "2 ^ (r - 1) * 2 ^ (32 - r) = (2::nat) ^ 31" using r(1) r0 by (simp flip: power_add)
  with r(2,3) have "2 ^ (r - 1) * 2 ^ (32 - r) \<le> X * 2 ^ (32 - r)" by simp
  then have lo: "2 ^ (r - 1) \<le> X" by simp
  show "0 < unat (fls x)" "unat (fls x) \<le> 32" "2 ^ (unat (fls x) - 1) \<le> unat x" "unat x < 2 ^ unat (fls x)"
    using r0 r(1) lo up by (simp_all add: r_def X_def)
qed
lemma fls_0 [simp]: "fls 0 = 0" by (simp add: fls_def)

lemma fls64_bounds:
  assumes "x \<noteq> 0"
  shows "0 < unat (fls64 x)" "unat (fls64 x) \<le> 64" "2 ^ (unat (fls64 x) - 1) \<le> unat x"
    "unat x < 2 ^ unat (fls64 x)"
proof -
  define h where "h = drop_bit 32 x"
  have uh: "unat h = unat x div 2 ^ 32" by (simp add: h_def unat_drop_bit_div)
  have hl: "unat h < 2 ^ 32" using unat64_less [of x] unfolding uh by simp
  have uch: "unat (ucast h :: cint) = unat h" using hl by (simp add: unat_ulong_uint)
  have "0 < unat (fls64 x) \<and> unat (fls64 x) \<le> 64 \<and> 2 ^ (unat (fls64 x) - 1) \<le> unat x
    \<and> unat x < 2 ^ unat (fls64 x)"
  proof (cases "h = 0")
    case True
    then have xl: "unat x < 2 ^ 32" using uh by (simp add: div_eq_0_iff)
    then have ux: "unat (ucast x :: cint) = unat x" by (simp add: unat_ulong_uint)
    have nz: "(ucast x :: cint) \<noteq> 0" using ux assms by (metis unat_eq_zero)
    have "fls64 x = fls (ucast x)" using True by (simp add: fls64_def h_def Let_def)
    then show ?thesis using fls_bounds [OF nz] ux by auto
  next
    case False
    then have nz: "(ucast h :: cint) \<noteq> 0" using uch by (metis unat_eq_zero)
    define r where "r = unat (fls (ucast h))"
    have b: "0 < r" "r \<le> 32" "2 ^ (r - 1) \<le> unat h" "unat h < 2 ^ r"
      using fls_bounds [OF nz] by (simp_all add: uch r_def)
    have "fls64 x = fls (ucast h) + 32" using False by (simp add: fls64_def h_def Let_def)
    then have f: "unat (fls64 x) = r + 32" using b(2) by (simp add: unat_word_ariths r_def)
    have "r + 32 - 1 = (r - 1) + 32" using b(1) by simp
    then have "2 ^ (r + 32 - 1) = (2::nat) ^ (r - 1) * 2 ^ 32" by (simp only: power_add)
    also have "\<dots> \<le> unat h * 2 ^ 32" using b(3) by (rule mult_le_mono1)
    also have "\<dots> \<le> unat x" unfolding uh by simp
    finally have lo: "2 ^ (r + 32 - 1) \<le> unat x" .
    have "unat x < (unat h + 1) * 2 ^ 32" unfolding uh
      by (rule less_Suc_div_mult) simp
    also have "\<dots> \<le> 2 ^ r * 2 ^ 32" using b(4) by (intro mult_le_mono1) simp
    finally have "unat x < 2 ^ (r + 32)" by (simp add: power_add)
    with lo f b show ?thesis by simp
  qed
  then show "0 < unat (fls64 x)" "unat (fls64 x) \<le> 64" "2 ^ (unat (fls64 x) - 1) \<le> unat x"
    "unat x < 2 ^ unat (fls64 x)" by blast+
qed

section \<open>64-bit division\<close>

text \<open>
  \<^verbatim>\<open>do_div(n, base)\<close> leaves the quotient in \<^verbatim>\<open>n\<close> and returns the remainder; the base is
  converted to 32 bits first.
\<close>

definition do_div :: "u64 \<Rightarrow> 32 word \<Rightarrow> (u64 \<times> 32 word) option" where
  "do_div n base =
     (if base = 0 then None else Some (n div ucast base, ucast (n mod ucast base)))"

definition div64_64 :: "u64 \<Rightarrow> u64 \<Rightarrow> u64 option" where
  "div64_64 dividend divisor =
     (let high = (ucast (drop_bit 32 divisor) :: 32 word) in
      if high \<noteq> 0 then
        let shift = unat (fls high);
            d = (ucast (drop_bit shift divisor) :: 32 word)
        in map_option fst (do_div (drop_bit shift dividend) d)
      else map_option fst (do_div dividend (ucast divisor)))"

lemma scaled_quotient_lower:
  fixes n d :: nat
  assumes "0 < d div 2 ^ s"
  shows "n div d \<le> (n div 2 ^ s) div (d div 2 ^ s)"
proof -
  define q where "q = n div d"
  have "q * (d div 2 ^ s) * 2 ^ s \<le> q * d"
    by (simp add: mult.assoc)
  also have "\<dots> \<le> n" by (simp add: q_def)
  finally have "q * (d div 2 ^ s) \<le> n div 2 ^ s"
    by (metis div_le_mono nonzero_mult_div_cancel_right power_not_zero zero_neq_numeral)
  then show ?thesis using assms by (simp add: q_def less_eq_div_iff_mult_less_eq)
qed

lemma scaled_quotient_upper:
  fixes n d :: nat
  assumes D: "2 ^ 31 \<le> d div 2 ^ s" and n: "n < 2 ^ 64" and s: "0 < s"
  shows "(n div 2 ^ s) div (d div 2 ^ s) \<le> n div d + 2"
proof -
  define D where "D = d div 2 ^ s"
  define A where "A = n div 2 ^ s"
  define t where "t = n div d"
  have dpos: "0 < d" using D by (cases "d = 0") auto
  have "n < (t + 1) * d" unfolding t_def by (rule less_Suc_div_mult [OF dpos])
  moreover have "d < (D + 1) * 2 ^ s" unfolding D_def
    by (rule less_Suc_div_mult) simp
  ultimately have "n < (t + 1) * ((D + 1) * 2 ^ s)"
    by (meson le_less_trans less_imp_le_nat mult_le_mono2 less_le_trans)
  moreover have "A * 2 ^ s \<le> n" by (simp add: A_def)
  ultimately have "A * 2 ^ s < ((t + 1) * (D + 1)) * 2 ^ s" by (simp only: mult.assoc)
  then have A: "A < (t + 1) * (D + 1)" by (simp only: mult_less_cancel2)
  have "2 ^ 32 \<le> d"
  proof -
    have "(2::nat) ^ 32 = 2 ^ 31 * 2 ^ 1" by simp
    also have "\<dots> \<le> 2 ^ 31 * 2 ^ s" using s by (intro mult_le_mono2 power_increasing) auto
    also have "\<dots> \<le> D * 2 ^ s" using D by (intro mult_le_mono1) (simp add: D_def)
    also have "\<dots> \<le> d" by (simp add: D_def)
    finally show ?thesis .
  qed
  then have "t * 2 ^ 32 \<le> n" by (metis t_def div_times_less_eq_dividend le_trans mult_le_mono2)
  with n have "t * 2 ^ 32 < 2 ^ 32 * 2 ^ 32" by simp
  then have t: "t + 1 \<le> 2 ^ 32" by simp
  have "A < (t + 1) * D + (t + 1)" using A by simp
  also have "\<dots> \<le> (t + 1) * D + 2 * D" using t D by (simp add: D_def)
  also have "\<dots> = (t + 3) * D" by (simp add: algebra_simps)
  finally have "A div D < t + 3" by (simp add: less_mult_imp_div_less)
  then show ?thesis by (simp add: A_def D_def t_def)
qed

lemma div64_64_spec:
  assumes "d \<noteq> 0"
  shows "\<exists>q. div64_64 n d = Some q \<and> unat n div unat d \<le> unat q \<and> unat q \<le> unat n div unat d + 2
    \<and> (unat d < 2 ^ 32 \<longrightarrow> unat q = unat n div unat d)"
proof (cases "unat d < 2 ^ 32")
  case True
  have c: "unat (ucast d :: 32 word) = unat d" using True by (simp add: unat_ulong_uint)
  then have "(ucast d :: 32 word) \<noteq> 0" using assms by (metis unat_eq_zero)
  moreover have "unat (drop_bit 32 d) = 0" using True by (simp add: unat_drop_bit_div div_eq_0_iff)
  ultimately have "div64_64 n d = Some (n div ucast (ucast d :: 32 word))"
    by (simp add: div64_64_def do_div_def unat_eq_zero)
  then show ?thesis using c by (simp add: unat_div_distrib)
next
  case False
  define h where "h = drop_bit 32 d"
  have uh: "unat h = unat d div 2 ^ 32" by (simp add: h_def unat_drop_bit_div)
  have hl: "unat h < 2 ^ 32" using unat64_less [of d] unfolding uh by simp
  have uch: "unat (ucast h :: cint) = unat h" using hl by (simp add: unat_ulong_uint)
  have "unat h \<noteq> 0" unfolding uh using False by (simp add: div_eq_0_iff)
  then have nz: "(ucast h :: cint) \<noteq> 0" using uch by (metis unat_eq_zero)
  define s where "s = unat (fls (ucast h))"
  have b: "0 < s" "s \<le> 32" "2 ^ (s - 1) \<le> unat h" "unat h < 2 ^ s"
    using fls_bounds [OF nz] by (simp_all add: uch s_def)
  have "31 + s = (s - 1) + 32" using b(1) by simp
  then have "2 ^ 31 * 2 ^ s = (2::nat) ^ (s - 1) * 2 ^ 32" by (metis power_add)
  also have "\<dots> \<le> unat h * 2 ^ 32" using b(3) by (rule mult_le_mono1)
  also have "\<dots> \<le> unat d" unfolding uh by simp
  finally have D: "2 ^ 31 \<le> unat d div 2 ^ s" by (simp add: less_eq_div_iff_mult_less_eq)
  have "unat d < (unat h + 1) * 2 ^ 32" unfolding uh
    by (rule less_Suc_div_mult) simp
  also have "\<dots> \<le> 2 ^ s * 2 ^ 32" using b(4) by (intro mult_le_mono1) simp
  finally have "unat d div 2 ^ s < 2 ^ 32" by (simp add: less_mult_imp_div_less mult.commute)
  then have u: "unat (ucast (drop_bit s d) :: 32 word) = unat d div 2 ^ s"
    by (simp add: unat_ulong_uint unat_drop_bit_div)
  then have "(ucast (drop_bit s d) :: 32 word) \<noteq> 0" using D by (auto simp flip: unat_eq_zero)
  then have e: "div64_64 n d = Some (drop_bit s n div ucast (ucast (drop_bit s d) :: 32 word))"
    using nz by (simp add: div64_64_def do_div_def Let_def h_def s_def)
  have "unat (drop_bit s n div ucast (ucast (drop_bit s d) :: 32 word)) = (unat n div 2 ^ s) div (unat d div 2 ^ s)"
    by (simp only: unat_div_distrib unat_uint_ulong u unat_drop_bit_div)
  with e show ?thesis
    using scaled_quotient_lower [of "unat d" s "unat n"] scaled_quotient_upper [OF D _ b(1), of "unat n"]
      unat_less [of n] D False by simp
qed

lemma div64_64_eq_None_iff: "div64_64 n d = None \<longleftrightarrow> d = 0"
proof
  assume "div64_64 n d = None" then show "d = 0" using div64_64_spec [of d n] by auto
qed (simp add: div64_64_def do_div_def)

section \<open>Kernel time\<close>

definition net_invalid_timestamp :: s64 where
  "net_invalid_timestamp = 0"

definition ktime_equal :: "s64 \<Rightarrow> s64 \<Rightarrow> bool" where
  "ktime_equal cmp1 cmp2 \<longleftrightarrow> cmp1 = cmp2"

definition ktime_to_us :: "s64 \<Rightarrow> s64" where
  "ktime_to_us kt = word_of_int (sint kt sdiv 1000)"

lemma unat_ktime_to_us:
  assumes "0 \<le> sint d"
  shows "unat (ktime_to_us d) = unat d div 1000"
proof -
  have u: "sint d = int (unat d)" by (rule int_unat_sint [OF assms, symmetric])
  have "sint d sdiv 1000 = sint d div 1000" by (rule sdiv_nonneg [OF assms]) simp
  also have "\<dots> = int (unat d div 1000)" by (simp add: u zdiv_int)
  finally have "sint d sdiv 1000 = int (unat d div 1000)" .
  then have "ktime_to_us d = of_nat (unat d div 1000)" by (simp add: ktime_to_us_def)
  moreover have "unat d div 1000 < 2 ^ 64"
    using unat64_less [of d] div_le_dividend [of "unat d" 1000] by simp
  ultimately show ?thesis by (simp add: unat_of_nat take_bit_nat_eq_self)
qed

definition net_timedelta :: "env \<Rightarrow> s64 \<Rightarrow> s64" where
  "net_timedelta e t = ktime_get_real e - t"

section \<open>The parameter registry\<close>

text \<open>
  The list \<^verbatim>\<open>cc_list_head\<close> of protocols, each with the list of its parameters.  Pointers into
  the lists are positions; a name that was never recorded is a null pointer (\<^term>\<open>None\<close>).
\<close>

record cc_param_list =
  pl_name :: string
  pl_type :: "string option"
  pl_description :: "string option"
  pl_ptr :: "nat option"

record cc_list =
  cl_proto :: string
  cl_param_head :: "cc_param_list list"

text \<open>The search loops \<^verbatim>\<open>while (p!=NULL && strcmp(...)!=0) p=p->next\<close>.\<close>

fun find_pos :: "('a \<Rightarrow> bool) \<Rightarrow> 'a list \<Rightarrow> nat option" where
  "find_pos P [] = None"
| "find_pos P (x # xs) = (if P x then Some 0 else map_option Suc (find_pos P xs))"

definition find_cc_by_proto :: "cc_list list \<Rightarrow> string \<Rightarrow> cc_list list \<times> nat" where
  "find_cc_by_proto cs proto =
     (case find_pos (\<lambda>p. cl_proto p = proto) cs of
        Some i \<Rightarrow> (cs, i)
      | None \<Rightarrow> (\<lparr>cl_proto = proto, cl_param_head = []\<rparr> # cs, 0))"

definition find_param_by_proto_name ::
    "cc_list list \<Rightarrow> string \<Rightarrow> string \<Rightarrow> cc_list list \<times> nat \<times> nat" where
  "find_param_by_proto_name cs proto name =
     (let (cs, i) = find_cc_by_proto cs proto; p = cs ! i in
      case find_pos (\<lambda>q. pl_name q = name) (cl_param_head p) of
        Some j \<Rightarrow> (cs, i, j)
      | None \<Rightarrow>
          let q = \<lparr>pl_name = name, pl_type = None, pl_description = None, pl_ptr = None\<rparr>
          in (cs[i := p\<lparr>cl_param_head := q # cl_param_head p\<rparr>], i, 0))"

definition update_param ::
    "cc_list list \<times> nat \<times> nat \<Rightarrow> (cc_param_list \<Rightarrow> cc_param_list) \<Rightarrow> cc_list list" where
  "update_param r f =
     (case r of (cs, i, j) \<Rightarrow>
        let p = cs ! i; qs = cl_param_head p
        in cs[i := p\<lparr>cl_param_head := qs[j := f (qs ! j)]\<rparr>])"

definition record_linux_param ::
    "cc_list list \<Rightarrow> string \<Rightarrow> string \<Rightarrow> string \<Rightarrow> nat \<Rightarrow> cc_list list" where
  "record_linux_param cs proto name type ptr =
     update_param (find_param_by_proto_name cs proto name)
       (\<lambda>p. p\<lparr>pl_type := Some type, pl_ptr := Some ptr\<rparr>)"

definition record_linux_param_description ::
    "cc_list list \<Rightarrow> string \<Rightarrow> string \<Rightarrow> string \<Rightarrow> cc_list list" where
  "record_linux_param_description cs proto name exp =
     update_param (find_param_by_proto_name cs proto name)
       (\<lambda>p. p\<lparr>pl_description := Some exp\<rparr>)"

text \<open>What a reader of the registry finds for a protocol and a parameter name.\<close>

definition param_lookup :: "cc_list list \<Rightarrow> string \<Rightarrow> string \<Rightarrow> cc_param_list option" where
  "param_lookup cs proto name =
     Option.bind (find (\<lambda>p. cl_proto p = proto) cs)
       (\<lambda>p. find (\<lambda>q. pl_name q = name) (cl_param_head p))"

lemma find_pos_None_iff: "find_pos P xs = None \<longleftrightarrow> find P xs = None"
  by (induction xs) auto

lemma find_pos_SomeD: "find_pos P xs = Some i \<Longrightarrow> i < length xs \<and> P (xs ! i) \<and> find P xs = Some (xs ! i)"
  by (induction xs arbitrary: i) (auto split: if_splits)

lemma find_key_update:
  assumes "find_pos (\<lambda>x. key x = a) xs = Some i" and "key y = a"
  shows "find (\<lambda>x. key x = b) (xs[i := y]) = (if b = a then Some y else find (\<lambda>x. key x = b) xs)"
  using assms by (induction xs arbitrary: i) (auto split: if_splits)

definition blank_param :: "string \<Rightarrow> cc_param_list" where
  "blank_param name = \<lparr>pl_name = name, pl_type = None, pl_description = None, pl_ptr = None\<rparr>"

lemma find_cc_by_proto_cases:
  assumes "find_cc_by_proto cs proto = (cs', i)"
  shows "i < length cs'" "find_pos (\<lambda>p. cl_proto p = proto) cs' = Some i"
    "param_lookup cs' = param_lookup cs"
  using assms
  by (auto simp: find_cc_by_proto_def param_lookup_def fun_eq_iff find_pos_None_iff
      dest: find_pos_SomeD split: option.splits)

lemma update_param_lookup:
  assumes f: "\<And>q. pl_name (f q) = pl_name q"
  shows "param_lookup (update_param (find_param_by_proto_name cs proto name) f) proto' name' =
    (if proto' = proto \<and> name' = name
     then Some (f (case param_lookup cs proto name of Some q \<Rightarrow> q | None \<Rightarrow> blank_param name))
     else param_lookup cs proto' name')"
proof -
  obtain cs1 i where cc: "find_cc_by_proto cs proto = (cs1, i)" by force
  note c = find_cc_by_proto_cases [OF cc]
  define p where "p = cs1 ! i"
  have pl: "find (\<lambda>p. cl_proto p = proto) cs1 = Some p" "cl_proto p = proto"
    using find_pos_SomeD [OF c(2)] by (simp_all add: p_def)
  have upd: "param_lookup (cs1[i := p\<lparr>cl_param_head := qs\<rparr>]) proto' n =
      (if proto' = proto then find (\<lambda>q. pl_name q = n) qs else param_lookup cs1 proto' n)" for qs n
    using find_key_update [where key = cl_proto, OF c(2), of "p\<lparr>cl_param_head := qs\<rparr>" proto'] pl(2)
    by (simp add: param_lookup_def)
  have lk: "param_lookup cs1 proto n = find (\<lambda>q. pl_name q = n) (cl_param_head p)" for n
    by (simp add: param_lookup_def pl)
  show ?thesis
  proof (cases "find_pos (\<lambda>q. pl_name q = name) (cl_param_head p)")
    case None
    then have "find_param_by_proto_name cs proto name =
        (cs1[i := p\<lparr>cl_param_head := blank_param name # cl_param_head p\<rparr>], i, 0)"
      by (simp add: find_param_by_proto_name_def cc p_def blank_param_def Let_def)
    then have "update_param (find_param_by_proto_name cs proto name) f =
        cs1[i := p\<lparr>cl_param_head := f (blank_param name) # cl_param_head p\<rparr>]"
      using c(1) by (simp add: update_param_def Let_def)
    then show ?thesis
      using None f [of "blank_param name"]
      by (simp add: upd lk find_pos_None_iff c(3) [symmetric]) (simp add: blank_param_def)
  next
    case (Some j)
    note j = find_pos_SomeD [OF Some]
    have "find_param_by_proto_name cs proto name = (cs1, i, j)"
      using Some by (simp add: find_param_by_proto_name_def cc p_def Let_def)
    then have "update_param (find_param_by_proto_name cs proto name) f =
        cs1[i := p\<lparr>cl_param_head := (cl_param_head p)[j := f (cl_param_head p ! j)]\<rparr>]"
      by (simp add: update_param_def Let_def p_def)
    then show ?thesis
      using j f [of "cl_param_head p ! j"]
        find_key_update [where key = pl_name, OF Some, of "f (cl_param_head p ! j)" name']
      by (cases "name' = name") (simp_all add: upd lk c(3) [symmetric])
  qed
qed

lemma record_linux_param_lookup:
  "param_lookup (record_linux_param cs proto name ty ptr) proto' name' =
    (if proto' = proto \<and> name' = name
     then Some ((case param_lookup cs proto name of Some q \<Rightarrow> q | None \<Rightarrow> blank_param name)
       \<lparr>pl_type := Some ty, pl_ptr := Some ptr\<rparr>)
     else param_lookup cs proto' name')"
  unfolding record_linux_param_def by (rule update_param_lookup) simp

lemma record_linux_param_description_lookup:
  "param_lookup (record_linux_param_description cs proto name exp) proto' name' =
    (if proto' = proto \<and> name' = name
     then Some ((case param_lookup cs proto name of Some q \<Rightarrow> q | None \<Rightarrow> blank_param name)
       \<lparr>pl_description := Some exp\<rparr>)
     else param_lookup cs proto' name')"
  unfolding record_linux_param_description_def by (rule update_param_lookup) simp

section \<open>Properties\<close>

text \<open>
  C35: \<^verbatim>\<open>fls64\<close> is the position of the highest set bit, for every argument: \<open>2 ^ k\<close> fits under
  \<open>x\<close> exactly when \<open>k\<close> is below \<^verbatim>\<open>fls64(x)\<close>; \<^verbatim>\<open>fls64(0)\<close> is 0.
\<close>

theorem fls64_is_bit_length: "2 ^ k \<le> unat x \<longleftrightarrow> k < unat (fls64 x)"
proof (cases "x = 0")
  case False
  note b = fls64_bounds [OF False]
  show ?thesis
  proof
    assume "2 ^ k \<le> unat x"
    then have "(2::nat) ^ k < 2 ^ unat (fls64 x)" using b(4) by (rule le_less_trans)
    then show "k < unat (fls64 x)" by simp
  next
    assume "k < unat (fls64 x)"
    then have "(2::nat) ^ k \<le> 2 ^ (unat (fls64 x) - 1)" by (intro power_increasing) auto
    then show "2 ^ k \<le> unat x" using b(3) by (rule order_trans)
  qed
qed (simp add: fls64_def)

text \<open>
  C40: \<^verbatim>\<open>div64_64\<close>, which shifts both operands until the divisor has 32 bits, traps exactly on a
  zero divisor; otherwise its quotient is never below the true one and at most two above it,
  and it is exact for divisors of 32 bits.
\<close>

theorem div64_64_accuracy:
  "(div64_64 n d = None \<longleftrightarrow> d = 0) \<and>
   (d \<noteq> 0 \<longrightarrow> (\<exists>q. div64_64 n d = Some q \<and> unat n div unat d \<le> unat q
      \<and> unat q \<le> unat n div unat d + 2 \<and> (unat d < 2 ^ 32 \<longrightarrow> unat q = unat n div unat d)))"
  using div64_64_spec [of d n] div64_64_eq_None_iff [of n d] by blast

theorem div64_64_accuracy_witness:
  "\<exists>q. div64_64 1000000000000 5000000000 = Some q \<and> 200 \<le> unat q \<and> unat q \<le> 202"
  using div64_64_accuracy [of 1000000000000 5000000000] by simp

text \<open>
  The parameter registry is a map: after \<^verbatim>\<open>record_linux_param\<close> and
  \<^verbatim>\<open>record_linux_param_description\<close> for the same protocol and name, in this order, a reader
  finds the type, the address and the description just recorded, and every other protocol or
  parameter reads as before.
\<close>

theorem param_registry_is_map:
  "param_lookup (record_linux_param_description (record_linux_param cs proto name ty ptr) proto name exp)
      proto' name' =
    (if proto' = proto \<and> name' = name
     then Some \<lparr>pl_name = name, pl_type = Some ty, pl_description = Some exp, pl_ptr = Some ptr\<rparr>
     else param_lookup cs proto' name')"
proof -
  have "pl_name q = name" if "param_lookup cs proto name = Some q" for q
    using that by (auto simp: param_lookup_def bind_Some_iff find_Some_iff)
  then show ?thesis
    by (auto simp: record_linux_param_lookup record_linux_param_description_lookup blank_param_def
        split: option.splits intro: cc_param_list.equality)
qed

end
