(* ===== verification/Cong_List.thy ===== *)
theory Cong_List
  imports Linux_Shim
begin

text \<open>
  The registry of congestion control algorithms, \<^verbatim>\<open>tcp/linux/src/tcp_cong.c\<close> lines 1--276,
  over the circular doubly linked list \<^verbatim>\<open>ns_tcp_cong_list\<close> and its macros in
  \<^verbatim>\<open>ns-linux-util.h\<close>.  The links are modelled as the two pointer fields of every node, so
  that the pointer assignments of the macros are the ones of the code; the predicate
  \<open>cong_list\<close> says which sequence of algorithms the links represent.
\<close>

section \<open>Nodes and links\<close>

text \<open>
  \<^verbatim>\<open>list\<close> is the first member of \<^verbatim>\<open>struct tcp_congestion_ops\<close>, so a pointer to the links of
  an algorithm is a pointer to the algorithm.  A pointer is null, the address of the list head
  \<^verbatim>\<open>ns_tcp_cong_list\<close>, of \<^verbatim>\<open>tcp_init_congestion_ops\<close>, or of the static structure of the
  \<open>k\<close>-th algorithm.
\<close>

datatype ptr = Null | Head | InitOps | Ops nat

text \<open>Function pointers are the names of the C functions; \<^term>\<open>None\<close> is a null pointer.\<close>

record tcp_congestion_ops =
  co_flags :: u64
  co_init :: "string option"
  co_release :: "string option"
  co_ssthresh :: "string option"
  co_min_cwnd :: "string option"
  co_cong_avoid :: "string option"
  co_rtt_sample :: "string option"
  co_set_state :: "string option"
  co_cwnd_event :: "string option"
  co_undo_cwnd :: "string option"
  co_pkts_acked :: "string option"
  co_get_info :: "string option"
  co_name :: string

definition empty_ops :: tcp_congestion_ops where
  "empty_ops = \<lparr>co_flags = 0, co_init = None, co_release = None, co_ssthresh = None,
     co_min_cwnd = None, co_cong_avoid = None, co_rtt_sample = None, co_set_state = None,
     co_cwnd_event = None, co_undo_cwnd = None, co_pkts_acked = None, co_get_info = None,
     co_name = ''''\<rparr>"

definition TCP_CONG_NON_RESTRICTED :: u64 where "TCP_CONG_NON_RESTRICTED = 1"
definition TCP_CONG_RTT_STAMP :: u64 where "TCP_CONG_RTT_STAMP = 2"

record cong_state =
  lh_next :: "ptr \<Rightarrow> ptr"
  lh_prev :: "ptr \<Rightarrow> ptr"
  last_added :: ptr
  cc_list_changed :: bool
  ops_at :: "ptr \<Rightarrow> tcp_congestion_ops"

text \<open>The initial state: an empty circle, the static structures zeroed but for their fields.\<close>

definition init_cong_state :: "(ptr \<Rightarrow> tcp_congestion_ops) \<Rightarrow> cong_state" where
  "init_cong_state ops =
     \<lparr>lh_next = (\<lambda>_. Null)(Head := Head), lh_prev = (\<lambda>_. Null)(Head := Head),
      last_added = Head, cc_list_changed = False, ops_at = ops\<rparr>"

text \<open>Assignments through a pointer; through a null pointer the program crashes.\<close>

definition set_next :: "ptr \<Rightarrow> ptr \<Rightarrow> cong_state \<Rightarrow> cong_state option" where
  "set_next p q s = (if p = Null then None else Some (s\<lparr>lh_next := (lh_next s)(p := q)\<rparr>))"

definition set_prev :: "ptr \<Rightarrow> ptr \<Rightarrow> cong_state \<Rightarrow> cong_state option" where
  "set_prev p q s = (if p = Null then None else Some (s\<lparr>lh_prev := (lh_prev s)(p := q)\<rparr>))"

definition list_add_rcu :: "ptr \<Rightarrow> cong_state \<Rightarrow> cong_state option" where
  "list_add_rcu a s = do {
     s \<leftarrow> set_next a (lh_next s Head) s;
     s \<leftarrow> set_prev a Head s;
     s \<leftarrow> set_prev (lh_next s Head) a s;
     s \<leftarrow> set_next Head a s;
     Some (s\<lparr>last_added := a, cc_list_changed := True\<rparr>)
   }"

definition list_add_tail_rcu :: "ptr \<Rightarrow> cong_state \<Rightarrow> cong_state option" where
  "list_add_tail_rcu a s = do {
     s \<leftarrow> set_prev a (lh_prev s Head) s;
     s \<leftarrow> set_next a Head s;
     s \<leftarrow> set_next (lh_prev s Head) a s;
     s \<leftarrow> set_prev Head a s;
     Some (s\<lparr>last_added := a, cc_list_changed := True\<rparr>)
   }"

definition list_del_rcu :: "ptr \<Rightarrow> cong_state \<Rightarrow> cong_state option" where
  "list_del_rcu a s = do {
     s \<leftarrow> set_next (lh_prev s a) (lh_next s a) s;
     s \<leftarrow> set_prev (lh_next s a) (lh_prev s a) s;
     Some (s\<lparr>cc_list_changed := True\<rparr>)
   }"

definition list_move :: "ptr \<Rightarrow> cong_state \<Rightarrow> cong_state option" where
  "list_move a s = do { s \<leftarrow> list_del_rcu a s; list_add_rcu a s }"

text \<open>
  The elements \<^verbatim>\<open>list_for_each_entry_rcu\<close> visits from a node on; a null link crashes, a chain
  that never comes back to the head is walked for ever.
\<close>

partial_function (option) entries_from :: "cong_state \<Rightarrow> ptr \<Rightarrow> ptr list option" where
  "entries_from s p =
     (if p = Head then Some []
      else if p = Null then None
      else Option.bind (entries_from s (lh_next s p)) (\<lambda>ps. Some (p # ps)))"

definition list_entries :: "cong_state \<Rightarrow> ptr list option" where
  "list_entries s = entries_from s (lh_next s Head)"

section \<open>Operations\<close>

text \<open>\<^verbatim>\<open>tcp_ca_find\<close>: the loop returns from inside, so it does not need the rest of the list.\<close>

partial_function (option) tcp_ca_find_from :: "cong_state \<Rightarrow> string \<Rightarrow> ptr \<Rightarrow> ptr option" where
  "tcp_ca_find_from s name e =
     (if e = Head then Some Null
      else if e = Null then None
      else if co_name (ops_at s e) = name then Some e
      else tcp_ca_find_from s name (lh_next s e))"

definition tcp_ca_find :: "cong_state \<Rightarrow> string \<Rightarrow> ptr option" where
  "tcp_ca_find s name = tcp_ca_find_from s name (lh_next s Head)"

definition EINVAL :: int where "EINVAL = 1"
definition EEXIST :: int where "EEXIST = 2"
definition ENOENT :: int where "ENOENT = 3"
definition EBUSY :: int where "EBUSY = 4"
definition ENOMEM :: int where "ENOMEM = 5"
definition EPERM :: int where "EPERM = 6"

lemmas errno_defs = EINVAL_def EEXIST_def ENOENT_def EBUSY_def ENOMEM_def EPERM_def

definition tcp_register_congestion_control :: "ptr \<Rightarrow> cong_state \<Rightarrow> (int \<times> cong_state) option" where
  "tcp_register_congestion_control ca s =
     (if co_ssthresh (ops_at s ca) = None \<or> co_cong_avoid (ops_at s ca) = None
      then Some (- EINVAL, s)
      else do {
        e \<leftarrow> tcp_ca_find s (co_name (ops_at s ca));
        if e \<noteq> Null then Some (- EEXIST, s)
        else do { s \<leftarrow> list_add_tail_rcu ca s; Some (0, s) }
      })"

definition tcp_unregister_congestion_control :: "ptr \<Rightarrow> cong_state \<Rightarrow> cong_state option" where
  "tcp_unregister_congestion_control ca s = list_del_rcu ca s"

definition set_flags :: "ptr \<Rightarrow> u64 \<Rightarrow> cong_state \<Rightarrow> cong_state" where
  "set_flags e f s = s\<lparr>ops_at := (ops_at s)(e := (ops_at s e)\<lparr>co_flags := f\<rparr>)\<rparr>"

definition tcp_set_default_congestion_control :: "string \<Rightarrow> cong_state \<Rightarrow> (int \<times> cong_state) option" where
  "tcp_set_default_congestion_control name s = do {
     ca \<leftarrow> tcp_ca_find s name;
     if ca \<noteq> Null then do {
       let s = set_flags ca (co_flags (ops_at s ca) OR TCP_CONG_NON_RESTRICTED) s;
       s \<leftarrow> list_move ca s;
       Some (0, s)
     } else Some (- ENOENT, s)
   }"

text \<open>\<^verbatim>\<open>try_module_get(x)\<close> is the constant 0 and \<^verbatim>\<open>capable(x)\<close> the constant 1 here.\<close>

definition try_module_get :: "ptr \<Rightarrow> bool" where
  "try_module_get ca = False"

definition capable :: bool where
  "capable = True"

text \<open>The first algorithm whose module can be pinned, for \<^verbatim>\<open>tcp_init_congestion_control\<close>.\<close>

partial_function (option) first_pinned :: "cong_state \<Rightarrow> ptr \<Rightarrow> ptr option" where
  "first_pinned s ca =
     (if ca = Head then Some Null
      else if ca = Null then None
      else if try_module_get ca then Some ca
      else first_pinned s (lh_next s ca))"

text \<open>
  The socket's part of these operations is its \<^verbatim>\<open>icsk_ca_ops\<close> pointer; what they call through
  it is a list of function names.
\<close>

definition tcp_init_congestion_control :: "ptr \<Rightarrow> cong_state \<Rightarrow> (ptr \<times> string list) option" where
  "tcp_init_congestion_control ca_ops s = do {
     ca_ops \<leftarrow> (if ca_ops = InitOps then do {
                   ca \<leftarrow> first_pinned s (lh_next s Head);
                   Some (if ca = Null then ca_ops else ca)
                 } else Some ca_ops);
     if ca_ops = Null then None
     else Some (ca_ops, case co_init (ops_at s ca_ops) of None \<Rightarrow> [] | Some f \<Rightarrow> [f])
   }"

definition tcp_cleanup_congestion_control :: "ptr \<Rightarrow> cong_state \<Rightarrow> string list option" where
  "tcp_cleanup_congestion_control ca_ops s =
     (if ca_ops = Null then None
      else Some (case co_release (ops_at s ca_ops) of None \<Rightarrow> [] | Some f \<Rightarrow> [f]))"

definition tcp_set_congestion_control ::
    "ptr \<Rightarrow> bool \<Rightarrow> string \<Rightarrow> cong_state \<Rightarrow> (int \<times> ptr \<times> string list) option" where
  "tcp_set_congestion_control ca_ops closed name s = do {
     ca \<leftarrow> tcp_ca_find s name;
     if ca = ca_ops then Some (0, ca_ops, [])
     else if ca = Null then Some (- ENOENT, ca_ops, [])
     else if \<not> (co_flags (ops_at s ca) AND TCP_CONG_NON_RESTRICTED \<noteq> 0 \<or> capable)
     then Some (- EPERM, ca_ops, [])
     else if \<not> try_module_get ca then Some (- EBUSY, ca_ops, [])
     else do {
       rel \<leftarrow> tcp_cleanup_congestion_control ca_ops s;
       Some (0, ca, rel @ (if closed then []
         else case co_init (ops_at s ca) of None \<Rightarrow> [] | Some f \<Rightarrow> [f]))
     }
   }"

section \<open>Which sequence the links represent\<close>

fun lseg :: "(ptr \<Rightarrow> ptr) \<Rightarrow> (ptr \<Rightarrow> ptr) \<Rightarrow> ptr \<Rightarrow> ptr list \<Rightarrow> ptr \<Rightarrow> bool" where
  "lseg nx pv p [] q \<longleftrightarrow> nx p = q \<and> pv q = p"
| "lseg nx pv p (x # xs) q \<longleftrightarrow> nx p = x \<and> pv x = p \<and> lseg nx pv x xs q"

definition cong_list :: "cong_state \<Rightarrow> nat list \<Rightarrow> bool" where
  "cong_list s xs \<longleftrightarrow> distinct xs \<and> lseg (lh_next s) (lh_prev s) Head (map Ops xs) Head"

lemma Ops_image [simp]:
  "Ops k \<in> Ops ` A \<longleftrightarrow> k \<in> A" "Head \<notin> Ops ` A" "Null \<notin> Ops ` A" "InitOps \<notin> Ops ` A"
  by auto

lemma lseg_append:
  "lseg nx pv p (xs @ x # ys) q \<longleftrightarrow> lseg nx pv p xs x \<and> lseg nx pv x ys q"
  by (induction xs arbitrary: p) auto

lemma lseg_upd_next [simp]:
  "r \<noteq> p \<Longrightarrow> r \<notin> set xs \<Longrightarrow> lseg (nx(r := v)) pv p xs q = lseg nx pv p xs q"
  by (induction xs arbitrary: p) auto

lemma lseg_upd_prev [simp]:
  "r \<noteq> q \<Longrightarrow> r \<notin> set xs \<Longrightarrow> lseg nx (pv(r := v)) p xs q = lseg nx pv p xs q"
  by (induction xs arbitrary: p) auto

lemma lseg_first: "lseg nx pv p xs q \<Longrightarrow> nx p = (case xs of [] \<Rightarrow> q | x # _ \<Rightarrow> x)"
  by (cases xs) auto

lemma lseg_last: "lseg nx pv p xs q \<Longrightarrow> pv q = (if xs = [] then p else last xs)"
  by (induction xs arbitrary: p) auto

lemma list_add_tail_rcu_cong:
  assumes "cong_list s xs" and "k \<notin> set xs"
  shows "\<exists>s'. list_add_tail_rcu (Ops k) s = Some s' \<and> cong_list s' (xs @ [k]) \<and> ops_at s' = ops_at s
    \<and> last_added s' = Ops k \<and> cc_list_changed s'"
proof (cases xs rule: rev_cases)
  case Nil
  with assms show ?thesis
    by (auto simp: list_add_tail_rcu_def set_next_def set_prev_def cong_list_def)
next
  case (snoc ys y)
  have seg: "lseg (lh_next s) (lh_prev s) Head (map Ops ys) (Ops y)" "lh_prev s Head = Ops y" "k \<notin> set ys" "k \<noteq> y" "distinct ys" "y \<notin> set ys"
    using assms unfolding snoc cong_list_def by (simp_all add: lseg_append)
  then show ?thesis
    by (auto simp: snoc list_add_tail_rcu_def set_next_def set_prev_def cong_list_def lseg_append)
qed

lemma list_add_rcu_cong:
  assumes "cong_list s xs" and "k \<notin> set xs"
  shows "\<exists>s'. list_add_rcu (Ops k) s = Some s' \<and> cong_list s' (k # xs) \<and> ops_at s' = ops_at s
    \<and> last_added s' = Ops k \<and> cc_list_changed s'"
proof (cases xs)
  case Nil
  with assms show ?thesis
    by (auto simp: list_add_rcu_def set_next_def set_prev_def cong_list_def)
next
  case (Cons y ys)
  have seg: "lseg (lh_next s) (lh_prev s) (Ops y) (map Ops ys) Head" "lh_next s Head = Ops y" "k \<notin> set ys" "k \<noteq> y" "distinct ys" "y \<notin> set ys"
    using assms unfolding Cons cong_list_def by simp_all
  then show ?thesis
    by (auto simp: Cons list_add_rcu_def set_next_def set_prev_def cong_list_def)
qed

lemma list_del_rcu_cong:
  assumes "cong_list s xs" and "k \<in> set xs"
  shows "\<exists>s'. list_del_rcu (Ops k) s = Some s' \<and> cong_list s' (remove1 k xs) \<and> ops_at s' = ops_at s
    \<and> last_added s' = last_added s \<and> cc_list_changed s'"
proof -
  obtain ys zs where xs: "xs = ys @ k # zs" using assms(2) by (meson split_list)
  have d: "distinct ys" "distinct zs" "k \<notin> set ys" "k \<notin> set zs" "set ys \<inter> set zs = {}"
    using assms(1) unfolding xs cong_list_def by auto
  have seg: "lseg (lh_next s) (lh_prev s) Head (map Ops ys) (Ops k)" "lseg (lh_next s) (lh_prev s) (Ops k) (map Ops zs) Head"
    using assms(1) unfolding xs cong_list_def by (simp_all add: lseg_append)
  define p where "p = (if ys = [] then Head else Ops (last ys))"
  define n where "n = (case zs of [] \<Rightarrow> Head | z # _ \<Rightarrow> Ops z)"
  have p: "lh_prev s (Ops k) = p" using lseg_last [OF seg(1)] by (simp add: p_def last_map)
  have n: "lh_next s (Ops k) = n" using lseg_first [OF seg(2)] by (simp add: n_def split: list.splits)
  have nn: "p \<noteq> Null" "n \<noteq> Null" "p \<noteq> Ops k" "n \<noteq> Ops k"
    using d by (auto simp: p_def n_def split: list.splits if_splits dest: last_in_set)
  define s' where "s' = s\<lparr>lh_next := (lh_next s)(p := n), lh_prev := (lh_prev s)(n := p), cc_list_changed := True\<rparr>"
  have del: "list_del_rcu (Ops k) s = Some s'"
    using p n nn by (simp add: list_del_rcu_def set_next_def set_prev_def s'_def)
  have "lseg (lh_next s') (lh_prev s') Head (map Ops (ys @ zs)) Head"
  proof (cases ys rule: rev_cases)
    case Nil
    then show ?thesis using seg d nn by (cases zs) (auto simp: s'_def p_def n_def)
  next
    case (snoc us u)
    then show ?thesis using seg d nn by (cases zs) (auto simp: s'_def p_def n_def lseg_append)
  qed
  moreover have "remove1 k xs = ys @ zs" using d by (simp add: xs remove1_append)
  ultimately show ?thesis using d del by (simp add: cong_list_def s'_def)
qed

lemma entries_from_lseg:
  "lseg (lh_next s) (lh_prev s) p (map Ops xs) Head \<Longrightarrow> entries_from s (lh_next s p) = Some (map Ops xs)"
  by (induction xs arbitrary: p) (simp_all add: entries_from.simps)

lemma list_entries_cong: "cong_list s xs \<Longrightarrow> list_entries s = Some (map Ops xs)"
  by (simp add: cong_list_def list_entries_def entries_from_lseg)

lemma tcp_ca_find_from_lseg:
  "lseg (lh_next s) (lh_prev s) p (map Ops xs) Head \<Longrightarrow>
   tcp_ca_find_from s name (lh_next s p) =
     Some (case find (\<lambda>k. co_name (ops_at s (Ops k)) = name) xs of None \<Rightarrow> Null | Some k \<Rightarrow> Ops k)"
  by (induction xs arbitrary: p) (simp_all add: tcp_ca_find_from.simps)

lemma tcp_ca_find_cong:
  "cong_list s xs \<Longrightarrow> tcp_ca_find s name =
     Some (case find (\<lambda>k. co_name (ops_at s (Ops k)) = name) xs of None \<Rightarrow> Null | Some k \<Rightarrow> Ops k)"
  by (simp add: cong_list_def tcp_ca_find_def tcp_ca_find_from_lseg)

lemma first_pinned_lseg:
  "lseg (lh_next s) (lh_prev s) p (map Ops xs) Head \<Longrightarrow> first_pinned s (lh_next s p) = Some Null"
  by (induction xs arbitrary: p) (simp_all add: first_pinned.simps try_module_get_def)

end
