(* ===== verification/Registry.thy ===== *)
theory Registry
  imports Cong_List
begin

text \<open>
  The operations of \<^verbatim>\<open>tcp_cong.c\<close> that read the registry into strings or change the set of
  algorithms any user may choose, and the contract of the registry: what each operation does
  to the sequence of registered algorithms.
\<close>

section \<open>Strings out of the registry\<close>

text \<open>
  A caller's buffer is the list of its bytes.  A write that does not fit is outside the object,
  and undefined in C (\<^term>\<open>None\<close>).  \<^verbatim>\<open>snprintf\<close> writes at most \<open>size\<close> bytes, the last one a
  zero byte, nothing for size 0, and returns the length of the whole text.
\<close>

abbreviation NUL :: char where
  "NUL \<equiv> CHR 0x00"

definition write_at :: "string \<Rightarrow> nat \<Rightarrow> string \<Rightarrow> string option" where
  "write_at buf i cs =
     (if i + length cs \<le> length buf then Some (take i buf @ cs @ drop (i + length cs) buf)
      else None)"

definition snprintf :: "string \<Rightarrow> u64 \<Rightarrow> u64 \<Rightarrow> string \<Rightarrow> (string \<times> u64) option" where
  "snprintf buf offs sz out =
     (if sz = 0 then Some (buf, of_nat (length out))
      else do {
        buf \<leftarrow> write_at buf (unat offs) (take (unat sz - 1) out @ [NUL]);
        Some (buf, of_nat (length out))
      })"

text \<open>The loop shared by the two listings, over the names the loop prints.\<close>

fun append_names :: "u64 \<Rightarrow> string list \<Rightarrow> string \<Rightarrow> u64 \<Rightarrow> string option" where
  "append_names maxlen [] buf offs = Some buf"
| "append_names maxlen (n # ns) buf offs = do {
     (buf, len) \<leftarrow> snprintf buf offs (maxlen - offs) ((if offs = 0 then '''' else '' '') @ n);
     append_names maxlen ns buf (offs + len)
   }"

definition tcp_get_available_congestion_control :: "cong_state \<Rightarrow> string \<Rightarrow> u64 \<Rightarrow> string option" where
  "tcp_get_available_congestion_control s buf maxlen = do {
     es \<leftarrow> list_entries s;
     append_names maxlen (map (\<lambda>e. co_name (ops_at s e)) es) buf 0
   }"

definition tcp_get_allowed_congestion_control :: "cong_state \<Rightarrow> string \<Rightarrow> u64 \<Rightarrow> string option" where
  "tcp_get_allowed_congestion_control s buf maxlen = do {
     buf \<leftarrow> write_at buf 0 [NUL];
     es \<leftarrow> list_entries s;
     append_names maxlen
       (map (\<lambda>e. co_name (ops_at s e))
         (filter (\<lambda>e. co_flags (ops_at s e) AND TCP_CONG_NON_RESTRICTED \<noteq> 0) es)) buf 0
   }"

text \<open>
  \<^verbatim>\<open>strncpy\<close> copies at most 16 bytes and pads with zero bytes.  With an empty list the entry
  behind the head is the head itself, which is no algorithm.
\<close>

definition TCP_CA_NAME_MAX :: nat where "TCP_CA_NAME_MAX = 16"

definition tcp_get_default_congestion_control :: "cong_state \<Rightarrow> string \<Rightarrow> string option" where
  "tcp_get_default_congestion_control s name =
     (let ca = lh_next s Head in
      if ca = Head \<or> ca = Null then None
      else let cs = take TCP_CA_NAME_MAX (co_name (ops_at s ca)) in
        write_at name 0 (cs @ replicate (TCP_CA_NAME_MAX - length cs) NUL))"

section \<open>The allowed set\<close>

text \<open>
  The words \<^verbatim>\<open>while ((name = strsep(&val, " ")) && *name)\<close> takes from a string: it stops at
  the end and at the first empty word, so after two adjacent blanks it sees nothing more.
\<close>

function strsep_words :: "string option \<Rightarrow> string list" where
  "strsep_words None = []"
| "strsep_words (Some cs) =
     (let w = takeWhile (\<lambda>c. c \<noteq> CHR '' '') cs; r = dropWhile (\<lambda>c. c \<noteq> CHR '' '') cs in
      if w = [] then []
      else w # strsep_words (case r of [] \<Rightarrow> None | _ # r' \<Rightarrow> Some r'))"
  by pat_completeness auto
termination
proof (relation "measure (\<lambda>v. case v of None \<Rightarrow> 0 | Some cs \<Rightarrow> Suc (length cs))", simp, clarsimp)
  fix cs :: string
  show "(case case dropWhile (\<lambda>c. c \<noteq> CHR '' '') cs of [] \<Rightarrow> None | x # r' \<Rightarrow> Some r' of
      None \<Rightarrow> 0 | Some cs \<Rightarrow> Suc (length cs)) < Suc (length cs)"
    using length_dropWhile_le [of "\<lambda>c. c \<noteq> CHR '' ''" cs]
    by (auto split: list.splits)
qed

fun all_found :: "cong_state \<Rightarrow> string list \<Rightarrow> bool option" where
  "all_found s [] = Some True"
| "all_found s (w # ws) = do {
     ca \<leftarrow> tcp_ca_find s w;
     if ca = Null then Some False else all_found s ws
   }"

fun mark_allowed :: "string list \<Rightarrow> cong_state \<Rightarrow> cong_state option" where
  "mark_allowed [] s = Some s"
| "mark_allowed (w # ws) s = do {
     ca \<leftarrow> tcp_ca_find s w;
     mark_allowed ws
       (if ca \<noteq> Null then set_flags ca (co_flags (ops_at s ca) OR TCP_CONG_NON_RESTRICTED) s else s)
   }"

definition clear_allowed :: "ptr list \<Rightarrow> cong_state \<Rightarrow> cong_state" where
  "clear_allowed es s =
     fold (\<lambda>e s. set_flags e (co_flags (ops_at s e) AND NOT TCP_CONG_NON_RESTRICTED) s) es s"

definition tcp_set_allowed_congestion_control ::
    "bool \<Rightarrow> string \<Rightarrow> cong_state \<Rightarrow> (int \<times> cong_state) option" where
  "tcp_set_allowed_congestion_control alloc_ok val s =
     (if \<not> alloc_ok then Some (- ENOMEM, s)
      else do {
        ok \<leftarrow> all_found s (strsep_words (Some val));
        if \<not> ok then Some (- ENOENT, s)
        else do {
          es \<leftarrow> list_entries s;
          s \<leftarrow> mark_allowed (strsep_words (Some val)) (clear_allowed es s);
          Some (0, s)
        }
      })"

section \<open>What the listings write\<close>

text \<open>The text the loop prints, given what was printed before.\<close>

fun joined :: "string \<Rightarrow> string list \<Rightarrow> string" where
  "joined out [] = out"
| "joined out (n # ns) = joined (out @ (if out = [] then [] else '' '') @ n) ns"

lemma length_joined: "length out \<le> length (joined out ns)"
proof (induction ns arbitrary: out)
  case (Cons n ns)
  show ?case using Cons [of "out @ (if out = [] then [] else '' '') @ n"] by simp
qed simp

text \<open>The buffer holds the text \<open>out\<close>, cut to its size and terminated.\<close>

definition holds :: "string \<Rightarrow> string \<Rightarrow> bool" where
  "holds buf out \<longleftrightarrow>
     take (min (length out) (length buf - 1) + 1) buf = take (length buf - 1) out @ [NUL]"

lemma snprintf_beyond:
  assumes "length buf = unat maxlen" "unat offs = L" "unat maxlen < L"
    and "L + length piece < 2 ^ 63"
  shows "snprintf buf offs (maxlen - offs) piece = None"
proof -
  have "unat (maxlen - offs) = unat maxlen + 2 ^ 64 - L"
    using assms(2,3) by (simp add: unat_sub_if')
  then have sz: "length piece < unat (maxlen - offs)" and "maxlen - offs \<noteq> 0"
    using assms by (auto simp flip: unat_eq_zero)
  then show ?thesis using assms by (simp add: snprintf_def write_at_def)
qed

lemma snprintf_within:
  assumes len: "length buf = unat maxlen"
    and L: "unat offs = length out" "length out \<le> unat maxlen"
    and h: "out = [] \<or> holds buf out"
  shows "\<exists>b. snprintf buf offs (maxlen - offs) piece = Some (b, of_nat (length piece))
    \<and> length b = unat maxlen \<and> (0 < unat maxlen \<longrightarrow> holds b (out @ piece))"
proof -
  have u: "unat (maxlen - offs) = unat maxlen - length out"
    using L by (simp add: unat_sub word_le_nat_alt)
  show ?thesis
  proof (cases "length out = unat maxlen")
    case True
    then have "maxlen - offs = 0" using u by (simp flip: unat_eq_zero)
    then have "snprintf buf offs (maxlen - offs) piece = Some (buf, of_nat (length piece))"
      by (simp add: snprintf_def)
    moreover have "holds buf (out @ piece)" if "0 < unat maxlen"
    proof -
      have "out \<noteq> []" using that True by auto
      then have "holds buf out" using h by blast
      moreover have "min (length (out @ piece)) (length buf - 1) = min (length out) (length buf - 1)"
        using True len by simp
      moreover have "take (length buf - 1) (out @ piece) = take (length buf - 1) out"
        using True len by simp
      ultimately show ?thesis by (simp only: holds_def)
    qed
    ultimately show ?thesis using len by (intro exI [of _ buf] conjI impI)
  next
    case False
    then have lt: "length out < length buf" using L len by simp
    have "unat (maxlen - offs) \<noteq> 0" using u lt len by simp
    then have nz: "maxlen - offs \<noteq> 0" by (simp only: unat_eq_zero not_False_eq_True)
    define w where "w = take (length buf - length out - 1) piece @ [NUL]"
    define b where "b = take (length out) buf @ w @ drop (length out + length w) buf"
    have w: "length out + length w \<le> length buf" using lt by (simp add: w_def)
    have "snprintf buf offs (maxlen - offs) piece = Some (b, of_nat (length piece))"
      using nz u len L w by (simp add: snprintf_def write_at_def b_def w_def)
    moreover have lb: "length b = length buf" using w by (simp add: b_def)
    moreover have out: "take (length out) buf = out"
    proof (cases "out = []")
      case ne: False
      then have "take (length out + 1) buf = out @ [NUL]"
        using h lt by (simp add: holds_def min_def split: if_splits)
      then have "take (length out) (take (length out + 1) buf) = out" by simp
      then show ?thesis by (simp add: min_def)
    qed simp
    moreover have "holds b (out @ piece)"
    proof -
      have "take (length buf - 1) (out @ piece) @ [NUL] = out @ w"
        using lt by (simp add: w_def)
      moreover have "min (length (out @ piece)) (length buf - 1) + 1 = length (out @ w)"
        using lt by (simp add: w_def)
      moreover have "take (length (out @ w)) b = out @ w" by (simp add: b_def out)
      ultimately show ?thesis by (simp only: holds_def lb)
    qed
    ultimately show ?thesis using len by auto
  qed
qed

lemma append_names_spec:
  assumes "length buf = unat maxlen" and "unat offs = length out" and "0 < unat maxlen"
    and "length (joined out ns) < 2 ^ 63" and "out = [] \<or> holds buf out"
  shows "(append_names maxlen ns buf offs = None \<longleftrightarrow>
      ns \<noteq> [] \<and> unat maxlen < length (joined out (butlast ns)))
    \<and> (\<forall>b. append_names maxlen ns buf offs = Some b \<longrightarrow>
      length b = unat maxlen \<and> (ns \<noteq> [] \<or> holds buf out \<longrightarrow> holds b (joined out ns)))"
  using assms
proof (induction ns arbitrary: buf offs out)
  case Nil
  then show ?case by simp
next
  case (Cons n ns)
  define piece where "piece = (if out = [] then [] else '' '') @ n"
  have piece: "(if offs = 0 then [] else '' '') @ n = piece"
    using Cons.prems(2) by (auto simp: piece_def simp flip: unat_eq_zero)
  have j: "joined out (n # ns) = joined (out @ piece) ns" by (simp add: piece_def)
  have l: "length out + length piece < 2 ^ 63"
    using length_joined [of "out @ piece" ns] Cons.prems(4) unfolding j by simp
  show ?case
  proof (cases "length out \<le> unat maxlen")
    case False
    then have "append_names maxlen (n # ns) buf offs = None"
      using snprintf_beyond [OF Cons.prems(1,2) _ l] piece by simp
    moreover have "length out \<le> length (joined out (butlast (n # ns)))" by (rule length_joined)
    ultimately show ?thesis using False by simp
  next
    case True
    obtain b where b: "snprintf buf offs (maxlen - offs) piece = Some (b, of_nat (length piece))"
      "length b = unat maxlen" "holds b (out @ piece)"
      using snprintf_within [OF Cons.prems(1,2) True Cons.prems(5)] Cons.prems(3) by blast
    have o: "unat (offs + of_nat (length piece)) = length (out @ piece)"
      using l Cons.prems(2) by (simp add: unat_word_ariths unat_of_nat)
    have "append_names maxlen (n # ns) buf offs = append_names maxlen ns b (offs + of_nat (length piece))"
      using b(1) piece by simp
    moreover have "joined out (butlast (n # ns)) =
        (if ns = [] then out else joined (out @ piece) (butlast ns))"
      by (simp add: piece_def)
    moreover note IH = Cons.IH [OF b(2) o Cons.prems(3) Cons.prems(4) [unfolded j] disjI2 [OF b(3)]]
    ultimately show ?thesis
      unfolding j using True b(3) by (cases "ns = []") (simp_all del: joined.simps append_names.simps)
  qed
qed

section \<open>The contract of the registry\<close>

abbreviation name_at :: "cong_state \<Rightarrow> nat \<Rightarrow> string" where
  "name_at s k \<equiv> co_name (ops_at s (Ops k))"

abbreviation complete_ops :: "cong_state \<Rightarrow> nat \<Rightarrow> bool" where
  "complete_ops s k \<equiv> co_ssthresh (ops_at s (Ops k)) \<noteq> None \<and> co_cong_avoid (ops_at s (Ops k)) \<noteq> None"

text \<open>
  The links represent \<open>xs\<close>, no two registered algorithms share a name, and each has the two
  required operations.
\<close>

definition registry :: "cong_state \<Rightarrow> nat list \<Rightarrow> bool" where
  "registry s xs \<longleftrightarrow>
     cong_list s xs \<and> distinct (map (name_at s) xs) \<and> (\<forall>k\<in>set xs. complete_ops s k)"

definition find_ops :: "cong_state \<Rightarrow> string \<Rightarrow> nat option option" where
  "find_ops s name =
     map_option (\<lambda>p. case p of Ops k \<Rightarrow> Some k | _ \<Rightarrow> None) (tcp_ca_find s name)"

lemma registry_init: "registry (init_cong_state ops) []"
  by (simp add: registry_def cong_list_def init_cong_state_def)

lemma registry_cong: "registry s xs \<Longrightarrow> cong_list s xs"
  by (simp add: registry_def)

lemma find_None_names: "find (\<lambda>k. f k = n) xs = None \<longleftrightarrow> n \<notin> f ` set xs"
  by (auto simp: find_None_iff)

lemma find_Some_names: "find (\<lambda>k. f k = n) xs = Some k \<Longrightarrow> k \<in> set xs \<and> f k = n"
  by (auto simp: find_Some_iff)

lemma find_distinct_names:
  "distinct (map f xs) \<Longrightarrow> k \<in> set xs \<Longrightarrow> find (\<lambda>j. f j = f k) xs = Some k"
  by (induction xs) auto

lemma tcp_ca_find_registry:
  assumes "registry s xs"
  shows "tcp_ca_find s name =
    Some (case find (\<lambda>k. name_at s k = name) xs of None \<Rightarrow> Null | Some k \<Rightarrow> Ops k)"
  using tcp_ca_find_cong [OF registry_cong [OF assms]] .

lemma find_ops_registry:
  "registry s xs \<Longrightarrow> find_ops s name = Some (find (\<lambda>k. name_at s k = name) xs)"
  by (simp add: find_ops_def tcp_ca_find_registry split: option.split)

lemma register_cases:
  assumes reg: "registry s xs"
  shows "\<not> complete_ops s k \<Longrightarrow> tcp_register_congestion_control (Ops k) s = Some (- EINVAL, s)"
    and "complete_ops s k \<Longrightarrow> name_at s k \<in> name_at s ` set xs \<Longrightarrow>
      tcp_register_congestion_control (Ops k) s = Some (- EEXIST, s)"
    and "complete_ops s k \<Longrightarrow> name_at s k \<notin> name_at s ` set xs \<Longrightarrow>
      \<exists>s'. tcp_register_congestion_control (Ops k) s = Some (0, s') \<and> registry s' (xs @ [k])
        \<and> ops_at s' = ops_at s"
proof -
  note f = tcp_ca_find_registry [OF reg, of "name_at s k"]
  show "\<not> complete_ops s k \<Longrightarrow> tcp_register_congestion_control (Ops k) s = Some (- EINVAL, s)"
    by (auto simp: tcp_register_congestion_control_def)
  show "complete_ops s k \<Longrightarrow> name_at s k \<in> name_at s ` set xs \<Longrightarrow>
      tcp_register_congestion_control (Ops k) s = Some (- EEXIST, s)"
    using find_None_names [of "name_at s" "name_at s k" xs]
    by (auto simp: tcp_register_congestion_control_def f split: option.splits)
  assume c: "complete_ops s k" and n: "name_at s k \<notin> name_at s ` set xs"
  have k: "k \<notin> set xs" using n by auto
  obtain s' where s': "list_add_tail_rcu (Ops k) s = Some s'" "cong_list s' (xs @ [k])"
    "ops_at s' = ops_at s"
    using list_add_tail_rcu_cong [OF registry_cong [OF reg] k] by blast
  have "tcp_register_congestion_control (Ops k) s = Some (0, s')"
    using n c find_None_names [of "name_at s" "name_at s k" xs] s'(1)
    by (auto simp: tcp_register_congestion_control_def f)
  moreover have "registry s' (xs @ [k])"
    using reg s'(2,3) n c by (auto simp: registry_def)
  ultimately show "\<exists>s'. tcp_register_congestion_control (Ops k) s = Some (0, s')
      \<and> registry s' (xs @ [k]) \<and> ops_at s' = ops_at s"
    using s'(3) by blast
qed

lemma unregister_registered:
  assumes reg: "registry s xs" and k: "k \<in> set xs"
  shows "\<exists>s'. tcp_unregister_congestion_control (Ops k) s = Some s' \<and> registry s' (remove1 k xs)
    \<and> ops_at s' = ops_at s"
proof -
  obtain s' where s': "list_del_rcu (Ops k) s = Some s'" "cong_list s' (remove1 k xs)"
    "ops_at s' = ops_at s"
    using list_del_rcu_cong [OF registry_cong [OF reg] k] by blast
  have "distinct (map (name_at s) (remove1 k xs))"
    using reg by (auto simp: registry_def distinct_map distinct_remove1 dest: notin_set_remove1
        intro: inj_on_subset set_remove1_subset)
  then show ?thesis
    using reg s' by (auto simp: tcp_unregister_congestion_control_def registry_def
        dest: in_set_remove1 [THEN iffD1, rotated] set_remove1_subset [THEN subsetD])
qed

lemma unregister_unlinked:
  "lh_prev s (Ops k) = Null \<Longrightarrow> tcp_unregister_congestion_control (Ops k) s = None"
  by (simp add: tcp_unregister_congestion_control_def list_del_rcu_def set_next_def)

text \<open>Flags are not links: changing them keeps the sequence.\<close>

lemma set_flags_simps [simp]:
  "lh_next (set_flags e f s) = lh_next s"
  "lh_prev (set_flags e f s) = lh_prev s"
  "co_name (ops_at (set_flags e f s) p) = co_name (ops_at s p)"
  "co_ssthresh (ops_at (set_flags e f s) p) = co_ssthresh (ops_at s p)"
  "co_cong_avoid (ops_at (set_flags e f s) p) = co_cong_avoid (ops_at s p)"
  "co_flags (ops_at (set_flags e f s) p) = (if p = e then f else co_flags (ops_at s p))"
  by (simp_all add: set_flags_def)

lemma registry_set_flags [simp]: "registry (set_flags e f s) xs = registry s xs"
  by (simp add: registry_def cong_list_def)

lemma set_default_cases:
  assumes reg: "registry s xs"
  shows "name \<notin> name_at s ` set xs \<Longrightarrow>
      tcp_set_default_congestion_control name s = Some (- ENOENT, s)"
    and "k \<in> set xs \<Longrightarrow>
      \<exists>s'. tcp_set_default_congestion_control (name_at s k) s = Some (0, s')
        \<and> registry s' (k # remove1 k xs)
        \<and> co_flags (ops_at s' (Ops k)) = co_flags (ops_at s (Ops k)) OR TCP_CONG_NON_RESTRICTED
        \<and> (\<forall>p. co_name (ops_at s' p) = co_name (ops_at s p))"
proof -
  note f = tcp_ca_find_registry [OF reg]
  show "name \<notin> name_at s ` set xs \<Longrightarrow>
      tcp_set_default_congestion_control name s = Some (- ENOENT, s)"
    using find_None_names [of "name_at s" name xs]
    by (auto simp: tcp_set_default_congestion_control_def f split: option.splits)
  assume k: "k \<in> set xs"
  have d: "distinct (map (name_at s) xs)" "distinct xs"
    using reg by (auto simp: registry_def cong_list_def)
  define t where "t = set_flags (Ops k) (co_flags (ops_at s (Ops k)) OR TCP_CONG_NON_RESTRICTED) s"
  have t: "registry t xs" using reg by (simp add: t_def)
  obtain t1 where t1: "list_del_rcu (Ops k) t = Some t1" "cong_list t1 (remove1 k xs)"
    "ops_at t1 = ops_at t"
    using list_del_rcu_cong [OF registry_cong [OF t] k] by blast
  have "k \<notin> set (remove1 k xs)" using d(2) by simp
  then obtain t2 where t2: "list_add_rcu (Ops k) t1 = Some t2" "cong_list t2 (k # remove1 k xs)"
    "ops_at t2 = ops_at t1"
    using list_add_rcu_cong [OF t1(2)] by blast
  have "registry t1 (remove1 k xs)"
    using unregister_registered [OF t k] t1(1) by (auto simp: tcp_unregister_congestion_control_def)
  moreover have "name_at t k \<notin> name_at t ` set (remove1 k xs)"
    using d k by (auto simp: t_def distinct_map inj_on_def)
  moreover have "complete_ops t k" using t k by (auto simp: registry_def)
  ultimately have "registry t2 (k # remove1 k xs)"
    using t2(2,3) t1(3) by (auto simp: registry_def)
  moreover have "tcp_set_default_congestion_control (name_at s k) s = Some (0, t2)"
    using t1(1) t2(1) find_distinct_names [OF d(1) k]
    by (simp add: tcp_set_default_congestion_control_def f list_move_def flip: t_def)
  moreover have "co_flags (ops_at t2 (Ops k)) = co_flags (ops_at s (Ops k)) OR TCP_CONG_NON_RESTRICTED"
    "\<forall>p. co_name (ops_at t2 p) = co_name (ops_at s p)"
    using t2(3) t1(3) by (simp_all add: t_def)
  ultimately show "\<exists>s'. tcp_set_default_congestion_control (name_at s k) s = Some (0, s')
        \<and> registry s' (k # remove1 k xs)
        \<and> co_flags (ops_at s' (Ops k)) = co_flags (ops_at s (Ops k)) OR TCP_CONG_NON_RESTRICTED
        \<and> (\<forall>p. co_name (ops_at s' p) = co_name (ops_at s p))"
    by blast
qed

section \<open>The allowed set on a registry\<close>

text \<open>What the marking passes do to the flags; they touch nothing else.\<close>

definition same_but_flags :: "cong_state \<Rightarrow> cong_state \<Rightarrow> bool" where
  "same_but_flags s t \<longleftrightarrow> lh_next t = lh_next s \<and> lh_prev t = lh_prev s \<and>
     (\<forall>p. (ops_at t p)\<lparr>co_flags := 0\<rparr> = (ops_at s p)\<lparr>co_flags := 0\<rparr>)"

lemma same_but_flags_refl [simp]: "same_but_flags s s"
  by (simp add: same_but_flags_def)

lemma same_but_flags_trans: "same_but_flags s t \<Longrightarrow> same_but_flags t u \<Longrightarrow> same_but_flags s u"
  by (simp add: same_but_flags_def)

lemma same_but_flags_set_flags:
  "same_but_flags s t \<Longrightarrow> same_but_flags s (set_flags e f t)"
  by (auto simp: same_but_flags_def set_flags_def)

lemma TCP_CONG_NON_RESTRICTED_neq_0: "TCP_CONG_NON_RESTRICTED \<noteq> 0"
  by (simp add: TCP_CONG_NON_RESTRICTED_def)

lemma flag_set: "(a OR n) AND n = n" for a n :: u64
  by (rule bit_word_eqI) (auto simp: bit_simps)

lemma flag_cleared: "(a AND NOT n) AND n = 0" for a n :: u64
  by (rule bit_word_eqI) (auto simp: bit_simps)

lemma same_but_flags_registry:
  assumes "same_but_flags s t"
  shows "registry t xs = registry s xs" and "co_name (ops_at t p) = co_name (ops_at s p)"
proof -
  have e: "co_name (ops_at t p) = co_name (ops_at s p)"
    "co_ssthresh (ops_at t p) = co_ssthresh (ops_at s p)"
    "co_cong_avoid (ops_at t p) = co_cong_avoid (ops_at s p)" for p
  proof -
    have "(ops_at t p)\<lparr>co_flags := 0\<rparr> = (ops_at s p)\<lparr>co_flags := 0\<rparr>"
      using assms by (simp add: same_but_flags_def)
    then show "co_name (ops_at t p) = co_name (ops_at s p)"
      "co_ssthresh (ops_at t p) = co_ssthresh (ops_at s p)"
      "co_cong_avoid (ops_at t p) = co_cong_avoid (ops_at s p)"
      by (metis tcp_congestion_ops.select_convs(4) tcp_congestion_ops.select_convs(6)
          tcp_congestion_ops.select_convs(13) tcp_congestion_ops.surjective
          tcp_congestion_ops.update_convs(1))+
  qed
  show "co_name (ops_at t p) = co_name (ops_at s p)" by (rule e)
  show "registry t xs = registry s xs"
    using assms by (simp add: registry_def cong_list_def e same_but_flags_def)
qed

lemma clear_allowed_flags:
  assumes "distinct es"
  shows "same_but_flags s (clear_allowed es s) \<and> (\<forall>p. co_flags (ops_at (clear_allowed es s) p) =
    (if p \<in> set es then co_flags (ops_at s p) AND NOT TCP_CONG_NON_RESTRICTED
     else co_flags (ops_at s p)))"
  using assms
proof (induction es rule: rev_induct)
  case Nil
  then show ?case by (simp add: clear_allowed_def)
next
  case (snoc e es)
  have c: "clear_allowed (es @ [e]) s = set_flags e
      (co_flags (ops_at (clear_allowed es s) e) AND NOT TCP_CONG_NON_RESTRICTED) (clear_allowed es s)"
    by (simp add: clear_allowed_def)
  show ?case unfolding c using snoc by (auto simp: same_but_flags_set_flags)
qed

declare strsep_words.simps [simp del]

lemma all_found_registry:
  "registry s xs \<Longrightarrow> all_found s ws = Some (set ws \<subseteq> name_at s ` set xs)"
proof (induction ws)
  case (Cons w ws)
  then show ?case
    using find_None_names [of "name_at s" w xs]
    by (auto simp: tcp_ca_find_registry split: option.splits)
qed simp

lemma mark_allowed_flags:
  assumes "registry s xs" and "set ws \<subseteq> name_at s ` set xs"
  shows "\<exists>t. mark_allowed ws s = Some t \<and> same_but_flags s t \<and> (\<forall>k\<in>set xs. co_flags (ops_at t (Ops k)) =
    (if name_at s k \<in> set ws then co_flags (ops_at s (Ops k)) OR TCP_CONG_NON_RESTRICTED
     else co_flags (ops_at s (Ops k))))"
  using assms
proof (induction ws arbitrary: s)
  case Nil
  then show ?case by simp
next
  case (Cons w ws)
  have d: "distinct (map (name_at s) xs)" using Cons.prems(1) by (simp add: registry_def)
  obtain j where j: "j \<in> set xs" "name_at s j = w" using Cons.prems(2) by auto
  define u where "u = set_flags (Ops j) (co_flags (ops_at s (Ops j)) OR TCP_CONG_NON_RESTRICTED) s"
  have u: "registry u xs" "co_name (ops_at u p) = co_name (ops_at s p)" "same_but_flags s u" for p
    using Cons.prems(1) same_but_flags_set_flags [of s s] by (simp_all add: u_def)
  have m: "mark_allowed (w # ws) s = mark_allowed ws u"
    using find_distinct_names [OF d j(1)] j(2)
    by (simp add: tcp_ca_find_registry [OF Cons.prems(1)] u_def)
  obtain t where t: "mark_allowed ws u = Some t" "same_but_flags u t"
    "\<forall>k\<in>set xs. co_flags (ops_at t (Ops k)) =
      (if name_at u k \<in> set ws then co_flags (ops_at u (Ops k)) OR TCP_CONG_NON_RESTRICTED
       else co_flags (ops_at u (Ops k)))"
    using Cons.IH [OF u(1)] Cons.prems(2) unfolding u(2) by auto
  have inj: "k = j" if "k \<in> set xs" "name_at s k = w" for k
    using d j that by (auto simp: distinct_map inj_on_def)
  have "same_but_flags s t"
    using u(3) t(2) by (rule same_but_flags_trans)
  moreover have "\<forall>k\<in>set xs. co_flags (ops_at t (Ops k)) =
      (if name_at s k \<in> set (w # ws) then co_flags (ops_at s (Ops k)) OR TCP_CONG_NON_RESTRICTED
       else co_flags (ops_at s (Ops k)))"
  proof
    fix k assume k: "k \<in> set xs"
    have uk: "co_flags (ops_at u (Ops k)) = (if k = j
        then co_flags (ops_at s (Ops j)) OR TCP_CONG_NON_RESTRICTED else co_flags (ops_at s (Ops k)))"
      by (simp add: u_def)
    note tk = t(3) [rule_format, OF k, unfolded u(2) uk]
    show "co_flags (ops_at t (Ops k)) =
      (if name_at s k \<in> set (w # ws) then co_flags (ops_at s (Ops k)) OR TCP_CONG_NON_RESTRICTED
       else co_flags (ops_at s (Ops k)))"
    proof (cases "k = j")
      case True
      then show ?thesis using tk j(2) by (simp add: or.assoc)
    next
      case False
      then have "name_at s k \<noteq> w" using inj [OF k] by blast
      then show ?thesis using tk False by simp
    qed
  qed
  ultimately show ?case unfolding m using t(1) by blast
qed

lemma set_allowed_cases:
  assumes reg: "registry s xs"
  shows "set (strsep_words (Some val)) \<subseteq> name_at s ` set xs \<Longrightarrow>
      \<exists>t. tcp_set_allowed_congestion_control True val s = Some (0, t) \<and> registry t xs
        \<and> (\<forall>p. co_name (ops_at t p) = co_name (ops_at s p))
        \<and> (\<forall>k\<in>set xs. (co_flags (ops_at t (Ops k)) AND TCP_CONG_NON_RESTRICTED \<noteq> 0)
             = (name_at s k \<in> set (strsep_words (Some val))))"
    and "\<not> set (strsep_words (Some val)) \<subseteq> name_at s ` set xs \<Longrightarrow>
      tcp_set_allowed_congestion_control True val s = Some (- ENOENT, s)"
proof -
  note f = all_found_registry [OF reg]
  show "\<not> set (strsep_words (Some val)) \<subseteq> name_at s ` set xs \<Longrightarrow>
      tcp_set_allowed_congestion_control True val s = Some (- ENOENT, s)"
    by (simp add: tcp_set_allowed_congestion_control_def f)
  assume w: "set (strsep_words (Some val)) \<subseteq> name_at s ` set xs"
  define ws where "ws = strsep_words (Some val)"
  have d: "distinct (map Ops xs)" using reg by (auto simp: registry_def cong_list_def distinct_map inj_on_def)
  define c where "c = clear_allowed (map Ops xs) s"
  have c: "same_but_flags s c" "\<And>k. k \<in> set xs \<Longrightarrow>
      co_flags (ops_at c (Ops k)) = co_flags (ops_at s (Ops k)) AND NOT TCP_CONG_NON_RESTRICTED"
    using clear_allowed_flags [OF d, of s] by (auto simp: c_def)
  note cr = same_but_flags_registry [OF c(1)]
  obtain t where t: "mark_allowed ws c = Some t" "same_but_flags c t"
    "\<forall>k\<in>set xs. co_flags (ops_at t (Ops k)) =
      (if name_at c k \<in> set ws then co_flags (ops_at c (Ops k)) OR TCP_CONG_NON_RESTRICTED
       else co_flags (ops_at c (Ops k)))"
    using mark_allowed_flags [of c xs ws] reg w unfolding cr ws_def by blast
  have "tcp_set_allowed_congestion_control True val s = Some (0, t)"
    using t(1) w list_entries_cong [OF registry_cong [OF reg]]
    by (simp add: tcp_set_allowed_congestion_control_def f ws_def c_def)
  moreover have "registry t xs" "\<forall>p. co_name (ops_at t p) = co_name (ops_at s p)"
    using same_but_flags_registry [OF t(2)] cr reg by simp_all
  moreover have "\<forall>k\<in>set xs. (co_flags (ops_at t (Ops k)) AND TCP_CONG_NON_RESTRICTED \<noteq> 0) = (name_at s k \<in> set ws)"
    using t(3) c(2) cr(2) by (simp add: flag_set flag_cleared TCP_CONG_NON_RESTRICTED_neq_0)
  ultimately show "\<exists>t. tcp_set_allowed_congestion_control True val s = Some (0, t) \<and> registry t xs
        \<and> (\<forall>p. co_name (ops_at t p) = co_name (ops_at s p))
        \<and> (\<forall>k\<in>set xs. (co_flags (ops_at t (Ops k)) AND TCP_CONG_NON_RESTRICTED \<noteq> 0)
             = (name_at s k \<in> set (strsep_words (Some val))))"
    by (auto simp: ws_def)
qed

section \<open>The interface to the clients of the registry\<close>

text \<open>
  A client (the agent, the module constructors) sees a state that represents a list of keys
  with distinct names, a search by name, and registration and removal.
\<close>

locale name_registry =
  fixes rep :: "'s \<Rightarrow> 'k list \<Rightarrow> bool"
    and key :: "'s \<Rightarrow> 'k \<Rightarrow> string"
    and usable :: "'s \<Rightarrow> 'k \<Rightarrow> bool"
    and search :: "'s \<Rightarrow> string \<Rightarrow> 'k option option"
    and register :: "'k \<Rightarrow> 's \<Rightarrow> (int \<times> 's) option"
    and unregister :: "'k \<Rightarrow> 's \<Rightarrow> 's option"
  assumes search_rep: "rep s xs \<Longrightarrow> search s n = Some (find (\<lambda>k. key s k = n) xs)"
    and rep_keys: "rep s xs \<Longrightarrow> distinct (map (key s) xs)"
    and register_new: "rep s xs \<Longrightarrow> usable s k \<Longrightarrow> key s k \<notin> key s ` set xs \<Longrightarrow>
      \<exists>s'. register k s = Some (0, s') \<and> rep s' (xs @ [k]) \<and> (\<forall>j. key s' j = key s j)"
    and register_old: "rep s xs \<Longrightarrow> usable s k \<Longrightarrow> key s k \<in> key s ` set xs \<Longrightarrow>
      register k s = Some (- EEXIST, s)"
    and unregister_known: "rep s xs \<Longrightarrow> k \<in> set xs \<Longrightarrow>
      \<exists>s'. unregister k s = Some s' \<and> rep s' (remove1 k xs) \<and> (\<forall>j. key s' j = key s j)"
begin

lemma search_registered:
  assumes "rep s xs" and "usable s k" and "key s k \<notin> key s ` set xs"
  shows "\<exists>s'. register k s = Some (0, s') \<and> search s' (key s k) = Some (Some k)"
proof -
  obtain s' where s': "register k s = Some (0, s')" "rep s' (xs @ [k])" "\<forall>j. key s' j = key s j"
    using register_new [OF assms] by blast
  have "search s' (key s' k) = Some (find (\<lambda>j. key s' j = key s' k) (xs @ [k]))"
    by (rule search_rep [OF s'(2)])
  also have "find (\<lambda>j. key s' j = key s' k) (xs @ [k]) = Some k"
    by (rule find_distinct_names [OF rep_keys [OF s'(2)]]) simp
  finally show ?thesis using s'(1,3) by auto
qed

lemma search_unregistered:
  assumes "rep s xs" and "k \<in> set xs"
  shows "\<exists>s'. unregister k s = Some s' \<and> search s' (key s k) = Some None"
proof -
  obtain s' where s': "unregister k s = Some s'" "rep s' (remove1 k xs)" "\<forall>j. key s' j = key s j"
    using unregister_known [OF assms] by blast
  have d: "distinct (map (key s) xs)" by (rule rep_keys [OF assms(1)])
  then have "key s k \<notin> key s ` set (remove1 k xs)"
    using assms(2) by (auto simp: distinct_map inj_on_def distinct_remove1)
  then have "find (\<lambda>j. key s' j = key s k) (remove1 k xs) = None"
    using s'(3) find_None_names [of "key s'" "key s k"] by auto
  then show ?thesis using s'(1) search_rep [OF s'(2)] by simp
qed

lemma register_unregister:
  assumes "rep s xs" and "usable s k" and "key s k \<notin> key s ` set xs"
  shows "\<exists>s' s''. register k s = Some (0, s') \<and> unregister k s' = Some s'' \<and> rep s'' xs"
proof -
  obtain s' where s': "register k s = Some (0, s')" "rep s' (xs @ [k])"
    using register_new [OF assms] by blast
  obtain s'' where s'': "unregister k s' = Some s''" "rep s'' (remove1 k (xs @ [k]))"
    using unregister_known [OF s'(2), of k] by auto
  have "k \<notin> set xs" using assms(3) by auto
  then show ?thesis using s'(1) s'' by (auto simp: remove1_append)
qed

end

interpretation cong: name_registry registry name_at complete_ops find_ops
  "\<lambda>k. tcp_register_congestion_control (Ops k)" "\<lambda>k. tcp_unregister_congestion_control (Ops k)"
proof unfold_locales
  fix s xs n assume "registry s xs"
  then show "find_ops s n = Some (find (\<lambda>k. name_at s k = n) xs)" by (rule find_ops_registry)
next
  fix s xs assume "registry s xs"
  then show "distinct (map (name_at s) xs)" by (simp add: registry_def)
next
  fix s xs k assume "registry s xs" "complete_ops s k" "name_at s k \<notin> name_at s ` set xs"
  then show "\<exists>s'. tcp_register_congestion_control (Ops k) s = Some (0, s') \<and>
      registry s' (xs @ [k]) \<and> (\<forall>j. name_at s' j = name_at s j)"
    using register_cases(3) by fastforce
next
  fix s xs k assume "registry s xs" "complete_ops s k" "name_at s k \<in> name_at s ` set xs"
  then show "tcp_register_congestion_control (Ops k) s = Some (- EEXIST, s)"
    by (rule register_cases(2))
next
  fix s xs k assume "registry s xs" "k \<in> set xs"
  then show "\<exists>s'. tcp_unregister_congestion_control (Ops k) s = Some s' \<and>
      registry s' (remove1 k xs) \<and> (\<forall>j. name_at s' j = name_at s j)"
    using unregister_registered by fastforce
qed

section \<open>Reachable registries\<close>

text \<open>
  Any sequence of registrations, removals of registered algorithms, and changes of the default
  and of the allowed set, from the empty circle the program starts with.
\<close>

inductive reg_reachable :: "(ptr \<Rightarrow> tcp_congestion_ops) \<Rightarrow> cong_state \<Rightarrow> bool"
  for ops where
  boot: "reg_reachable ops (init_cong_state ops)"
| register: "reg_reachable ops s \<Longrightarrow> tcp_register_congestion_control (Ops k) s = Some (r, t) \<Longrightarrow>
    reg_reachable ops t"
| unregister: "reg_reachable ops s \<Longrightarrow> find_ops s (name_at s k) = Some (Some k) \<Longrightarrow>
    tcp_unregister_congestion_control (Ops k) s = Some t \<Longrightarrow> reg_reachable ops t"
| set_default: "reg_reachable ops s \<Longrightarrow> tcp_set_default_congestion_control name s = Some (r, t) \<Longrightarrow>
    reg_reachable ops t"
| set_allowed: "reg_reachable ops s \<Longrightarrow>
    tcp_set_allowed_congestion_control alloc_ok val s = Some (r, t) \<Longrightarrow> reg_reachable ops t"

lemma register_keeps_registry:
  assumes "registry s xs"
  shows "\<exists>r t ys. tcp_register_congestion_control (Ops k) s = Some (r, t) \<and> registry t ys"
  using register_cases [OF assms, of k] assms by blast

lemma set_default_keeps_registry:
  assumes "registry s xs"
  shows "\<exists>r t ys. tcp_set_default_congestion_control name s = Some (r, t) \<and> registry t ys"
  using set_default_cases(1) [OF assms, of name] set_default_cases(2) [OF assms] assms
  by (cases "name \<in> name_at s ` set xs") blast+

lemma set_allowed_keeps_registry:
  assumes "registry s xs"
  shows "\<exists>r t ys. tcp_set_allowed_congestion_control ok val s = Some (r, t) \<and> registry t ys"
proof (cases ok)
  case True
  then have ok: "ok = True" by simp
  show ?thesis unfolding ok using set_allowed_cases [OF assms, of val] assms by blast
next
  case False
  then show ?thesis using assms by (auto simp: tcp_set_allowed_congestion_control_def)
qed

lemma reg_reachable_registry: "reg_reachable ops s \<Longrightarrow> \<exists>xs. registry s xs"
proof (induction rule: reg_reachable.induct)
  case boot
  show ?case using registry_init by blast
next
  case (register s k r t)
  then obtain xs where xs: "registry s xs" by blast
  obtain r' t' ys where t': "tcp_register_congestion_control (Ops k) s = Some (r', t')"
    "registry t' ys" using register_keeps_registry [OF xs] by blast
  then have "t' = t" using register.hyps(2) by simp
  then show ?case using t'(2) by blast
next
  case (unregister s k t)
  then obtain xs where xs: "registry s xs" by blast
  have "find (\<lambda>j. name_at s j = name_at s k) xs = Some k"
    using unregister.hyps(2) find_ops_registry [OF xs] by simp
  then have "k \<in> set xs" using find_Some_names [of "name_at s"] by blast
  then obtain t' where t': "tcp_unregister_congestion_control (Ops k) s = Some t'"
    "registry t' (remove1 k xs)" using cong.unregister_known [OF xs] by blast
  then have "t' = t" using unregister.hyps(3) by simp
  then show ?case using t'(2) by blast
next
  case (set_default s name r t)
  then obtain xs where xs: "registry s xs" by blast
  obtain r' t' ys where t': "tcp_set_default_congestion_control name s = Some (r', t')"
    "registry t' ys" using set_default_keeps_registry [OF xs] by blast
  then have "t' = t" using set_default.hyps(2) by simp
  then show ?case using t'(2) by blast
next
  case (set_allowed s ok val r t)
  then obtain xs where xs: "registry s xs" by blast
  obtain r' t' ys where t': "tcp_set_allowed_congestion_control ok val s = Some (r', t')"
    "registry t' ys" using set_allowed_keeps_registry [OF xs] by blast
  then have "t' = t" using set_allowed.hyps(2) by simp
  then show ?case using t'(2) by blast
qed

section \<open>Properties\<close>

text \<open>An example: two complete algorithms, registered in turn.\<close>

definition example_ops :: "ptr \<Rightarrow> tcp_congestion_ops" where
  "example_ops p = (case p of
     Ops k \<Rightarrow> empty_ops\<lparr>co_name := (if k = 0 then ''reno'' else if k = 1 then ''bic'' else ''cubic''),
       co_ssthresh := Some ''ssthresh'', co_cong_avoid := Some ''cong_avoid''\<rparr>
   | _ \<Rightarrow> empty_ops)"

lemma example_registry: "\<exists>s. registry s [0, 1] \<and> ops_at s = example_ops"
proof -
  define s where "s = init_cong_state example_ops"
  have s: "registry s []" "ops_at s = example_ops"
    unfolding s_def using registry_init by (simp_all add: init_cong_state_def)
  obtain t where t: "registry t [0]" "ops_at t = example_ops"
    using register_cases(3) [OF s(1), of 0] s(2) by (auto simp: example_ops_def empty_ops_def)
  obtain u where "registry u [0, 1]" "ops_at u = example_ops"
    using register_cases(3) [OF t(1), of 1] t(2) by (auto simp: example_ops_def empty_ops_def)
  then show ?thesis by blast
qed

text \<open>
  C12: whatever sequence of registrations, removals, changes of the default and of the allowed
  set is run from the start of the program, the linked list stays well formed: its links
  represent a sequence of algorithms with distinct names, and a search for any name ends and
  finds the algorithm of that name or reports that there is none.
\<close>

theorem reachable_registry_search:
  assumes "reg_reachable ops s"
  shows "\<exists>xs. registry s xs \<and> (\<forall>n. find_ops s n = Some (find (\<lambda>k. name_at s k = n) xs))"
  using reg_reachable_registry [OF assms] find_ops_registry by blast

theorem reachable_registry_search_witness:
  "\<exists>xs. registry (init_cong_state example_ops) xs \<and> find_ops (init_cong_state example_ops) ''reno'' =
     Some (find (\<lambda>k. name_at (init_cong_state example_ops) k = ''reno'') xs)"
  using reachable_registry_search [OF reg_reachable.boot, of example_ops] by blast

text \<open>
  C28: \<^verbatim>\<open>tcp_register_congestion_control\<close>: an algorithm without its two required operations is
  refused with \<^verbatim>\<open>EINVAL\<close>, one whose name is taken with \<^verbatim>\<open>EEXIST\<close>, both leaving the registry
  as it was; any other is appended at the end.
\<close>

theorem register_outcome:
  assumes "registry s xs"
  shows "\<exists>r t. tcp_register_congestion_control (Ops k) s = Some (r, t) \<and> ops_at t = ops_at s \<and>
    (if \<not> complete_ops s k then r = - EINVAL \<and> t = s
     else if name_at s k \<in> name_at s ` set xs then r = - EEXIST \<and> t = s
     else r = 0 \<and> registry t (xs @ [k]))"
  using register_cases [OF assms, of k] by (cases "complete_ops s k"; cases "name_at s k \<in> name_at s ` set xs") auto

theorem register_outcome_witness:
  "\<exists>s t. registry s [0, 1] \<and> tcp_register_congestion_control (Ops 2) s = Some (0, t) \<and> registry t [0, 1, 2]"
proof -
  obtain s where s: "registry s [0, 1]" "ops_at s = example_ops" using example_registry by blast
  then show ?thesis using register_outcome [OF s(1), of 2] by (auto simp: example_ops_def empty_ops_def)
qed

text \<open>
  C18: \<^verbatim>\<open>tcp_set_default_congestion_control\<close>: an unknown name changes nothing and gives
  \<^verbatim>\<open>ENOENT\<close>; a registered algorithm moves to the front of the list (which makes it the
  default), the others keep their order, and it becomes usable by everyone.
\<close>

theorem set_default_outcome:
  assumes "registry s xs"
  shows "(name \<notin> name_at s ` set xs \<longrightarrow> tcp_set_default_congestion_control name s = Some (- ENOENT, s)) \<and>
    (\<forall>k\<in>set xs. name_at s k = name \<longrightarrow>
      (\<exists>t. tcp_set_default_congestion_control name s = Some (0, t) \<and> registry t (k # remove1 k xs)
        \<and> co_flags (ops_at t (Ops k)) = co_flags (ops_at s (Ops k)) OR TCP_CONG_NON_RESTRICTED))"
  using set_default_cases(1) [OF assms, of name] set_default_cases(2) [OF assms] by blast

theorem set_default_outcome_witness:
  "\<exists>s t. registry s [0, 1] \<and> tcp_set_default_congestion_control ''bic'' s = Some (0, t) \<and> registry t [1, 0]"
proof -
  obtain s where s: "registry s [0, 1]" "ops_at s = example_ops" using example_registry by blast
  then show ?thesis using set_default_outcome [OF s(1), of "''bic''"]
    by (auto simp: example_ops_def empty_ops_def)
qed

text \<open>
  C30: \<^verbatim>\<open>tcp_set_allowed_congestion_control\<close> is all or nothing: if one of the words is not a
  registered name the call gives \<^verbatim>\<open>ENOENT\<close> and no flag changes; otherwise exactly the named
  algorithms are open to everyone afterwards, and the list is as before.
\<close>

theorem set_allowed_outcome:
  assumes "registry s xs"
  shows "if set (strsep_words (Some val)) \<subseteq> name_at s ` set xs
    then \<exists>t. tcp_set_allowed_congestion_control True val s = Some (0, t) \<and> registry t xs
      \<and> (\<forall>k\<in>set xs. (co_flags (ops_at t (Ops k)) AND TCP_CONG_NON_RESTRICTED \<noteq> 0)
           = (name_at s k \<in> set (strsep_words (Some val))))
    else tcp_set_allowed_congestion_control True val s = Some (- ENOENT, s)"
  using set_allowed_cases [OF assms, of val] by auto

theorem set_allowed_outcome_witness:
  "\<exists>s t. registry s [0, 1] \<and> tcp_set_allowed_congestion_control True ''bic'' s = Some (0, t)
    \<and> co_flags (ops_at t (Ops 0)) AND TCP_CONG_NON_RESTRICTED = 0
    \<and> co_flags (ops_at t (Ops 1)) AND TCP_CONG_NON_RESTRICTED \<noteq> 0"
proof -
  obtain s where s: "registry s [0, 1]" "ops_at s = example_ops" using example_registry by blast
  have w: "strsep_words (Some ''bic'') = [''bic'']" by (simp add: strsep_words.simps)
  show ?thesis using s set_allowed_outcome [OF s(1), of "''bic''"] unfolding w
    by (fastforce simp: example_ops_def empty_ops_def)
qed

text \<open>
  C31: registering an algorithm makes the search find it, and removing it again gives back the
  registry, for which the search no longer finds it.
\<close>

theorem register_search_unregister:
  assumes "registry s xs" and "complete_ops s k" and "name_at s k \<notin> name_at s ` set xs"
  shows "\<exists>t u. tcp_register_congestion_control (Ops k) s = Some (0, t)
    \<and> find_ops t (name_at s k) = Some (Some k)
    \<and> tcp_unregister_congestion_control (Ops k) t = Some u \<and> registry u xs"
  using cong.search_registered [OF assms] cong.register_unregister [OF assms] by fastforce

theorem register_search_unregister_witness:
  "\<exists>s t u. registry s [0, 1] \<and> tcp_register_congestion_control (Ops 2) s = Some (0, t)
    \<and> find_ops t ''cubic'' = Some (Some 2)
    \<and> tcp_unregister_congestion_control (Ops 2) t = Some u \<and> registry u [0, 1]"
proof -
  obtain s where s: "registry s [0, 1]" "ops_at s = example_ops" using example_registry by blast
  then show ?thesis using register_search_unregister [OF s(1), of 2]
    by (auto simp: example_ops_def empty_ops_def)
qed

text \<open>
  C32: the listing of \<^verbatim>\<open>tcp_get_available_congestion_control\<close> into a buffer of \<open>maxlen\<close> bytes is
  memory safe exactly when all names but the last, joined by blanks, fit in it: as soon as they
  do not, the size left underflows and the next name is written past the end; otherwise the
  buffer holds the joined names, cut to its size and terminated.
\<close>

theorem available_listing:
  assumes "registry s xs" and "length buf = unat maxlen" and "0 < unat maxlen"
    and "length (joined [] (map (name_at s) xs)) < 2 ^ 63" and "xs \<noteq> []"
  shows "case tcp_get_available_congestion_control s buf maxlen of
      None \<Rightarrow> unat maxlen < length (joined [] (butlast (map (name_at s) xs)))
    | Some b \<Rightarrow> length (joined [] (butlast (map (name_at s) xs))) \<le> unat maxlen
        \<and> length b = unat maxlen \<and> holds b (joined [] (map (name_at s) xs))"
proof -
  have e: "tcp_get_available_congestion_control s buf maxlen =
      append_names maxlen (map (name_at s) xs) buf 0"
    using list_entries_cong [OF registry_cong [OF assms(1)]]
    by (simp add: tcp_get_available_congestion_control_def comp_def)
  show ?thesis
    unfolding e using append_names_spec [OF assms(2) _ assms(3,4), of 0] assms(5)
    by (auto split: option.split simp: not_less)
qed

theorem available_listing_witness:
  "\<exists>s b. registry s [0, 1] \<and> tcp_get_available_congestion_control s (replicate 7 NUL) 7 = Some b
    \<and> holds b ''reno bic''"
proof -
  obtain s where s: "registry s [0, 1]" "ops_at s = example_ops" using example_registry by blast
  then show ?thesis using available_listing [OF s(1), of "replicate 7 NUL" 7]
    by (auto simp: example_ops_def empty_ops_def split: option.splits)
qed

text \<open>
  C33: \<^verbatim>\<open>tcp_set_congestion_control\<close> never installs an algorithm in this build, because
  \<^verbatim>\<open>try_module_get\<close> is the constant 0: the socket keeps its algorithm, no function of either
  is called, and the result is 0 only when the named algorithm is the one in use already;
  otherwise it is \<^verbatim>\<open>EBUSY\<close> for a registered name and \<^verbatim>\<open>ENOENT\<close> for another.
\<close>

theorem set_congestion_control_never_installs:
  assumes "registry s xs" and "ca \<noteq> Null"
  shows "tcp_set_congestion_control ca closed name s =
    Some (if \<exists>k\<in>set xs. name_at s k = name \<and> ca = Ops k then 0
          else if name \<in> name_at s ` set xs then - EBUSY else - ENOENT, ca, [])"
proof (cases "find (\<lambda>k. name_at s k = name) xs")
  case None
  then show ?thesis
    using assms(2) tcp_ca_find_registry [OF assms(1), of name] find_None_names [of "name_at s" name xs]
    by (auto simp add: tcp_set_congestion_control_def)
next
  case (Some k)
  then have k: "k \<in> set xs" "name_at s k = name" using find_Some_names [of "name_at s"] by blast+
  then have "(\<exists>j\<in>set xs. name_at s j = name \<and> ca = Ops j) \<longleftrightarrow> ca = Ops k" "name \<in> name_at s ` set xs"
    using assms(1) by (auto simp: registry_def distinct_map inj_on_def)
  moreover have "tcp_ca_find s name = Some (Ops k)"
    using tcp_ca_find_registry [OF assms(1), of name] Some by simp
  ultimately show ?thesis
    by (simp add: tcp_set_congestion_control_def try_module_get_def capable_def)
qed

theorem set_congestion_control_never_installs_witness:
  "\<exists>s. registry s [0, 1] \<and> tcp_set_congestion_control (Ops 0) False ''bic'' s = Some (- EBUSY, Ops 0, [])"
proof -
  obtain s where s: "registry s [0, 1]" "ops_at s = example_ops" using example_registry by blast
  then show ?thesis using set_congestion_control_never_installs [OF s(1), of "Ops 0" False "''bic''"]
    by (auto simp: example_ops_def empty_ops_def)
qed

end
