(* ===== verification/Module_Ops.thy ===== *)
theory Module_Ops
  imports Registry
begin

text \<open>
  The \<^verbatim>\<open>struct tcp_congestion_ops\<close> of a module with its functions as functions: the
  operations take the environment (clock and sysctls), the socket and the module's private
  area, and return the updated ones; an absent entry is a null pointer of the C structure.
  The registry of \<^verbatim>\<open>Cong_List\<close> sees the same structure with the functions as names.
\<close>

section \<open>Operation tables\<close>

record 'p ca_ops =
  ca_flags :: u64
  ca_name :: string
  ca_init :: "(env \<Rightarrow> tcp_sock \<Rightarrow> 'p \<Rightarrow> (tcp_sock \<times> 'p) option) option"
  ca_ssthresh :: "env \<Rightarrow> tcp_sock \<Rightarrow> 'p \<Rightarrow> (u32 \<times> 'p) option"
  ca_min_cwnd :: "(tcp_sock \<Rightarrow> 'p \<Rightarrow> u32 option) option"
  ca_cong_avoid :: "env \<Rightarrow> u32 \<Rightarrow> u32 \<Rightarrow> u32 \<Rightarrow> cint \<Rightarrow> tcp_sock \<Rightarrow> 'p \<Rightarrow> (tcp_sock \<times> 'p) option"
  ca_rtt_sample :: "(env \<Rightarrow> u32 \<Rightarrow> tcp_sock \<Rightarrow> 'p \<Rightarrow> 'p option) option"
  ca_set_state :: "(env \<Rightarrow> u8 \<Rightarrow> tcp_sock \<Rightarrow> 'p \<Rightarrow> (tcp_sock \<times> 'p) option) option"
  ca_cwnd_event :: "(env \<Rightarrow> tcp_ca_event \<Rightarrow> tcp_sock \<Rightarrow> 'p \<Rightarrow> (tcp_sock \<times> 'p) option) option"
  ca_undo_cwnd :: "(tcp_sock \<Rightarrow> 'p \<Rightarrow> (u32 \<times> 'p) option) option"
  ca_pkts_acked :: "(env \<Rightarrow> u32 \<Rightarrow> s64 \<Rightarrow> tcp_sock \<Rightarrow> 'p \<Rightarrow> (tcp_sock \<times> 'p) option) option"
  ca_get_info :: "(u32 \<Rightarrow> tcp_sock \<Rightarrow> 'p \<Rightarrow> unit option) option"

text \<open>The entry for an operation that reads the socket and updates only the private area.\<close>

definition keep_sock ::
    "('e \<Rightarrow> 'n \<Rightarrow> 't \<Rightarrow> tcp_sock \<Rightarrow> 'p \<Rightarrow> 'p option) \<Rightarrow> 'e \<Rightarrow> 'n \<Rightarrow> 't \<Rightarrow> tcp_sock \<Rightarrow> 'p \<Rightarrow> (tcp_sock \<times> 'p) option"
where
  "keep_sock f env n last_ackt tp p = map_option (Pair tp) (f env n last_ackt tp p)"

definition entry :: "string \<Rightarrow> string \<Rightarrow> 'a option \<Rightarrow> string option" where
  "entry name field f = (if f = None then None else Some (name @ CHR ''.'' # field))"

definition ops_header :: "'p ca_ops \<Rightarrow> tcp_congestion_ops" where
  "ops_header ca = \<lparr>co_flags = ca_flags ca,
     co_init = entry (ca_name ca) ''init'' (ca_init ca), co_release = None,
     co_ssthresh = Some (ca_name ca @ ''.ssthresh''),
     co_min_cwnd = entry (ca_name ca) ''min_cwnd'' (ca_min_cwnd ca),
     co_cong_avoid = Some (ca_name ca @ ''.cong_avoid''),
     co_rtt_sample = entry (ca_name ca) ''rtt_sample'' (ca_rtt_sample ca),
     co_set_state = entry (ca_name ca) ''set_state'' (ca_set_state ca),
     co_cwnd_event = entry (ca_name ca) ''cwnd_event'' (ca_cwnd_event ca),
     co_undo_cwnd = entry (ca_name ca) ''undo_cwnd'' (ca_undo_cwnd ca),
     co_pkts_acked = entry (ca_name ca) ''pkts_acked'' (ca_pkts_acked ca),
     co_get_info = entry (ca_name ca) ''get_info'' (ca_get_info ca), co_name = ca_name ca\<rparr>"


section \<open>Calling a module\<close>

text \<open>The callers test an optional entry for null before the call.\<close>

definition run_init :: "'p ca_ops \<Rightarrow> env \<Rightarrow> tcp_sock \<Rightarrow> 'p \<Rightarrow> (tcp_sock \<times> 'p) option" where
  "run_init ca env tp p = (case ca_init ca of None \<Rightarrow> Some (tp, p) | Some f \<Rightarrow> f env tp p)"

definition run_rtt_sample :: "'p ca_ops \<Rightarrow> env \<Rightarrow> u32 \<Rightarrow> tcp_sock \<Rightarrow> 'p \<Rightarrow> 'p option" where
  "run_rtt_sample ca env rtt tp p =
     (case ca_rtt_sample ca of None \<Rightarrow> Some p | Some f \<Rightarrow> f env rtt tp p)"

definition run_set_state :: "'p ca_ops \<Rightarrow> env \<Rightarrow> u8 \<Rightarrow> tcp_sock \<Rightarrow> 'p \<Rightarrow> (tcp_sock \<times> 'p) option" where
  "run_set_state ca env st tp p =
     (case ca_set_state ca of None \<Rightarrow> Some (tp, p) | Some f \<Rightarrow> f env st tp p)"

definition run_cwnd_event ::
    "'p ca_ops \<Rightarrow> env \<Rightarrow> tcp_ca_event \<Rightarrow> tcp_sock \<Rightarrow> 'p \<Rightarrow> (tcp_sock \<times> 'p) option" where
  "run_cwnd_event ca env ev tp p =
     (case ca_cwnd_event ca of None \<Rightarrow> Some (tp, p) | Some f \<Rightarrow> f env ev tp p)"

definition run_pkts_acked ::
    "'p ca_ops \<Rightarrow> env \<Rightarrow> u32 \<Rightarrow> s64 \<Rightarrow> tcp_sock \<Rightarrow> 'p \<Rightarrow> (tcp_sock \<times> 'p) option" where
  "run_pkts_acked ca env n last_ackt tp p =
     (case ca_pkts_acked ca of None \<Rightarrow> Some (tp, p) | Some f \<Rightarrow> f env n last_ackt tp p)"

definition run_min_cwnd :: "'p ca_ops \<Rightarrow> tcp_sock \<Rightarrow> 'p \<Rightarrow> u32 option" where
  "run_min_cwnd ca tp p =
     (case ca_min_cwnd ca of None \<Rightarrow> Some (snd_ssthresh tp) | Some f \<Rightarrow> f tp p)"

lemmas run_defs = keep_sock_def run_init_def run_rtt_sample_def run_set_state_def run_cwnd_event_def
  run_pkts_acked_def run_min_cwnd_def

section \<open>The contract of a module\<close>

text \<open>
  A usable socket: a window, a clamp, a segment size, and window values that an \<^verbatim>\<open>int\<close> can hold (the
  agent reads \<^verbatim>\<open>snd_cwnd\<close> through a cast to \<^verbatim>\<open>int\<close>), and a time stamp that is a time.
\<close>

definition small :: "u32 \<Rightarrow> bool" where
  "small x \<longleftrightarrow> unat x < 2147483648"

definition sock_ok :: "tcp_sock \<Rightarrow> bool" where
  "sock_ok tp \<longleftrightarrow> snd_cwnd tp \<noteq> 0 \<and> small (snd_cwnd tp) \<and> small (snd_ssthresh tp)
     \<and> snd_cwnd_clamp tp \<noteq> 0 \<and> unat (snd_cwnd_clamp tp) < 2147483648
     \<and> mss_cache tp \<noteq> 0 \<and> small (mss_cache tp)
     \<and> unat (rcv_tsecr (rx_opt tp)) < 2 ^ 53"

text \<open>The clocks of the simulator stay below \<open>2 ^ 53\<close> milliseconds.\<close>

definition clock_ok :: "env \<Rightarrow> bool" where
  "clock_ok env \<longleftrightarrow> unat (tcp_time_stamp env) < 2 ^ 53"

text \<open>The agent passes the time at which the acknowledged packet was sent, which is not ahead of it.\<close>

definition past :: "env \<Rightarrow> s64 \<Rightarrow> bool" where
  "past env last_ackt \<longleftrightarrow> 0 \<le> sint (net_timedelta env last_ackt)"

text \<open>
  What the agent relies on, for a module with the invariant \<open>inv\<close> on its private area (\<open>inv
  False\<close> before \<^verbatim>\<open>init\<close> was called: the agent samples round trips and may time out before the
  first acknowledgment initialises the module) on the sockets that are \<open>usable\<close> by it (a module
  may add to \<^const>\<open>sock_ok\<close> a condition on the round trip time, which only the agent writes):
  every call returns, no call makes the socket
  unusable, and the threshold after a loss is at least two packets.
\<close>

locale cong_module =
  fixes ops :: "'p ca_ops" and usable :: "tcp_sock \<Rightarrow> bool" and inv :: "bool \<Rightarrow> 'p \<Rightarrow> bool"
  assumes usable_sock: "usable tp \<Longrightarrow> sock_ok tp"
    and usable_frame: "usable tp \<Longrightarrow> sock_ok tp' \<Longrightarrow> srtt tp' = srtt tp \<Longrightarrow> usable tp'"
    and init_law: "clock_ok env \<Longrightarrow> usable tp \<Longrightarrow> inv False p \<Longrightarrow>
      \<exists>tp' p'. run_init ops env tp p = Some (tp', p') \<and> usable tp' \<and> inv True p'"
    and ssthresh_law: "clock_ok env \<Longrightarrow> usable tp \<Longrightarrow> inv b p \<Longrightarrow>
      \<exists>s p'. ca_ssthresh ops env tp p = Some (s, p') \<and> 2 \<le> unat s \<and> small s \<and> inv b p'"
    and min_cwnd_law: "usable tp \<Longrightarrow> inv b p \<Longrightarrow> 2 \<le> unat (snd_ssthresh tp) \<Longrightarrow>
      \<exists>w. run_min_cwnd ops tp p = Some w \<and> w \<noteq> 0 \<and> small w"
    and cong_avoid_law: "clock_ok env \<Longrightarrow> usable tp \<Longrightarrow> inv True p \<Longrightarrow>
      \<exists>tp' p'. ca_cong_avoid ops env ack rtt in_flight flag tp p = Some (tp', p')
        \<and> usable tp' \<and> inv True p'"
    and rtt_sample_law: "clock_ok env \<Longrightarrow> usable tp \<Longrightarrow> inv b p \<Longrightarrow>
      \<exists>p'. run_rtt_sample ops env usrtt tp p = Some p' \<and> inv b p'"
    and set_state_law: "clock_ok env \<Longrightarrow> usable tp \<Longrightarrow> inv b p \<Longrightarrow>
      \<exists>tp' p'. run_set_state ops env st tp p = Some (tp', p') \<and> usable tp' \<and> inv b p'"
    and cwnd_event_law: "clock_ok env \<Longrightarrow> usable tp \<Longrightarrow> inv b p \<Longrightarrow>
      \<exists>tp' p'. run_cwnd_event ops env ev tp p = Some (tp', p') \<and> usable tp' \<and> inv b p'"
    and pkts_acked_law: "clock_ok env \<Longrightarrow> usable tp \<Longrightarrow> inv True p \<Longrightarrow> small n \<Longrightarrow>
      past env last_ackt \<Longrightarrow>
      \<exists>tp' p'. run_pkts_acked ops env n last_ackt tp p = Some (tp', p') \<and> usable tp' \<and> inv True p'"

lemma ktime_to_us_past:
  assumes "past env t"
  shows "unat (ktime_to_us (net_timedelta env t) + 1) = unat (net_timedelta env t) div 1000 + 1"
proof -
  define d where "d = net_timedelta env t"
  have "unat (ktime_to_us d) = unat d div 1000"
    by (rule unat_ktime_to_us) (use assms in \<open>simp add: past_def d_def\<close>)
  moreover have "unat d div 1000 < 2 ^ 63"
    using unat64_less [of d] by (simp add: less_mult_imp_div_less)
  ultimately show ?thesis unfolding d_def [symmetric] by (simp add: unat_word_ariths)
qed

section \<open>Example data\<close>

text \<open>A connection with window \<open>w\<close> and threshold \<open>s\<close>, and a clock, for the concrete instances.\<close>

definition example_sock :: "u32 \<Rightarrow> u32 \<Rightarrow> tcp_sock" where
  "example_sock w s = \<lparr>snd_nxt = 50000, snd_una = 20000, mss_cache = 1000, srtt = 800,
     rx_opt = \<lparr>rcv_tsval = 900, rcv_tsecr = 900, saw_tstamp = True\<rparr>, snd_ssthresh = s, snd_cwnd = w,
     snd_cwnd_cnt = 0, snd_cwnd_clamp = 10000, snd_cwnd_stamp = 0, bytes_acked = 0, icsk_ca_state = 0\<rparr>"

definition example_env :: env where
  "example_env = \<lparr>tcp_time_stamp = 1000, ktime_get_real = 1000000000, sysctl_tcp_abc = 0,
     sysctl_tcp_max_ssthresh = 0\<rparr>"

lemmas example_defs = example_sock_def example_env_def

lemma example_sock_ok [simp]: "w \<noteq> 0 \<Longrightarrow> small w \<Longrightarrow> small s \<Longrightarrow> sock_ok (example_sock w s)"
  by (simp add: sock_ok_def example_sock_def small_def)

lemma example_clock_ok [simp]: "clock_ok example_env"
  by (simp add: clock_ok_def example_env_def)

end
