(* ===== verification/Reno.thy ===== *)
theory Reno
  imports Module_Ops
begin

text \<open>
  Slow start and Reno, \<^verbatim>\<open>tcp/linux/src/tcp_cong.c\<close> lines 286--402, and the tutorial module
  \<^verbatim>\<open>tcp/linux/tcp_naivereno.c\<close>.  Every other module calls \<^verbatim>\<open>tcp_slow_start\<close> or
  \<^verbatim>\<open>tcp_reno_cong_avoid\<close>.
\<close>

section \<open>Slow start\<close>

text \<open>
  The loop that spends the credit \<^verbatim>\<open>snd_cwnd_cnt\<close>: a window's worth of credit buys one packet
  of window.  It is a loop of the C program that may not end, hence an option.
\<close>

partial_function (option) slow_start_loop :: "tcp_sock \<Rightarrow> tcp_sock option" where
  "slow_start_loop tp =
     (if snd_cwnd tp \<le> uint_ulong (snd_cwnd_cnt tp)
      then slow_start_loop (bump_cwnd (tp\<lparr>snd_cwnd_cnt :=
             ulong_uint (uint_ulong (snd_cwnd_cnt tp) - snd_cwnd tp)\<rparr>))
      else Some tp)"

definition slow_start_cnt :: "env \<Rightarrow> tcp_sock \<Rightarrow> cint" where
  "slow_start_cnt env tp =
     (let cnt = (if 0 <s sysctl_tcp_max_ssthresh env
                    \<and> int_ulong (sysctl_tcp_max_ssthresh env) < snd_cwnd tp
                 then signed_drop_bit 1 (sysctl_tcp_max_ssthresh env)
                 else ucast (snd_cwnd tp))
      in if 1 < sysctl_tcp_abc env \<and> 2 * mss_cache tp \<le> bytes_acked tp
         then push_bit 1 cnt else cnt)"

definition tcp_slow_start :: "env \<Rightarrow> tcp_sock \<Rightarrow> tcp_sock option" where
  "tcp_slow_start env tp =
     (if sysctl_tcp_abc env \<noteq> 0 \<and> bytes_acked tp < mss_cache tp then Some tp
      else let cnt = slow_start_cnt env tp;
               tp = tp\<lparr>bytes_acked := 0\<rparr>
           in slow_start_loop (tp\<lparr>snd_cwnd_cnt := snd_cwnd_cnt tp + cnt\<rparr>))"

section \<open>Reno\<close>

definition tcp_reno_cong_avoid ::
    "env \<Rightarrow> u32 \<Rightarrow> u32 \<Rightarrow> u32 \<Rightarrow> cint \<Rightarrow> tcp_sock \<Rightarrow> tcp_sock option" where
  "tcp_reno_cong_avoid env ack rtt in_flight flag tp =
     (if \<not> tcp_is_cwnd_limited tp in_flight then Some tp
      else if snd_cwnd tp \<le> snd_ssthresh tp then tcp_slow_start env tp
      else if sysctl_tcp_abc env \<noteq> 0 then
        Some (if snd_cwnd tp * mss_cache tp \<le> bytes_acked tp
              then bump_cwnd (tp\<lparr>bytes_acked := bytes_acked tp - snd_cwnd tp * mss_cache tp\<rparr>)
              else tp)
      else
        Some (if snd_cwnd tp \<le> uint_ulong (snd_cwnd_cnt tp)
              then (bump_cwnd tp)\<lparr>snd_cwnd_cnt := 0\<rparr>
              else tp\<lparr>snd_cwnd_cnt := snd_cwnd_cnt tp + 1\<rparr>))"

definition tcp_reno_ssthresh :: "tcp_sock \<Rightarrow> u32" where
  "tcp_reno_ssthresh tp = max (drop_bit 1 (snd_cwnd tp)) 2"

definition tcp_reno_min_cwnd :: "tcp_sock \<Rightarrow> u32" where
  "tcp_reno_min_cwnd tp = snd_ssthresh tp div 2"

text \<open>A module without a private area.\<close>

definition stateless ::
    "(env \<Rightarrow> u32 \<Rightarrow> u32 \<Rightarrow> u32 \<Rightarrow> cint \<Rightarrow> tcp_sock \<Rightarrow> tcp_sock option) \<Rightarrow>
     env \<Rightarrow> u32 \<Rightarrow> u32 \<Rightarrow> u32 \<Rightarrow> cint \<Rightarrow> tcp_sock \<Rightarrow> 'p \<Rightarrow> (tcp_sock \<times> 'p) option" where
  "stateless f env ack rtt in_flight flag tp p =
     map_option (\<lambda>tp. (tp, p)) (f env ack rtt in_flight flag tp)"

definition tcp_reno :: "unit ca_ops" where
  "tcp_reno = \<lparr>ca_flags = TCP_CONG_NON_RESTRICTED, ca_name = ''reno'', ca_init = None,
     ca_ssthresh = (\<lambda>env tp p. Some (tcp_reno_ssthresh tp, p)),
     ca_min_cwnd = Some (\<lambda>tp p. Some (tcp_reno_min_cwnd tp)),
     ca_cong_avoid = stateless tcp_reno_cong_avoid,
     ca_rtt_sample = None, ca_set_state = None, ca_cwnd_event = None, ca_undo_cwnd = None,
     ca_pkts_acked = None,
     ca_get_info = None\<rparr>"

definition tcp_init_congestion_ops :: "unit ca_ops" where
  "tcp_init_congestion_ops = tcp_reno\<lparr>ca_flags := 0, ca_name := ''''\<rparr>"

section \<open>Naive Reno\<close>

record naive_reno_params =
  nr_alpha :: cint
  nr_beta :: cint

definition naive_reno_default :: naive_reno_params where
  "naive_reno_default = \<lparr>nr_alpha = 1, nr_beta = 2\<rparr>"

definition tcp_naive_reno_cong_avoid ::
    "naive_reno_params \<Rightarrow> env \<Rightarrow> u32 \<Rightarrow> u32 \<Rightarrow> u32 \<Rightarrow> cint \<Rightarrow> tcp_sock \<Rightarrow> tcp_sock option" where
  "tcp_naive_reno_cong_avoid par env ack rtt in_flight flag tp =
     Some (if snd_cwnd tp < snd_ssthresh tp then tp\<lparr>snd_cwnd := snd_cwnd tp + 1\<rparr>
      else if snd_cwnd tp \<le> uint_ulong (snd_cwnd_cnt tp) then
        let tp = tp\<lparr>snd_cwnd := snd_cwnd tp + int_ulong (nr_alpha par), snd_cwnd_cnt := 0\<rparr>
        in if uint_ulong (snd_cwnd_clamp tp) < snd_cwnd tp
           then tp\<lparr>snd_cwnd := uint_ulong (snd_cwnd_clamp tp)\<rparr> else tp
      else tp\<lparr>snd_cwnd_cnt := snd_cwnd_cnt tp + 1\<rparr>)"

definition tcp_naive_reno_ssthresh :: "naive_reno_params \<Rightarrow> tcp_sock \<Rightarrow> u32 option" where
  "tcp_naive_reno_ssthresh par tp = do {
     q \<leftarrow> udiv (snd_cwnd tp) (int_ulong (nr_beta par));
     let reduction = (ucast q :: cint);
     Some (max (snd_cwnd tp - int_ulong reduction) 2)
   }"

definition tcp_naive_reno_min_cwnd :: "tcp_sock \<Rightarrow> u32" where
  "tcp_naive_reno_min_cwnd tp = snd_ssthresh tp"

definition tcp_naive_reno :: "naive_reno_params \<Rightarrow> unit ca_ops" where
  "tcp_naive_reno par = \<lparr>ca_flags = 0, ca_name = ''naive_reno'', ca_init = None,
     ca_ssthresh = (\<lambda>env tp p. map_option (\<lambda>s. (s, p)) (tcp_naive_reno_ssthresh par tp)),
     ca_min_cwnd = Some (\<lambda>tp p. Some (tcp_naive_reno_min_cwnd tp)),
     ca_cong_avoid = stateless (tcp_naive_reno_cong_avoid par),
     ca_rtt_sample = None, ca_set_state = None, ca_cwnd_event = None, ca_undo_cwnd = None,
     ca_pkts_acked = None,
     ca_get_info = None\<rparr>"


section \<open>The loop of slow start\<close>

definition same_but_cwnd :: "tcp_sock \<Rightarrow> tcp_sock \<Rightarrow> bool" where
  "same_but_cwnd tp tp' \<longleftrightarrow>
     tp'\<lparr>snd_cwnd := 0, snd_cwnd_cnt := 0\<rparr> = tp\<lparr>snd_cwnd := 0, snd_cwnd_cnt := 0\<rparr>"

lemma same_but_cwnd_refl [simp]: "same_but_cwnd tp tp"
  by (simp add: same_but_cwnd_def)

lemma same_but_cwnd_trans: "same_but_cwnd a b \<Longrightarrow> same_but_cwnd b c \<Longrightarrow> same_but_cwnd a c"
  by (simp add: same_but_cwnd_def)

lemma same_but_cwndD:
  assumes "same_but_cwnd tp tp'"
  shows "snd_nxt tp' = snd_nxt tp" "snd_una tp' = snd_una tp" "mss_cache tp' = mss_cache tp"
    "srtt tp' = srtt tp" "rx_opt tp' = rx_opt tp" "snd_ssthresh tp' = snd_ssthresh tp"
    "snd_cwnd_clamp tp' = snd_cwnd_clamp tp" "snd_cwnd_stamp tp' = snd_cwnd_stamp tp"
    "bytes_acked tp' = bytes_acked tp" "icsk_ca_state tp' = icsk_ca_state tp"
proof -
  note e = assms [unfolded same_but_cwnd_def]
  show "snd_nxt tp' = snd_nxt tp" using arg_cong [OF e, of snd_nxt] by simp
  show "snd_una tp' = snd_una tp" using arg_cong [OF e, of snd_una] by simp
  show "mss_cache tp' = mss_cache tp" using arg_cong [OF e, of mss_cache] by simp
  show "srtt tp' = srtt tp" using arg_cong [OF e, of srtt] by simp
  show "rx_opt tp' = rx_opt tp" using arg_cong [OF e, of rx_opt] by simp
  show "snd_ssthresh tp' = snd_ssthresh tp" using arg_cong [OF e, of snd_ssthresh] by simp
  show "snd_cwnd_clamp tp' = snd_cwnd_clamp tp" using arg_cong [OF e, of snd_cwnd_clamp] by simp
  show "snd_cwnd_stamp tp' = snd_cwnd_stamp tp" using arg_cong [OF e, of snd_cwnd_stamp] by simp
  show "bytes_acked tp' = bytes_acked tp" using arg_cong [OF e, of bytes_acked] by simp
  show "icsk_ca_state tp' = icsk_ca_state tp" using arg_cong [OF e, of icsk_ca_state] by simp
qed

definition spend :: "tcp_sock \<Rightarrow> tcp_sock" where
  "spend tp = bump_cwnd (tp\<lparr>snd_cwnd_cnt := ulong_uint (uint_ulong (snd_cwnd_cnt tp) - snd_cwnd tp)\<rparr>)"

lemma slow_start_loop_step:
  "slow_start_loop tp =
     (if unat (snd_cwnd tp) \<le> unat (snd_cwnd_cnt tp) then slow_start_loop (spend tp) else Some tp)"
  by (subst slow_start_loop.simps) (simp add: spend_def word_le_nat_alt)

lemma spend_same: "same_but_cwnd tp (spend tp)"
  by (simp add: same_but_cwnd_def spend_def bump_cwnd_def)

lemma spend_cnt:
  assumes "unat (snd_cwnd tp) \<le> unat (snd_cwnd_cnt tp)"
  shows "unat (snd_cwnd_cnt (spend tp)) = unat (snd_cwnd_cnt tp) - unat (snd_cwnd tp)"
proof -
  have "unat (uint_ulong (snd_cwnd_cnt tp) - snd_cwnd tp) = unat (snd_cwnd_cnt tp) - unat (snd_cwnd tp)"
    using assms by (simp add: unat_sub word_le_nat_alt)
  moreover have "unat (snd_cwnd_cnt tp) - unat (snd_cwnd tp) < 4294967296"
    using unat32_less [of "snd_cwnd_cnt tp"] by linarith
  ultimately show ?thesis by (simp add: spend_def unat_ulong_uint)
qed

lemma spend_cwnd:
  "unat (snd_cwnd (spend tp)) =
     (if unat (snd_cwnd tp) < unat (snd_cwnd_clamp tp) then unat (snd_cwnd tp) + 1
      else unat (snd_cwnd tp))"
  by (simp add: spend_def unat_bump_cwnd)

text \<open>
  The credit is conserved while the window grows below its clamp: a window that grew from
  \<open>w\<close> to \<open>w'\<close> was paid \<open>w + (w + 1) + \<dots> + (w' - 1)\<close>, so twice the credit plus
  \<open>w (w - 1)\<close> does not change.
\<close>

definition credit :: "tcp_sock \<Rightarrow> int" where
  "credit tp = 2 * int (unat (snd_cwnd_cnt tp))
     + int (unat (snd_cwnd tp)) * (int (unat (snd_cwnd tp)) - 1)"

lemma credit_spend:
  assumes "unat (snd_cwnd tp) \<le> unat (snd_cwnd_cnt tp)"
    and "unat (snd_cwnd tp) < unat (snd_cwnd_clamp tp)"
  shows "credit (spend tp) = credit tp"
  using assms by (simp add: credit_def spend_cnt spend_cwnd of_nat_diff algebra_simps)

definition loop_result :: "tcp_sock \<Rightarrow> tcp_sock \<Rightarrow> bool" where
  "loop_result tp tp' \<longleftrightarrow> same_but_cwnd tp tp'
     \<and> unat (snd_cwnd_cnt tp') < unat (snd_cwnd tp')
     \<and> unat (snd_cwnd tp) \<le> unat (snd_cwnd tp')
     \<and> unat (snd_cwnd tp') \<le> max (unat (snd_cwnd tp)) (unat (snd_cwnd_clamp tp))
     \<and> (unat (snd_cwnd tp') < unat (snd_cwnd_clamp tp) \<longrightarrow> credit tp' = credit tp)"

lemma loop_result_spend:
  assumes r: "loop_result (spend tp) tp'" and le: "unat (snd_cwnd tp) \<le> unat (snd_cwnd_cnt tp)"
  shows "loop_result tp tp'"
proof -
  have s: "same_but_cwnd tp tp'"
    using r spend_same same_but_cwnd_trans unfolding loop_result_def by blast
  have c: "snd_cwnd_clamp (spend tp) = snd_cwnd_clamp tp" by (simp add: spend_def)
  have "unat (snd_cwnd tp') < unat (snd_cwnd_clamp tp) \<longrightarrow> credit tp' = credit tp"
    using r credit_spend [OF le] spend_cwnd [of tp]
    by (cases "unat (snd_cwnd tp) < unat (snd_cwnd_clamp tp)") (auto simp: loop_result_def c)
  then show ?thesis using r s spend_cwnd [of tp] by (auto simp: loop_result_def c split: if_splits)
qed

lemma slow_start_loop_pos:
  "0 < unat (snd_cwnd tp) \<Longrightarrow> \<exists>tp'. slow_start_loop tp = Some tp' \<and> loop_result tp tp'"
proof (induction "unat (snd_cwnd_cnt tp)" arbitrary: tp rule: less_induct)
  case less
  show ?case
  proof (cases "unat (snd_cwnd tp) \<le> unat (snd_cwnd_cnt tp)")
    case True
    have "unat (snd_cwnd_cnt (spend tp)) < unat (snd_cwnd_cnt tp)"
      using True less.prems by (simp add: spend_cnt)
    moreover have "0 < unat (snd_cwnd (spend tp))"
      using less.prems by (simp add: spend_cwnd)
    ultimately obtain tp' where "slow_start_loop (spend tp) = Some tp'" "loop_result (spend tp) tp'"
      using less.hyps by blast
    then show ?thesis using True loop_result_spend slow_start_loop_step [of tp] by auto
  next
    case False
    then show ?thesis using slow_start_loop_step [of tp] by (simp add: loop_result_def)
  qed
qed

lemma slow_start_loop_total:
  assumes "snd_cwnd tp \<noteq> 0 \<or> snd_cwnd_clamp tp \<noteq> 0"
  shows "\<exists>tp'. slow_start_loop tp = Some tp' \<and> loop_result tp tp'"
proof (cases "snd_cwnd tp = 0")
  case True
  then have "0 < unat (snd_cwnd (spend tp))"
    using assms by (simp add: spend_cwnd unat_gt_0)
  then obtain tp' where "slow_start_loop (spend tp) = Some tp'" "loop_result (spend tp) tp'"
    using slow_start_loop_pos by blast
  then show ?thesis using True loop_result_spend slow_start_loop_step [of tp] by auto
next
  case False
  then show ?thesis using slow_start_loop_pos [of tp] by (simp add: unat_gt_0)
qed

lemma slow_start_loop_returns:
  "slow_start_loop tp = Some tp' \<Longrightarrow> \<not> (snd_cwnd tp = 0 \<and> snd_cwnd_clamp tp = 0)"
proof (rule slow_start_loop.raw_induct [where P = "\<lambda>tp tp'. \<not> (snd_cwnd tp = 0 \<and> snd_cwnd_clamp tp = 0)"])
  fix loop tp y
  assume IH: "\<And>tp y. loop tp = Some y \<Longrightarrow> \<not> (snd_cwnd tp = 0 \<and> snd_cwnd_clamp tp = 0)"
    and r: "(if snd_cwnd tp \<le> uint_ulong (snd_cwnd_cnt tp)
             then loop (bump_cwnd (tp\<lparr>snd_cwnd_cnt := ulong_uint (uint_ulong (snd_cwnd_cnt tp) - snd_cwnd tp)\<rparr>))
             else Some tp) = Some y"
  show "\<not> (snd_cwnd tp = 0 \<and> snd_cwnd_clamp tp = 0)"
  proof
    assume z: "snd_cwnd tp = 0 \<and> snd_cwnd_clamp tp = 0"
    then have "loop (spend tp) = Some y" using r by (simp add: spend_def)
    from IH [OF this] show False using z by (simp add: spend_def bump_cwnd_def)
  qed
qed

lemma slow_start_loop_diverges:
  "slow_start_loop tp = None \<longleftrightarrow> snd_cwnd tp = 0 \<and> snd_cwnd_clamp tp = 0"
  using slow_start_loop_total [of tp] slow_start_loop_returns [of tp]
  by (cases "slow_start_loop tp") auto

section \<open>What an acknowledgment may do to the window\<close>

definition same_but_growth :: "tcp_sock \<Rightarrow> tcp_sock \<Rightarrow> bool" where
  "same_but_growth tp tp' \<longleftrightarrow>
     tp'\<lparr>snd_cwnd := 0, snd_cwnd_cnt := 0, bytes_acked := 0\<rparr> =
     tp\<lparr>snd_cwnd := 0, snd_cwnd_cnt := 0, bytes_acked := 0\<rparr>"

definition window_step :: "tcp_sock \<Rightarrow> tcp_sock \<Rightarrow> bool" where
  "window_step tp tp' \<longleftrightarrow> same_but_growth tp tp' \<and> snd_cwnd tp \<le> snd_cwnd tp'
     \<and> snd_cwnd tp' \<le> max (snd_cwnd tp) (uint_ulong (snd_cwnd_clamp tp))"

lemma same_but_growthD:
  assumes "same_but_growth tp tp'"
  shows "snd_nxt tp' = snd_nxt tp" "snd_una tp' = snd_una tp" "mss_cache tp' = mss_cache tp"
    "srtt tp' = srtt tp" "rx_opt tp' = rx_opt tp" "snd_ssthresh tp' = snd_ssthresh tp"
    "snd_cwnd_clamp tp' = snd_cwnd_clamp tp" "snd_cwnd_stamp tp' = snd_cwnd_stamp tp"
    "icsk_ca_state tp' = icsk_ca_state tp"
proof -
  note e = assms [unfolded same_but_growth_def]
  show "snd_nxt tp' = snd_nxt tp" using arg_cong [OF e, of snd_nxt] by simp
  show "snd_una tp' = snd_una tp" using arg_cong [OF e, of snd_una] by simp
  show "mss_cache tp' = mss_cache tp" using arg_cong [OF e, of mss_cache] by simp
  show "srtt tp' = srtt tp" using arg_cong [OF e, of srtt] by simp
  show "rx_opt tp' = rx_opt tp" using arg_cong [OF e, of rx_opt] by simp
  show "snd_ssthresh tp' = snd_ssthresh tp" using arg_cong [OF e, of snd_ssthresh] by simp
  show "snd_cwnd_clamp tp' = snd_cwnd_clamp tp" using arg_cong [OF e, of snd_cwnd_clamp] by simp
  show "snd_cwnd_stamp tp' = snd_cwnd_stamp tp" using arg_cong [OF e, of snd_cwnd_stamp] by simp
  show "icsk_ca_state tp' = icsk_ca_state tp" using arg_cong [OF e, of icsk_ca_state] by simp
qed

lemma window_step_refl [simp]: "window_step tp tp"
  by (simp add: window_step_def same_but_growth_def)

lemma window_step_trans:
  assumes "window_step a b" and "window_step b c"
  shows "window_step a c"
  using assms same_but_growthD(7) [of a b]
  by (auto simp: window_step_def same_but_growth_def le_max_iff_disj)

lemma window_step_bump [simp]: "window_step tp (bump_cwnd tp)"
  unfolding window_step_def word_le_nat_alt unat_max unat_bump_cwnd
  by (auto simp: same_but_growth_def bump_cwnd_def)

lemma window_step_cnt [simp]:
  "window_step tp (tp'\<lparr>snd_cwnd_cnt := c\<rparr>) = window_step tp tp'"
  "window_step tp (tp'\<lparr>bytes_acked := b\<rparr>) = window_step tp tp'"
  "window_step (tp\<lparr>snd_cwnd_cnt := c\<rparr>) tp' = window_step tp tp'"
  "window_step (tp\<lparr>bytes_acked := b\<rparr>) tp' = window_step tp tp'"
  by (simp_all add: window_step_def same_but_growth_def)

lemma window_step_loop: "loop_result tp tp' \<Longrightarrow> window_step tp tp'"
  by (auto simp: loop_result_def window_step_def same_but_growth_def same_but_cwnd_def
      word_le_nat_alt unat_max)

lemma tcp_slow_start_ok:
  assumes "snd_cwnd tp \<noteq> 0 \<or> snd_cwnd_clamp tp \<noteq> 0"
  shows "\<exists>tp'. tcp_slow_start env tp = Some tp' \<and> window_step tp tp'"
proof (cases "sysctl_tcp_abc env \<noteq> 0 \<and> bytes_acked tp < mss_cache tp")
  case True
  then show ?thesis by (simp add: tcp_slow_start_def)
next
  case False
  define tq where "tq = tp\<lparr>bytes_acked := 0, snd_cwnd_cnt := snd_cwnd_cnt tp + slow_start_cnt env tp\<rparr>"
  have "snd_cwnd tq \<noteq> 0 \<or> snd_cwnd_clamp tq \<noteq> 0" using assms by (simp add: tq_def)
  from slow_start_loop_total [OF this] obtain tp' where
    "slow_start_loop tq = Some tp'" "window_step tq tp'"
    using window_step_loop by blast
  then show ?thesis using False by (auto simp: tcp_slow_start_def tq_def Let_def)
qed

lemma tcp_reno_cong_avoid_ok:
  assumes "snd_cwnd tp \<noteq> 0 \<or> snd_cwnd_clamp tp \<noteq> 0"
  shows "\<exists>tp'. tcp_reno_cong_avoid env ack rtt in_flight flag tp = Some tp' \<and> window_step tp tp'"
  using tcp_slow_start_ok [OF assms, of env]
    window_step_bump [of "tp\<lparr>bytes_acked := bytes_acked tp - snd_cwnd tp * mss_cache tp\<rparr>"]
    window_step_bump [of tp]
  by (auto simp: tcp_reno_cong_avoid_def simp del: window_step_bump)

lemma window_step_nonzero: "window_step tp tp' \<Longrightarrow> snd_cwnd tp \<noteq> 0 \<Longrightarrow> snd_cwnd tp' \<noteq> 0"
  by (auto simp: window_step_def)

section \<open>How much slow start grows the window\<close>

lemma slow_start_loop_no: "unat (snd_cwnd_cnt tp) < unat (snd_cwnd tp) \<Longrightarrow> slow_start_loop tp = Some tp"
  by (subst slow_start_loop_step) simp

text \<open>One round of the loop: less than two windows of credit, one packet.\<close>

lemma slow_start_loop_once:
  assumes "unat (snd_cwnd tp) \<le> unat (snd_cwnd_cnt tp)"
    and "unat (snd_cwnd_cnt tp) < 2 * unat (snd_cwnd tp)"
  shows "slow_start_loop tp = Some (spend tp)"
proof -
  have "unat (snd_cwnd_cnt (spend tp)) < unat (snd_cwnd (spend tp))"
    using assms by (auto simp: spend_cnt spend_cwnd)
  then show ?thesis using assms(1) by (subst slow_start_loop_step) (simp add: slow_start_loop_no)
qed

lemma unat_cwnd_int:
  assumes "unat (w :: u32) < 2 ^ 31"
  shows "unat (ucast w :: cint) = unat w"
  using assms by (simp add: unat_ulong_uint)

lemma cnt_add:
  assumes "unat a + unat b < 2 ^ 32"
  shows "unat (a + b) = unat a + unat (b :: u16)"
  using assms by (simp add: unat_word_ariths)

lemma slow_start_cnt_basic:
  assumes "sysctl_tcp_max_ssthresh env = 0"
    and "sysctl_tcp_abc env \<le> 1 \<or> bytes_acked tp < 2 * mss_cache tp"
  shows "slow_start_cnt env tp = ucast (snd_cwnd tp)"
  using assms by (auto simp: slow_start_cnt_def Let_def)

lemma tcp_slow_start_basic:
  assumes "sysctl_tcp_max_ssthresh env = 0"
    and "sysctl_tcp_abc env \<le> 1 \<or> bytes_acked tp < 2 * mss_cache tp"
    and "sysctl_tcp_abc env = 0 \<or> mss_cache tp \<le> bytes_acked tp"
    and "unat (snd_cwnd_cnt tp) < unat (snd_cwnd tp)" and "unat (snd_cwnd tp) < 2 ^ 31"
  shows "tcp_slow_start env tp = Some ((bump_cwnd tp)\<lparr>bytes_acked := 0\<rparr>)"
proof -
  define tq where "tq = tp\<lparr>bytes_acked := 0, snd_cwnd_cnt := snd_cwnd_cnt tp + ucast (snd_cwnd tp)\<rparr>"
  have c: "unat (snd_cwnd_cnt tq) = unat (snd_cwnd_cnt tp) + unat (snd_cwnd tp)"
    using assms(4,5) by (simp add: tq_def cnt_add unat_cwnd_int)
  then have "slow_start_loop tq = Some (spend tq)"
    using assms(4) by (intro slow_start_loop_once) (simp_all add: tq_def)
  moreover have "spend tq = (bump_cwnd tp)\<lparr>bytes_acked := 0\<rparr>"
  proof -
    have le: "unat (snd_cwnd tq) \<le> unat (snd_cwnd_cnt tq)" using c by (simp add: tq_def)
    have "unat (snd_cwnd_cnt (spend tq)) = unat (snd_cwnd_cnt tp)"
      unfolding spend_cnt [OF le] c by (simp add: tq_def)
    then have "snd_cwnd_cnt (spend tq) = snd_cwnd_cnt tp" by (rule word_unat_eq_iff [THEN iffD2])
    moreover have "snd_cwnd_cnt (spend tq) = ulong_uint (uint_ulong (snd_cwnd_cnt tq) - snd_cwnd tq)"
      by (simp add: spend_def)
    ultimately show ?thesis unfolding spend_def by (simp add: tq_def bump_cwnd_def)
  qed
  ultimately show ?thesis
    using assms(3) slow_start_cnt_basic [OF assms(1,2)]
    by (auto simp: tcp_slow_start_def tq_def Let_def)
qed

text \<open>
  Less than three windows of credit, at most two packets: slow start with the byte counting of
  RFC 3465 and a limit of two segments.
\<close>

lemma slow_start_loop_twice:
  assumes "unat (snd_cwnd_cnt tp) < 3 * unat (snd_cwnd tp)"
    and "slow_start_loop tp = Some tp'"
  shows "unat (snd_cwnd tp') \<le> unat (snd_cwnd tp) + 2"
proof (cases "unat (snd_cwnd tp) \<le> unat (snd_cwnd_cnt tp)")
  case True
  define t1 where "t1 = spend tp"
  have t1: "unat (snd_cwnd_cnt t1) = unat (snd_cwnd_cnt tp) - unat (snd_cwnd tp)"
    "unat (snd_cwnd t1) \<le> unat (snd_cwnd tp) + 1" "unat (snd_cwnd tp) \<le> unat (snd_cwnd t1)"
    using True by (auto simp: t1_def spend_cnt spend_cwnd)
  have r: "slow_start_loop t1 = Some tp'"
    using assms(2) True slow_start_loop_step [of tp] by (simp add: t1_def)
  show ?thesis
  proof (cases "unat (snd_cwnd t1) \<le> unat (snd_cwnd_cnt t1)")
    case True
    have "unat (snd_cwnd_cnt t1) < 2 * unat (snd_cwnd t1)" using t1 assms(1) by linarith
    then have "tp' = spend t1" using slow_start_loop_once [OF True] r by simp
    then show ?thesis using t1(2) by (auto simp: spend_cwnd)
  next
    case False
    then have "tp' = t1" using slow_start_loop_no [of t1] r by simp
    then show ?thesis using t1(2) by simp
  qed
next
  case False
  then show ?thesis using slow_start_loop_no [of tp] assms(2) by simp
qed

lemma slow_start_cnt_le:
  assumes "0 \<le> sint (sysctl_tcp_max_ssthresh env)" and "unat (snd_cwnd tp) < 2 ^ 30"
  shows "unat (slow_start_cnt env tp) \<le> 2 * unat (snd_cwnd tp)"
    and "sysctl_tcp_abc env \<le> 1 \<Longrightarrow> unat (slow_start_cnt env tp) \<le> unat (snd_cwnd tp)"
proof -
  define m where "m = sysctl_tcp_max_ssthresh env"
  define c where "c = (if 0 <s m \<and> int_ulong m < snd_cwnd tp then signed_drop_bit 1 m
    else (ucast (snd_cwnd tp) :: cint))"
  have w: "unat (ucast (snd_cwnd tp) :: cint) = unat (snd_cwnd tp)"
    using assms(2) by (simp add: unat_cwnd_int)
  have c: "unat c \<le> unat (snd_cwnd tp)"
  proof (cases "0 <s m \<and> int_ulong m < snd_cwnd tp")
    case True
    have m0: "0 \<le> sint m" using assms(1) by (simp add: m_def)
    have "sint (signed_drop_bit 1 m) = sint m div 2"
      by (simp add: sint_signed_drop_bit_eq drop_bit_eq_div)
    then have "int (unat (signed_drop_bit 1 m)) = sint m div 2"
      using int_unat_sint [of "signed_drop_bit 1 m"] m0 by linarith
    then have "unat (signed_drop_bit 1 m) = nat (sint m div 2)" by linarith
    moreover have "nat (sint m) < unat (snd_cwnd tp)"
      using True unat_int_ulong [OF m0] by (simp add: word_less_nat_alt)
    ultimately show ?thesis using True m0 by (simp add: c_def)
  qed (auto simp: c_def w)
  have e: "slow_start_cnt env tp =
      (if 1 < sysctl_tcp_abc env \<and> 2 * mss_cache tp \<le> bytes_acked tp then push_bit 1 c else c)"
    by (simp add: slow_start_cnt_def Let_def c_def m_def)
  have "unat (push_bit 1 c) = unat c * 2 mod 4294967296" by (simp only: unat_push_bit) simp
  then have "unat (push_bit 1 c) \<le> 2 * unat (snd_cwnd tp)"
    using c mod_less_eq_dividend [of "unat c * 2" 4294967296] by linarith
  then show "unat (slow_start_cnt env tp) \<le> 2 * unat (snd_cwnd tp)" using c e by simp
  show "sysctl_tcp_abc env \<le> 1 \<Longrightarrow> unat (slow_start_cnt env tp) \<le> unat (snd_cwnd tp)"
    using c e by (simp add: not_less [symmetric])
qed

lemma tcp_slow_start_growth:
  assumes "0 \<le> sint (sysctl_tcp_max_ssthresh env)" and "unat (snd_cwnd tp) < 2 ^ 30"
    and "unat (snd_cwnd_cnt tp) < unat (snd_cwnd tp)"
    and "tcp_slow_start env tp = Some tp'"
  shows "unat (snd_cwnd tp') \<le> unat (snd_cwnd tp) + (if sysctl_tcp_abc env \<le> 1 then 1 else 2)"
    and "unat (snd_cwnd_cnt tp') < unat (snd_cwnd tp')"
proof -
  define tq where "tq = tp\<lparr>bytes_acked := 0, snd_cwnd_cnt := snd_cwnd_cnt tp + slow_start_cnt env tp\<rparr>"
  have q: "unat (snd_cwnd_cnt tq) = unat (snd_cwnd_cnt tp) + unat (slow_start_cnt env tp)"
    "snd_cwnd tq = snd_cwnd tp"
    using slow_start_cnt_le [OF assms(1,2)] assms(2,3) by (simp_all add: tq_def cnt_add)
  have "(sysctl_tcp_abc env \<noteq> 0 \<and> bytes_acked tp < mss_cache tp \<and> tp' = tp) \<or> slow_start_loop tq = Some tp'"
    using assms(4) by (auto simp: tcp_slow_start_def tq_def Let_def split: if_splits)
  then show "unat (snd_cwnd tp') \<le> unat (snd_cwnd tp) + (if sysctl_tcp_abc env \<le> 1 then 1 else 2)"
  proof
    assume r: "slow_start_loop tq = Some tp'"
    show ?thesis
    proof (cases "sysctl_tcp_abc env \<le> 1")
      case True
      then have lt: "unat (snd_cwnd_cnt tq) < 2 * unat (snd_cwnd tq)"
        using q slow_start_cnt_le(2) [OF assms(1,2)] assms(3) by simp
      have "tp' = tq \<or> tp' = spend tq"
        using slow_start_loop_no [of tq] slow_start_loop_once [of tq] lt r
        by (cases "unat (snd_cwnd tq) \<le> unat (snd_cwnd_cnt tq)") auto
      then show ?thesis using True q(2) by (auto simp: spend_cwnd)
    next
      case False
      have "unat (snd_cwnd_cnt tq) < 3 * unat (snd_cwnd tq)"
        using q slow_start_cnt_le(1) [OF assms(1,2)] assms(3) by simp
      from slow_start_loop_twice [OF this r] show ?thesis using False q(2) by simp
    qed
  qed simp
  show "unat (snd_cwnd_cnt tp') < unat (snd_cwnd tp')"
  proof (cases "slow_start_loop tq = Some tp'")
    case True
    have "snd_cwnd tq \<noteq> 0" using assms(3) q(2) unat_gt_0 by fastforce
    then show ?thesis using slow_start_loop_total [of tq] True by (auto simp: loop_result_def)
  next
    case False
    then show ?thesis using assms(3,4) by (auto simp: tcp_slow_start_def tq_def Let_def split: if_splits)
  qed
qed

section \<open>Congestion avoidance\<close>

text \<open>Repeating an operation that may fail.\<close>

fun repeat_op :: "nat \<Rightarrow> ('a \<Rightarrow> 'a option) \<Rightarrow> 'a \<Rightarrow> 'a option" where
  "repeat_op 0 f x = Some x"
| "repeat_op (Suc n) f x = Option.bind (f x) (repeat_op n f)"

lemma repeat_op_snoc: "repeat_op (Suc n) f x = Option.bind (repeat_op n f x) f"
proof (induction n arbitrary: x)
  case (Suc n)
  have "repeat_op (Suc (Suc n)) f x = Option.bind (f x) (\<lambda>y. repeat_op (Suc n) f y)"
    by (rule repeat_op.simps(2))
  also have "\<dots> = Option.bind (f x) (\<lambda>y. Option.bind (repeat_op n f y) f)"
    by (simp only: Suc.IH)
  also have "\<dots> = Option.bind (repeat_op (Suc n) f x) f" by (cases "f x") simp_all
  finally show ?case .
next
  case 0
  show ?case by (cases "f x") simp_all
qed

lemma reno_avoid_step:
  assumes "sysctl_tcp_abc env = 0" and "snd_ssthresh tp < snd_cwnd tp" and "snd_cwnd tp \<le> in_flight"
  shows "tcp_reno_cong_avoid env ack rtt in_flight flag tp =
     Some (if unat (snd_cwnd tp) \<le> unat (snd_cwnd_cnt tp) then (bump_cwnd tp)\<lparr>snd_cwnd_cnt := 0\<rparr>
           else tp\<lparr>snd_cwnd_cnt := snd_cwnd_cnt tp + 1\<rparr>)"
  using assms by (simp add: tcp_reno_cong_avoid_def tcp_is_cwnd_limited_def word_le_nat_alt word_less_nat_alt)

lemma reno_avoid_count:
  assumes "sysctl_tcp_abc env = 0" and "snd_ssthresh tp < snd_cwnd tp" and "snd_cwnd tp \<le> in_flight"
    and "snd_cwnd_cnt tp = 0" and "n \<le> unat (snd_cwnd tp)" and "unat (snd_cwnd tp) < 2 ^ 32"
  shows "repeat_op n (tcp_reno_cong_avoid env ack rtt in_flight flag) tp =
     Some (tp\<lparr>snd_cwnd_cnt := of_nat n\<rparr>)"
  using assms(5)
proof (induction n)
  case 0
  then show ?case using assms(4) by (simp add: tcp_sock.surjective)
next
  case (Suc n)
  have "unat (of_nat n :: u16) = n"
    using Suc.prems assms(6) by (simp add: unat_of_nat take_bit_nat_eq_self)
  then show ?case
    using Suc assms(1-3) unfolding repeat_op_snoc
    by (simp add: reno_avoid_step)
qed

lemma reno_avoid_period:
  assumes "sysctl_tcp_abc env = 0" and "snd_ssthresh tp < snd_cwnd tp" and "snd_cwnd tp \<le> in_flight"
    and "snd_cwnd_cnt tp = 0" and "unat (snd_cwnd tp) < 2 ^ 32"
  shows "repeat_op (Suc (unat (snd_cwnd tp))) (tcp_reno_cong_avoid env ack rtt in_flight flag) tp =
     Some (bump_cwnd tp)"
proof -
  define tq where "tq = tp\<lparr>snd_cwnd_cnt := of_nat (unat (snd_cwnd tp))\<rparr>"
  have "unat (of_nat (unat (snd_cwnd tp)) :: u16) = unat (snd_cwnd tp)"
    using assms(5) by (simp add: unat_ulong_uint)
  then have "tcp_reno_cong_avoid env ack rtt in_flight flag tq = Some ((bump_cwnd tq)\<lparr>snd_cwnd_cnt := 0\<rparr>)"
    using assms(1-3) by (simp add: tq_def reno_avoid_step)
  moreover have "(bump_cwnd tq)\<lparr>snd_cwnd_cnt := 0\<rparr> = bump_cwnd tp"
    using assms(4) by (simp add: tq_def bump_cwnd_def)
  ultimately show ?thesis
    using reno_avoid_count [OF assms(1-4) order_refl assms(5)] unfolding repeat_op_snoc
    by (simp add: tq_def)
qed

section \<open>Thresholds\<close>

lemma unat_tcp_reno_ssthresh: "unat (tcp_reno_ssthresh tp) = max (unat (snd_cwnd tp) div 2) 2"
  by (simp add: tcp_reno_ssthresh_def unat_max unat_drop_bit_div)

lemma naive_reno_ssthresh_None: "tcp_naive_reno_ssthresh par tp = None \<longleftrightarrow> nr_beta par = 0"
  by (simp add: tcp_naive_reno_ssthresh_def bind_None_iff udiv_eq_None_iff)

lemma naive_reno_default_ssthresh:
  assumes "unat (snd_cwnd tp) < 2 ^ 31"
  shows "\<exists>s. tcp_naive_reno_ssthresh naive_reno_default tp = Some s
     \<and> unat s = max (unat (snd_cwnd tp) - unat (snd_cwnd tp) div 2) 2"
proof -
  have "unat (snd_cwnd tp div 2) = unat (snd_cwnd tp) div 2" by (simp add: unat_div_distrib)
  moreover have "unat (int_ulong (ucast (snd_cwnd tp div 2) :: cint)) = unat (snd_cwnd tp div 2)"
  proof -
    have lt: "unat (snd_cwnd tp div 2) < 2 ^ 31" using assms by (simp add: unat_div_distrib)
    have "0 \<le> sint (ucast (snd_cwnd tp div 2) :: cint)"
      using lt by (subst sint_of_small) (simp_all add: unat_cwnd_int)
    from unat_int_ulong [OF this] show ?thesis
      using lt sint_of_small [of "ucast (snd_cwnd tp div 2) :: cint"] by (simp add: unat_cwnd_int)
  qed
  ultimately show ?thesis
    by (simp add: tcp_naive_reno_ssthresh_def naive_reno_default_def unat_max unat_sub word_le_nat_alt)
qed

section \<open>Reno keeps the contract of a module\<close>

lemma window_step_sock_ok:
  assumes "window_step tp tp'" and "sock_ok tp"
  shows "sock_ok tp'"
proof -
  have "unat (snd_cwnd tp') \<le> max (unat (snd_cwnd tp)) (unat (snd_cwnd_clamp tp))"
    using assms(1) by (auto simp: window_step_def word_le_nat_alt unat_max)
  then show ?thesis
    using assms same_but_growthD [of tp tp'] window_step_nonzero [OF assms(1)]
    by (auto simp: sock_ok_def small_def window_step_def)
qed

lemma sock_ok_simps [simp]:
  "sock_ok (tp\<lparr>snd_cwnd_cnt := c\<rparr>) = sock_ok tp"
  "sock_ok (tp\<lparr>bytes_acked := x\<rparr>) = sock_ok tp"
  "sock_ok (tp\<lparr>snd_cwnd_stamp := x\<rparr>) = sock_ok tp"
  "sock_ok (tp\<lparr>icsk_ca_state := st\<rparr>) = sock_ok tp"
  "sock_ok (tp\<lparr>srtt := x\<rparr>) = sock_ok tp"
  "sock_ok (tp\<lparr>snd_nxt := x\<rparr>) = sock_ok tp"
  "sock_ok (tp\<lparr>snd_una := x\<rparr>) = sock_ok tp"
  by (simp_all add: sock_ok_def)

lemma sock_ok_ssthresh: "sock_ok tp \<Longrightarrow> small s \<Longrightarrow> sock_ok (tp\<lparr>snd_ssthresh := s\<rparr>)"
  by (simp add: sock_ok_def)

lemma sock_ok_cwnd: "sock_ok tp \<Longrightarrow> small w \<Longrightarrow> w \<noteq> 0 \<Longrightarrow> sock_ok (tp\<lparr>snd_cwnd := w\<rparr>)"
  by (simp add: sock_ok_def)

lemma sock_ok_bump: "sock_ok tp \<Longrightarrow> sock_ok (bump_cwnd tp)"
  by (rule window_step_sock_ok [OF window_step_bump])

lemma sock_ok_nonzero: "sock_ok tp \<Longrightarrow> snd_cwnd tp \<noteq> 0"
  by (simp add: sock_ok_def)

lemma sock_ok_slow_start:
  "sock_ok tp \<Longrightarrow> \<exists>tp'. tcp_slow_start env tp = Some tp' \<and> window_step tp tp' \<and> sock_ok tp'"
  using tcp_slow_start_ok sock_ok_nonzero window_step_sock_ok by blast

lemma sock_ok_reno_cong_avoid:
  "sock_ok tp \<Longrightarrow> \<exists>tp'. tcp_reno_cong_avoid env ack rtt in_flight flag tp = Some tp'
     \<and> window_step tp tp' \<and> sock_ok tp'"
  using tcp_reno_cong_avoid_ok sock_ok_nonzero window_step_sock_ok by blast

lemma small_half: "small x \<Longrightarrow> small (x div 2)"
  by (simp add: small_def unat_div_distrib)

lemma reno_ssthresh_law:
  "sock_ok tp \<Longrightarrow> 2 \<le> unat (tcp_reno_ssthresh tp) \<and> small (tcp_reno_ssthresh tp)"
  using div_le_dividend [of "unat (snd_cwnd tp)" 2]
  by (auto simp: small_def unat_tcp_reno_ssthresh sock_ok_def simp del: div_le_dividend)

lemma reno_min_cwnd_law:
  assumes "sock_ok tp" and "2 \<le> unat (snd_ssthresh tp)"
  shows "tcp_reno_min_cwnd tp \<noteq> 0 \<and> small (tcp_reno_min_cwnd tp)"
proof -
  have "0 < unat (tcp_reno_min_cwnd tp)"
    using assms(2) by (simp add: tcp_reno_min_cwnd_def unat_div_distrib)
  then have "tcp_reno_min_cwnd tp \<noteq> 0" using unat_gt_0 by blast
  then show ?thesis
    using assms(1) by (simp add: tcp_reno_min_cwnd_def small_half sock_ok_def)
qed

lemmas reno_laws = reno_ssthresh_law reno_min_cwnd_law sock_ok_reno_cong_avoid

interpretation reno: cong_module tcp_reno sock_ok "\<lambda>_ _. True"
proof unfold_locales
  fix tp :: tcp_sock and p :: unit and env ack rtt in_flight flag
  assume "clock_ok env" "sock_ok tp"
  then show "\<exists>tp' p'. ca_cong_avoid tcp_reno env ack rtt in_flight flag tp p = Some (tp', p')
      \<and> sock_ok tp' \<and> True"
    using sock_ok_reno_cong_avoid [of tp env ack rtt in_flight flag]
    by (auto simp: tcp_reno_def stateless_def)
qed (simp_all add: tcp_reno_def run_defs reno_ssthresh_law reno_min_cwnd_law)

section \<open>Naive Reno keeps it for its default parameters\<close>

lemma naive_reno_cong_avoid_window:
  assumes "sock_ok tp"
  shows "\<exists>tp'. tcp_naive_reno_cong_avoid naive_reno_default env ack rtt in_flight flag tp = Some tp'
    \<and> sock_ok tp'"
proof -
  have w: "unat (snd_cwnd tp + 1) = unat (snd_cwnd tp) + 1"
    using assms by (simp add: sock_ok_def small_def unat_word_ariths)
  then have nz: "snd_cwnd tp + 1 \<noteq> 0" by (metis add_is_0 one_neq_zero unat_0)
  show ?thesis
    using assms w nz
    by (auto simp: tcp_naive_reno_cong_avoid_def naive_reno_default_def Let_def sock_ok_def
        small_def word_less_nat_alt)
qed

lemma naive_reno_ssthresh_window:
  assumes "sock_ok tp"
  shows "\<exists>s. tcp_naive_reno_ssthresh naive_reno_default tp = Some s \<and> 2 \<le> unat s \<and> small s"
proof -
  have "unat (snd_cwnd tp) < 2 ^ 31" using assms by (simp add: sock_ok_def small_def)
  from naive_reno_default_ssthresh [OF this] obtain s where
    "tcp_naive_reno_ssthresh naive_reno_default tp = Some s"
    "unat s = max (unat (snd_cwnd tp) - unat (snd_cwnd tp) div 2) 2" by blast
  moreover from this(2) have "2 \<le> unat s" "unat s \<le> max (unat (snd_cwnd tp)) 2" by auto
  ultimately show ?thesis using assms by (auto simp: sock_ok_def small_def)
qed

interpretation naive_reno: cong_module "tcp_naive_reno naive_reno_default" sock_ok "\<lambda>_ _. True"
proof unfold_locales
  fix tp :: tcp_sock and p :: unit and env ack rtt in_flight flag
  assume "clock_ok env" "sock_ok tp"
  then show "\<exists>tp' p'. ca_cong_avoid (tcp_naive_reno naive_reno_default) env ack rtt in_flight flag tp p
      = Some (tp', p') \<and> sock_ok tp' \<and> True"
    using naive_reno_cong_avoid_window [of tp env ack rtt in_flight flag]
    by (auto simp: tcp_naive_reno_def stateless_def)
next
  fix tp :: tcp_sock and p :: unit and env and b :: bool
  assume "clock_ok env" "sock_ok tp"
  then show "\<exists>s p'. ca_ssthresh (tcp_naive_reno naive_reno_default) env tp p = Some (s, p')
      \<and> 2 \<le> unat s \<and> small s \<and> True"
    using naive_reno_ssthresh_window [of tp] by (auto simp: tcp_naive_reno_def)
next
  fix tp :: tcp_sock and p :: unit and b :: bool
  assume "sock_ok tp" "True" "2 \<le> unat (snd_ssthresh tp)"
  then show "\<exists>w. run_min_cwnd (tcp_naive_reno naive_reno_default) tp p = Some w \<and> w \<noteq> 0 \<and> small w"
    by (auto simp: tcp_naive_reno_def run_defs tcp_naive_reno_min_cwnd_def sock_ok_def)
qed (simp_all add: tcp_naive_reno_def run_defs)

section \<open>The ratio of packets to acknowledgments\<close>

text \<open>
  BIC and CUBIC keep \<^verbatim>\<open>delayed_ack\<close>, a fixed-point average scaled by 16.  It stays at least one packet per
  acknowledgment and never overflows, so the scaling by it never divides by zero.
\<close>

definition ratio_ok :: "u32 \<Rightarrow> bool" where
  "ratio_ok d \<longleftrightarrow> 16 \<le> unat d \<and> unat d < 2 ^ 36"

lemma ratio_update:
  assumes "ratio_ok d" and "0 < cnt" and "small cnt"
  shows "unat (d + (cnt - drop_bit 4 d)) = unat d - unat d div 16 + unat cnt"
    and "ratio_ok (d + (cnt - drop_bit 4 d))"
proof -
  have d: "16 \<le> unat d" "unat d < 68719476736" using assms(1) by (simp_all add: ratio_ok_def)
  have c: "0 < unat cnt" "unat cnt < 2147483648"
    using assms(2,3) by (simp_all add: small_def word_less_nat_alt)
  have q: "unat (drop_bit 4 d) = unat d div 16" by (simp add: unat_drop_bit_div)
  have e: "d + (cnt - drop_bit 4 d) = (d - drop_bit 4 d) + cnt" by simp
  have m: "unat (d - drop_bit 4 d) = unat d - unat d div 16"
    by (subst unat_sub) (simp_all add: word_le_nat_alt q)
  show u: "unat (d + (cnt - drop_bit 4 d)) = unat d - unat d div 16 + unat cnt"
    unfolding e using d c m by (simp add: unat_word_ariths)
  show "ratio_ok (d + (cnt - drop_bit 4 d))"
    unfolding ratio_ok_def u using d c by auto
qed

lemma ratio_nonzero: "ratio_ok d \<Longrightarrow> d \<noteq> 0"
  by (auto simp: ratio_ok_def)

section \<open>Properties\<close>

text \<open>
  C27: the loop of slow start ends except for a window and a clamp that are both 0, when it runs
  for ever; when it ends, the credit left is below one window, the window has not shrunk and has
  not passed its clamp, nothing else changed, and below the clamp every packet of window was
  paid for with a window's worth of credit.
\<close>

theorem slow_start_loop_outcome:
  "case slow_start_loop tp of
     None \<Rightarrow> snd_cwnd tp = 0 \<and> snd_cwnd_clamp tp = 0
   | Some tp' \<Rightarrow> \<not> (snd_cwnd tp = 0 \<and> snd_cwnd_clamp tp = 0) \<and> loop_result tp tp'"
  using slow_start_loop_total [of tp] slow_start_loop_diverges [of tp]
  by (cases "slow_start_loop tp") auto

text \<open>
  One call of \<^verbatim>\<open>tcp_slow_start\<close> opens the window by at most one packet, or two with
  Appropriate Byte Counting at level two, and leaves less than a window of credit.
\<close>

theorem slow_start_bounded:
  assumes "0 \<le> sint (sysctl_tcp_max_ssthresh env)" and "unat (snd_cwnd tp) < 2 ^ 30"
    and "unat (snd_cwnd_cnt tp) < unat (snd_cwnd tp)"
  shows "\<exists>tp'. tcp_slow_start env tp = Some tp' \<and> snd_cwnd tp \<le> snd_cwnd tp'
    \<and> unat (snd_cwnd tp') \<le> unat (snd_cwnd tp) + (if sysctl_tcp_abc env \<le> 1 then 1 else 2)
    \<and> unat (snd_cwnd_cnt tp') < unat (snd_cwnd tp')"
proof -
  have "snd_cwnd tp \<noteq> 0" using assms(3) by auto
  then obtain tp' where tp': "tcp_slow_start env tp = Some tp'" "window_step tp tp'"
    using tcp_slow_start_ok by blast
  then show ?thesis using tcp_slow_start_growth [OF assms tp'(1)] by (auto simp: window_step_def)
qed

theorem slow_start_bounded_witness:
  "\<exists>tp'. tcp_slow_start example_env (example_sock 5 100) = Some tp' \<and> unat (snd_cwnd tp') \<le> 6"
  using slow_start_bounded [of example_env "example_sock 5 100"] by (auto simp: example_defs)

text \<open>
  In congestion avoidance without byte counting, a sender limited by its window opens it by
  one packet per window plus one acknowledgments: after exactly \<open>cwnd + 1\<close> of them the counter
  is back at 0, and after none before.
\<close>

theorem reno_avoidance_period:
  assumes "sysctl_tcp_abc env = 0" and "snd_ssthresh tp < snd_cwnd tp" and "snd_cwnd tp \<le> in_flight"
    and "snd_cwnd_cnt tp = 0" and "unat (snd_cwnd tp) < 2 ^ 32" and "n \<le> Suc (unat (snd_cwnd tp))"
  shows "repeat_op n (tcp_reno_cong_avoid env ack rtt in_flight flag) tp = Some (
     if n = Suc (unat (snd_cwnd tp)) then bump_cwnd tp else tp\<lparr>snd_cwnd_cnt := of_nat n\<rparr>)"
  using assms(6) reno_avoid_period [OF assms(1-5)] reno_avoid_count [OF assms(1-4) _ assms(5), of n]
  by (cases "n = Suc (unat (snd_cwnd tp))") (simp_all del: repeat_op.simps)

theorem reno_avoidance_period_witness:
  "repeat_op 11 (tcp_reno_cong_avoid example_env 0 0 20 0) (example_sock 10 5) = Some (example_sock 11 5)"
  using reno_avoidance_period [of example_env "example_sock 10 5" 20 11 0 0 0]
  by (simp add: example_defs bump_cwnd_def)

end
