(* ===== verification/Bic.thy ===== *)
theory Bic
  imports Reno
begin

text \<open>
  Binary increase congestion control, \<^verbatim>\<open>tcp/linux/src/tcp_bic.c\<close>: the window searches the
  value \<^verbatim>\<open>last_max_cwnd\<close> at which it last lost a packet, by halving the distance.
\<close>

section \<open>Parameters and state\<close>

definition BICTCP_BETA_SCALE :: cint where "BICTCP_BETA_SCALE = 1024"
definition BICTCP_B :: cint where "BICTCP_B = 4"
definition ACK_RATIO_SHIFT :: nat where "ACK_RATIO_SHIFT = 4"

lemmas bic_consts = BICTCP_BETA_SCALE_def BICTCP_B_def ACK_RATIO_SHIFT_def

record bic_params =
  bic_fast_convergence :: cint
  bic_max_increment :: cint
  bic_low_window :: cint
  bic_beta :: cint
  bic_initial_ssthresh :: cint
  bic_smooth_part :: cint

definition bic_default :: bic_params where
  "bic_default = \<lparr>bic_fast_convergence = 1, bic_max_increment = 16, bic_low_window = 14,
     bic_beta = 819, bic_initial_ssthresh = 0, bic_smooth_part = 20\<rparr>"

record bictcp =
  bic_cnt :: u32
  bic_last_max_cwnd :: u32
  bic_loss_cwnd :: u32
  bic_last_cwnd :: u32
  bic_last_time :: u32
  bic_epoch_start :: u32
  bic_delayed_ack :: u32

section \<open>Operations\<close>

definition bictcp_reset :: "bictcp \<Rightarrow> bictcp" where
  "bictcp_reset ca = \<lparr>bic_cnt = 0, bic_last_max_cwnd = 0, bic_loss_cwnd = 0, bic_last_cwnd = 0,
     bic_last_time = 0, bic_epoch_start = 0, bic_delayed_ack = push_bit ACK_RATIO_SHIFT 2\<rparr>"

definition bictcp_init :: "bic_params \<Rightarrow> env \<Rightarrow> tcp_sock \<Rightarrow> bictcp \<Rightarrow> (tcp_sock \<times> bictcp) option" where
  "bictcp_init par env sk ca =
     Some (if bic_initial_ssthresh par \<noteq> 0
           then sk\<lparr>snd_ssthresh := int_ulong (bic_initial_ssthresh par)\<rparr> else sk,
           bictcp_reset ca)"

text \<open>The number of acknowledgments per packet of increase, before its two corrections.\<close>

definition bictcp_search :: "bic_params \<Rightarrow> bictcp \<Rightarrow> u32 \<Rightarrow> u32 option" where
  "bictcp_search par ca cwnd =
     (if cwnd < bic_last_max_cwnd ca then
        let dist = (bic_last_max_cwnd ca - cwnd) div int_ulong BICTCP_B
        in if int_ulong (bic_max_increment par) < dist
           then udiv cwnd (int_ulong (bic_max_increment par))
           else if dist \<le> 1 then Some (cwnd * int_ulong (bic_smooth_part par) div int_ulong BICTCP_B)
           else udiv cwnd dist
      else if cwnd < bic_last_max_cwnd ca + int_ulong BICTCP_B then
        Some (cwnd * int_ulong (bic_smooth_part par) div int_ulong BICTCP_B)
      else if cwnd < bic_last_max_cwnd ca + int_ulong (bic_max_increment par * (BICTCP_B - 1)) then
        udiv (cwnd * int_ulong (BICTCP_B - 1)) (cwnd - bic_last_max_cwnd ca)
      else udiv cwnd (int_ulong (bic_max_increment par)))"

definition bictcp_update :: "bic_params \<Rightarrow> env \<Rightarrow> u32 \<Rightarrow> bictcp \<Rightarrow> bictcp option" where
  "bictcp_update par env cwnd ca =
     (if bic_last_cwnd ca = cwnd \<and> tcp_time_stamp env - bic_last_time ca \<le>s HZ div 32 then Some ca
      else let ca = ca\<lparr>bic_last_cwnd := cwnd, bic_last_time := tcp_time_stamp env\<rparr>;
               ca = (if bic_epoch_start ca = 0 then ca\<lparr>bic_epoch_start := tcp_time_stamp env\<rparr> else ca)
           in if cwnd \<le> int_ulong (bic_low_window par) then Some (ca\<lparr>bic_cnt := cwnd\<rparr>)
              else do {
                cnt \<leftarrow> bictcp_search par ca cwnd;
                let cnt = (if bic_loss_cwnd ca = 0 \<and> 20 < cnt then 20 else cnt);
                cnt \<leftarrow> udiv (push_bit ACK_RATIO_SHIFT cnt) (bic_delayed_ack ca);
                Some (ca\<lparr>bic_cnt := if cnt = 0 then 1 else cnt\<rparr>)
              })"

definition bictcp_cong_avoid ::
    "bic_params \<Rightarrow> env \<Rightarrow> u32 \<Rightarrow> u32 \<Rightarrow> u32 \<Rightarrow> cint \<Rightarrow> tcp_sock \<Rightarrow> bictcp \<Rightarrow> (tcp_sock \<times> bictcp) option" where
  "bictcp_cong_avoid par env ack seq_rtt in_flight data_acked tp ca =
     (if \<not> tcp_is_cwnd_limited tp in_flight then Some (tp, ca)
      else if snd_cwnd tp \<le> snd_ssthresh tp then do {
        tp \<leftarrow> tcp_slow_start env tp;
        Some (tp, ca)
      } else do {
        ca \<leftarrow> bictcp_update par env (snd_cwnd tp) ca;
        Some (if bic_cnt ca \<le> uint_ulong (snd_cwnd_cnt tp)
              then ((bump_cwnd tp)\<lparr>snd_cwnd_cnt := 0\<rparr>, ca)
              else (tp\<lparr>snd_cwnd_cnt := snd_cwnd_cnt tp + 1\<rparr>, ca))
      })"

definition bictcp_recalc_ssthresh ::
    "bic_params \<Rightarrow> env \<Rightarrow> tcp_sock \<Rightarrow> bictcp \<Rightarrow> (u32 \<times> bictcp) option" where
  "bictcp_recalc_ssthresh par env tp ca =
     (let ca = ca\<lparr>bic_epoch_start := 0\<rparr>;
          ca = (if snd_cwnd tp < bic_last_max_cwnd ca \<and> bic_fast_convergence par \<noteq> 0
                then ca\<lparr>bic_last_max_cwnd :=
                  snd_cwnd tp * int_ulong (BICTCP_BETA_SCALE + bic_beta par)
                    div int_ulong (2 * BICTCP_BETA_SCALE)\<rparr>
                else ca\<lparr>bic_last_max_cwnd := snd_cwnd tp\<rparr>);
          ca = ca\<lparr>bic_loss_cwnd := snd_cwnd tp\<rparr>
      in Some (if snd_cwnd tp \<le> int_ulong (bic_low_window par)
               then max (drop_bit 1 (snd_cwnd tp)) 2
               else max (snd_cwnd tp * int_ulong (bic_beta par) div int_ulong BICTCP_BETA_SCALE) 2,
               ca))"

definition bictcp_undo_cwnd :: "tcp_sock \<Rightarrow> bictcp \<Rightarrow> u32" where
  "bictcp_undo_cwnd tp ca = max (snd_cwnd tp) (bic_last_max_cwnd ca)"

definition bictcp_state :: "env \<Rightarrow> u8 \<Rightarrow> tcp_sock \<Rightarrow> bictcp \<Rightarrow> (tcp_sock \<times> bictcp) option" where
  "bictcp_state env new_state sk ca =
     Some (sk, if new_state = TCP_CA_Loss then bictcp_reset ca else ca)"

definition bictcp_acked :: "env \<Rightarrow> u32 \<Rightarrow> s64 \<Rightarrow> tcp_sock \<Rightarrow> bictcp \<Rightarrow> bictcp option" where
  "bictcp_acked env cnt last_ackt sk ca =
     Some (if 0 < cnt \<and> icsk_ca_state sk = TCP_CA_Open
           then let cnt = cnt - drop_bit ACK_RATIO_SHIFT (bic_delayed_ack ca)
                in ca\<lparr>bic_delayed_ack := bic_delayed_ack ca + cnt\<rparr>
           else ca)"

definition bic_ops :: "bic_params \<Rightarrow> bictcp ca_ops" where
  "bic_ops par = \<lparr>ca_flags = 0, ca_name = ''bic'', ca_init = Some (bictcp_init par),
     ca_ssthresh = bictcp_recalc_ssthresh par, ca_min_cwnd = None,
     ca_cong_avoid = bictcp_cong_avoid par, ca_rtt_sample = None,
     ca_set_state = Some bictcp_state, ca_cwnd_event = None,
     ca_undo_cwnd = Some (\<lambda>tp ca. Some (bictcp_undo_cwnd tp ca, ca)), ca_pkts_acked = Some (keep_sock bictcp_acked),
     ca_get_info = None\<rparr>"


section \<open>The increase\<close>

definition bic_ok :: "bool \<Rightarrow> bictcp \<Rightarrow> bool" where
  "bic_ok b ca \<longleftrightarrow> (b \<longrightarrow> ratio_ok (bic_delayed_ack ca) \<and> small (bic_last_max_cwnd ca))"

lemma bic_default_int [simp]:
  "int_ulong (bic_max_increment bic_default) = 16" "int_ulong (bic_low_window bic_default) = 14"
  "int_ulong (bic_beta bic_default) = 819" "int_ulong (bic_smooth_part bic_default) = 20"
  "int_ulong BICTCP_B = 4" "int_ulong (BICTCP_B - 1) = 3" "int_ulong BICTCP_BETA_SCALE = 1024"
  "int_ulong (bic_max_increment bic_default * (BICTCP_B - 1)) = 48"
  "int_ulong (BICTCP_BETA_SCALE + bic_beta bic_default) = 1843"
  "int_ulong (2 * BICTCP_BETA_SCALE) = 2048" "bic_initial_ssthresh bic_default = 0"
  "bic_fast_convergence bic_default = 1"
  by (simp_all add: bic_default_def bic_consts)

text \<open>
  With the default parameters the search asks for at most \<^verbatim>\<open>max_increment = 16\<close> packets per
  round trip: one packet every \<open>cwnd div 16\<close> acknowledgments, or fewer packets.
\<close>

lemma bictcp_search_default:
  assumes "small cwnd" and "small (bic_last_max_cwnd ca)"
  shows "\<exists>cnt. bictcp_search bic_default ca cwnd = Some cnt \<and> unat cwnd div 16 \<le> unat cnt
    \<and> unat cnt \<le> 5 * unat cwnd"
proof -
  define l where "l = bic_last_max_cwnd ca"
  have b: "unat cwnd < 2147483648" "unat l < 2147483648" using assms by (simp_all add: small_def l_def)
  have five: "unat (cwnd * 20 div 4) = 5 * unat cwnd"
    using b(1) by (simp add: unat_div_distrib unat_word_ariths)
  have ok: "unat cwnd div 16 \<le> unat cwnd div n" "unat cwnd div n \<le> 5 * unat cwnd"
    if "0 < n" "n \<le> 16" for n
    using that div_le_mono2 [of n 16 "unat cwnd"] div_le_dividend [of "unat cwnd" n] by linarith+
  consider (below) "unat cwnd < unat l" | (near) "unat l \<le> unat cwnd" "unat cwnd < unat l + 4"
    | (mid) "unat l + 4 \<le> unat cwnd" "unat cwnd < unat l + 48" | (far) "unat l + 48 \<le> unat cwnd"
    by linarith
  then show ?thesis
  proof cases
    case below
    define d where "d = (l - cwnd) div 4"
    have d: "unat d = (unat l - unat cwnd) div 4"
      using below by (simp add: d_def unat_div_distrib unat_sub word_le_nat_alt)
    have s: "bictcp_search bic_default ca cwnd =
        (if 16 < d then Some (cwnd div 16) else if d \<le> 1 then Some (cwnd * 20 div 4) else udiv cwnd d)"
      using below by (simp add: bictcp_search_def l_def d_def word_less_nat_alt)
    show ?thesis
    proof (cases "16 < d \<or> d \<le> 1")
      case True
      then show ?thesis using s five ok [of 16] by (auto simp: unat_div_distrib)
    next
      case False
      then have "0 < unat d" "unat d \<le> 16" by (simp_all add: word_less_nat_alt word_le_nat_alt)
      moreover from this have "d \<noteq> 0" by auto
      ultimately show ?thesis using False s ok [of "unat d"] by (auto simp: unat_div_distrib)
    qed
  next
    case near
    then have "bictcp_search bic_default ca cwnd = Some (cwnd * 20 div 4)"
      using b by (simp add: bictcp_search_def l_def [symmetric] word_less_nat_alt unat_word_ariths)
    then show ?thesis using five ok [of 16] by auto
  next
    case mid
    have sub: "unat (cwnd - l) = unat cwnd - unat l" using mid by (simp add: unat_sub word_le_nat_alt)
    then have nz: "cwnd - l \<noteq> 0" using mid by auto
    then have "bictcp_search bic_default ca cwnd = Some (cwnd * 3 div (cwnd - l))"
      using b mid by (simp add: bictcp_search_def l_def [symmetric] word_less_nat_alt unat_word_ariths)
    moreover have "unat (cwnd * 3 div (cwnd - l)) = 3 * unat cwnd div (unat cwnd - unat l)"
      using b sub by (simp add: unat_div_distrib unat_word_ariths mult.commute)
    moreover have "unat cwnd div 16 \<le> 3 * unat cwnd div (unat cwnd - unat l)"
    proof -
      have "unat cwnd div 16 = 3 * unat cwnd div 48" by simp
      also have "\<dots> \<le> 3 * unat cwnd div (unat cwnd - unat l)" using mid by (intro div_le_mono2) auto
      finally show ?thesis .
    qed
    moreover have "3 * unat cwnd div (unat cwnd - unat l) \<le> 5 * unat cwnd"
      using div_le_dividend [of "3 * unat cwnd" "unat cwnd - unat l"] by linarith
    ultimately show ?thesis by metis
  next
    case far
    then have "bictcp_search bic_default ca cwnd = Some (cwnd div 16)"
      using b by (simp add: bictcp_search_def l_def [symmetric] word_less_nat_alt unat_word_ariths)
    then show ?thesis using ok [of 16] by (auto simp: unat_div_distrib)
  qed
qed

text \<open>
  The update of a new epoch returns, and after it an increase takes at least one
  acknowledgment; once a loss was seen and above the low window, an increase takes at least the
  acknowledgments of a sixteenth of the window.
\<close>

definition bic_fresh :: "env \<Rightarrow> u32 \<Rightarrow> bictcp \<Rightarrow> bool" where
  "bic_fresh env cwnd ca \<longleftrightarrow> \<not> (bic_last_cwnd ca = cwnd \<and> tcp_time_stamp env - bic_last_time ca \<le>s HZ div 32)"

lemma bictcp_update_frame:
  "bictcp_update par env cwnd ca = Some ca' \<Longrightarrow> bic_delayed_ack ca' = bic_delayed_ack ca
     \<and> bic_last_max_cwnd ca' = bic_last_max_cwnd ca \<and> bic_loss_cwnd ca' = bic_loss_cwnd ca"
  by (auto simp: bictcp_update_def Let_def bind_Some_iff split: if_splits)

lemma bictcp_search_cong:
  "bic_last_max_cwnd ca' = bic_last_max_cwnd ca \<Longrightarrow> bictcp_search par ca' cwnd = bictcp_search par ca cwnd"
  by (simp add: bictcp_search_def)

lemma bictcp_update_default:
  assumes "small cwnd" and "cwnd \<noteq> 0" and "small (bic_last_max_cwnd ca)" and "ratio_ok (bic_delayed_ack ca)"
  shows "\<exists>ca'. bictcp_update bic_default env cwnd ca = Some ca' \<and>
    (bic_fresh env cwnd ca \<longrightarrow> 0 < unat (bic_cnt ca') \<and>
      (14 < unat cwnd \<and> bic_loss_cwnd ca \<noteq> 0 \<longrightarrow>
        16 * (unat cwnd div 16) div unat (bic_delayed_ack ca) \<le> unat (bic_cnt ca')))"
proof (cases "bic_fresh env cwnd ca \<and> \<not> cwnd \<le> 14")
  case False
  then show ?thesis
    using assms(2) by (auto simp: bictcp_update_def bic_fresh_def Let_def unat_gt_0 word_le_nat_alt)
next
  case True
  define c1 where "c1 = ca\<lparr>bic_last_cwnd := cwnd, bic_last_time := tcp_time_stamp env\<rparr>"
  define c2 where "c2 = (if bic_epoch_start c1 = 0 then c1\<lparr>bic_epoch_start := tcp_time_stamp env\<rparr> else c1)"
  obtain cnt where cnt: "bictcp_search bic_default ca cwnd = Some cnt" "unat cwnd div 16 \<le> unat cnt"
    "unat cnt \<le> 5 * unat cwnd" using bictcp_search_default [OF assms(1,3)] by blast
  have sr: "bictcp_search bic_default c2 cwnd = Some cnt"
    using bictcp_search_cong [of c2 ca] cnt(1) by (simp add: c2_def c1_def)
  define k where "k = (if bic_loss_cwnd ca = 0 \<and> 20 < cnt then 20 else cnt)"
  have fr: "bic_loss_cwnd c2 = bic_loss_cwnd ca" "bic_delayed_ack c2 = bic_delayed_ack ca"
    by (simp_all add: c2_def c1_def)
  define q where "q = push_bit 4 k div bic_delayed_ack ca"
  have u: "bictcp_update bic_default env cwnd ca = Some (c2\<lparr>bic_cnt := if q = 0 then 1 else q\<rparr>)"
    using True sr ratio_nonzero [OF assms(4)]
    by (auto simp: bictcp_update_def bic_fresh_def Let_def c1_def [symmetric] c2_def [symmetric]
        fr ACK_RATIO_SHIFT_def k_def [symmetric] q_def)
  have "16 * (unat cwnd div 16) div unat (bic_delayed_ack ca) \<le> unat q" if "bic_loss_cwnd ca \<noteq> 0"
  proof -
    have "unat (push_bit 4 cnt) = unat cnt * 2 ^ 4 mod 2 ^ 64" by (simp only: unat_push_bit) simp
    also have "\<dots> = 16 * unat cnt" using cnt(3) assms(1) by (simp add: small_def)
    finally have "unat q = 16 * unat cnt div unat (bic_delayed_ack ca)"
      using that by (simp add: q_def k_def unat_div_distrib)
    then show ?thesis using cnt(2) by (simp add: div_le_mono)
  qed
  moreover have "0 < unat (if q = 0 then 1 else q)" by (simp add: unat_gt_0)
  ultimately show ?thesis unfolding u by auto
qed

lemma bictcp_cong_avoid_ok:
  assumes "sock_ok tp" and "bic_ok True ca"
  shows "\<exists>tp' ca'. bictcp_cong_avoid bic_default env ack rtt in_flight flag tp ca = Some (tp', ca')
    \<and> window_step tp tp' \<and> bic_ok True ca'"
proof -
  obtain t where t: "tcp_slow_start env tp = Some t" "window_step tp t"
    using sock_ok_slow_start [OF assms(1)] by blast
  obtain c where c: "bictcp_update bic_default env (snd_cwnd tp) ca = Some c"
    using bictcp_update_default [of "snd_cwnd tp" ca env] assms by (auto simp: sock_ok_def bic_ok_def)
  show ?thesis
    using t c bictcp_update_frame [OF c] assms(2)
    by (auto simp: bictcp_cong_avoid_def bic_ok_def)
qed

text \<open>Outside slow start one acknowledgment adds at most one packet.\<close>

lemma bictcp_cong_avoid_growth:
  assumes "snd_ssthresh tp < snd_cwnd tp"
    and "bictcp_cong_avoid par env ack rtt in_flight flag tp ca = Some (tp', ca')"
  shows "snd_cwnd tp' = snd_cwnd tp \<or> snd_cwnd tp' = snd_cwnd (bump_cwnd tp)"
  using assms by (auto simp: bictcp_cong_avoid_def bind_Some_iff split: if_splits)

section \<open>The decrease\<close>

lemma bictcp_recalc_ssthresh_default:
  assumes "small (snd_cwnd tp)"
  shows "\<exists>s ca'. bictcp_recalc_ssthresh bic_default env tp ca = Some (s, ca')
    \<and> unat s = (if unat (snd_cwnd tp) \<le> 14 then max (unat (snd_cwnd tp) div 2) 2
                else unat (snd_cwnd tp) * 819 div 1024)
    \<and> unat (bic_last_max_cwnd ca') = (if snd_cwnd tp < bic_last_max_cwnd ca
         then unat (snd_cwnd tp) * 1843 div 2048 else unat (snd_cwnd tp))
    \<and> bic_loss_cwnd ca' = snd_cwnd tp \<and> bic_epoch_start ca' = 0
    \<and> bic_delayed_ack ca' = bic_delayed_ack ca"
proof -
  have w: "unat (snd_cwnd tp) < 2147483648" using assms by (simp add: small_def)
  have m: "unat (snd_cwnd tp * 819 div 1024) = unat (snd_cwnd tp) * 819 div 1024"
    "unat (snd_cwnd tp * 1843 div 2048) = unat (snd_cwnd tp) * 1843 div 2048"
    using w by (simp_all add: unat_div_distrib unat_word_ariths)
  have "max (unat (snd_cwnd tp) * 819 div 1024) 2 = unat (snd_cwnd tp) * 819 div 1024"
    if "14 < unat (snd_cwnd tp)"
  proof -
    have "2 * 1024 \<le> unat (snd_cwnd tp) * 819" using that by linarith
    then have "2 \<le> unat (snd_cwnd tp) * 819 div 1024" by (simp add: less_eq_div_iff_mult_less_eq)
    then show ?thesis by simp
  qed
  then show ?thesis
    by (simp add: bictcp_recalc_ssthresh_def Let_def unat_max m unat_drop_bit_div word_le_nat_alt)
qed

lemma bictcp_ssthresh_law:
  assumes "small (snd_cwnd tp)" and "bic_ok b ca"
  shows "\<exists>s ca'. bictcp_recalc_ssthresh bic_default env tp ca = Some (s, ca')
    \<and> 2 \<le> unat s \<and> small s \<and> bic_ok b ca'"
proof -
  obtain s ca' where r: "bictcp_recalc_ssthresh bic_default env tp ca = Some (s, ca')"
    "unat s = (if unat (snd_cwnd tp) \<le> 14 then max (unat (snd_cwnd tp) div 2) 2
                else unat (snd_cwnd tp) * 819 div 1024)"
    "unat (bic_last_max_cwnd ca') = (if snd_cwnd tp < bic_last_max_cwnd ca
         then unat (snd_cwnd tp) * 1843 div 2048 else unat (snd_cwnd tp))"
    "bic_delayed_ack ca' = bic_delayed_ack ca"
    using bictcp_recalc_ssthresh_default [OF assms(1)] by blast
  have "2 \<le> unat s \<and> small s \<and> small (bic_last_max_cwnd ca')"
    using assms(1) r(2,3) by (auto simp: small_def split: if_splits)
  then show ?thesis using r(1,4) assms(2) by (auto simp: bic_ok_def)
qed

section \<open>The contract\<close>

lemma bictcp_reset_ok: "bic_ok b (bictcp_reset ca)"
  by (simp add: bic_ok_def bictcp_reset_def ratio_ok_def ACK_RATIO_SHIFT_def small_def)

lemma bictcp_acked_ok:
  assumes "bic_ok True ca" and "small n"
  shows "\<exists>ca'. bictcp_acked env n last_ackt sk ca = Some ca' \<and> bic_ok True ca'"
  using assms ratio_update [of "bic_delayed_ack ca" n]
  by (auto simp: bictcp_acked_def bic_ok_def ACK_RATIO_SHIFT_def Let_def)

interpretation bic: cong_module "bic_ops bic_default" sock_ok bic_ok
proof unfold_locales
  fix tp :: tcp_sock and p env ack rtt in_flight flag
  assume "clock_ok env" "sock_ok tp" "bic_ok True p"
  then show "\<exists>tp' p'. ca_cong_avoid (bic_ops bic_default) env ack rtt in_flight flag tp p = Some (tp', p')
      \<and> sock_ok tp' \<and> bic_ok True p'"
    using bictcp_cong_avoid_ok [of tp p env ack rtt in_flight flag] window_step_sock_ok
    by (auto simp: bic_ops_def)
next
  fix tp :: tcp_sock and p env and b :: bool
  assume "clock_ok env" "sock_ok tp" "bic_ok b p"
  then show "\<exists>s p'. ca_ssthresh (bic_ops bic_default) env tp p = Some (s, p')
      \<and> 2 \<le> unat s \<and> small s \<and> bic_ok b p'"
    using bictcp_ssthresh_law [of tp b p env] by (simp add: bic_ops_def sock_ok_def)
next
  fix tp :: tcp_sock and p env n last_ackt
  assume "clock_ok env" "sock_ok tp" "bic_ok True p" "small n" "past env last_ackt"
  then show "\<exists>tp' p'. run_pkts_acked (bic_ops bic_default) env n last_ackt tp p = Some (tp', p')
      \<and> sock_ok tp' \<and> bic_ok True p'"
    using bictcp_acked_ok [of p n env last_ackt tp] by (simp add: bic_ops_def run_defs)
next
  fix tp :: tcp_sock and p :: bictcp and b :: bool
  assume "sock_ok tp" "bic_ok b p" "2 \<le> unat (snd_ssthresh tp)"
  then show "\<exists>w. run_min_cwnd (bic_ops bic_default) tp p = Some w \<and> w \<noteq> 0 \<and> small w"
    by (auto simp: bic_ops_def run_defs sock_ok_def)
qed (auto simp: bic_ops_def run_defs bictcp_init_def bictcp_state_def bictcp_reset_ok)

section \<open>Properties\<close>

text \<open>
  With the default parameters the binary search of \<^verbatim>\<open>bictcp_update\<close> always finds a target
  increment: whatever the window and the last maximum, the divisors are not 0, and one
  packet of window costs between a sixteenth of the window and five windows of acknowledgments.
\<close>

theorem bic_search_range:
  assumes "small cwnd" and "small (bic_last_max_cwnd ca)"
  shows "\<exists>cnt. bictcp_search bic_default ca cwnd = Some cnt \<and> unat cwnd div 16 \<le> unat cnt
    \<and> unat cnt \<le> 5 * unat cwnd"
  by (rule bictcp_search_default [OF assms])

definition example_bictcp :: bictcp where
  "example_bictcp = \<lparr>bic_cnt = 0, bic_last_max_cwnd = 0, bic_loss_cwnd = 0, bic_last_cwnd = 0,
     bic_last_time = 0, bic_epoch_start = 0, bic_delayed_ack = 32\<rparr>"

theorem bic_search_range_witness:
  "\<exists>cnt. bictcp_search bic_default example_bictcp 160 = Some cnt \<and> 10 \<le> unat cnt \<and> unat cnt \<le> 800"
  using bic_search_range [of 160 example_bictcp] by (simp add: example_bictcp_def small_def)

text \<open>
  On a loss BIC keeps half of a window of up to 14 packets and 819/1024 of a larger one,
  and remembers the window it lost at, or (fast convergence) 1843/2048 of it when the window
  had not yet reached the last maximum.
\<close>

theorem bic_loss:
  assumes "small (snd_cwnd tp)"
  shows "\<exists>s ca'. bictcp_recalc_ssthresh bic_default env tp ca = Some (s, ca')
    \<and> unat s = (if unat (snd_cwnd tp) \<le> 14 then max (unat (snd_cwnd tp) div 2) 2
                else unat (snd_cwnd tp) * 819 div 1024)
    \<and> unat (bic_last_max_cwnd ca') = (if snd_cwnd tp < bic_last_max_cwnd ca
         then unat (snd_cwnd tp) * 1843 div 2048 else unat (snd_cwnd tp))
    \<and> bic_loss_cwnd ca' = snd_cwnd tp \<and> bic_epoch_start ca' = 0"
  using bictcp_recalc_ssthresh_default [OF assms] by blast

theorem bic_loss_witness:
  "\<exists>s ca'. bictcp_recalc_ssthresh bic_default example_env (example_sock 100 5) example_bictcp = Some (s, ca')
    \<and> unat s = 79 \<and> unat (bic_last_max_cwnd ca') = 100"
  using bic_loss [of "example_sock 100 5" example_env example_bictcp]
  by (auto simp: example_defs small_def example_bictcp_def)

end
