(* ===== verification/Cubic.thy ===== *)
theory Cubic
  imports Reno
begin

text \<open>
  CUBIC, \<^verbatim>\<open>tcp/linux/src/tcp_cubic.c\<close>: the window is a cubic function of the time since the
  last loss, whose inflection point is the window at that loss.  The constants and functions
  that \<^verbatim>\<open>tcp_bic.c\<close> also has under the same names carry the suffix \<open>_cubic\<close>.
\<close>

section \<open>Parameters and state\<close>

definition BETA_SCALE_cubic :: cint where "BETA_SCALE_cubic = 1024"
definition BICTCP_HZ :: nat where "BICTCP_HZ = 10"
definition RATIO_SHIFT_cubic :: nat where "RATIO_SHIFT_cubic = 4"

lemmas cubic_consts = BETA_SCALE_cubic_def BICTCP_HZ_def RATIO_SHIFT_cubic_def

record cubic_params =
  cu_fast_convergence :: cint
  cu_max_increment :: cint
  cu_beta :: cint
  cu_initial_ssthresh :: cint
  cu_bic_scale :: cint
  cu_tcp_friendliness :: cint

definition cubic_default :: cubic_params where
  "cubic_default = \<lparr>cu_fast_convergence = 1, cu_max_increment = 16, cu_beta = 819,
     cu_initial_ssthresh = 0, cu_bic_scale = 41, cu_tcp_friendliness = 1\<rparr>"

text \<open>The factors \<^verbatim>\<open>cubictcp_register\<close> computes once from the parameters.\<close>

record cubic_scales =
  cube_rtt_scale :: u32
  beta_scale :: u32
  cube_factor :: u64

definition cubictcp_register :: "cubic_params \<Rightarrow> cubic_scales option" where
  "cubictcp_register par = do {
     b \<leftarrow> c_div (8 * (BETA_SCALE_cubic + cu_beta par)) 3;
     b \<leftarrow> c_div b (BETA_SCALE_cubic - cu_beta par);
     let scale = int_ulong (cu_bic_scale par * 10);
     let factor = (push_bit (10 + 3 * BICTCP_HZ) 1 :: u64);
     (factor, _) \<leftarrow> do_div factor (cu_bic_scale par * 10);
     Some \<lparr>cube_rtt_scale = scale, beta_scale = int_ulong b, cube_factor = factor\<rparr>
   }"

record cubictcp =
  cu_cnt :: u32
  cu_last_max_cwnd :: u32
  cu_loss_cwnd :: u32
  cu_last_cwnd :: u32
  cu_last_time :: u32
  cu_bic_origin_point :: u32
  cu_bic_K :: u32
  cu_delay_min :: u32
  cu_epoch_start :: u32
  cu_ack_cnt :: u32
  cu_tcp_cwnd :: u32
  cu_delayed_ack :: u32

definition bictcp_reset_cubic :: "cubictcp \<Rightarrow> cubictcp" where
  "bictcp_reset_cubic ca = \<lparr>cu_cnt = 0, cu_last_max_cwnd = 0, cu_loss_cwnd = 0, cu_last_cwnd = 0,
     cu_last_time = 0, cu_bic_origin_point = 0, cu_bic_K = 0, cu_delay_min = 0, cu_epoch_start = 0,
     cu_ack_cnt = 0, cu_tcp_cwnd = 0, cu_delayed_ack = push_bit RATIO_SHIFT_cubic 2\<rparr>"

definition bictcp_init_cubic ::
    "cubic_params \<Rightarrow> env \<Rightarrow> tcp_sock \<Rightarrow> cubictcp \<Rightarrow> (tcp_sock \<times> cubictcp) option" where
  "bictcp_init_cubic par env sk ca =
     Some (if cu_initial_ssthresh par \<noteq> 0
           then sk\<lparr>snd_ssthresh := int_ulong (cu_initial_ssthresh par)\<rparr> else sk,
           bictcp_reset_cubic ca)"

section \<open>The cubic root\<close>

definition cubic_v :: "u8 list" where
  "cubic_v = [
     0,   54,   54,   54,  118,  118,  118,  118,
     123,  129,  134,  138,  143,  147,  151,  156,
     157,  161,  164,  168,  170,  173,  176,  179,
     181,  185,  187,  190,  192,  194,  197,  199,
     200,  202,  204,  206,  209,  211,  213,  215,
     217,  219,  221,  222,  224,  225,  227,  229,
     231,  232,  234,  236,  237,  239,  240,  242,
     244,  245,  246,  248,  250,  251,  252,  254]"

definition cubic_root :: "u64 \<Rightarrow> u32 option" where
  "cubic_root a =
     (let b = int_ulong (fls64 a) in
      if b < 7 then do {
        v \<leftarrow> table_lookup cubic_v a;
        Some (drop_bit 6 (ucast v + 35))
      } else do {
        let b = drop_bit 8 (b * 84) - 1;
        let shift = drop_bit (unat (b * 3)) a;
        v \<leftarrow> table_lookup cubic_v shift;
        let x = drop_bit 6 (push_bit (unat b) (ucast v + 10));
        d \<leftarrow> div64_64 a (x * (x - 1));
        let x = 2 * x + d;
        Some (drop_bit 10 (x * 341))
      })"

section \<open>The window\<close>

text \<open>The beginning of an epoch fixes the inflection point and the time \<open>K\<close> to it.\<close>

definition cubic_epoch :: "cubic_scales \<Rightarrow> env \<Rightarrow> u32 \<Rightarrow> cubictcp \<Rightarrow> cubictcp option" where
  "cubic_epoch sc env cwnd ca =
     (if cu_epoch_start ca = 0 then
        let ca = ca\<lparr>cu_epoch_start := tcp_time_stamp env, cu_ack_cnt := 1, cu_tcp_cwnd := cwnd\<rparr>
        in if cu_last_max_cwnd ca \<le> cwnd
           then Some (ca\<lparr>cu_bic_K := 0, cu_bic_origin_point := cwnd\<rparr>)
           else do {
             k \<leftarrow> cubic_root (cube_factor sc * (cu_last_max_cwnd ca - cwnd));
             Some (ca\<lparr>cu_bic_K := k, cu_bic_origin_point := cu_last_max_cwnd ca\<rparr>)
           }
      else Some ca)"

definition cubic_time :: "env \<Rightarrow> cubictcp \<Rightarrow> u32" where
  "cubic_time env ca =
     push_bit BICTCP_HZ (tcp_time_stamp env + drop_bit 3 (cu_delay_min ca) - cu_epoch_start ca) div HZ"

definition cubic_target :: "cubic_scales \<Rightarrow> cubictcp \<Rightarrow> u32 \<Rightarrow> u32" where
  "cubic_target sc ca t =
     (let offs = (if t < cu_bic_K ca then cu_bic_K ca - t else t - cu_bic_K ca);
          delta = drop_bit (10 + 3 * BICTCP_HZ) (cube_rtt_scale sc * offs * offs * offs)
      in if t < cu_bic_K ca then cu_bic_origin_point ca - delta else cu_bic_origin_point ca + delta)"

definition cubic_cnt :: "cubic_params \<Rightarrow> cubictcp \<Rightarrow> u32 \<Rightarrow> u32 \<Rightarrow> u32 \<Rightarrow> u32 option" where
  "cubic_cnt par ca cwnd t bic_target = do {
     cnt \<leftarrow> (if cwnd < bic_target then udiv cwnd (bic_target - cwnd) else Some (100 * cwnd));
     cnt \<leftarrow> (if 0 < cu_delay_min ca then do {
               min_cnt \<leftarrow> udiv (cwnd * HZ * 8) (int_ulong (10 * cu_max_increment par) * cu_delay_min ca);
               Some (if cnt < min_cnt \<and> cu_bic_K ca \<le> t then min_cnt else cnt)
             } else Some cnt);
     Some (if cu_loss_cwnd ca = 0 then 50 else cnt)
   }"

text \<open>The estimate of the window a Reno flow would have; the loop of the code, which may not end.\<close>

partial_function (option) cubic_friendly_loop :: "u32 \<Rightarrow> u32 \<Rightarrow> u32 \<Rightarrow> (u32 \<times> u32) option" where
  "cubic_friendly_loop delta ack_cnt tcp_cwnd =
     (if delta < ack_cnt then cubic_friendly_loop delta (ack_cnt - delta) (tcp_cwnd + 1)
      else Some (ack_cnt, tcp_cwnd))"

definition cubic_friendly ::
    "cubic_params \<Rightarrow> cubic_scales \<Rightarrow> u32 \<Rightarrow> cubictcp \<Rightarrow> cubictcp option" where
  "cubic_friendly par sc cwnd ca =
     (if cu_tcp_friendliness par \<noteq> 0 then do {
        let delta = drop_bit 3 (cwnd * beta_scale sc);
        (ack_cnt, tcp_cwnd) \<leftarrow> cubic_friendly_loop delta (cu_ack_cnt ca) (cu_tcp_cwnd ca);
        let ca = ca\<lparr>cu_ack_cnt := ack_cnt, cu_tcp_cwnd := tcp_cwnd\<rparr>;
        if cwnd < cu_tcp_cwnd ca then do {
          max_cnt \<leftarrow> udiv cwnd (cu_tcp_cwnd ca - cwnd);
          Some (if max_cnt < cu_cnt ca then ca\<lparr>cu_cnt := max_cnt\<rparr> else ca)
        } else Some ca
      } else Some ca)"

definition bictcp_update_cubic ::
    "cubic_params \<Rightarrow> cubic_scales \<Rightarrow> env \<Rightarrow> u32 \<Rightarrow> cubictcp \<Rightarrow> cubictcp option" where
  "bictcp_update_cubic par sc env cwnd ca =
     (let ca = ca\<lparr>cu_ack_cnt := cu_ack_cnt ca + 1\<rparr> in
      if cu_last_cwnd ca = cwnd \<and> tcp_time_stamp env - cu_last_time ca \<le>s HZ div 32 then Some ca
      else do {
        let ca = ca\<lparr>cu_last_cwnd := cwnd, cu_last_time := tcp_time_stamp env\<rparr>;
        ca \<leftarrow> cubic_epoch sc env cwnd ca;
        let t = cubic_time env ca;
        cnt \<leftarrow> cubic_cnt par ca cwnd t (cubic_target sc ca t);
        ca \<leftarrow> cubic_friendly par sc cwnd (ca\<lparr>cu_cnt := cnt\<rparr>);
        cnt \<leftarrow> udiv (push_bit RATIO_SHIFT_cubic (cu_cnt ca)) (cu_delayed_ack ca);
        Some (ca\<lparr>cu_cnt := if cnt = 0 then 1 else cnt\<rparr>)
      })"

section \<open>The other operations\<close>

definition measure_delay :: "env \<Rightarrow> tcp_sock \<Rightarrow> cubictcp \<Rightarrow> cubictcp" where
  "measure_delay env tp ca =
     (if \<not> (saw_tstamp (rx_opt tp) \<and> rcv_tsecr (rx_opt tp) \<noteq> 0)
          \<or> tcp_time_stamp env - cu_epoch_start ca <s HZ then ca
      else let delay = push_bit 3 (tcp_time_stamp env - rcv_tsecr (rx_opt tp));
               delay = (if delay = 0 then 1 else delay)
           in if cu_delay_min ca = 0 \<or> delay < cu_delay_min ca then ca\<lparr>cu_delay_min := delay\<rparr> else ca)"

definition bictcp_cong_avoid_cubic ::
    "cubic_params \<Rightarrow> cubic_scales \<Rightarrow> env \<Rightarrow> u32 \<Rightarrow> u32 \<Rightarrow> u32 \<Rightarrow> cint \<Rightarrow> tcp_sock \<Rightarrow> cubictcp \<Rightarrow>
     (tcp_sock \<times> cubictcp) option" where
  "bictcp_cong_avoid_cubic par sc env ack seq_rtt in_flight data_acked tp ca =
     (let ca = (if data_acked \<noteq> 0 then measure_delay env tp ca else ca) in
      if \<not> tcp_is_cwnd_limited tp in_flight then Some (tp, ca)
      else if snd_cwnd tp \<le> snd_ssthresh tp then do {
        tp \<leftarrow> tcp_slow_start env tp;
        Some (tp, ca)
      } else do {
        ca \<leftarrow> bictcp_update_cubic par sc env (snd_cwnd tp) ca;
        Some (if cu_cnt ca \<le> uint_ulong (snd_cwnd_cnt tp)
              then ((bump_cwnd tp)\<lparr>snd_cwnd_cnt := 0\<rparr>, ca)
              else (tp\<lparr>snd_cwnd_cnt := snd_cwnd_cnt tp + 1\<rparr>, ca))
      })"

definition bictcp_recalc_ssthresh_cubic ::
    "cubic_params \<Rightarrow> env \<Rightarrow> tcp_sock \<Rightarrow> cubictcp \<Rightarrow> (u32 \<times> cubictcp) option" where
  "bictcp_recalc_ssthresh_cubic par env tp ca =
     (let ca = ca\<lparr>cu_epoch_start := 0\<rparr>;
          ca = (if snd_cwnd tp < cu_last_max_cwnd ca \<and> cu_fast_convergence par \<noteq> 0
                then ca\<lparr>cu_last_max_cwnd :=
                  snd_cwnd tp * int_ulong (BETA_SCALE_cubic + cu_beta par)
                    div int_ulong (2 * BETA_SCALE_cubic)\<rparr>
                else ca\<lparr>cu_last_max_cwnd := snd_cwnd tp\<rparr>);
          ca = ca\<lparr>cu_loss_cwnd := snd_cwnd tp\<rparr>
      in Some (max (snd_cwnd tp * int_ulong (cu_beta par) div int_ulong BETA_SCALE_cubic) 2, ca))"

definition bictcp_undo_cwnd_cubic :: "tcp_sock \<Rightarrow> cubictcp \<Rightarrow> u32" where
  "bictcp_undo_cwnd_cubic tp ca = max (snd_cwnd tp) (cu_last_max_cwnd ca)"

definition bictcp_state_cubic :: "env \<Rightarrow> u8 \<Rightarrow> tcp_sock \<Rightarrow> cubictcp \<Rightarrow> (tcp_sock \<times> cubictcp) option" where
  "bictcp_state_cubic env new_state sk ca =
     Some (sk, if new_state = TCP_CA_Loss then bictcp_reset_cubic ca else ca)"

definition bictcp_acked_cubic :: "env \<Rightarrow> u32 \<Rightarrow> s64 \<Rightarrow> tcp_sock \<Rightarrow> cubictcp \<Rightarrow> cubictcp option" where
  "bictcp_acked_cubic env cnt last_ackt sk ca =
     Some (if 0 < cnt \<and> icsk_ca_state sk = TCP_CA_Open
           then let cnt = cnt - drop_bit RATIO_SHIFT_cubic (cu_delayed_ack ca)
                in ca\<lparr>cu_delayed_ack := cu_delayed_ack ca + cnt\<rparr>
           else ca)"

definition cubictcp_ops :: "cubic_params \<Rightarrow> cubic_scales \<Rightarrow> cubictcp ca_ops" where
  "cubictcp_ops par sc = \<lparr>ca_flags = 0, ca_name = ''cubic'', ca_init = Some (bictcp_init_cubic par),
     ca_ssthresh = bictcp_recalc_ssthresh_cubic par, ca_min_cwnd = None,
     ca_cong_avoid = bictcp_cong_avoid_cubic par sc, ca_rtt_sample = None,
     ca_set_state = Some bictcp_state_cubic, ca_cwnd_event = None,
     ca_undo_cwnd = Some (\<lambda>tp ca. Some (bictcp_undo_cwnd_cubic tp ca, ca)), ca_pkts_acked = Some (keep_sock bictcp_acked_cubic),
     ca_get_info = None\<rparr>"


section \<open>The cubic root always returns\<close>

lemma cubictcp_register_default:
  "cubictcp_register cubic_default =
     Some \<lparr>cube_rtt_scale = 410, beta_scale = 23, cube_factor = 2681735677\<rparr>"
  by (simp add: cubictcp_register_def cubic_default_def cubic_consts c_div_def do_div_def)

lemma length_cubic_v: "length cubic_v = 64"
  by (simp add: cubic_v_def)

text \<open>
  The shift leaves three to six bits of the argument: the table index is at least 8 (so the
  entry is at least 123) and below 64.
\<close>

lemma cubic_shift:
  assumes "7 \<le> b" and "b \<le> (64 :: nat)"
  defines "k \<equiv> b * 84 div 256 - 1"
  shows "1 \<le> k" "k \<le> 20" "3 * k + 4 \<le> b" "b \<le> 3 * k + 6"
proof -
  define q where "q = b * 84 div 256"
  have q: "256 * q \<le> b * 84" "b * 84 < 256 * q + 256"
    by (simp_all add: q_def)
  have "2 \<le> q" "q \<le> 21" using q assms(1,2) by linarith+
  then show "1 \<le> k" "k \<le> 20" "3 * k + 4 \<le> b" "b \<le> 3 * k + 6"
    using q assms(1,2) unfolding k_def q_def [symmetric] by linarith+
qed

lemma cubic_v_ge: "8 \<le> i \<Longrightarrow> i < 64 \<Longrightarrow> 123 \<le> unat (cubic_v ! i)"
proof -
  assume "8 \<le> i" "i < 64"
  moreover have "list_all (\<lambda>x. 123 \<le> unat x) (drop 8 cubic_v)" by (simp add: cubic_v_def)
  then have "\<forall>j<56. 123 \<le> unat (drop 8 cubic_v ! j)"
    by (simp add: list_all_length length_cubic_v)
  ultimately show ?thesis
    using length_cubic_v by (auto simp: nth_drop dest!: spec [of _ "i - 8"])
qed

lemma power_diff_le: "(2 :: nat) ^ (b - 1) \<le> a \<Longrightarrow> c + 1 \<le> b \<Longrightarrow> 2 ^ (b - 1 - c) \<le> a div 2 ^ c"
proof -
  assume a: "(2 :: nat) ^ (b - 1) \<le> a" and c: "c + 1 \<le> b"
  have "(2::nat) ^ (b - 1 - c) * 2 ^ c = 2 ^ (b - 1)"
    using c by (simp add: power_add [symmetric])
  then show ?thesis using a by (metis div_le_mono nonzero_mult_div_cancel_right power_not_zero zero_neq_numeral)
qed

lemma power_div_less: "a < (2 :: nat) ^ b \<Longrightarrow> c \<le> b \<Longrightarrow> a div 2 ^ c < 2 ^ (b - c)"
  by (simp add: less_mult_imp_div_less power_add [symmetric])

lemma newton_step_bound:
  fixes a x k :: nat
  assumes "a < 2 ^ (3 * k + 6)" and "2 * 2 ^ k \<le> x"
  shows "a div (x * (x - 1)) \<le> 2 ^ (k + 5)"
proof -
  have "(2::nat) ^ k \<le> x - 1" using assms(2) one_le_power [of "2::nat" k] by linarith
  then have le: "(2 * 2 ^ k) * 2 ^ k \<le> x * (x - 1)" using assms(2) by (intro mult_le_mono)
  have "a div (x * (x - 1)) \<le> a div ((2 * 2 ^ k) * 2 ^ k)" using le by (intro div_le_mono2) auto
  also have "\<dots> = a div 2 ^ (2 * k + 1)" by (simp add: power_add mult_2 distrib_right)
  also have "\<dots> < 2 ^ (3 * k + 6 - (2 * k + 1))" using assms(1) by (intro power_div_less) auto
  finally show ?thesis by (simp add: add.commute)
qed

lemma cubic_guess:
  assumes "64 \<le> unat a" and "b = unat (fls64 a)" and "k = b * 84 div 256 - 1"
  shows "1 \<le> k" "k \<le> 20" "8 \<le> unat a div 2 ^ (3 * k)" "unat a div 2 ^ (3 * k) < 64"
    "unat a < 2 ^ (3 * k + 6)" "7 \<le> b" "b \<le> 64" "3 * k < b"
proof -
  have nz: "a \<noteq> 0" using assms(1) by auto
  note f = fls64_bounds [OF nz, folded assms(2)]
  have "\<not> b \<le> 6"
  proof
    assume "b \<le> 6"
    then have "(2::nat) ^ b \<le> 2 ^ 6" by (intro power_increasing) auto
    then show False using f(4) assms(1) by simp
  qed
  then show b: "7 \<le> b" "b \<le> 64" using f(2) by auto
  note k = cubic_shift [OF b, folded assms(3)]
  show "1 \<le> k" "k \<le> 20" by (rule k)+
  have "(2::nat) ^ 3 \<le> 2 ^ (b - 1 - 3 * k)" using k(3) by (intro power_increasing) auto
  also have "\<dots> \<le> unat a div 2 ^ (3 * k)" using k(3) f(3) by (intro power_diff_le) auto
  finally show "8 \<le> unat a div 2 ^ (3 * k)" by simp
  have "unat a div 2 ^ (3 * k) < 2 ^ (b - 3 * k)" using k(3) f(4) by (intro power_div_less) auto
  also have "\<dots> \<le> 2 ^ 6" using k(4) by (intro power_increasing) auto
  finally show "unat a div 2 ^ (3 * k) < 64" by simp
  show "unat a < 2 ^ (3 * k + 6)"
    using f(4) k(4) power_increasing [of b "3 * k + 6" "2::nat"] by linarith
  show "3 * k < b" using k(3) by simp
qed

lemma unat_int_ulong_small:
  assumes "unat (i :: cint) < 2 ^ 31"
  shows "unat (int_ulong i) = unat i"
  using assms sint_of_small [of i] unat_int_ulong [of i] by simp

lemma cubic_root_big:
  assumes "64 \<le> unat a"
  shows "\<exists>k x r. 1 \<le> k \<and> k \<le> 20 \<and> 8 \<le> unat a div 2 ^ (3 * k) \<and> unat a div 2 ^ (3 * k) < 64
    \<and> x = (unat (cubic_v ! (unat a div 2 ^ (3 * k))) + 10) * 2 ^ k div 64
    \<and> unat a div (x * (x - 1)) \<le> r \<and> r \<le> unat a div (x * (x - 1)) + 2
    \<and> (x * (x - 1) < 2 ^ 32 \<longrightarrow> r = unat a div (x * (x - 1)))
    \<and> 2 * 2 ^ k \<le> x \<and> x < 2 ^ 23
    \<and> (\<exists>y. cubic_root a = Some y \<and> unat y = (2 * x + r) * 341 div 1024 \<and> unat y < 2 ^ 26)"
proof -
  define b where "b = unat (fls64 a)"
  define k where "k = b * 84 div 256 - 1"
  note g = cubic_guess [OF assms b_def k_def]
  define bw where "bw = int_ulong (fls64 a)"
  have bw: "unat bw = b" using g(7) by (simp add: bw_def b_def unat_int_ulong_small)
  define kw where "kw = drop_bit 8 (bw * 84) - 1"
  have "unat (drop_bit 8 (bw * 84)) = b * 84 div 256"
    using g(7) bw by (simp add: unat_drop_bit_div unat_word_ariths)
  then have kw: "unat kw = k"
    using g(1) by (simp add: kw_def k_def unat_minus_one unat_gt_0 [symmetric])
  have k3: "unat (kw * 3) = 3 * k" using kw g(2) by (simp add: unat_word_ariths)
  define i where "i = unat a div 2 ^ (3 * k)"
  have sh: "unat (drop_bit (unat (kw * 3)) a) = i" by (simp add: k3 i_def unat_drop_bit_div)
  define v where "v = unat (cubic_v ! i)"
  have i: "8 \<le> i" "i < 64" using g(3,4) by (simp_all add: i_def)
  have v: "123 \<le> v" "v < 256" using cubic_v_ge [OF i] unat8_less by (simp_all add: v_def)
  have p20: "(2::nat) ^ k \<le> 2 ^ 20" using g(2) by (intro power_increasing) auto
  define xw where "xw = drop_bit 6 (push_bit (unat kw) (ucast (cubic_v ! i) + 10 :: u64))"
  define x where "x = (v + 10) * 2 ^ k div 64"
  have v10: "unat (ucast (cubic_v ! i) + 10 :: u64) = v + 10"
    using v(2) by (simp add: unat_word_ariths v_def [symmetric])
  have mx: "(v + 10) * 2 ^ k \<le> 265 * 2 ^ 20" using v(2) p20 by (intro mult_le_mono) auto
  then have xw: "unat xw = x"
    by (simp add: xw_def unat_drop_bit_div unat_push_bit kw v10 x_def)
  have x: "2 * 2 ^ k \<le> x" "x < 2 ^ 23"
  proof -
    have "128 * 2 ^ k \<le> (v + 10) * 2 ^ k" using v(1) by (intro mult_le_mono1) simp
    then show "2 * 2 ^ k \<le> x" by (simp add: x_def less_eq_div_iff_mult_less_eq)
    show "x < 2 ^ 23" using mx by (simp add: x_def less_mult_imp_div_less)
  qed
  have x1: "2 \<le> x" using x(1) one_le_power [of "2::nat" k] by linarith
  have xm: "unat (xw - 1) = x - 1" using xw x1 by (simp add: unat_minus_one unat_gt_0 [symmetric])
  have "x * (x - 1) < 2 ^ 23 * 2 ^ 23" using x(2) x1 by (intro mult_strict_mono) auto
  then have d: "unat (xw * (xw - 1)) = x * (x - 1)"
    using xw xm by (simp add: unat_word_ariths)
  have "0 < x * (x - 1)" using x1 by simp
  then have nz: "xw * (xw - 1) \<noteq> 0" unfolding d [symmetric] by (simp add: unat_gt_0)
  from div64_64_spec [OF nz, of a] obtain q where q: "div64_64 a (xw * (xw - 1)) = Some q"
    "unat a div (x * (x - 1)) \<le> unat q" "unat q \<le> unat a div (x * (x - 1)) + 2"
    "x * (x - 1) < 2 ^ 32 \<longrightarrow> unat q = unat a div (x * (x - 1))" unfolding d by blast
  define y where "y = drop_bit 10 ((2 * xw + q) * 341)"
  have "unat a div (x * (x - 1)) \<le> 2 ^ (k + 5)" using g(5) x(1) by (rule newton_step_bound)
  also have "\<dots> \<le> (2::nat) ^ 25" using g(2) by (intro power_increasing) auto
  finally have r: "2 * x + unat q < 2 ^ 26" using q(3) x(2) by simp
  then have s: "unat (2 * xw + q) = 2 * x + unat q" using xw by (simp add: unat_word_ariths)
  define z where "z = 2 * xw + q"
  have y: "unat y = (2 * x + unat q) * 341 div 1024"
    using r s unfolding y_def z_def [symmetric] by (simp add: unat_drop_bit_div unat_word_ariths)
  have "\<not> bw < 7" using bw g(6) by (simp add: word_less_nat_alt)
  then have root: "cubic_root a = Some y"
    using i q(1) sh
    by (simp add: cubic_root_def bw_def [symmetric] kw_def [symmetric] table_lookup_def
        length_cubic_v xw_def [symmetric] y_def Let_def)
  have y26: "unat y < 2 ^ 26" using y r by (simp add: less_mult_imp_div_less)
  have xe: "x = (unat (cubic_v ! (unat a div 2 ^ (3 * k))) + 10) * 2 ^ k div 64"
    by (simp only: x_def v_def i_def)
  show ?thesis
    by (rule exI [of _ k], rule exI [of _ x], rule exI [of _ "unat q"], intro conjI exI [of _ y])
      (rule g(1-4) xe q(2-4) x y y26 root)+
qed

lemma cubic_root_small:
  assumes "unat a < 64"
  shows "\<exists>y. cubic_root a = Some y \<and> unat y = (unat (cubic_v ! unat a) + 35) div 64"
proof -
  have "unat (fls64 a) < 7"
  proof (cases "a = 0")
    case True
    then show ?thesis by (simp add: fls64_def)
  next
    case False
    show ?thesis
    proof (rule ccontr)
      assume "\<not> unat (fls64 a) < 7"
      then have "(2::nat) ^ 6 \<le> 2 ^ (unat (fls64 a) - 1)" by (intro power_increasing) auto
      then show False using fls64_bounds(3) [OF False] assms by simp
    qed
  qed
  then have lt: "int_ulong (fls64 a) < 7" by (simp add: word_less_nat_alt unat_int_ulong_small)
  have "unat (ucast (cubic_v ! unat a) + 35 :: u64) = unat (cubic_v ! unat a) + 35"
    using unat8_less [of "cubic_v ! unat a"] by (simp add: unat_word_ariths)
  then show ?thesis
    using lt assms by (simp add: cubic_root_def table_lookup_def length_cubic_v unat_drop_bit_div)
qed

lemma cubic_root_returns: "\<exists>y. cubic_root a = Some y \<and> unat y < 2 ^ 26"
proof (cases "unat a < 64")
  case True
  then show ?thesis
    using cubic_root_small [OF True] unat8_less [of "cubic_v ! unat a"] by auto
next
  case False
  then show ?thesis using cubic_root_big [of a] by (metis not_less)
qed

section \<open>The cubic root is accurate\<close>

text \<open>
  Below, \<open>x\<close> is the table's guess for the root of \<open>A\<close>.  From above: the cube of one Newton step
  is compared with \<open>A\<close> at the two ends of the interval of the arguments that share a guess; in
  between it is a convex function against a linear one.
\<close>

lemma cube_chord:
  fixes u c K C t0 t1 t :: int
  assumes "0 \<le> u" "0 < c" "0 \<le> K" "0 \<le> t0" "t0 \<le> t" "t \<le> t1"
    and e0: "(u + c * t0) ^ 3 * K \<le> C * t0" and e1: "(u + c * t1) ^ 3 * K \<le> C * t1"
  shows "(u + c * t) ^ 3 * K \<le> C * t"
proof (rule ccontr)
  assume n: "\<not> (u + c * t) ^ 3 * K \<le> C * t"
  define A L H where "A = u + c * t" and "L = u + c * t0" and "H = u + c * t1"
  have o: "0 \<le> L" "L \<le> A" "A \<le> H" using assms by (simp_all add: A_def L_def H_def)
  have f: "a ^ 3 - b ^ 3 = (a - b) * (a * a + a * b + b * b)" for a b :: int
    by (simp add: algebra_simps power3_eq_cube)
  have "C * (t - t0) < (A ^ 3 - L ^ 3) * K" using n e0 by (simp add: A_def L_def algebra_simps)
  also have "\<dots> = (t - t0) * (c * K * (A * A + A * L + L * L))"
    unfolding f by (simp add: A_def L_def algebra_simps)
  finally have 1: "C * (t - t0) < (t - t0) * (c * K * (A * A + A * L + L * L))" .
  then have "t \<noteq> t0" by auto
  then have C1: "C < c * K * (A * A + A * L + L * L)"
    using 1 assms(5) by (simp add: mult.commute [of C])
  have "(H ^ 3 - A ^ 3) * K < C * (t1 - t)" using n e1 by (simp add: A_def H_def algebra_simps)
  also have "(H ^ 3 - A ^ 3) * K = (t1 - t) * (c * K * (H * H + H * A + A * A))"
    unfolding f by (simp add: A_def H_def algebra_simps)
  finally have 2: "(t1 - t) * (c * K * (H * H + H * A + A * A)) < C * (t1 - t)" .
  then have "t \<noteq> t1" by auto
  then have C2: "c * K * (H * H + H * A + A * A) < C"
    using 2 assms(6) by (simp add: mult.commute [of C])
  have "A * A + A * L + L * L \<le> H * H + H * A + A * A"
    using o mult_mono [of A H L A] mult_mono [of L H L H] by simp
  then have "c * K * (A * A + A * L + L * L) \<le> c * K * (H * H + H * A + A * A)"
    using assms(2,3) by (intro mult_left_mono) auto
  then show False using C1 C2 by simp
qed

text \<open>The two ends, for a guess of the small arguments and, free of scale, for the others.\<close>

definition guess_ends :: "int \<Rightarrow> int \<Rightarrow> int \<Rightarrow> int \<Rightarrow> bool" where
  "guess_ends u C lo hi \<longleftrightarrow> (u + 341 * lo) ^ 3 * 1000 \<le> C * lo \<and> (u + 341 * hi) ^ 3 * 1000 \<le> C * hi"

definition guess_small :: "int \<Rightarrow> int \<Rightarrow> int \<Rightarrow> bool" where
  "guess_small p s v =
     (let x = (v + 10) * p div 64; D = x * (x - 1); q = p * p * p
      in 2 \<le> x \<and> D < 4294967296
         \<and> guess_ends ((682 * x - 1024) * D) (D * D * D * 1085552984064) (s * q) ((s + 1) * q))"

definition guess_large :: "int \<Rightarrow> int \<Rightarrow> bool" where
  "guess_large s v =
     (let X = v + 10; E = X * (X - 1)
      in guess_ends (682 * X * E) (E * E * E * 1085552984064) (s * 262144) ((s + 1) * 262144))"

definition guess_table :: "(int \<times> int) list" where
  "guess_table = zip [8..63] [
     123,  129,  134,  138,  143,  147,  151,  156,
     157,  161,  164,  168,  170,  173,  176,  179,
     181,  185,  187,  190,  192,  194,  197,  199,
     200,  202,  204,  206,  209,  211,  213,  215,
     217,  219,  221,  222,  224,  225,  227,  229,
     231,  232,  234,  236,  237,  239,  240,  242,
     244,  245,  246,  248,  250,  251,  252,  254]"

lemma guess_small_all:
  "list_all (\<lambda>(s, v). guess_small 2 s v) guess_table"
  "list_all (\<lambda>(s, v). guess_small 4 s v) guess_table"
  "list_all (\<lambda>(s, v). guess_small 8 s v) guess_table"
  "list_all (\<lambda>(s, v). guess_small 16 s v) guess_table"
  "list_all (\<lambda>(s, v). guess_small 32 s v) guess_table"
  by code_simp+

lemma guess_large_all: "list_all (\<lambda>(s, v). guess_large s v) guess_table"
  by code_simp

lemma guess_table_entry:
  assumes "8 \<le> i" and "i < 64"
  shows "(int i, int (unat (cubic_v ! i))) \<in> set guess_table"
proof -
  have e: "guess_table = zip [8..63] (map (\<lambda>v. int (unat v)) (drop 8 cubic_v))"
    by (simp add: guess_table_def cubic_v_def)
  have l: "length [8..63::int] = 56" by simp
  have "i - 8 < length guess_table"
    using assms by (simp add: e l length_cubic_v del: upto_rec_numeral)
  moreover have "guess_table ! (i - 8) = (int i, int (unat (cubic_v ! i)))"
    using assms nth_upto [of 8 "i - 8" 63]
    by (simp add: e l length_cubic_v del: upto_rec_numeral)
  ultimately show ?thesis by (metis nth_mem)
qed

lemma guess_small_entry:
  assumes "1 \<le> k" "k \<le> 5" "8 \<le> i" "i < 64"
  shows "guess_small (2 ^ k) (int i) (int (unat (cubic_v ! i)))"
proof -
  consider "k = 1" | "k = 2" | "k = 3" | "k = 4" | "k = 5" using assms(1,2) by linarith
  then show ?thesis
    using guess_small_all guess_table_entry [OF assms(3,4)] unfolding list_all_iff
    by cases fastforce+
qed

lemma guess_large_entry:
  "8 \<le> i \<Longrightarrow> i < 64 \<Longrightarrow> guess_large (int i) (int (unat (cubic_v ! i)))"
  using guess_large_all guess_table_entry unfolding list_all_iff by fastforce

lemma cube_cancel:
  fixes m D C A z :: int
  assumes "0 < D" and "0 \<le> z" and "1024 * z * D \<le> m"
    and "m ^ 3 * 1000 \<le> D * D * D * 1085552984064 * A"
  shows "z ^ 3 * 1000 \<le> 1011 * A"
proof -
  have "(1024 * z * D) ^ 3 \<le> m ^ 3" using assms(1-3) by (intro power_mono) auto
  then have "(1024 * z * D) ^ 3 * 1000 \<le> D * D * D * 1085552984064 * A" using assms(4) by linarith
  then have "(D * D * D * 1073741824) * (z ^ 3 * 1000) \<le> (D * D * D * 1073741824) * (1011 * A)"
    by (simp add: power3_eq_cube algebra_simps)
  then show ?thesis using assms(1) by (simp add: mult_le_cancel_left zero_less_mult_iff)
qed

text \<open>The step after a guess of a small argument, whose division is exact.\<close>

lemma newton_small:
  fixes x D r A y lo hi :: int
  assumes D: "D = x * (x - 1)" "2 \<le> x" and r: "r * D \<le> A" "0 \<le> r"
    and y: "1024 * y \<le> 341 * (2 * x + r)" "1 \<le> y"
    and e: "guess_ends ((682 * x - 1024) * D) (D * D * D * 1085552984064) lo hi"
    and A: "0 \<le> lo" "lo \<le> A" "A \<le> hi"
  shows "(y - 1) ^ 3 * 1000 \<le> 1011 * A"
proof -
  have Dp: "0 < D" using D by simp
  have "((682 * x - 1024) * D + 341 * A) ^ 3 * 1000 \<le> D * D * D * 1085552984064 * A"
    using e A Dp D(2) by (intro cube_chord [of _ 341 1000 lo A hi]) (auto simp: guess_ends_def)
  moreover have "1024 * (y - 1) * D \<le> (682 * x - 1024) * D + 341 * A"
  proof -
    have "1024 * (y - 1) \<le> 682 * x - 1024 + 341 * r" using y(1) by simp
    then have "1024 * (y - 1) * D \<le> (682 * x - 1024 + 341 * r) * D"
      using Dp by (intro mult_right_mono) auto
    also have "\<dots> = (682 * x - 1024) * D + 341 * (r * D)" by (simp add: algebra_simps)
    finally show ?thesis using r(1) by simp
  qed
  ultimately show ?thesis using Dp y(2) by (intro cube_cancel [of D "y - 1"]) auto
qed

text \<open>
  The step after a guess \<open>X * P\<close> of an argument of the size \<open>P ^ 3\<close>; the quotient may be two
  too large, which the dropped fraction of the result makes up for.
\<close>

lemma newton_large:
  fixes X P E r A y lo hi :: int
  assumes E: "E = X * (X - 1)" "2 \<le> X" and P: "1 \<le> P"
    and r: "(r - 2) * (X * P * (X * P - 1)) \<le> A" "0 \<le> A"
    and y: "1024 * y \<le> 341 * (2 * (X * P) + r)" "1 \<le> y"
    and e: "guess_ends (682 * X * E) (E * E * E * 1085552984064) lo hi"
    and A: "0 \<le> lo" "lo * (P * P * P) \<le> A" "A \<le> hi * (P * P * P)"
  shows "(y - 1) ^ 3 * 1000 \<le> 1011 * A"
proof -
  define D where "D = E * P * P"
  have Ep: "0 < E" using E by simp
  have Dp: "0 < D" using Ep P by (simp add: D_def)
  have ends: "guess_ends (682 * X * P * D) (D * D * D * 1085552984064) (lo * (P * P * P)) (hi * (P * P * P))"
  proof -
    have q: "(682 * X * P * D + 341 * (t * (P * P * P))) ^ 3 * 1000 =
        (P * P * P) ^ 3 * ((682 * X * E + 341 * t) ^ 3 * 1000)"
      "D * D * D * 1085552984064 * (t * (P * P * P)) = (P * P * P) ^ 3 * (E * E * E * 1085552984064 * t)" for t
      by (simp_all add: D_def power3_eq_cube algebra_simps)
    have "0 < (P * P * P) ^ 3" using P by simp
    then show ?thesis
      using e unfolding guess_ends_def q by (simp only: mult_le_cancel_left_pos)
  qed
  have "(682 * X * P * D + 341 * A) ^ 3 * 1000 \<le> D * D * D * 1085552984064 * A"
    using ends A Dp E P by (intro cube_chord [of _ 341 1000 "lo * (P * P * P)" A "hi * (P * P * P)"])
      (auto simp: guess_ends_def)
  moreover have "1024 * (y - 1) * D \<le> 682 * X * P * D + 341 * A"
  proof -
    have "341 * (r - 2) * D \<le> 341 * A"
    proof (cases "0 \<le> r - 2")
      case True
      have "P * (X - 1) \<le> X * P - 1" using P by (simp add: algebra_simps)
      then have "X * P * (P * (X - 1)) \<le> X * P * (X * P - 1)" using E P by (intro mult_left_mono) auto
      then have "D \<le> X * P * (X * P - 1)" by (simp add: D_def E(1) algebra_simps)
      then have "(r - 2) * D \<le> (r - 2) * (X * P * (X * P - 1))" using True by (intro mult_left_mono)
      then have "(r - 2) * D \<le> A" using r(1) by linarith
      then show ?thesis by (simp only: mult.assoc)
    next
      case False
      then have "(r - 2) * D \<le> 0" using Dp by (simp add: mult_le_0_iff)
      then have "(r - 2) * D \<le> A" using r(2) by linarith
      then show ?thesis by (simp only: mult.assoc)
    qed
    moreover have "1024 * (y - 1) \<le> 682 * X * P + 341 * (r - 2)" using y(1) by simp
    then have "1024 * (y - 1) * D \<le> (682 * X * P + 341 * (r - 2)) * D"
      using Dp by (intro mult_right_mono) auto
    ultimately show ?thesis by (simp add: algebra_simps)
  qed
  ultimately show ?thesis using Dp y(2) by (intro cube_cancel [of D "y - 1"]) auto
qed

text \<open>From below: the mean of two copies of the guess and the quotient is at least the root.\<close>

lemma newton_lower:
  fixes x e A :: int
  assumes "0 \<le> x" "0 \<le> e" "A < e * (x * x)"
  shows "27 * A < (2 * x + e) ^ 3"
proof -
  have "(2 * x + e) ^ 3 - 27 * (e * (x * x)) = (e - x) * (e - x) * (e + 8 * x)"
    by (simp add: power3_eq_cube algebra_simps)
  moreover have "0 \<le> (e - x) * (e - x) * (e + 8 * x)" using assms(1,2) by simp
  ultimately show ?thesis using assms(3) by linarith
qed

lemma cubic_upper:
  fixes a x r y k i :: nat
  assumes k: "1 \<le> k" and i: "i = a div 2 ^ (3 * k)" "8 \<le> i" "i < 64"
    and x: "x = (unat (cubic_v ! i) + 10) * 2 ^ k div 64" "2 * 2 ^ k \<le> x"
    and r: "r \<le> a div (x * (x - 1)) + 2" "x * (x - 1) < 2 ^ 32 \<longrightarrow> r = a div (x * (x - 1))"
    and y: "y = (2 * x + r) * 341 div 1024" "1 \<le> y"
  shows "(int y - 1) ^ 3 * 1000 \<le> 1011 * int a"
proof -
  define v where "v = int (unat (cubic_v ! i))"
  have x2: "2 \<le> x" using x(2) one_le_power [of "2::nat" k] by linarith
  have xd: "int (x * (x - 1)) = int x * (int x - 1)" using x2 by (simp add: of_nat_diff)
  have lo: "i * 2 ^ (3 * k) \<le> a" "a \<le> (i + 1) * 2 ^ (3 * k)"
    using less_Suc_div_mult [of "2 ^ (3 * k)" a] by (simp_all add: i(1))
  have p3: "(2::int) ^ (3 * k) = 2 ^ k * 2 ^ k * 2 ^ k" 
    by (simp only: mult.commute [of 3 k] power_mult power3_eq_cube)
  have lo': "int i * (2 ^ k * 2 ^ k * 2 ^ k) \<le> int a" "int a \<le> (int i + 1) * (2 ^ k * 2 ^ k * 2 ^ k)"
    using lo [folded of_nat_le_iff [where 'a = int]] p3 by (simp_all add: algebra_simps)
  have "y * 1024 \<le> (2 * x + r) * 341" unfolding y(1) by (rule div_times_less_eq_dividend)
  then have "int (y * 1024) \<le> int ((2 * x + r) * 341)" by (simp only: of_nat_le_iff)
  then have y1: "1024 * int y \<le> 341 * (2 * int x + int r)" by simp
  show ?thesis
  proof (cases "k \<le> 5")
    case True
    have xi: "int x = (v + 10) * 2 ^ k div 64" by (simp add: x(1) v_def zdiv_int)
    have g: "guess_small (2 ^ k) (int i) v"
      unfolding v_def using k True i(2,3) by (rule guess_small_entry)
    then have d: "int x * (int x - 1) < 4294967296"
      and e: "guess_ends ((682 * int x - 1024) * (int x * (int x - 1)))
        ((int x * (int x - 1)) * (int x * (int x - 1)) * (int x * (int x - 1)) * 1085552984064)
        (int i * (2 ^ k * 2 ^ k * 2 ^ k)) ((int i + 1) * (2 ^ k * 2 ^ k * 2 ^ k))"
      by (simp_all add: guess_small_def Let_def xi [symmetric])
    have "int (x * (x - 1)) < int (2 ^ 32)" using d unfolding xd by simp
    then have "x * (x - 1) < 2 ^ 32" by (simp only: of_nat_less_iff)
    then have "r = a div (x * (x - 1))" using r(2) by blast
    then have "r * (x * (x - 1)) \<le> a" by simp
    then have "int r * (int x * (int x - 1)) \<le> int a" by (metis xd of_nat_le_iff of_nat_mult)
    with x2 y(2) show ?thesis
      by (intro newton_small [OF refl _ _ _ y1 _ e _ lo']) auto
  next
    case False
    define X where "X = v + 10"
    define P where "P = (2::int) ^ (k - 6)"
    have k6: "k = 6 + (k - 6)" using False by simp
    have pk: "(2::int) ^ k = 64 * P" by (subst k6) (simp add: power_add P_def)
    have xi: "int x = X * P" by (simp add: x(1) X_def v_def zdiv_int pk)
    have e: "guess_ends (682 * X * (X * (X - 1))) ((X * (X - 1)) * (X * (X - 1)) * (X * (X - 1)) * 1085552984064)
      (int i * 262144) ((int i + 1) * 262144)"
      using guess_large_entry [OF i(2,3)] by (simp add: guess_large_def Let_def X_def v_def)
    have q: "t * (2 ^ k * 2 ^ k * 2 ^ k) = t * 262144 * (P * P * P)" for t :: int by (simp add: pk)
    have "(int r - 2) * (X * P * (X * P - 1)) \<le> int a"
    proof -
      have "(int r - 2) * int (x * (x - 1)) \<le> int (a div (x * (x - 1)) * (x * (x - 1)))"
        using r(1) by (simp only: of_nat_mult [of "a div (x * (x - 1))"]) (intro mult_right_mono, auto)
      also have "\<dots> \<le> int a" by (simp only: of_nat_le_iff) simp
      finally show ?thesis by (simp only: xd xi)
    qed
    with y(2) show ?thesis
      by (intro newton_large [OF refl _ _ _ _ y1 [unfolded xi] _ e _ lo' [unfolded q]])
        (auto simp: X_def v_def P_def)
  qed
qed

lemma cubic_lower:
  fixes a x r y :: nat
  assumes "2 \<le> x" and "a div (x * (x - 1)) \<le> r" and "y = (2 * x + r) * 341 div 1024"
  shows "1023 ^ 3 * a < (1024 * y + 1364) ^ 3"
proof -
  have "a < (r + 1) * (x * (x - 1))"
  proof -
    have "a < (a div (x * (x - 1)) + 1) * (x * (x - 1))"
      using assms(1) by (intro less_Suc_div_mult) simp
    also have "\<dots> \<le> (r + 1) * (x * (x - 1))" using assms(2) by (intro mult_le_mono1) simp
    finally show ?thesis .
  qed
  also have "\<dots> \<le> (r + 1) * (x * x)" by (intro mult_le_mono2) simp
  finally have "int a < int (r + 1) * (int x * int x)" by (metis of_nat_less_iff of_nat_mult)
  then have n: "27 * int a < (2 * int x + int (r + 1)) ^ 3" by (intro newton_lower) auto
  have "(2 * x + r) * 341 < (y + 1) * 1024"
    unfolding assms(3) by (rule less_Suc_div_mult) simp
  then have "int ((2 * x + r) * 341) < int ((y + 1) * 1024)" by (simp only: of_nat_less_iff)
  then have "341 * (2 * int x + int (r + 1)) \<le> 1024 * int y + 1364" by simp
  then have "(341 * (2 * int x + int (r + 1))) ^ 3 \<le> (1024 * int y + 1364) ^ 3"
    by (intro power_mono) auto
  moreover have "(341 * (2 * int x + int (r + 1))) ^ 3 = 39651821 * (2 * int x + int (r + 1)) ^ 3"
    by (simp only: power_mult_distrib) simp
  ultimately have "1070599167 * int a < (1024 * int y + 1364) ^ 3" using n by linarith
  then have "int (1070599167 * a) < int ((1024 * y + 1364) ^ 3)" by simp
  then show ?thesis by (simp only: of_nat_less_iff) simp
qed

lemma cubic_root_accurate_big:
  assumes "64 \<le> unat a" and "cubic_root a = Some y"
  shows "(unat y - 1) ^ 3 * 1000 \<le> 1011 * unat a" and "1023 ^ 3 * unat a < (1024 * unat y + 1364) ^ 3"
proof -
  obtain k x r where g: "1 \<le> k" "8 \<le> unat a div 2 ^ (3 * k)" "unat a div 2 ^ (3 * k) < 64"
    "x = (unat (cubic_v ! (unat a div 2 ^ (3 * k))) + 10) * 2 ^ k div 64"
    "unat a div (x * (x - 1)) \<le> r" "r \<le> unat a div (x * (x - 1)) + 2"
    "x * (x - 1) < 2 ^ 32 \<longrightarrow> r = unat a div (x * (x - 1))" "2 * 2 ^ k \<le> x"
    "unat y = (2 * x + r) * 341 div 1024"
    using cubic_root_big [OF assms(1)] unfolding assms(2) option.inject by metis
  have x4: "4 \<le> x" using g(1,8) power_increasing [of 1 k "2::nat"] by simp
  then have y1: "1 \<le> unat y" unfolding g(9) by (simp add: less_eq_div_iff_mult_less_eq)
  have "(int (unat y) - 1) ^ 3 * 1000 \<le> 1011 * int (unat a)"
    using cubic_upper [OF g(1) refl g(2-4,8,6,7,9) y1] .
  then have "int ((unat y - 1) ^ 3 * 1000) \<le> int (1011 * unat a)"
    using y1 by (simp add: of_nat_diff)
  then show "(unat y - 1) ^ 3 * 1000 \<le> 1011 * unat a" by (simp only: of_nat_le_iff)
  show "1023 ^ 3 * unat a < (1024 * unat y + 1364) ^ 3"
    using x4 g(5,9) by (intro cubic_lower [of x]) auto
qed

lemma cubic_v_small:
  "list_all (\<lambda>(i, v). ((v + 35) div 64 - 1) ^ 3 * 1000 \<le> 1011 * i \<and>
     1070599167 * i < (1024 * ((v + 35) div 64) + 1364) ^ 3)
   (zip [0..63] (map uint cubic_v))"
  by code_simp

lemma cubic_root_accurate_small:
  assumes "unat a < 64" and "cubic_root a = Some y"
  shows "(unat y - 1) ^ 3 * 1000 \<le> 1011 * unat a" and "1023 ^ 3 * unat a < (1024 * unat y + 1364) ^ 3"
proof -
  define z where "z = zip [0..63] (map uint cubic_v)"
  have "0 + int (unat a) \<le> 63" using assms(1) by linarith
  then have "[0..63] ! unat a = 0 + int (unat a)" by (rule nth_upto)
  then have "z ! unat a = (int (unat a), uint (cubic_v ! unat a))"
    using assms(1) by (simp add: z_def length_cubic_v del: upto_rec_numeral)
  moreover have "unat a < length z" using assms(1) by (simp add: z_def length_cubic_v del: upto_rec_numeral)
  ultimately have m: "(int (unat a), uint (cubic_v ! unat a)) \<in> set z" by (metis nth_mem)
  have y: "int (unat y) = (uint (cubic_v ! unat a) + 35) div 64"
    using cubic_root_small [OF assms(1)] assms(2) by (auto simp: zdiv_int simp del: of_nat_div)
  have up: "(int (unat y) - 1) ^ 3 * 1000 \<le> 1011 * int (unat a)"
    and lo: "1070599167 * int (unat a) < (1024 * int (unat y) + 1364) ^ 3"
    using cubic_v_small m unfolding z_def [symmetric] list_all_iff y by auto
  have "int ((unat y - 1) ^ 3 * 1000) \<le> int (1011 * unat a)"
  proof (cases "unat y = 0")
    case False
    then show ?thesis using up by (simp add: of_nat_diff)
  qed simp
  then show "(unat y - 1) ^ 3 * 1000 \<le> 1011 * unat a" by (simp only: of_nat_le_iff)
  have "int (1070599167 * unat a) < int ((1024 * unat y + 1364) ^ 3)" using lo by simp
  then show "1023 ^ 3 * unat a < (1024 * unat y + 1364) ^ 3" by (simp only: of_nat_less_iff) simp
qed

lemmas cubic_root_accurate = cubic_root_accurate_small cubic_root_accurate_big

section \<open>The estimate of Reno's window\<close>

text \<open>
  The loop subtracts \<open>delta\<close> from the count while it is larger: a division, whose quotient it
  adds to the estimate.  With \<open>delta = 0\<close> it never ends.
\<close>

lemma cubic_friendly_loop_spec:
  assumes "delta \<noteq> 0"
  shows "cubic_friendly_loop delta n w =
     Some (n - delta * of_nat ((unat n - 1) div unat delta), w + of_nat ((unat n - 1) div unat delta))"
proof (induction "unat n" arbitrary: n w rule: less_induct)
  case less
  have d: "0 < unat delta" using assms by (simp add: unat_gt_0)
  show ?case
  proof (cases "delta < n")
    case True
    then have lt: "unat delta < unat n" by (simp add: word_less_nat_alt)
    have u: "unat (n - delta) = unat n - unat delta" using lt by (simp add: unat_sub word_le_nat_alt)
    then have "cubic_friendly_loop delta (n - delta) (w + 1) =
      Some (n - delta - delta * of_nat ((unat n - unat delta - 1) div unat delta),
        w + 1 + of_nat ((unat n - unat delta - 1) div unat delta))"
      using less [of "n - delta" "w + 1"] d lt by simp
    moreover have "(unat n - 1) div unat delta = Suc ((unat n - unat delta - 1) div unat delta)"
    proof -
      have "unat n - 1 = (unat n - unat delta - 1) + unat delta" using lt by simp
      then show ?thesis using d by (metis Suc_eq_plus1 div_add_self2 less_numeral_extra(3))
    qed
    ultimately show ?thesis using True
      by (subst cubic_friendly_loop.simps) (simp add: algebra_simps)
  next
    case False
    then have "(unat n - 1) div unat delta = 0"
      using d by (auto simp: word_less_nat_alt div_eq_0_iff)
    then show ?thesis using False by (subst cubic_friendly_loop.simps) simp
  qed
qed

lemma cubic_friendly_loop_returns:
  "cubic_friendly_loop delta n w = Some r \<Longrightarrow> \<not> (delta = 0 \<and> n \<noteq> 0)"
proof (rule cubic_friendly_loop.raw_induct [where P = "\<lambda>delta n w r. \<not> (delta = 0 \<and> n \<noteq> 0)"])
  fix loop :: "u32 \<Rightarrow> u32 \<Rightarrow> u32 \<Rightarrow> (u32 \<times> u32) option" and delta n w :: u32 and y
  assume IH: "\<And>delta n w r. loop delta n w = Some r \<Longrightarrow> \<not> (delta = 0 \<and> n \<noteq> 0)"
    and r: "(if delta < n then loop delta (n - delta) (w + 1) else Some (n, w)) = Some y"
  show "\<not> (delta = 0 \<and> n \<noteq> 0)"
    using r IH [of delta "n - delta" "w + 1" y] by (auto simp: word_gt_0 split: if_splits)
qed

lemma cubic_friendly_loop_None: "cubic_friendly_loop delta n w = None \<longleftrightarrow> delta = 0 \<and> n \<noteq> 0"
proof (cases "delta = 0 \<and> n \<noteq> 0")
  case True
  then show ?thesis using cubic_friendly_loop_returns [of delta n w]
    by (cases "cubic_friendly_loop delta n w") auto
next
  case False
  then have "cubic_friendly_loop delta n w \<noteq> None"
    using cubic_friendly_loop_spec [of delta n w]
    by (cases "delta = 0") (simp_all add: cubic_friendly_loop.simps [of 0 0])
  then show ?thesis using False by blast
qed

section \<open>The update returns\<close>

text \<open>
  \<^verbatim>\<open>delay_min\<close> divides a window: it is zero (no sample yet) or its product with ten times
  \<^verbatim>\<open>max_increment\<close> is not zero modulo \<open>2 ^ 64\<close>.
\<close>

definition delay_ok :: "u32 \<Rightarrow> bool" where
  "delay_ok d \<longleftrightarrow> d = 0 \<or> 160 * d \<noteq> 0"

definition cubic_ok :: "bool \<Rightarrow> cubictcp \<Rightarrow> bool" where
  "cubic_ok b ca \<longleftrightarrow> (b \<longrightarrow> ratio_ok (cu_delayed_ack ca) \<and> delay_ok (cu_delay_min ca))"

definition cubic_default_scales :: cubic_scales where
  "cubic_default_scales = \<lparr>cube_rtt_scale = 410, beta_scale = 23, cube_factor = 2681735677\<rparr>"

lemma cubic_default_int [simp]:
  "int_ulong (10 * cu_max_increment cubic_default) = 160" "int_ulong (cu_beta cubic_default) = 819"
  "int_ulong BETA_SCALE_cubic = 1024" "int_ulong (BETA_SCALE_cubic + cu_beta cubic_default) = 1843"
  "int_ulong (2 * BETA_SCALE_cubic) = 2048" "cu_initial_ssthresh cubic_default = 0"
  "cu_fast_convergence cubic_default = 1" "cu_tcp_friendliness cubic_default = 1"
  "beta_scale cubic_default_scales = 23"
  by (simp_all add: cubic_default_def cubic_consts cubic_default_scales_def)

lemma measure_delay_ok:
  assumes "clock_ok env" and "unat (rcv_tsecr (rx_opt tp)) < 2 ^ 53" and "delay_ok (cu_delay_min ca)"
  shows "delay_ok (cu_delay_min (measure_delay env tp ca))"
proof -
  define n t where "n = tcp_time_stamp env" and "t = rcv_tsecr (rx_opt tp)"
  have b: "unat n < 2 ^ 53" "unat t < 2 ^ 53" using assms(1,2) by (simp_all add: n_def t_def clock_ok_def)
  have "delay_ok (if push_bit 3 (n - t) = 0 then 1 else push_bit 3 (n - t))"
  proof (cases "n = t")
    case True
    then show ?thesis by (simp add: delay_ok_def)
  next
    case False
    have e: "160 * push_bit 3 (n - t) = 1280 * n - 1280 * t"
      by (simp add: push_bit_eq_mult algebra_simps)
    have "unat (1280 * n) = 1280 * unat n" "unat (1280 * t) = 1280 * unat t"
      using b by (simp_all add: unat_word_ariths)
    then have "1280 * n \<noteq> 1280 * t" using False by (metis mult_cancel_left word_unat_eq_iff zero_neq_numeral)
    then show ?thesis unfolding delay_ok_def by (auto simp del: push_bit_of_Suc_0 simp: e)
  qed
  then show ?thesis using assms(3) by (auto simp: measure_delay_def Let_def n_def t_def split: if_splits)
qed

lemma cubic_epoch_frame:
  "cubic_epoch sc env cwnd ca = Some ca' \<Longrightarrow> cu_delayed_ack ca' = cu_delayed_ack ca
     \<and> cu_delay_min ca' = cu_delay_min ca \<and> cu_loss_cwnd ca' = cu_loss_cwnd ca
     \<and> cu_last_max_cwnd ca' = cu_last_max_cwnd ca"
  by (auto simp: cubic_epoch_def Let_def bind_Some_iff split: if_splits)

lemma cubic_epoch_returns: "\<exists>ca'. cubic_epoch sc env cwnd ca = Some ca'"
  using cubic_root_returns [of "cube_factor sc * (cu_last_max_cwnd ca - cwnd)"]
  by (auto simp: cubic_epoch_def Let_def)

lemma cubic_cnt_returns:
  assumes "delay_ok (cu_delay_min ca)"
  shows "\<exists>cnt. cubic_cnt cubic_default ca cwnd t target = Some cnt"
proof -
  have "target - cwnd \<noteq> 0" if "cwnd < target" using that by auto
  moreover have "160 * cu_delay_min ca \<noteq> 0" if "0 < cu_delay_min ca"
    using assms that by (auto simp: delay_ok_def)
  ultimately show ?thesis by (simp add: cubic_cnt_def)
qed

lemma cubic_friendly_frame:
  "cubic_friendly par sc cwnd ca = Some ca' \<Longrightarrow> cu_delayed_ack ca' = cu_delayed_ack ca
     \<and> cu_delay_min ca' = cu_delay_min ca \<and> cu_cnt ca' \<le> cu_cnt ca"
  by (auto simp: cubic_friendly_def Let_def bind_Some_iff split: if_splits prod.splits)

lemma cubic_friendly_returns:
  assumes "small cwnd" and "cwnd \<noteq> 0"
  shows "\<exists>ca'. cubic_friendly cubic_default cubic_default_scales cwnd ca = Some ca'"
proof -
  have c: "0 < unat cwnd" "unat cwnd < 2147483648" using assms by (simp_all add: small_def unat_gt_0)
  have "unat (drop_bit 3 (cwnd * 23)) = unat cwnd * 23 div 8"
    using c by (simp add: unat_drop_bit_div unat_word_ariths)
  moreover have "0 < unat cwnd * 23 div 8" using c by (simp add: div_greater_zero_iff)
  ultimately have "drop_bit 3 (cwnd * 23) \<noteq> 0" by (metis less_numeral_extra(3) unat_0)
  then obtain n w where l: "cubic_friendly_loop (drop_bit 3 (cwnd * 23)) (cu_ack_cnt ca) (cu_tcp_cwnd ca) = Some (n, w)"
    using cubic_friendly_loop_spec by blast
  have "w - cwnd \<noteq> 0" if "cwnd < w" using that by auto
  then show ?thesis using l by (auto simp: cubic_friendly_def Let_def)
qed

lemma bictcp_update_cubic_returns:
  assumes "small cwnd" and "cwnd \<noteq> 0" and "cubic_ok True ca"
  shows "\<exists>ca'. bictcp_update_cubic cubic_default cubic_default_scales env cwnd ca = Some ca'
    \<and> cubic_ok True ca' \<and> (\<not> (cu_last_cwnd ca = cwnd \<and> tcp_time_stamp env - cu_last_time ca \<le>s HZ div 32)
        \<longrightarrow> 0 < unat (cu_cnt ca'))"
proof (cases "cu_last_cwnd ca = cwnd \<and> tcp_time_stamp env - cu_last_time ca \<le>s HZ div 32")
  case True
  then show ?thesis using assms(3) by (auto simp: bictcp_update_cubic_def cubic_ok_def)
next
  case False
  define c1 where "c1 = ca\<lparr>cu_ack_cnt := cu_ack_cnt ca + 1, cu_last_cwnd := cwnd,
    cu_last_time := tcp_time_stamp env\<rparr>"
  obtain c2 where c2: "cubic_epoch cubic_default_scales env cwnd c1 = Some c2"
    using cubic_epoch_returns by blast
  note f2 = cubic_epoch_frame [OF c2]
  have ok: "ratio_ok (cu_delayed_ack c2)" "delay_ok (cu_delay_min c2)"
    using f2 assms(3) by (simp_all add: cubic_ok_def c1_def)
  define t where "t = cubic_time env c2"
  obtain cnt where cnt: "cubic_cnt cubic_default c2 cwnd t (cubic_target cubic_default_scales c2 t) = Some cnt"
    using cubic_cnt_returns [OF ok(2)] by blast
  obtain c3 where c3: "cubic_friendly cubic_default cubic_default_scales cwnd (c2\<lparr>cu_cnt := cnt\<rparr>) = Some c3"
    using cubic_friendly_returns [OF assms(1,2)] by blast
  note f3 = cubic_friendly_frame [OF c3]
  have "cu_delayed_ack c3 \<noteq> 0" using f3 ok(1) by (auto simp: ratio_ok_def)
  then have "bictcp_update_cubic cubic_default cubic_default_scales env cwnd ca =
    Some (c3\<lparr>cu_cnt := if push_bit RATIO_SHIFT_cubic (cu_cnt c3) div cu_delayed_ack c3 = 0 then 1
      else push_bit RATIO_SHIFT_cubic (cu_cnt c3) div cu_delayed_ack c3\<rparr>)"
    using False c2 cnt c3
    by (auto simp: bictcp_update_cubic_def Let_def c1_def [symmetric] t_def [symmetric])
  then show ?thesis using f3 ok by (auto simp: cubic_ok_def unat_gt_0)
qed

lemma bictcp_cong_avoid_cubic_ok:
  assumes "clock_ok env" and "sock_ok tp" and "cubic_ok True ca"
  shows "\<exists>tp' ca'. bictcp_cong_avoid_cubic cubic_default cubic_default_scales env ack rtt in_flight flag tp ca
    = Some (tp', ca') \<and> window_step tp tp' \<and> cubic_ok True ca'"
proof -
  obtain t where t: "tcp_slow_start env tp = Some t" "window_step tp t"
    using sock_ok_slow_start [OF assms(2)] by blast
  define c where "c = (if flag \<noteq> 0 then measure_delay env tp ca else ca)"
  have c: "cubic_ok True c"
    using assms(3) measure_delay_ok [OF assms(1), of tp ca] assms(2)
    by (auto simp: c_def cubic_ok_def sock_ok_def) (simp add: measure_delay_def Let_def)
  obtain d where "bictcp_update_cubic cubic_default cubic_default_scales env (snd_cwnd tp) c = Some d"
    "cubic_ok True d"
    using bictcp_update_cubic_returns [of "snd_cwnd tp" c env] assms(2) c by (auto simp: sock_ok_def)
  then show ?thesis
    using t c by (auto simp: bictcp_cong_avoid_cubic_def Let_def c_def [symmetric])
qed

section \<open>The decrease and the contract\<close>

lemma bictcp_recalc_ssthresh_cubic_default:
  assumes "small (snd_cwnd tp)"
  shows "\<exists>s ca'. bictcp_recalc_ssthresh_cubic cubic_default env tp ca = Some (s, ca')
    \<and> unat s = max (unat (snd_cwnd tp) * 819 div 1024) 2
    \<and> unat (cu_last_max_cwnd ca') = (if snd_cwnd tp < cu_last_max_cwnd ca
         then unat (snd_cwnd tp) * 1843 div 2048 else unat (snd_cwnd tp))
    \<and> cu_loss_cwnd ca' = snd_cwnd tp \<and> cu_epoch_start ca' = 0
    \<and> cu_delayed_ack ca' = cu_delayed_ack ca \<and> cu_delay_min ca' = cu_delay_min ca"
proof -
  have w: "unat (snd_cwnd tp) < 2147483648" using assms by (simp add: small_def)
  have m: "unat (snd_cwnd tp * 819 div 1024) = unat (snd_cwnd tp) * 819 div 1024"
    "unat (snd_cwnd tp * 1843 div 2048) = unat (snd_cwnd tp) * 1843 div 2048"
    using w by (simp_all add: unat_div_distrib unat_word_ariths)
  then show ?thesis
    by (simp add: bictcp_recalc_ssthresh_cubic_def Let_def unat_max)
qed

lemma cubic_ssthresh_law:
  assumes "sock_ok tp" and "cubic_ok b ca"
  shows "\<exists>s ca'. bictcp_recalc_ssthresh_cubic cubic_default env tp ca = Some (s, ca')
    \<and> 2 \<le> unat s \<and> small s \<and> cubic_ok b ca'"
proof -
  have w: "unat (snd_cwnd tp) < 2147483648" using assms(1) by (simp add: sock_ok_def small_def)
  obtain s ca' where r: "bictcp_recalc_ssthresh_cubic cubic_default env tp ca = Some (s, ca')"
    "unat s = max (unat (snd_cwnd tp) * 819 div 1024) 2"
    "cu_delayed_ack ca' = cu_delayed_ack ca" "cu_delay_min ca' = cu_delay_min ca"
    using bictcp_recalc_ssthresh_cubic_default [of tp env ca] w by (auto simp: small_def)
  have "2 \<le> unat s \<and> small s" using w r(2) by (auto simp: small_def)
  then show ?thesis using r assms(2) by (auto simp: cubic_ok_def)
qed

lemma cubic_reset_ok: "cubic_ok b (bictcp_reset_cubic ca)"
  by (simp add: cubic_ok_def bictcp_reset_cubic_def ratio_ok_def RATIO_SHIFT_cubic_def delay_ok_def)

interpretation cubic: cong_module "cubictcp_ops cubic_default cubic_default_scales" sock_ok cubic_ok
proof unfold_locales
  fix tp :: tcp_sock and p env ack rtt in_flight flag
  assume "clock_ok env" "sock_ok tp" "cubic_ok True p"
  then show "\<exists>tp' p'. ca_cong_avoid (cubictcp_ops cubic_default cubic_default_scales) env ack rtt
      in_flight flag tp p = Some (tp', p') \<and> sock_ok tp' \<and> cubic_ok True p'"
    using bictcp_cong_avoid_cubic_ok [of env tp p ack rtt in_flight flag] window_step_sock_ok
    by (auto simp: cubictcp_ops_def)
next
  fix tp :: tcp_sock and p env and b :: bool
  assume "clock_ok env" "sock_ok tp" "cubic_ok b p"
  then show "\<exists>s p'. ca_ssthresh (cubictcp_ops cubic_default cubic_default_scales) env tp p = Some (s, p')
      \<and> 2 \<le> unat s \<and> small s \<and> cubic_ok b p'"
    using cubic_ssthresh_law [of tp b p env] by (simp add: cubictcp_ops_def)
next
  fix tp :: tcp_sock and p env n last_ackt
  assume "clock_ok env" "sock_ok tp" "cubic_ok True p" "small n" "past env last_ackt"
  then show "\<exists>tp' p'. run_pkts_acked (cubictcp_ops cubic_default cubic_default_scales) env n last_ackt tp p
      = Some (tp', p')
      \<and> sock_ok tp' \<and> cubic_ok True p'"
    using ratio_update [of "cu_delayed_ack p" n]
    by (auto simp: cubictcp_ops_def run_defs bictcp_acked_cubic_def cubic_ok_def RATIO_SHIFT_cubic_def Let_def)
next
  fix tp :: tcp_sock and p :: cubictcp and b :: bool
  assume "sock_ok tp" "cubic_ok b p" "2 \<le> unat (snd_ssthresh tp)"
  then show "\<exists>w. run_min_cwnd (cubictcp_ops cubic_default cubic_default_scales) tp p = Some w \<and> w \<noteq> 0 \<and> small w"
    by (auto simp: cubictcp_ops_def run_defs sock_ok_def)
qed (auto simp: cubictcp_ops_def run_defs bictcp_init_cubic_def bictcp_state_cubic_def cubic_reset_ok)

section \<open>Properties\<close>

text \<open>
  C13: \<^verbatim>\<open>cubic_root\<close> returns for every 64-bit argument, without a division by zero or a read past
  its table, and is accurate: the result \<open>y\<close> is at most one above a root that is 0.37 percent
  too large, and at least \<open>1023/1024\<close> of the root less \<open>4/3\<close>.
\<close>

theorem cubic_root_total_and_accurate:
  "\<exists>y. cubic_root a = Some y \<and> (unat y - 1) ^ 3 * 1000 \<le> 1011 * unat a
    \<and> 1023 ^ 3 * unat a < (1024 * unat y + 1364) ^ 3"
  using cubic_root_returns [of a] cubic_root_accurate_big [of a] cubic_root_accurate_small [of a]
  by (cases "64 \<le> unat a") (fastforce simp: not_le)+

text \<open>
  C29: the loop of the TCP-friendliness estimate, \<^verbatim>\<open>while (ack_cnt > delta)\<close>, never ends exactly
  when \<open>delta\<close> is 0 with acknowledgments left to count; otherwise it is a division: it
  leaves between 1 and \<open>delta\<close> acknowledgments and adds a packet for each \<open>delta\<close> it took.
\<close>

theorem cubic_friendly_loop_divides:
  "cubic_friendly_loop delta n w =
     (if delta = 0 \<and> n \<noteq> 0 then None
      else Some (n - delta * of_nat ((unat n - 1) div unat delta), w + of_nat ((unat n - 1) div unat delta)))"
proof (cases "delta = 0")
  case True
  show ?thesis
  proof (cases "n = 0")
    case n: True
    then show ?thesis using True by (simp add: cubic_friendly_loop.simps)
  next
    case False
    then show ?thesis using True cubic_friendly_loop_None [of delta n w] by simp
  qed
qed (simp add: cubic_friendly_loop_spec)

text \<open>
  The constants \<^verbatim>\<open>cubictcp_register\<close> computes for the default parameters: the scale of the
  time axis, the friendliness scale, and the factor \<open>2 ^ 40 / 410\<close> of the cubic root.
\<close>

theorem cubic_registration_constants:
  "cubictcp_register cubic_default =
     Some \<lparr>cube_rtt_scale = 410, beta_scale = 23, cube_factor = 2 ^ 40 div 410\<rparr>"
  by (simp add: cubictcp_register_default)

end
