(* ===== verification/Scalable.thy ===== *)
theory Scalable
  imports Reno
begin

text \<open>Scalable TCP, \<^verbatim>\<open>tcp/linux/src/tcp_scalable.c\<close>.\<close>

section \<open>Operations\<close>

definition TCP_SCALABLE_AI_CNT :: u32 where "TCP_SCALABLE_AI_CNT = 50"
definition TCP_SCALABLE_MD_SCALE :: nat where "TCP_SCALABLE_MD_SCALE = 3"

definition tcp_scalable_cong_avoid ::
    "env \<Rightarrow> u32 \<Rightarrow> u32 \<Rightarrow> u32 \<Rightarrow> cint \<Rightarrow> tcp_sock \<Rightarrow> tcp_sock option" where
  "tcp_scalable_cong_avoid env ack rtt in_flight flag tp =
     (if \<not> tcp_is_cwnd_limited tp in_flight then Some tp
      else if snd_cwnd tp \<le> snd_ssthresh tp then tcp_slow_start env tp
      else let tp = tp\<lparr>snd_cwnd_cnt := snd_cwnd_cnt tp + 1\<rparr>
           in Some (if min (snd_cwnd tp) TCP_SCALABLE_AI_CNT < uint_ulong (snd_cwnd_cnt tp)
                    then (bump_cwnd tp)\<lparr>snd_cwnd_cnt := 0\<rparr> else tp))"

definition tcp_scalable_ssthresh :: "tcp_sock \<Rightarrow> u32" where
  "tcp_scalable_ssthresh tp = max (snd_cwnd tp - drop_bit TCP_SCALABLE_MD_SCALE (snd_cwnd tp)) 2"

definition tcp_scalable :: "unit ca_ops" where
  "tcp_scalable = \<lparr>ca_flags = 0, ca_name = ''scalable'', ca_init = None,
     ca_ssthresh = (\<lambda>env tp p. Some (tcp_scalable_ssthresh tp, p)),
     ca_min_cwnd = Some (\<lambda>tp p. Some (tcp_reno_min_cwnd tp)),
     ca_cong_avoid = stateless tcp_scalable_cong_avoid, ca_rtt_sample = None, ca_set_state = None,
     ca_cwnd_event = None, ca_undo_cwnd = None, ca_pkts_acked = None,
     ca_get_info = None\<rparr>"

section \<open>The increase\<close>

lemma scalable_avoid_step:
  assumes "snd_ssthresh tp < snd_cwnd tp" and "snd_cwnd tp \<le> in_flight"
    and "unat (snd_cwnd_cnt tp) < 2 ^ 31"
  shows "tcp_scalable_cong_avoid env ack rtt in_flight flag tp =
    Some (if min (unat (snd_cwnd tp)) 50 \<le> unat (snd_cwnd_cnt tp)
          then (bump_cwnd tp)\<lparr>snd_cwnd_cnt := 0\<rparr> else tp\<lparr>snd_cwnd_cnt := snd_cwnd_cnt tp + 1\<rparr>)"
proof -
  have "unat (snd_cwnd_cnt tp + 1) = unat (snd_cwnd_cnt tp) + 1"
    using assms(3) by (simp add: unat_word_ariths)
  moreover have "(bump_cwnd (tp\<lparr>snd_cwnd_cnt := c\<rparr>))\<lparr>snd_cwnd_cnt := 0\<rparr> = (bump_cwnd tp)\<lparr>snd_cwnd_cnt := 0\<rparr>" for c
    by (simp add: bump_cwnd_def)
  ultimately show ?thesis
    using assms(1,2)
    by (auto simp: tcp_scalable_cong_avoid_def Let_def tcp_is_cwnd_limited_def word_less_nat_alt
        word_le_nat_alt unat_min TCP_SCALABLE_AI_CNT_def)
qed

text \<open>One packet every \<open>min cwnd 50 + 1\<close> acknowledgments, whatever the window.\<close>

lemma scalable_avoid_count:
  assumes "snd_ssthresh tp < snd_cwnd tp" and "snd_cwnd tp \<le> in_flight"
    and "snd_cwnd_cnt tp = 0" and "n \<le> min (unat (snd_cwnd tp)) 50"
  shows "repeat_op n (tcp_scalable_cong_avoid env ack rtt in_flight flag) tp =
    Some (tp\<lparr>snd_cwnd_cnt := of_nat n\<rparr>)"
  using assms(4)
proof (induction n)
  case 0
  then show ?case using assms(3) by simp
next
  case (Suc n)
  have "unat (of_nat n :: u16) = n"
    using Suc.prems by (simp add: unat_of_nat take_bit_nat_eq_self)
  moreover have "\<not> min (unat (snd_cwnd tp)) 50 \<le> n" using Suc.prems by linarith
  ultimately show ?case
    using Suc assms(1,2) unfolding repeat_op_snoc by (auto simp: scalable_avoid_step)
qed

lemma scalable_avoid_period:
  assumes "snd_ssthresh tp < snd_cwnd tp" and "snd_cwnd tp \<le> in_flight" and "snd_cwnd_cnt tp = 0"
  shows "repeat_op (Suc (min (unat (snd_cwnd tp)) 50))
    (tcp_scalable_cong_avoid env ack rtt in_flight flag) tp = Some (bump_cwnd tp)"
proof -
  define m where "m = min (unat (snd_cwnd tp)) 50"
  define tq where "tq = tp\<lparr>snd_cwnd_cnt := of_nat m\<rparr>"
  have m: "unat (of_nat m :: u16) = m" by (simp add: m_def unat_of_nat take_bit_nat_eq_self)
  then have "tcp_scalable_cong_avoid env ack rtt in_flight flag tq = Some ((bump_cwnd tq)\<lparr>snd_cwnd_cnt := 0\<rparr>)"
    using assms(1,2) by (subst scalable_avoid_step) (auto simp: tq_def m_def)
  moreover have "(bump_cwnd tq)\<lparr>snd_cwnd_cnt := 0\<rparr> = bump_cwnd tp"
    using assms(3) by (simp add: tq_def bump_cwnd_def)
  moreover have "repeat_op m (tcp_scalable_cong_avoid env ack rtt in_flight flag) tp = Some tq"
    unfolding tq_def using assms by (intro scalable_avoid_count) (auto simp: m_def)
  ultimately show ?thesis by (simp only: repeat_op_snoc m_def [symmetric]) simp
qed

section \<open>The decrease and the contract\<close>

lemma unat_tcp_scalable_ssthresh:
  "unat (tcp_scalable_ssthresh tp) = max (unat (snd_cwnd tp) - unat (snd_cwnd tp) div 8) 2"
proof -
  have "unat (drop_bit 3 (snd_cwnd tp)) = unat (snd_cwnd tp) div 8" by (simp add: unat_drop_bit_div)
  then show ?thesis
    by (simp add: tcp_scalable_ssthresh_def unat_max TCP_SCALABLE_MD_SCALE_def unat_sub word_le_nat_alt)
qed

lemma scalable_cong_avoid_ok:
  assumes "sock_ok tp"
  shows "\<exists>tp'. tcp_scalable_cong_avoid env ack rtt in_flight flag tp = Some tp' \<and> window_step tp tp'"
  using sock_ok_slow_start [OF assms, of env] window_step_bump [of "tp\<lparr>snd_cwnd_cnt := snd_cwnd_cnt tp + 1\<rparr>"]
  by (auto simp: tcp_scalable_cong_avoid_def Let_def simp del: window_step_bump)

interpretation scalable: cong_module tcp_scalable sock_ok "\<lambda>_ _. True"
proof unfold_locales
  fix tp :: tcp_sock and p :: unit and env ack rtt in_flight flag
  assume "clock_ok env" "sock_ok tp"
  then show "\<exists>tp' p'. ca_cong_avoid tcp_scalable env ack rtt in_flight flag tp p = Some (tp', p')
      \<and> sock_ok tp' \<and> True"
    using scalable_cong_avoid_ok [of tp env ack rtt in_flight flag] window_step_sock_ok
    by (auto simp: tcp_scalable_def stateless_def)
next
  fix tp :: tcp_sock and p :: unit and env and b :: bool
  assume "clock_ok env" "sock_ok tp"
  then show "\<exists>s p'. ca_ssthresh tcp_scalable env tp p = Some (s, p') \<and> 2 \<le> unat s \<and> small s \<and> True"
    using unat_tcp_scalable_ssthresh [of tp] by (auto simp: tcp_scalable_def sock_ok_def small_def)
qed (simp_all add: tcp_scalable_def run_defs reno_min_cwnd_law)

section \<open>Properties\<close>

text \<open>
  In congestion avoidance Scalable TCP opens the window by one packet per
  \<open>min cwnd 50 + 1\<close> acknowledgments, and on a loss it gives up an eighth of it, but keeps two
  packets.
\<close>

theorem scalable_increase_decrease:
  assumes "snd_ssthresh tp < snd_cwnd tp" and "snd_cwnd tp \<le> in_flight" and "snd_cwnd_cnt tp = 0"
  shows "repeat_op (Suc (min (unat (snd_cwnd tp)) 50))
      (tcp_scalable_cong_avoid env ack rtt in_flight flag) tp = Some (bump_cwnd tp)
    \<and> unat (tcp_scalable_ssthresh tp) = max (unat (snd_cwnd tp) - unat (snd_cwnd tp) div 8) 2"
  using scalable_avoid_period [OF assms] unat_tcp_scalable_ssthresh by blast

theorem scalable_increase_decrease_witness:
  "repeat_op 51 (tcp_scalable_cong_avoid example_env 0 0 300 0) (example_sock 200 5) = Some (example_sock 201 5)
    \<and> unat (tcp_scalable_ssthresh (example_sock 200 5)) = 175"
  using scalable_increase_decrease [of "example_sock 200 5" 300 example_env 0 0 0]
  by (simp add: example_defs bump_cwnd_def)

end
