(* ===== verification/Highspeed.thy ===== *)
theory Highspeed
  imports Reno
begin

text \<open>
  HighSpeed TCP, \<^verbatim>\<open>tcp/linux/src/tcp_highspeed.c\<close>: the increase and the decrease come from the
  table of RFC 3649, whose index the private area keeps.
\<close>

section \<open>The table\<close>

text \<open>Pairs of a window and the decrease factor of the windows up to it, scaled by 256.\<close>

definition hstcp_aimd_vals :: "(u16 \<times> u16) list" where
  "hstcp_aimd_vals = [
     (38, 128), (118, 112), (221, 104), (347, 98), (495, 93), (663, 89), (851, 86), (1058, 83),
     (1284, 81), (1529, 78), (1793, 76), (2076, 74), (2378, 72), (2699, 71), (3039, 69), (3399, 68),
     (3778, 66), (4177, 65), (4596, 64), (5036, 62), (5497, 61), (5979, 60), (6483, 59), (7009, 58),
     (7558, 57), (8130, 56), (8726, 55), (9346, 54), (9991, 53), (10661, 52), (11358, 52), (12082, 51),
     (12834, 50), (13614, 49), (14424, 48), (15265, 48), (16137, 47), (17042, 46), (17981, 45), (18955, 45),
     (19965, 44), (21013, 43), (22101, 43), (23230, 42), (24402, 41), (25618, 41), (26881, 40), (28193, 39),
     (29557, 39), (30975, 38), (32450, 38), (33986, 37), (35586, 36), (37253, 36), (38992, 35), (40808, 35),
     (42707, 34), (44694, 33), (46776, 33), (48961, 32), (51258, 32), (53677, 31), (56230, 30), (58932, 30),
     (61799, 29), (64851, 28), (68113, 28), (71617, 27), (75401, 26), (79517, 26), (84035, 25), (89053, 24)]"

definition HSTCP_AIMD_MAX :: u32 where "HSTCP_AIMD_MAX = of_nat (length hstcp_aimd_vals)"

record hstcp =
  hs_ai :: u32

section \<open>Operations\<close>

definition hstcp_init :: "env \<Rightarrow> tcp_sock \<Rightarrow> hstcp \<Rightarrow> (tcp_sock \<times> hstcp) option" where
  "hstcp_init env tp ca =
     Some (tp\<lparr>snd_cwnd_clamp := ulong_uint (min (uint_ulong (snd_cwnd_clamp tp)) (0xffffffff div 128))\<rparr>,
           ca\<lparr>hs_ai := 0\<rparr>)"

partial_function (option) hstcp_up :: "u32 \<Rightarrow> u32 \<Rightarrow> u32 option" where
  "hstcp_up cwnd ai =
     Option.bind (table_lookup hstcp_aimd_vals ai) (\<lambda>(c, md).
       if uint_ulong c < cwnd \<and> ai < HSTCP_AIMD_MAX - 1 then hstcp_up cwnd (ai + 1) else Some ai)"

partial_function (option) hstcp_down :: "u32 \<Rightarrow> u32 \<Rightarrow> u32 option" where
  "hstcp_down cwnd ai =
     (if ai = 0 then Some ai
      else Option.bind (table_lookup hstcp_aimd_vals (ai - 1)) (\<lambda>(c, md).
        if cwnd \<le> uint_ulong c then hstcp_down cwnd (ai - 1) else Some ai))"

definition hstcp_update :: "u32 \<Rightarrow> u32 \<Rightarrow> u32 option" where
  "hstcp_update cwnd ai = do {
     (c, _) \<leftarrow> table_lookup hstcp_aimd_vals ai;
     if uint_ulong c < cwnd then hstcp_up cwnd ai
     else if ai = 0 then Some ai
     else do {
       (c, _) \<leftarrow> table_lookup hstcp_aimd_vals (ai - 1);
       if cwnd \<le> uint_ulong c then hstcp_down cwnd ai else Some ai
     }
   }"

definition hstcp_cong_avoid ::
    "env \<Rightarrow> u32 \<Rightarrow> u32 \<Rightarrow> u32 \<Rightarrow> cint \<Rightarrow> tcp_sock \<Rightarrow> hstcp \<Rightarrow> (tcp_sock \<times> hstcp) option" where
  "hstcp_cong_avoid env adk rtt in_flight data_acked tp ca =
     (if \<not> tcp_is_cwnd_limited tp in_flight then Some (tp, ca)
      else if snd_cwnd tp \<le> snd_ssthresh tp then do {
        tp \<leftarrow> tcp_slow_start env tp;
        Some (tp, ca)
      } else do {
        ai \<leftarrow> hstcp_update (snd_cwnd tp) (hs_ai ca);
        let ca = ca\<lparr>hs_ai := ai\<rparr>;
        Some (if snd_cwnd tp < uint_ulong (snd_cwnd_clamp tp) then
                let tp = tp\<lparr>snd_cwnd_cnt := snd_cwnd_cnt tp + ulong_uint (hs_ai ca + 1)\<rparr>
                in (if snd_cwnd tp \<le> uint_ulong (snd_cwnd_cnt tp)
                    then tp\<lparr>snd_cwnd_cnt := snd_cwnd_cnt tp - ulong_uint (snd_cwnd tp),
                            snd_cwnd := snd_cwnd tp + 1\<rparr>
                    else tp, ca)
              else (tp, ca))
      })"

definition hstcp_ssthresh :: "env \<Rightarrow> tcp_sock \<Rightarrow> hstcp \<Rightarrow> (u32 \<times> hstcp) option" where
  "hstcp_ssthresh env tp ca = do {
     (_, md) \<leftarrow> table_lookup hstcp_aimd_vals (hs_ai ca);
     Some (max (snd_cwnd tp - drop_bit 8 (snd_cwnd tp * uint_ulong md)) 2, ca)
   }"

definition tcp_highspeed :: "hstcp ca_ops" where
  "tcp_highspeed = \<lparr>ca_flags = 0, ca_name = ''highspeed'', ca_init = Some hstcp_init,
     ca_ssthresh = hstcp_ssthresh, ca_min_cwnd = Some (\<lambda>tp p. Some (tcp_reno_min_cwnd tp)),
     ca_cong_avoid = hstcp_cong_avoid, ca_rtt_sample = None, ca_set_state = None,
     ca_cwnd_event = None, ca_undo_cwnd = None, ca_pkts_acked = None,
     ca_get_info = None\<rparr>"


section \<open>The index\<close>

abbreviation hs_cwnd :: "nat \<Rightarrow> nat" where
  "hs_cwnd i \<equiv> unat (fst (hstcp_aimd_vals ! i))"

lemma length_hstcp [simp]: "length hstcp_aimd_vals = 72"
  by (simp add: hstcp_aimd_vals_def)

lemma unat_HSTCP_AIMD_MAX: "unat (HSTCP_AIMD_MAX - 1) = 71"
  by (simp add: HSTCP_AIMD_MAX_def)

lemma hstcp_sorted: "sorted_wrt (<) (map (\<lambda>(c, md). uint c) hstcp_aimd_vals)"
  by code_simp

lemma hs_cwnd_mono: "i < j \<Longrightarrow> j < 72 \<Longrightarrow> hs_cwnd i < hs_cwnd j"
proof -
  assume "i < j" "j < 72"
  then have "uint (fst (hstcp_aimd_vals ! i)) < uint (fst (hstcp_aimd_vals ! j))"
    using sorted_wrt_nth_less [OF hstcp_sorted, of i j] by (simp add: case_prod_beta)
  then show ?thesis by (simp only: word_less_def [symmetric] word_less_nat_alt)
qed

lemma hstcp_md_le: "i < 72 \<Longrightarrow> unat (snd (hstcp_aimd_vals ! i)) \<le> 128"
proof -
  assume i: "i < 72"
  have "list_all (\<lambda>(c, md). unat md \<le> 128) hstcp_aimd_vals" by (simp add: hstcp_aimd_vals_def)
  then show ?thesis using i by (simp add: list_all_length case_prod_beta)
qed

text \<open>
  The index belongs to the window: the window is above the entry before it and, unless the
  index is the last, not above its own entry.
\<close>

definition hs_index_of :: "u32 \<Rightarrow> nat \<Rightarrow> bool" where
  "hs_index_of cwnd i \<longleftrightarrow> i < 72 \<and> (0 < i \<longrightarrow> hs_cwnd (i - 1) < unat cwnd)
     \<and> (i < 71 \<longrightarrow> unat cwnd \<le> hs_cwnd i)"

lemma hs_index_of_unique:
  assumes "hs_index_of w i" and "hs_index_of w j"
  shows "i = j"
proof -
  have "\<not> i < j" if "hs_index_of w i" "hs_index_of w j" for i j
  proof
    assume "i < j"
    then have "hs_cwnd (j - 1) < unat w" "unat w \<le> hs_cwnd i"
      using that by (auto simp: hs_index_of_def)
    moreover have "hs_cwnd i \<le> hs_cwnd (j - 1)"
    proof (cases "i = j - 1")
      case False
      then have "i < j - 1" "j - 1 < 72" using \<open>i < j\<close> that(2) by (auto simp: hs_index_of_def)
      then show ?thesis by (rule hs_cwnd_mono [THEN less_imp_le])
    qed simp
    ultimately show False by simp
  qed
  from this [OF assms] this [OF assms(2,1)] show ?thesis by simp
qed

lemma hs_lookup:
  "unat i < 72 \<Longrightarrow> table_lookup hstcp_aimd_vals i = Some (hstcp_aimd_vals ! unat i)"
  by (simp add: table_lookup_def)

lemma hstcp_up_index:
  assumes "unat ai < 72" and "0 < unat ai \<longrightarrow> hs_cwnd (unat ai - 1) < unat cwnd"
  shows "\<exists>i. hstcp_up cwnd ai = Some i \<and> hs_index_of cwnd (unat i)"
  using assms
proof (induction "71 - unat ai" arbitrary: ai rule: less_induct)
  case less
  define c where "c = fst (hstcp_aimd_vals ! unat ai)"
  have step: "hstcp_up cwnd ai =
      (if unat c < unat cwnd \<and> unat ai < 71 then hstcp_up cwnd (ai + 1) else Some ai)"
    using less.prems(1)
    by (subst hstcp_up.simps)
      (simp add: hs_lookup case_prod_beta c_def word_less_nat_alt unat_HSTCP_AIMD_MAX)
  show ?case
  proof (cases "unat c < unat cwnd \<and> unat ai < 71")
    case True
    then have u: "unat (ai + 1) = unat ai + 1" by (simp add: unat_word_ariths)
    have "71 - unat (ai + 1) < 71 - unat ai" using True u by linarith
    moreover have "0 < unat (ai + 1) \<longrightarrow> hs_cwnd (unat (ai + 1) - 1) < unat cwnd"
      using True unfolding u c_def by simp
    ultimately have "\<exists>i. hstcp_up cwnd (ai + 1) = Some i \<and> hs_index_of cwnd (unat i)"
      using less.hyps True u by simp
    then show ?thesis using step True by simp
  next
    case False
    then have "hs_index_of cwnd (unat ai)"
      using less.prems by (auto simp: hs_index_of_def c_def)
    then show ?thesis using step False by auto
  qed
qed

lemma hstcp_down_index:
  assumes "unat ai < 72" and "unat ai < 71 \<longrightarrow> unat cwnd \<le> hs_cwnd (unat ai)"
  shows "\<exists>i. hstcp_down cwnd ai = Some i \<and> hs_index_of cwnd (unat i)"
  using assms
proof (induction "unat ai" arbitrary: ai rule: less_induct)
  case less
  show ?case
  proof (cases "ai = 0")
    case True
    then show ?thesis
      using less.prems by (subst hstcp_down.simps) (simp add: hs_index_of_def)
  next
    case False
    then have u: "unat (ai - 1) = unat ai - 1" "0 < unat ai"
      by (simp_all add: unat_minus_one unat_gt_0)
    define c where "c = fst (hstcp_aimd_vals ! (unat ai - 1))"
    have step: "hstcp_down cwnd ai = (if unat cwnd \<le> unat c then hstcp_down cwnd (ai - 1) else Some ai)"
      using less.prems(1) False u
      by (subst hstcp_down.simps) (simp add: hs_lookup case_prod_beta c_def word_le_nat_alt)
    show ?thesis
    proof (cases "unat cwnd \<le> unat c")
      case True
      then have "\<exists>i. hstcp_down cwnd (ai - 1) = Some i \<and> hs_index_of cwnd (unat i)"
        using less.hyps [of "ai - 1"] u less.prems by (simp add: c_def)
      then show ?thesis using step True by simp
    next
      case False
      then have "hs_index_of cwnd (unat ai)" using less.prems by (simp add: hs_index_of_def c_def)
      then show ?thesis using step False by auto
    qed
  qed
qed

lemma hstcp_update_index:
  assumes "unat ai < 72"
  shows "\<exists>i. hstcp_update cwnd ai = Some i \<and> hs_index_of cwnd (unat i)"
proof -
  define c where "c = fst (hstcp_aimd_vals ! unat ai)"
  define d where "d = fst (hstcp_aimd_vals ! (unat ai - 1))"
  have u: "unat (ai - 1) = unat ai - 1" if "ai \<noteq> 0" using that by (simp add: unat_minus_one)
  have step: "hstcp_update cwnd ai = (if unat c < unat cwnd then hstcp_up cwnd ai
      else if ai = 0 then Some ai else if unat cwnd \<le> unat d then hstcp_down cwnd ai else Some ai)"
    using assms u by (simp add: hstcp_update_def hs_lookup case_prod_beta c_def d_def
        word_less_nat_alt word_le_nat_alt)
  consider (up) "unat c < unat cwnd" | (zero) "unat cwnd \<le> unat c" "ai = 0"
    | (down) "unat cwnd \<le> unat c" "ai \<noteq> 0" "unat cwnd \<le> unat d"
    | (stay) "unat cwnd \<le> unat c" "ai \<noteq> 0" "unat d < unat cwnd" by linarith
  then show ?thesis
  proof cases
    case up
    have "hs_cwnd (unat ai - 1) < unat cwnd" if "0 < unat ai"
    proof -
      have "hs_cwnd (unat ai - 1) < hs_cwnd (unat ai)"
        using hs_cwnd_mono [of "unat ai - 1" "unat ai"] assms that by simp
      then show ?thesis using up by (simp add: c_def)
    qed
    then show ?thesis using hstcp_up_index [OF assms] step up by simp
  next
    case zero
    then show ?thesis using step by (simp add: hs_index_of_def c_def)
  next
    case down
    then show ?thesis using hstcp_down_index [OF assms] step by (simp add: c_def)
  next
    case stay
    then show ?thesis using step assms by (simp add: hs_index_of_def c_def d_def)
  qed
qed

text \<open>So the index does not depend on the history, only on the window.\<close>

lemma hstcp_update_history_free:
  assumes "unat ai < 72" and "unat aj < 72"
  shows "hstcp_update cwnd ai = hstcp_update cwnd aj"
proof -
  obtain i where i: "hstcp_update cwnd ai = Some i" "hs_index_of cwnd (unat i)"
    using hstcp_update_index [OF assms(1)] by blast
  obtain j where j: "hstcp_update cwnd aj = Some j" "hs_index_of cwnd (unat j)"
    using hstcp_update_index [OF assms(2)] by blast
  have "i = j" using hs_index_of_unique [OF i(2) j(2)] by (rule word_unat_eq_iff [THEN iffD2])
  then show ?thesis using i(1) j(1) by simp
qed

section \<open>The increase, the decrease and the contract\<close>

definition hs_ok :: "bool \<Rightarrow> hstcp \<Rightarrow> bool" where
  "hs_ok b ca \<longleftrightarrow> unat (hs_ai ca) < 72"

lemma hstcp_cong_avoid_ok:
  assumes "sock_ok tp" and "hs_ok True ca"
  shows "\<exists>tp' ca'. hstcp_cong_avoid env ack rtt in_flight flag tp ca = Some (tp', ca')
    \<and> window_step tp tp' \<and> hs_ok True ca'
    \<and> (snd_cwnd tp \<le> in_flight \<and> snd_ssthresh tp < snd_cwnd tp \<longrightarrow> hs_index_of (snd_cwnd tp) (unat (hs_ai ca')))"
proof -
  obtain t where t: "tcp_slow_start env tp = Some t" "window_step tp t"
    using sock_ok_slow_start [OF assms(1)] by blast
  obtain i where i: "hstcp_update (snd_cwnd tp) (hs_ai ca) = Some i" "hs_index_of (snd_cwnd tp) (unat i)"
    using hstcp_update_index [of "hs_ai ca" "snd_cwnd tp"] assms(2) by (auto simp: hs_ok_def)
  have w: "window_step tp (tp\<lparr>snd_cwnd_cnt := c, snd_cwnd := snd_cwnd tp + 1\<rparr>)"
    if "snd_cwnd tp < uint_ulong (snd_cwnd_clamp tp)" for c
    using window_step_bump [of tp] that by (simp add: bump_cwnd_def window_step_def same_but_growth_def)
  have "hs_ok True (ca\<lparr>hs_ai := i\<rparr>)" using i(2) by (simp add: hs_ok_def hs_index_of_def)
  then show ?thesis
    using t i w assms(2) by (auto simp: hstcp_cong_avoid_def Let_def tcp_is_cwnd_limited_def not_le)
qed

lemma hstcp_ssthresh_spec:
  assumes "hs_ok b ca" and "small (snd_cwnd tp)"
  shows "\<exists>s. hstcp_ssthresh env tp ca = Some (s, ca) \<and>
    unat s = max (unat (snd_cwnd tp)
      - unat (snd_cwnd tp) * unat (snd (hstcp_aimd_vals ! unat (hs_ai ca))) div 256) 2
    \<and> unat (snd_cwnd tp) \<le> 2 * unat s"
proof -
  define m where "m = unat (snd (hstcp_aimd_vals ! unat (hs_ai ca)))"
  define w where "w = unat (snd_cwnd tp)"
  have i: "unat (hs_ai ca) < 72" using assms(1) by (simp add: hs_ok_def)
  have m: "m \<le> 128" using hstcp_md_le [OF i] by (simp add: m_def)
  have w: "w < 2147483648" using assms(2) by (simp add: w_def small_def)
  have "w * m \<le> w * 128" using m by simp
  then have le: "w * m div 256 \<le> w div 2" and lt: "w * m < 18446744073709551616"
    using div_le_mono [of "w * m" "w * 128" 256] w by auto
  have u: "unat (drop_bit 8 (snd_cwnd tp * uint_ulong (snd (hstcp_aimd_vals ! unat (hs_ai ca))))) = w * m div 256"
    using lt by (simp add: unat_drop_bit_div unat_word_ariths m_def w_def)
  have "w * m div 256 \<le> w" using le by linarith
  then have "unat (snd_cwnd tp - drop_bit 8 (snd_cwnd tp * uint_ulong (snd (hstcp_aimd_vals ! unat (hs_ai ca)))))
      = w - w * m div 256"
    using u by (simp add: unat_sub word_le_nat_alt w_def)
  then have s: "hstcp_ssthresh env tp ca = Some (max (snd_cwnd tp - drop_bit 8 (snd_cwnd tp
      * uint_ulong (snd (hstcp_aimd_vals ! unat (hs_ai ca))))) 2, ca)"
    "unat (max (snd_cwnd tp - drop_bit 8 (snd_cwnd tp * uint_ulong (snd (hstcp_aimd_vals ! unat (hs_ai ca))))) 2)
      = max (w - w * m div 256) 2"
    using i by (simp_all add: hstcp_ssthresh_def hs_lookup case_prod_beta unat_max)
  show ?thesis unfolding s(1) using s(2) le by (auto simp: w_def m_def)
qed

interpretation highspeed: cong_module tcp_highspeed sock_ok hs_ok
proof unfold_locales
  fix tp :: tcp_sock and p env ack rtt in_flight flag
  assume "clock_ok env" "sock_ok tp" "hs_ok True p"
  then show "\<exists>tp' p'. ca_cong_avoid tcp_highspeed env ack rtt in_flight flag tp p = Some (tp', p')
      \<and> sock_ok tp' \<and> hs_ok True p'"
    using hstcp_cong_avoid_ok [of tp p env ack rtt in_flight flag] window_step_sock_ok
    by (auto simp: tcp_highspeed_def)
next
  fix tp :: tcp_sock and p env and b :: bool
  assume "clock_ok env" "sock_ok tp" "hs_ok b p"
  then show "\<exists>s p'. ca_ssthresh tcp_highspeed env tp p = Some (s, p') \<and> 2 \<le> unat s \<and> small s \<and> hs_ok b p'"
    using hstcp_ssthresh_spec [of b p tp env] by (auto simp: tcp_highspeed_def sock_ok_def small_def)
next
  fix tp :: tcp_sock and p :: hstcp and env
  assume "clock_ok env" "sock_ok tp" "hs_ok False p"
  then have "unat (min (uint_ulong (snd_cwnd_clamp tp)) 33554431) = min (unat (snd_cwnd_clamp tp)) 33554431"
    "0 < unat (snd_cwnd_clamp tp)"
    by (simp_all add: unat_min sock_ok_def unat_gt_0)
  then have "unat (ulong_uint (min (uint_ulong (snd_cwnd_clamp tp)) 33554431)) = min (unat (snd_cwnd_clamp tp)) 33554431"
    "0 < min (unat (snd_cwnd_clamp tp)) 33554431"
    by (simp_all add: unat_ulong_uint)
  then show "\<exists>tp' p'. run_init tcp_highspeed env tp p = Some (tp', p') \<and> sock_ok tp' \<and> hs_ok True p'"
    using \<open>sock_ok tp\<close> by (auto simp: tcp_highspeed_def run_defs hstcp_init_def sock_ok_def hs_ok_def)
qed (simp_all add: tcp_highspeed_def run_defs reno_min_cwnd_law)

section \<open>Properties\<close>

text \<open>
  C34: the search loops of HighSpeed TCP end inside the table, whatever the index they start
  from, and the index they end at does not depend on it: it is the one whose table windows
  enclose the window.
\<close>

theorem highspeed_index_history_free:
  assumes "unat ai < 72" and "unat aj < 72"
  shows "\<exists>i. hstcp_update cwnd ai = Some i \<and> hstcp_update cwnd aj = Some i \<and> hs_index_of cwnd (unat i)"
  using hstcp_update_index [OF assms(1), of cwnd] hstcp_update_history_free [OF assms, of cwnd] by auto

theorem highspeed_index_history_free_witness:
  "\<exists>i. hstcp_update 100 0 = Some i \<and> hstcp_update 100 71 = Some i \<and> hs_index_of 100 (unat i)"
  using highspeed_index_history_free [of 0 71 100] by simp

text \<open>
  On a loss HighSpeed TCP gives up the fraction the table has for the current index,
  at most a half.
\<close>

theorem highspeed_loss:
  assumes "hs_ok b ca" and "small (snd_cwnd tp)"
  shows "\<exists>s. hstcp_ssthresh env tp ca = Some (s, ca) \<and>
    unat s = max (unat (snd_cwnd tp)
      - unat (snd_cwnd tp) * unat (snd (hstcp_aimd_vals ! unat (hs_ai ca))) div 256) 2
    \<and> unat (snd_cwnd tp) \<le> 2 * unat s"
  by (rule hstcp_ssthresh_spec [OF assms])

theorem highspeed_loss_witness:
  "\<exists>s. hstcp_ssthresh example_env (example_sock 100 5) \<lparr>hs_ai = 2\<rparr> = Some (s, \<lparr>hs_ai = 2\<rparr>) \<and> 100 \<le> 2 * unat s"
  using highspeed_loss [of True "\<lparr>hs_ai = 2\<rparr>" "example_sock 100 5" example_env]
  by (auto simp: example_defs small_def hs_ok_def)

end
