(* ===== verification/Hybla.thy ===== *)
theory Hybla
  imports Reno
begin

text \<open>
  TCP Hybla, \<^verbatim>\<open>tcp/linux/src/tcp_hybla.c\<close>: the window grows as if the round trip time were the
  reference \<^verbatim>\<open>rtt0\<close>, by factors of \<open>rho = RTT / rtt0\<close>; increments below one packet are kept in
  \<^verbatim>\<open>snd_cwnd_cents\<close>, in units of 1/128.
\<close>

section \<open>State\<close>

record hybla_params =
  hy_rtt0 :: cint

definition hybla_default :: hybla_params where
  "hybla_default = \<lparr>hy_rtt0 = 25\<rparr>"

record hybla =
  hybla_en :: u8
  snd_cwnd_cents :: u32
  rho :: u32
  rho2 :: u32
  rho_3ls :: u32
  rho2_7ls :: u32
  hy_minrtt :: u32

section \<open>Operations\<close>

definition hybla_recalc_param :: "hybla_params \<Rightarrow> tcp_sock \<Rightarrow> hybla \<Rightarrow> hybla option" where
  "hybla_recalc_param par sk ca = do {
     q \<leftarrow> udiv (srtt sk) (msecs_to_jiffies (int_ulong (hy_rtt0 par)));
     let ca = ca\<lparr>rho_3ls := max q 8\<rparr>;
     let ca = ca\<lparr>rho := drop_bit 3 (rho_3ls ca)\<rparr>;
     let ca = ca\<lparr>rho2_7ls := push_bit 1 (rho_3ls ca * rho_3ls ca)\<rparr>;
     Some (ca\<lparr>rho2 := drop_bit 7 (rho2_7ls ca)\<rparr>)
   }"

definition hybla_init :: "hybla_params \<Rightarrow> env \<Rightarrow> tcp_sock \<Rightarrow> hybla \<Rightarrow> (tcp_sock \<times> hybla) option" where
  "hybla_init par env tp ca = do {
     let ca = ca\<lparr>rho := 0, rho2 := 0, rho_3ls := 0, rho2_7ls := 0, snd_cwnd_cents := 0, hybla_en := 1\<rparr>;
     let tp = tp\<lparr>snd_cwnd := 2, snd_cwnd_clamp := 65535\<rparr>;
     ca \<leftarrow> hybla_recalc_param par tp ca;
     let ca = ca\<lparr>hy_minrtt := srtt tp\<rparr>;
     Some (tp\<lparr>snd_cwnd := rho ca\<rparr>, ca)
   }"

definition hybla_state :: "env \<Rightarrow> u8 \<Rightarrow> tcp_sock \<Rightarrow> hybla \<Rightarrow> (tcp_sock \<times> hybla) option" where
  "hybla_state env ca_state sk ca =
     Some (sk, ca\<lparr>hybla_en := if ca_state = TCP_CA_Open then 1 else 0\<rparr>)"

definition hybla_fraction :: "u32 \<Rightarrow> u32" where
  "hybla_fraction odds =
     (case table_lookup [128, 139, 152, 165, 181, 197, 215, 234] odds of
        None \<Rightarrow> 128 | Some f \<Rightarrow> f)"

text \<open>
  \<^verbatim>\<open>1 << ca->rho\<close> shifts an \<^verbatim>\<open>int\<close>: a count of 32 or more is undefined behaviour.
\<close>

definition shift_one_int :: "u32 \<Rightarrow> cint option" where
  "shift_one_int n = (if n < 32 then Some (push_bit (unat n) 1) else None)"

lemma cents_decrease: "128 \<le> c \<Longrightarrow> unat (c - 128) = unat c - 128" for c :: u32
  by (simp add: unat_sub)

text \<open>The loop that turns whole cents into packets.\<close>

function hybla_cents :: "tcp_sock \<Rightarrow> hybla \<Rightarrow> tcp_sock \<times> hybla" where
  "hybla_cents tp ca =
     (if 128 \<le> snd_cwnd_cents ca
      then hybla_cents (tp\<lparr>snd_cwnd := snd_cwnd tp + 1, snd_cwnd_cnt := 0\<rparr>)
             (ca\<lparr>snd_cwnd_cents := snd_cwnd_cents ca - 128\<rparr>)
      else (tp, ca))"
  by pat_completeness auto

termination
  by (relation "measure (\<lambda>(tp, ca). unat (snd_cwnd_cents ca))")
    (auto simp: cents_decrease word_le_nat_alt)

declare hybla_cents.simps [simp del]

definition hybla_increment :: "hybla \<Rightarrow> tcp_sock \<Rightarrow> (u32 \<times> tcp_sock \<times> bool) option" where
  "hybla_increment ca tp =
     (let rho_fractions = rho_3ls ca - push_bit 3 (rho ca) in
      if snd_cwnd tp < snd_ssthresh tp then do {
        p \<leftarrow> shift_one_int (rho ca);
        Some (int_ulong p * hybla_fraction rho_fractions - 128, tp, True)
      } else do {
        increment \<leftarrow> udiv (rho2_7ls ca) (snd_cwnd tp);
        Some (increment,
              if increment < 128 then tp\<lparr>snd_cwnd_cnt := snd_cwnd_cnt tp + 1\<rparr> else tp, False)
      })"

text \<open>
  The last part of the operation: add the increment, in units of 1/128 packet.  Until the clamp
  and the threshold cut it, the window with its fraction grows by exactly the increment.
\<close>

definition hybla_grow :: "tcp_sock \<Rightarrow> hybla \<Rightarrow> u32 \<Rightarrow> bool \<Rightarrow> tcp_sock \<times> hybla" where
  "hybla_grow tp ca increment ss =
     (let odd = increment mod 128;
          tp = tp\<lparr>snd_cwnd := snd_cwnd tp + drop_bit 7 increment\<rparr>;
          ca = ca\<lparr>snd_cwnd_cents := snd_cwnd_cents ca + odd\<rparr>;
          (tp, ca) = hybla_cents tp ca;
          tp = (if ss then tp\<lparr>snd_cwnd := min (snd_cwnd tp) (snd_ssthresh tp)\<rparr> else tp)
      in (tp\<lparr>snd_cwnd := min (snd_cwnd tp) (uint_ulong (snd_cwnd_clamp tp))\<rparr>, ca))"

definition hybla_cong_avoid ::
    "hybla_params \<Rightarrow> env \<Rightarrow> u32 \<Rightarrow> u32 \<Rightarrow> u32 \<Rightarrow> cint \<Rightarrow> tcp_sock \<Rightarrow> hybla \<Rightarrow> (tcp_sock \<times> hybla) option" where
  "hybla_cong_avoid par env ack rtt in_flight flag tp ca = do {
     ca \<leftarrow> (if srtt tp < hy_minrtt ca then do {
              ca \<leftarrow> hybla_recalc_param par tp ca;
              Some (ca\<lparr>hy_minrtt := srtt tp\<rparr>)
            } else Some ca);
     if \<not> tcp_is_cwnd_limited tp in_flight then Some (tp, ca)
     else if hybla_en ca = 0 then do {
       tp \<leftarrow> tcp_reno_cong_avoid env ack rtt in_flight flag tp;
       Some (tp, ca)
     } else do {
       ca \<leftarrow> (if rho ca = 0 then hybla_recalc_param par tp ca else Some ca);
       (increment, tp, is_slowstart) \<leftarrow> hybla_increment ca tp;
       Some (hybla_grow tp ca increment is_slowstart)
     }
   }"

definition tcp_hybla :: "hybla_params \<Rightarrow> hybla ca_ops" where
  "tcp_hybla par = \<lparr>ca_flags = 0, ca_name = ''hybla'', ca_init = Some (hybla_init par),
     ca_ssthresh = (\<lambda>env tp p. Some (tcp_reno_ssthresh tp, p)),
     ca_min_cwnd = Some (\<lambda>tp p. Some (tcp_reno_min_cwnd tp)),
     ca_cong_avoid = hybla_cong_avoid par, ca_rtt_sample = None, ca_set_state = Some hybla_state,
     ca_cwnd_event = None, ca_undo_cwnd = None, ca_pkts_acked = None,
     ca_get_info = None\<rparr>"


section \<open>The fractions of a packet\<close>

text \<open>The loop is a division by 128: no fraction of an increment is lost.\<close>

lemma hybla_cents_spec:
  "hybla_cents tp ca =
     (if 128 \<le> snd_cwnd_cents ca
      then tp\<lparr>snd_cwnd := snd_cwnd tp + of_nat (unat (snd_cwnd_cents ca) div 128), snd_cwnd_cnt := 0\<rparr> else tp,
      ca\<lparr>snd_cwnd_cents := of_nat (unat (snd_cwnd_cents ca) mod 128)\<rparr>)"
proof (induction tp ca rule: hybla_cents.induct)
  case (1 tp ca)
  define c where "c = snd_cwnd_cents ca"
  show ?case
  proof (cases "128 \<le> c")
    case True
    have d: "unat (c - 128) = unat c - 128" "128 \<le> unat c"
      using True by (simp_all add: cents_decrease word_le_nat_alt)
    have m: "unat c div 128 = Suc ((unat c - 128) div 128)" "unat c mod 128 = (unat c - 128) mod 128"
      using d(2) by (simp_all add: le_div_geq le_mod_geq)
    have z: "(unat c - 128) div 128 = 0" if "\<not> 128 \<le> c - 128"
      using that d by (simp add: word_le_nat_alt div_eq_0_iff)
    show ?thesis
      using 1 [folded c_def, OF True] True z
      by (subst hybla_cents.simps) (simp add: c_def [symmetric] d m algebra_simps)
  next
    case False
    then have "unat c < 128" by (simp add: word_le_nat_alt)
    then have "ca\<lparr>snd_cwnd_cents := of_nat (unat (snd_cwnd_cents ca) mod 128)\<rparr> = ca"
      by (simp add: c_def)
    moreover have "hybla_cents tp ca = (tp, ca)"
      using False by (subst hybla_cents.simps) (simp add: c_def)
    ultimately show ?thesis using False by (simp add: c_def)
  qed
qed


lemma hybla_cents_conserves:
  assumes "small (snd_cwnd tp)" and "hybla_cents tp ca = (tp', ca')" and "unat (snd_cwnd_cents ca) < 256"
  shows "unat (snd_cwnd tp') * 128 + unat (snd_cwnd_cents ca') = unat (snd_cwnd tp) * 128 + unat (snd_cwnd_cents ca)"
    and "unat (snd_cwnd_cents ca') < 128"
proof -
  define c where "c = unat (snd_cwnd_cents ca)"
  have e: "tp' = (if 128 \<le> c then tp\<lparr>snd_cwnd := snd_cwnd tp + of_nat (c div 128), snd_cwnd_cnt := 0\<rparr> else tp)"
    "ca' = ca\<lparr>snd_cwnd_cents := of_nat (c mod 128)\<rparr>"
    using assms(2) hybla_cents_spec [of tp ca] by (auto simp: c_def word_le_nat_alt)
  have m: "unat (of_nat (c mod 128) :: u32) = c mod 128"
    by (simp add: unat_of_nat take_bit_nat_eq_self)
  show "unat (snd_cwnd_cents ca') < 128" by (simp add: e(2) m)
  have "unat (snd_cwnd tp + of_nat (c div 128)) = unat (snd_cwnd tp) + c div 128"
    using assms(1,3) by (simp add: small_def c_def unat_word_ariths unat_of_nat take_bit_nat_eq_self)
  then have "unat (snd_cwnd tp') = unat (snd_cwnd tp) + c div 128"
    by (auto simp: e(1))
  then show "unat (snd_cwnd tp') * 128 + unat (snd_cwnd_cents ca') = unat (snd_cwnd tp) * 128 + unat (snd_cwnd_cents ca)"
    by (simp add: e(2) m c_def [symmetric] algebra_simps)
qed

section \<open>The ratio rho\<close>

text \<open>
  Below 6400 (a round trip of 800 ms, the smoothed value is eight times it) the shift of
  slow start is defined.
\<close>

definition hybla_usable :: "tcp_sock \<Rightarrow> bool" where
  "hybla_usable tp \<longleftrightarrow> sock_ok tp \<and> unat (srtt tp) < 6400"

definition hybla_ok :: "bool \<Rightarrow> hybla \<Rightarrow> bool" where
  "hybla_ok b ca \<longleftrightarrow> (b \<longrightarrow> unat (snd_cwnd_cents ca) < 128 \<and> 0 < unat (rho ca) \<and> unat (rho ca) < 32
     \<and> unat (rho_3ls ca) < 256 \<and> unat (rho ca) = unat (rho_3ls ca) div 8)"

lemma hybla_recalc_spec:
  assumes "unat (srtt tp) < 6400"
  shows "\<exists>ca'. hybla_recalc_param hybla_default tp ca = Some ca'
    \<and> unat (rho_3ls ca') = max (unat (srtt tp) div 25) 8 \<and> unat (rho ca') = unat (rho_3ls ca') div 8
    \<and> unat (rho2_7ls ca') = 2 * unat (rho_3ls ca') ^ 2
    \<and> snd_cwnd_cents ca' = snd_cwnd_cents ca \<and> hybla_en ca' = hybla_en ca \<and> hy_minrtt ca' = hy_minrtt ca"
proof -
  define r where "r = max (srtt tp div 25) 8"
  have r: "unat r = max (unat (srtt tp) div 25) 8" by (simp add: r_def unat_max unat_div_distrib)
  have lt: "unat r < 256" using assms r by (simp add: less_mult_imp_div_less)
  have "unat r * unat r \<le> 255 * 255" using lt by (intro mult_le_mono) auto
  then have q: "unat (r * r) = unat r * unat r" by (simp add: unat_word_ariths)
  have "unat (push_bit 1 (r * r)) = unat (r * r) * 2 ^ 1 mod 2 ^ 64" by (simp only: unat_push_bit) simp
  then have "unat (push_bit 1 (r * r)) = 2 * unat r ^ 2"
    using \<open>unat r * unat r \<le> 255 * 255\<close> by (simp add: q power2_eq_square)
  moreover have "hybla_recalc_param hybla_default tp ca =
      Some (ca\<lparr>rho_3ls := r, rho := drop_bit 3 r, rho2_7ls := push_bit 1 (r * r),
        rho2 := drop_bit 7 (push_bit 1 (r * r))\<rparr>)"
    by (simp add: hybla_recalc_param_def hybla_default_def msecs_to_jiffies_def r_def Let_def)
  ultimately show ?thesis using r by (simp add: unat_drop_bit_div)
qed

lemma hybla_recalc_ok:
  assumes "unat (srtt tp) < 6400" and "unat (snd_cwnd_cents ca) < 128"
  shows "\<exists>ca'. hybla_recalc_param hybla_default tp ca = Some ca' \<and> hybla_ok True (ca'\<lparr>hy_minrtt := m\<rparr>)
    \<and> hybla_ok True ca'"
proof -
  obtain ca' where c: "hybla_recalc_param hybla_default tp ca = Some ca'"
    "unat (rho_3ls ca') = max (unat (srtt tp) div 25) 8" "unat (rho ca') = unat (rho_3ls ca') div 8"
    "snd_cwnd_cents ca' = snd_cwnd_cents ca"
    using hybla_recalc_spec [OF assms(1), of ca] by blast
  have "unat (rho_3ls ca') < 256" using c(2) assms(1) by (simp add: less_mult_imp_div_less)
  moreover have "8 \<le> unat (rho_3ls ca')" using c(2) by simp
  ultimately have "0 < unat (rho ca')" "unat (rho ca') < 32"
    unfolding c(3) by (simp_all add: div_greater_zero_iff less_mult_imp_div_less)
  then show ?thesis using c \<open>unat (rho_3ls ca') < 256\<close> assms(2) by (simp add: hybla_ok_def)
qed

lemma shift_one_int_undefined: "shift_one_int n = None \<longleftrightarrow> 32 \<le> unat n"
  by (simp add: shift_one_int_def word_less_nat_alt)

section \<open>The increase\<close>

lemma hybla_increment_returns:
  assumes "snd_cwnd tp \<noteq> 0" and "unat (rho ca) < 32"
  shows "\<exists>inc t ss. hybla_increment ca tp = Some (inc, t, ss) \<and> snd_cwnd t = snd_cwnd tp
    \<and> same_but_cwnd tp t \<and> (ss \<longrightarrow> snd_cwnd tp < snd_ssthresh tp)"
  using assms by (auto simp: hybla_increment_def shift_one_int_def word_less_nat_alt same_but_cwnd_def Let_def)

lemma hybla_cents_frame:
  "hybla_cents tp ca = (tp', ca') \<Longrightarrow> same_but_cwnd tp tp' \<and> ca' = ca\<lparr>snd_cwnd_cents := snd_cwnd_cents ca'\<rparr>"
  by (auto simp: hybla_cents_spec same_but_cwnd_def)

lemma hybla_grow_spec:
  assumes "small (snd_cwnd tp)" and "unat (snd_cwnd_cents ca) < 128"
    and g: "hybla_grow tp ca inc ss = (tp', ca')"
  shows "\<exists>w. w * 128 + unat (snd_cwnd_cents ca') =
      unat (snd_cwnd tp) * 128 + unat (snd_cwnd_cents ca) + unat inc
    \<and> unat (snd_cwnd tp') = min (if ss then min w (unat (snd_ssthresh tp)) else w) (unat (snd_cwnd_clamp tp))"
    and "unat (snd_cwnd_cents ca') < 128" and "same_but_cwnd tp tp'"
    and "ca' = ca\<lparr>snd_cwnd_cents := snd_cwnd_cents ca'\<rparr>"
proof -
  define c0 where "c0 = ca\<lparr>snd_cwnd_cents := snd_cwnd_cents ca + inc mod 128\<rparr>"
  define t0 where "t0 = tp\<lparr>snd_cwnd := snd_cwnd tp + drop_bit 7 inc\<rparr>"
  obtain t1 c1 where h: "hybla_cents t0 c0 = (t1, c1)" by (cases "hybla_cents t0 c0") auto
  have im: "unat (inc mod 128) = unat inc mod 128" by (simp add: unat_mod_distrib)
  have c0: "unat (snd_cwnd_cents c0) = unat (snd_cwnd_cents ca) + unat inc mod 128"
    using assms(2) by (simp add: c0_def unat_word_ariths im)
  have i7: "unat (drop_bit 7 inc) = unat inc div 128" by (simp add: unat_drop_bit_div)
  have t0: "unat (snd_cwnd t0) = unat (snd_cwnd tp) + unat inc div 128"
  proof -
    have "unat inc div 128 < 2 ^ 57" using unat64_less [of inc] by (simp add: less_mult_imp_div_less)
    then show ?thesis using assms(1) by (simp add: t0_def unat_word_ariths i7 small_def)
  qed
  define k where "k = unat (snd_cwnd_cents c0) div 128"
  have k: "k \<le> 1" using c0 assms(2) mod_less_divisor [of 128 "unat inc"] by (simp add: k_def less_mult_imp_div_less flip: less_Suc_eq_le)
  have c1: "c1 = c0\<lparr>snd_cwnd_cents := of_nat (unat (snd_cwnd_cents c0) mod 128)\<rparr>"
    and t1c: "snd_cwnd t1 = snd_cwnd t0 + of_nat k"
    using h hybla_cents_spec [of t0 c0] by (auto simp: k_def word_le_nat_alt div_eq_0_iff)
  have m: "unat (snd_cwnd_cents c1) = unat (snd_cwnd_cents c0) mod 128"
    by (simp add: c1 unat_of_nat take_bit_nat_eq_self)
  have t1: "unat (snd_cwnd t1) = unat (snd_cwnd tp) + unat inc div 128 + k"
  proof -
    have "unat inc div 128 < 2 ^ 57" using unat64_less [of inc] by (simp add: less_mult_imp_div_less)
    then show ?thesis
      using k assms(1) t0 by (simp add: t1c unat_word_ariths unat_of_nat take_bit_nat_eq_self small_def)
  qed
  have s: "same_but_cwnd tp t1" using hybla_cents_frame [OF h] by (auto simp: t0_def same_but_cwnd_def)
  note sd = same_but_cwndD [OF s]
  have g': "ca' = c1" "tp' = (if ss then t1\<lparr>snd_cwnd := min (min (snd_cwnd t1) (snd_ssthresh t1)) (uint_ulong (snd_cwnd_clamp t1))\<rparr>
      else t1\<lparr>snd_cwnd := min (snd_cwnd t1) (uint_ulong (snd_cwnd_clamp t1))\<rparr>)"
    using g h by (auto simp: hybla_grow_def t0_def [symmetric] c0_def [symmetric] Let_def)
  show "unat (snd_cwnd_cents ca') < 128" by (simp add: g'(1) m)
  show "same_but_cwnd tp tp'" using s by (auto simp: g'(2) same_but_cwnd_def)
  show "ca' = ca\<lparr>snd_cwnd_cents := snd_cwnd_cents ca'\<rparr>" by (simp add: g'(1) c1 c0_def)
  have "(unat (snd_cwnd tp) + unat inc div 128 + k) * 128 + unat (snd_cwnd_cents ca')
      = unat (snd_cwnd tp) * 128 + unat (snd_cwnd_cents ca) + unat inc"
    using c0 m by (simp add: g'(1) k_def)
  moreover have "unat (snd_cwnd tp') = min (if ss then min (unat (snd_cwnd t1)) (unat (snd_ssthresh tp))
      else unat (snd_cwnd t1)) (unat (snd_cwnd_clamp tp))"
    by (simp add: g'(2) unat_min sd)
  ultimately show "\<exists>w. w * 128 + unat (snd_cwnd_cents ca') =
      unat (snd_cwnd tp) * 128 + unat (snd_cwnd_cents ca) + unat inc
    \<and> unat (snd_cwnd tp') = min (if ss then min w (unat (snd_ssthresh tp)) else w) (unat (snd_cwnd_clamp tp))"
    unfolding t1 by blast
qed

lemma hybla_cong_avoid_grow:
  assumes "\<not> srtt tp < hy_minrtt ca" and "snd_cwnd tp \<le> in_flight" and "hybla_en ca \<noteq> 0" and "rho ca \<noteq> 0"
    and "hybla_increment ca tp = Some (inc, t, ss)"
  shows "hybla_cong_avoid par env ack rtt in_flight flag tp ca = Some (hybla_grow t ca inc ss)"
  using assms by (simp add: hybla_cong_avoid_def tcp_is_cwnd_limited_def)

text \<open>Congestion avoidance adds \<open>rho ^ 2 / cwnd\<close> packets, to the last 1/128.\<close>

lemma hybla_avoidance:
  assumes "\<not> srtt tp < hy_minrtt ca" and "snd_cwnd tp \<le> in_flight" and "hybla_en ca \<noteq> 0" and "rho ca \<noteq> 0"
    and "snd_ssthresh tp \<le> snd_cwnd tp" and "sock_ok tp" and "unat (snd_cwnd_cents ca) < 128"
  shows "\<exists>tp' ca' w. hybla_cong_avoid par env ack rtt in_flight flag tp ca = Some (tp', ca')
    \<and> w * 128 + unat (snd_cwnd_cents ca') = unat (snd_cwnd tp) * 128 + unat (snd_cwnd_cents ca)
        + unat (rho2_7ls ca) div unat (snd_cwnd tp)
    \<and> unat (snd_cwnd tp') = min w (unat (snd_cwnd_clamp tp))"
proof -
  have nz: "snd_cwnd tp \<noteq> 0" "small (snd_cwnd tp)" using assms(6) by (simp_all add: sock_ok_def)
  define t where "t = (if rho2_7ls ca div snd_cwnd tp < 128
    then tp\<lparr>snd_cwnd_cnt := snd_cwnd_cnt tp + 1\<rparr> else tp)"
  have i: "hybla_increment ca tp = Some (rho2_7ls ca div snd_cwnd tp, t, False)"
    using assms(5) nz by (auto simp: hybla_increment_def t_def Let_def)
  have tw: "snd_cwnd t = snd_cwnd tp" "snd_cwnd_clamp t = snd_cwnd_clamp tp" by (simp_all add: t_def)
  obtain tp' ca' where g: "hybla_grow t ca (rho2_7ls ca div snd_cwnd tp) False = (tp', ca')" by fastforce
  show ?thesis
    using hybla_cong_avoid_grow [OF assms(1-4) i, of par env ack rtt flag]
      hybla_grow_spec(1) [OF _ assms(7) g] nz
    unfolding g by (auto simp: tw unat_div_distrib)
qed

section \<open>The contract\<close>

lemma hybla_grow_ok:
  assumes "sock_ok tp" and "same_but_cwnd tp t" and "snd_cwnd t = snd_cwnd tp"
    and "ss \<longrightarrow> snd_cwnd tp < snd_ssthresh tp" and "unat (snd_cwnd_cents ca) < 128"
    and "hybla_grow t ca inc ss = (tp', ca')"
  shows "sock_ok tp'" and "srtt tp' = srtt tp"
proof -
  have sm: "small (snd_cwnd t)" using assms(1,3) by (simp add: sock_ok_def)
  note sp = hybla_grow_spec [OF sm assms(5,6)]
  note d = same_but_cwndD [OF assms(2)] and d' = same_but_cwndD [OF sp(3)]
  show "srtt tp' = srtt tp" by (simp add: d d')
  obtain w where w: "w * 128 + unat (snd_cwnd_cents ca') = unat (snd_cwnd t) * 128 + unat (snd_cwnd_cents ca) + unat inc"
    "unat (snd_cwnd tp') = min (if ss then min w (unat (snd_ssthresh t)) else w) (unat (snd_cwnd_clamp t))"
    using sp(1) by blast
  have pos: "0 < unat (snd_cwnd tp)" "0 < unat (snd_cwnd_clamp tp)"
    using assms(1) by (simp_all add: sock_ok_def unat_gt_0)
  have "unat (snd_cwnd tp) \<le> w" using w(1) sp(2) assms(3) by simp
  then have "0 < unat (snd_cwnd tp')"
    using w(2) pos assms(4) by (auto simp: d word_less_nat_alt)
  moreover have "unat (snd_cwnd tp') \<le> unat (snd_cwnd_clamp tp)" using w(2) by (simp add: d)
  ultimately show "sock_ok tp'"
    using assms(1) by (auto simp: sock_ok_def small_def d d' unat_gt_0)
qed

lemma hybla_cong_avoid_ok:
  assumes "hybla_usable tp" and "hybla_ok True ca"
  shows "\<exists>tp' ca'. hybla_cong_avoid hybla_default env ack rtt in_flight flag tp ca = Some (tp', ca')
    \<and> hybla_usable tp' \<and> hybla_ok True ca'"
proof -
  have so: "sock_ok tp" and sr: "unat (srtt tp) < 6400" using assms(1) by (simp_all add: hybla_usable_def)
  have cents: "unat (snd_cwnd_cents ca) < 128" using assms(2) by (simp add: hybla_ok_def)
  obtain c where c: "(if srtt tp < hy_minrtt ca then do {
              ca \<leftarrow> hybla_recalc_param hybla_default tp ca;
              Some (ca\<lparr>hy_minrtt := srtt tp\<rparr>)
            } else Some ca) = Some c" "hybla_ok True c"
    using hybla_recalc_ok [OF sr cents, of "srtt tp"] assms(2)
    by (cases "srtt tp < hy_minrtt ca") auto
  obtain t where t: "tcp_reno_cong_avoid env ack rtt in_flight flag tp = Some t" "window_step tp t" "sock_ok t"
    using sock_ok_reno_cong_avoid [OF so] by blast
  obtain inc u ss where i: "hybla_increment c tp = Some (inc, u, ss)" "snd_cwnd u = snd_cwnd tp"
    "same_but_cwnd tp u" "ss \<longrightarrow> snd_cwnd tp < snd_ssthresh tp"
    using hybla_increment_returns [of tp c] so c(2) by (auto simp: sock_ok_def hybla_ok_def)
  obtain tp' ca' where g: "hybla_grow u c inc ss = (tp', ca')" by fastforce
  have cc: "unat (snd_cwnd_cents c) < 128" "rho c \<noteq> 0" using c(2) by (auto simp: hybla_ok_def)
  have go: "sock_ok tp'" "srtt tp' = srtt tp" using hybla_grow_ok [OF so i(3,2,4) cc(1) g] by blast+
  have sm: "small (snd_cwnd u)" using so i(2) by (simp add: sock_ok_def)
  note gs = hybla_grow_spec [OF sm cc(1) g]
  have hc: "hybla_ok True ca'" using gs(2) c(2) by (subst gs(4)) (auto simp: hybla_ok_def)
  have "hybla_cong_avoid hybla_default env ack rtt in_flight flag tp ca =
     (if \<not> tcp_is_cwnd_limited tp in_flight then Some (tp, c) else if hybla_en c = 0 then Some (t, c)
      else Some (tp', ca'))"
    using g cc(2) t(1) i(1)
    by (simp add: hybla_cong_avoid_def c(1))
  then show ?thesis
    using go hc t c(2) so sr same_but_growthD(4) [of tp t] by (auto simp: hybla_usable_def window_step_def)
qed

interpretation hybla: cong_module "tcp_hybla hybla_default" hybla_usable hybla_ok
proof unfold_locales
  fix tp :: tcp_sock and p env ack rtt in_flight flag
  assume "clock_ok env" "hybla_usable tp" "hybla_ok True p"
  then show "\<exists>tp' p'. ca_cong_avoid (tcp_hybla hybla_default) env ack rtt in_flight flag tp p = Some (tp', p')
      \<and> hybla_usable tp' \<and> hybla_ok True p'"
    using hybla_cong_avoid_ok by (simp add: tcp_hybla_def)
next
  fix tp :: tcp_sock and p :: hybla and env
  assume u: "clock_ok env" "hybla_usable tp" "hybla_ok False p"
  define c where "c = p\<lparr>rho := 0, rho2 := 0, rho_3ls := 0, rho2_7ls := 0, snd_cwnd_cents := 0, hybla_en := 1\<rparr>"
  define t where "t = tp\<lparr>snd_cwnd := 2, snd_cwnd_clamp := 65535\<rparr>"
  have "unat (srtt t) < 6400" "unat (snd_cwnd_cents c) < 128"
    using u(2) by (simp_all add: t_def c_def hybla_usable_def)
  from hybla_recalc_ok [OF this, of "srtt t"] obtain c' where
    c': "hybla_recalc_param hybla_default t c = Some c'" "hybla_ok True (c'\<lparr>hy_minrtt := srtt t\<rparr>)" by blast
  have "0 < unat (rho c')" "unat (rho c') < 32" using c'(2) by (simp_all add: hybla_ok_def)
  then have "hybla_usable (t\<lparr>snd_cwnd := rho c'\<rparr>)"
    using u(2) by (auto simp: hybla_usable_def sock_ok_def small_def t_def)
  then show "\<exists>tp' p'. run_init (tcp_hybla hybla_default) env tp p = Some (tp', p') \<and> hybla_usable tp' \<and> hybla_ok True p'"
    using c' by (simp add: tcp_hybla_def run_defs hybla_init_def Let_def c_def [symmetric] t_def [symmetric])
qed (auto simp: tcp_hybla_def run_defs reno_min_cwnd_law reno_ssthresh_law hybla_usable_def hybla_state_def hybla_ok_def)

section \<open>Properties\<close>

text \<open>
  C35: Hybla loses no fraction of a packet: in congestion avoidance, one acknowledgment adds
  exactly \<open>rho^2 / cwnd\<close> (in 1/128 packets) to the window and its stored fraction, and only the
  clamp takes anything away.
\<close>

theorem hybla_avoidance_exact:
  assumes "\<not> srtt tp < hy_minrtt ca" and "snd_cwnd tp \<le> in_flight" and "hybla_en ca \<noteq> 0" and "rho ca \<noteq> 0"
    and "snd_ssthresh tp \<le> snd_cwnd tp" and "sock_ok tp" and "unat (snd_cwnd_cents ca) < 128"
  shows "\<exists>tp' ca' w. hybla_cong_avoid par env ack rtt in_flight flag tp ca = Some (tp', ca')
    \<and> w * 128 + unat (snd_cwnd_cents ca') = unat (snd_cwnd tp) * 128 + unat (snd_cwnd_cents ca)
        + unat (rho2_7ls ca) div unat (snd_cwnd tp)
    \<and> unat (snd_cwnd tp') = min w (unat (snd_cwnd_clamp tp))"
  by (rule hybla_avoidance [OF assms])

definition example_hybla :: hybla where
  "example_hybla = \<lparr>hybla_en = 1, snd_cwnd_cents = 100, rho = 4, rho2 = 16, rho_3ls = 32,
     rho2_7ls = 2048, hy_minrtt = 800\<rparr>"

theorem hybla_avoidance_exact_witness:
  "\<exists>tp' ca' w. hybla_cong_avoid hybla_default example_env 0 0 20 0 (example_sock 10 5) example_hybla
      = Some (tp', ca') \<and> w * 128 + unat (snd_cwnd_cents ca') = 1280 + 100 + 204
    \<and> unat (snd_cwnd tp') = min w 10000"
  using hybla_avoidance_exact [of "example_sock 10 5" example_hybla 20 hybla_default example_env 0 0 0]
  by (simp add: small_def sock_ok_def) (simp add: example_defs example_hybla_def)

text \<open>
  With the default reference round trip of 25 ms, the ratio \<open>rho\<close> Hybla scales its growth
  by is the smoothed round trip over the reference, in eighths, and never below one.
\<close>

theorem hybla_ratio:
  assumes "unat (srtt tp) < 6400"
  shows "\<exists>ca'. hybla_recalc_param hybla_default tp ca = Some ca'
    \<and> unat (rho_3ls ca') = max (unat (srtt tp) div 25) 8 \<and> unat (rho ca') = unat (rho_3ls ca') div 8
    \<and> unat (rho2_7ls ca') = 2 * unat (rho_3ls ca') ^ 2"
  using hybla_recalc_spec [OF assms, of ca] by blast

theorem hybla_ratio_witness:
  "\<exists>example_hybla'. hybla_recalc_param hybla_default (example_sock 10 5) example_hybla = Some example_hybla' \<and> unat (rho example_hybla') = 4"
  using hybla_ratio [of "example_sock 10 5" example_hybla] by (auto simp: example_defs)

end
