(* ===== verification/Htcp.thy ===== *)
theory Htcp
  imports Reno
begin

text \<open>
  H-TCP, \<^verbatim>\<open>tcp/linux/src/tcp_htcp.c\<close>: the increase \<^verbatim>\<open>alpha\<close> grows with the time since the
  last congestion and the decrease \<^verbatim>\<open>beta\<close> is the ratio of the least to the greatest round
  trip time, both in units of 1/128.
\<close>

section \<open>State\<close>

definition ALPHA_BASE :: u32 where "ALPHA_BASE = push_bit 7 1"
definition BETA_MIN :: u8 where "BETA_MIN = push_bit 6 1"
definition BETA_MAX :: u8 where "BETA_MAX = 102"

lemmas htcp_consts = ALPHA_BASE_def BETA_MIN_def BETA_MAX_def

record htcp_params =
  use_rtt_scaling :: cint
  use_bandwidth_switch :: cint

definition htcp_default :: htcp_params where
  "htcp_default = \<lparr>use_rtt_scaling = 1, use_bandwidth_switch = 1\<rparr>"

record htcp =
  ht_alpha :: u32
  ht_beta :: u8
  modeswitch :: u8
  ht_pkts_acked :: u16
  packetcount :: u32
  minRTT :: u32
  maxRTT :: u32
  last_cong :: u32
  undo_last_cong :: u32
  undo_maxRTT :: u32
  undo_old_maxB :: u32
  minB :: u32
  maxB :: u32
  old_maxB :: u32
  Bi :: u32
  lasttime :: u32

section \<open>Operations\<close>

definition htcp_cong_time :: "env \<Rightarrow> htcp \<Rightarrow> u32" where
  "htcp_cong_time env ca = tcp_time_stamp env - last_cong ca"

definition htcp_ccount :: "env \<Rightarrow> htcp \<Rightarrow> u32 option" where
  "htcp_ccount env ca = udiv (htcp_cong_time env ca) (minRTT ca)"

definition htcp_reset :: "env \<Rightarrow> htcp \<Rightarrow> htcp" where
  "htcp_reset env ca =
     ca\<lparr>undo_last_cong := last_cong ca, undo_maxRTT := maxRTT ca, undo_old_maxB := old_maxB ca,
        last_cong := tcp_time_stamp env\<rparr>"

definition htcp_cwnd_undo :: "tcp_sock \<Rightarrow> htcp \<Rightarrow> (u32 \<times> htcp) option" where
  "htcp_cwnd_undo tp ca = do {
     let ca = ca\<lparr>last_cong := undo_last_cong ca, maxRTT := undo_maxRTT ca, old_maxB := undo_old_maxB ca\<rparr>;
     q \<leftarrow> udiv (push_bit 7 (snd_ssthresh tp)) (ucast (ht_beta ca));
     Some (max (snd_cwnd tp) q, ca)
   }"

definition measure_rtt :: "env \<Rightarrow> tcp_sock \<Rightarrow> htcp \<Rightarrow> htcp option" where
  "measure_rtt env tp ca =
     (let srt = drop_bit 3 (srtt tp);
          ca = (if srt < minRTT ca \<or> minRTT ca = 0 then ca\<lparr>minRTT := srt\<rparr> else ca)
      in if icsk_ca_state tp = TCP_CA_Open \<and> snd_ssthresh tp < 0xFFFF then do {
           ccount \<leftarrow> htcp_ccount env ca;
           if 3 < ccount then
             let ca = (if maxRTT ca < minRTT ca then ca\<lparr>maxRTT := minRTT ca\<rparr> else ca)
             in Some (if maxRTT ca < srt \<and> srt \<le> maxRTT ca + msecs_to_jiffies 20
                      then ca\<lparr>maxRTT := srt\<rparr> else ca)
           else Some ca
         } else Some ca)"

definition measure_achieved_throughput ::
    "htcp_params \<Rightarrow> env \<Rightarrow> u32 \<Rightarrow> s64 \<Rightarrow> tcp_sock \<Rightarrow> htcp \<Rightarrow> htcp option" where
  "measure_achieved_throughput par env pkts last_ackt tp ca =
     (let now = tcp_time_stamp env;
          ca = (if icsk_ca_state tp = TCP_CA_Open then ca\<lparr>ht_pkts_acked := ulong_uint pkts\<rparr> else ca)
      in if use_bandwidth_switch par = 0 then Some ca
         else if icsk_ca_state tp \<noteq> TCP_CA_Open \<and> icsk_ca_state tp \<noteq> TCP_CA_Disorder then
           Some (ca\<lparr>packetcount := 0, lasttime := now\<rparr>)
         else
           let ca = ca\<lparr>packetcount := packetcount ca + pkts\<rparr>;
               a7 = drop_bit 7 (ht_alpha ca)
           in if snd_cwnd tp - (if a7 \<noteq> 0 then a7 else 1) \<le> packetcount ca
                 \<and> minRTT ca \<le> now - lasttime ca \<and> 0 < minRTT ca then do {
                cur_Bi \<leftarrow> udiv (packetcount ca * HZ) (now - lasttime ca);
                ccount \<leftarrow> htcp_ccount env ca;
                let ca = (if ccount \<le> 3 then ca\<lparr>Bi := cur_Bi, maxB := cur_Bi, minB := cur_Bi\<rparr>
                  else let ca = ca\<lparr>Bi := (3 * Bi ca + cur_Bi) div 4\<rparr>;
                           ca = (if maxB ca < Bi ca then ca\<lparr>maxB := Bi ca\<rparr> else ca)
                       in if maxB ca < minB ca then ca\<lparr>minB := maxB ca\<rparr> else ca);
                Some (ca\<lparr>packetcount := 0, lasttime := now\<rparr>)
              } else Some ca)"

definition htcp_beta_mode :: "htcp \<Rightarrow> u32 \<Rightarrow> u32 \<Rightarrow> htcp option" where
  "htcp_beta_mode ca minRTT0 maxRTT0 =
     (if modeswitch ca \<noteq> 0 \<and> msecs_to_jiffies 10 < minRTT0 \<and> maxRTT0 \<noteq> 0 then do {
        q \<leftarrow> udiv (push_bit 7 minRTT0) maxRTT0;
        let ca = ca\<lparr>ht_beta := ucast q\<rparr>;
        Some (if ht_beta ca < BETA_MIN then ca\<lparr>ht_beta := BETA_MIN\<rparr>
              else if BETA_MAX < ht_beta ca then ca\<lparr>ht_beta := BETA_MAX\<rparr> else ca)
      } else Some (ca\<lparr>ht_beta := BETA_MIN, modeswitch := 1\<rparr>))"

definition htcp_beta_update :: "htcp_params \<Rightarrow> htcp \<Rightarrow> u32 \<Rightarrow> u32 \<Rightarrow> htcp option" where
  "htcp_beta_update par ca minRTT0 maxRTT0 =
     (if use_bandwidth_switch par \<noteq> 0 then
        let maxB0 = maxB ca; old_maxB0 = old_maxB ca;
            ca = ca\<lparr>old_maxB := maxB ca\<rparr>
        in if \<not> between (5 * maxB0) (4 * old_maxB0) (6 * old_maxB0)
           then Some (ca\<lparr>ht_beta := BETA_MIN, modeswitch := 0\<rparr>)
           else htcp_beta_mode ca minRTT0 maxRTT0
      else htcp_beta_mode ca minRTT0 maxRTT0)"

definition htcp_alpha_update :: "htcp_params \<Rightarrow> env \<Rightarrow> htcp \<Rightarrow> htcp option" where
  "htcp_alpha_update par env ca = do {
     let minRTT0 = minRTT ca;
     let diff = htcp_cong_time env ca;
     let factor = (if HZ < diff then
                     let diff = diff - HZ
                     in 1 + (10 * diff + (diff div 2) * (diff div 2) div HZ) div HZ
                   else 1);
     factor \<leftarrow> (if use_rtt_scaling par \<noteq> 0 \<and> minRTT0 \<noteq> 0 then do {
                  scale \<leftarrow> udiv (push_bit 3 HZ) (10 * minRTT0);
                  let scale = min (max scale (push_bit 2 1)) (push_bit 3 10);
                  factor \<leftarrow> udiv (push_bit 3 factor) scale;
                  Some (if factor = 0 then 1 else factor)
                } else Some factor);
     let ca = ca\<lparr>ht_alpha := 2 * factor * int_ulong (push_bit 7 1 - ucast (ht_beta ca))\<rparr>;
     Some (if ht_alpha ca = 0 then ca\<lparr>ht_alpha := ALPHA_BASE\<rparr> else ca)
   }"

definition htcp_param_update :: "htcp_params \<Rightarrow> env \<Rightarrow> htcp \<Rightarrow> htcp option" where
  "htcp_param_update par env ca = do {
     let minRTT0 = minRTT ca;
     let maxRTT0 = maxRTT ca;
     ca \<leftarrow> htcp_beta_update par ca minRTT0 maxRTT0;
     ca \<leftarrow> htcp_alpha_update par env ca;
     Some (if 0 < minRTT0 \<and> minRTT0 < maxRTT0
           then ca\<lparr>maxRTT := minRTT0 + (maxRTT0 - minRTT0) * 95 div 100\<rparr> else ca)
   }"

definition htcp_recalc_ssthresh :: "htcp_params \<Rightarrow> env \<Rightarrow> tcp_sock \<Rightarrow> htcp \<Rightarrow> (u32 \<times> htcp) option" where
  "htcp_recalc_ssthresh par env tp ca = do {
     ca \<leftarrow> htcp_param_update par env ca;
     Some (max (drop_bit 7 (snd_cwnd tp * ucast (ht_beta ca))) 2, ca)
   }"

definition htcp_cong_avoid ::
    "htcp_params \<Rightarrow> env \<Rightarrow> u32 \<Rightarrow> u32 \<Rightarrow> u32 \<Rightarrow> cint \<Rightarrow> tcp_sock \<Rightarrow> htcp \<Rightarrow> (tcp_sock \<times> htcp) option" where
  "htcp_cong_avoid par env ack rtt in_flight data_acked tp ca =
     (if \<not> tcp_is_cwnd_limited tp in_flight then Some (tp, ca)
      else if snd_cwnd tp \<le> snd_ssthresh tp then do {
        tp \<leftarrow> tcp_slow_start env tp;
        Some (tp, ca)
      } else do {
        ca \<leftarrow> measure_rtt env tp ca;
        (tp, ca) \<leftarrow>
          (if snd_cwnd tp \<le> drop_bit 7 (uint_ulong (snd_cwnd_cnt tp) * ht_alpha ca) then do {
             ca \<leftarrow> htcp_alpha_update par env ca;
             Some ((bump_cwnd tp)\<lparr>snd_cwnd_cnt := 0\<rparr>, ca)
           } else Some (tp\<lparr>snd_cwnd_cnt := snd_cwnd_cnt tp + ht_pkts_acked ca\<rparr>, ca));
        Some (tp, ca\<lparr>ht_pkts_acked := 1\<rparr>)
      })"

definition htcp_init :: "env \<Rightarrow> tcp_sock \<Rightarrow> htcp \<Rightarrow> (tcp_sock \<times> htcp) option" where
  "htcp_init env sk ca =
     Some (sk, \<lparr>ht_alpha = ALPHA_BASE, ht_beta = BETA_MIN, modeswitch = 0, ht_pkts_acked = 1,
       packetcount = 0, minRTT = 0, maxRTT = 0, last_cong = tcp_time_stamp env, undo_last_cong = 0,
       undo_maxRTT = 0, undo_old_maxB = 0, minB = 0, maxB = 0, old_maxB = 0, Bi = 0, lasttime = 0\<rparr>)"

definition htcp_state :: "env \<Rightarrow> u8 \<Rightarrow> tcp_sock \<Rightarrow> htcp \<Rightarrow> (tcp_sock \<times> htcp) option" where
  "htcp_state env new_state sk ca =
     Some (sk,
       if new_state = TCP_CA_Open then ca\<lparr>last_cong := tcp_time_stamp env\<rparr>
       else if new_state = TCP_CA_CWR \<or> new_state = TCP_CA_Recovery \<or> new_state = TCP_CA_Loss
       then htcp_reset env ca else ca)"

definition htcp_ops :: "htcp_params \<Rightarrow> htcp ca_ops" where
  "htcp_ops par = \<lparr>ca_flags = 0, ca_name = ''htcp'', ca_init = Some htcp_init,
     ca_ssthresh = htcp_recalc_ssthresh par, ca_min_cwnd = None,
     ca_cong_avoid = htcp_cong_avoid par, ca_rtt_sample = None, ca_set_state = Some htcp_state,
     ca_cwnd_event = None, ca_undo_cwnd = Some htcp_cwnd_undo,
     ca_pkts_acked = Some (keep_sock (measure_achieved_throughput par)),
     ca_get_info = None\<rparr>"


section \<open>The decrease factor\<close>

text \<open>
  The quotient of the round trip times is cut to eight bits before it is clamped, but the clamp
  holds whatever the eight bits are.
\<close>

definition beta_ok :: "u8 \<Rightarrow> bool" where
  "beta_ok b \<longleftrightarrow> 64 \<le> unat b \<and> unat b \<le> 102"

lemma beta_mode_ok:
  "\<exists>ca'. htcp_beta_mode ca m M = Some ca' \<and> beta_ok (ht_beta ca') \<and> minRTT ca' = minRTT ca"
proof -
  have b: "beta_ok BETA_MIN" "beta_ok BETA_MAX" by (simp_all add: beta_ok_def htcp_consts)
  have "beta_ok x" if "\<not> x < BETA_MIN" "\<not> BETA_MAX < x" for x
    using that by (simp add: beta_ok_def htcp_consts word_less_nat_alt)
  then show ?thesis using b by (simp add: htcp_beta_mode_def Let_def)
qed

lemma beta_update_ok:
  "\<exists>ca'. htcp_beta_update par ca m M = Some ca' \<and> beta_ok (ht_beta ca') \<and> minRTT ca' = minRTT ca"
  using beta_mode_ok [of ca m M] beta_mode_ok [of "ca\<lparr>old_maxB := maxB ca\<rparr>" m M]
  by (auto simp: htcp_beta_update_def Let_def beta_ok_def htcp_consts)

text \<open>With a settled bandwidth and both round trip times known, the factor is their ratio.\<close>

lemma beta_mode_ratio:
  assumes "modeswitch ca \<noteq> 0" and "10 < unat m" and "unat m \<le> unat M" and "unat M < 2 ^ 57"
  shows "\<exists>ca'. htcp_beta_mode ca m M = Some ca' \<and>
    unat (ht_beta ca') = max 64 (min 102 (unat m * 128 div unat M))"
proof -
  have Mp: "0 < unat M" using assms(2,3) by linarith
  then have Mz: "M \<noteq> 0" by auto
  define q where "q = unat m * 128 div unat M"
  have "unat m * 128 \<le> 128 * unat M" using assms(3) by simp
  then have q: "q \<le> 128" unfolding q_def
    by (metis Mp div_le_mono nonzero_mult_div_cancel_right less_numeral_extra(3))
  have p: "unat (push_bit 7 m) = unat m * 2 ^ 7 mod 2 ^ 64" by (simp only: unat_push_bit) simp
  have "unat (push_bit 7 m) = unat m * 128" unfolding p using assms(3,4) by simp
  then have "unat (push_bit 7 m div M) = q" by (simp add: q_def unat_div_distrib)
  then have u: "unat (ucast (push_bit 7 m div M) :: u8) = q" using q by (simp add: unat_ulong_u8)
  have c: "modeswitch ca \<noteq> 0 \<and> msecs_to_jiffies 10 < m \<and> M \<noteq> 0"
    using assms(1,2) Mz by (simp add: msecs_to_jiffies_def word_less_nat_alt)
  then show ?thesis
    using Mz u unfolding q_def [symmetric]
    by (auto simp: htcp_beta_mode_def Let_def word_less_nat_alt htcp_consts)
qed

section \<open>The increase factor\<close>

definition rtt_bounded :: "htcp \<Rightarrow> bool" where
  "rtt_bounded ca \<longleftrightarrow> unat (minRTT ca) < 2 ^ 60"

lemma alpha_update_ok:
  assumes "rtt_bounded ca"
  shows "\<exists>ca'. htcp_alpha_update par env ca = Some ca' \<and> ht_alpha ca' \<noteq> 0
    \<and> ca' = ca\<lparr>ht_alpha := ht_alpha ca'\<rparr>"
proof -
  define s where "s = min (max (8000 div (10 * minRTT ca)) 4) (80 :: u32)"
  have "0 < unat s" by (simp add: s_def unat_min unat_max)
  then have s: "s \<noteq> 0" by auto
  have "unat (10 * minRTT ca) = 10 * unat (minRTT ca)"
    using assms by (simp add: rtt_bounded_def unat_word_ariths)
  then have "10 * minRTT ca \<noteq> 0" if "minRTT ca \<noteq> 0" using that by (metis mult_eq_0_iff unat_0 unat_eq_zero zero_neq_numeral)
  then show ?thesis
    using s by (auto simp: htcp_alpha_update_def Let_def s_def [symmetric] ALPHA_BASE_def)
qed

lemma alpha_update_frame:
  assumes "htcp_alpha_update par env ca = Some ca'"
  shows "ca' = ca\<lparr>ht_alpha := ht_alpha ca'\<rparr>"
  using assms by (auto simp: htcp_alpha_update_def Let_def bind_Some_iff split: if_splits)

text \<open>In the first second after a congestion and without the scaling, the increase is Reno's.\<close>

lemma alpha_update_recent:
  assumes "use_rtt_scaling par = 0" and "\<not> HZ < htcp_cong_time env ca" and "unat (ht_beta ca) < 128"
  shows "\<exists>ca'. htcp_alpha_update par env ca = Some ca' \<and>
    unat (ht_alpha ca') = 2 * (128 - unat (ht_beta ca))"
proof -
  define d where "d = (128 - ucast (ht_beta ca) :: cint)"
  have "unat (ucast (ht_beta ca) :: cint) = unat (ht_beta ca)"
    using assms(3) by (simp add: unsigned_ucast_eq take_bit_nat_eq_self)
  then have d: "unat d = 128 - unat (ht_beta ca)"
    using assms(3) by (simp add: d_def unat_sub word_le_nat_alt)
  have "0 \<le> sint d" "nat (sint d) = unat d"
    using sint_of_small [of d] d by simp_all
  then have i: "unat (int_ulong d) = unat d" using unat_int_ulong [of d] by simp
  have a: "unat (2 * 1 * int_ulong d) = 2 * (128 - unat (ht_beta ca))"
    using i d by (simp add: unat_word_ariths)
  then have "2 * 1 * int_ulong d \<noteq> 0" using assms(3) by (metis diff_is_0_eq mult_eq_0_iff not_less unat_0 zero_neq_numeral)
  then show ?thesis
    using assms(1,2) a by (simp add: htcp_alpha_update_def Let_def d_def [symmetric])
qed

section \<open>The decrease\<close>

lemma param_update_ok:
  assumes "rtt_bounded ca"
  shows "\<exists>ca'. htcp_param_update par env ca = Some ca' \<and> beta_ok (ht_beta ca') \<and> ht_alpha ca' \<noteq> 0
    \<and> minRTT ca' = minRTT ca"
proof -
  obtain c where c: "htcp_beta_update par ca (minRTT ca) (maxRTT ca) = Some c" "beta_ok (ht_beta c)"
    "minRTT c = minRTT ca" using beta_update_ok by blast
  have "rtt_bounded c" using assms c(3) by (simp add: rtt_bounded_def)
  from alpha_update_ok [OF this] obtain d where
    d: "htcp_alpha_update par env c = Some d" "ht_alpha d \<noteq> 0" "d = c\<lparr>ht_alpha := ht_alpha d\<rparr>" by blast
  have "ht_beta d = ht_beta c" "minRTT d = minRTT c" by (subst d(3), simp)+
  then show ?thesis using c d by (simp add: htcp_param_update_def Let_def)
qed

lemma htcp_ssthresh_spec:
  assumes "rtt_bounded ca" and "small (snd_cwnd tp)"
  shows "\<exists>s ca'. htcp_recalc_ssthresh par env tp ca = Some (s, ca') \<and> beta_ok (ht_beta ca')
    \<and> minRTT ca' = minRTT ca
    \<and> unat s = max (unat (snd_cwnd tp) * unat (ht_beta ca') div 128) 2
    \<and> unat (snd_cwnd tp) div 2 \<le> unat s \<and> unat s \<le> max (unat (snd_cwnd tp) * 102 div 128) 2
    \<and> small s"
proof -
  obtain c where c: "htcp_param_update par env ca = Some c" "beta_ok (ht_beta c)" "minRTT c = minRTT ca"
    using param_update_ok [OF assms(1)] by blast
  define w b where "w = unat (snd_cwnd tp)" and "b = unat (ht_beta c)"
  have b: "64 \<le> b" "b \<le> 102" and w: "w < 2147483648"
    using c(2) assms(2) by (simp_all add: beta_ok_def b_def w_def small_def)
  have wb: "w * 64 \<le> w * b" "w * b \<le> w * 102" using b by simp_all
  have "w * b < 18446744073709551616" using wb w by linarith
  then have "unat (drop_bit 7 (snd_cwnd tp * ucast (ht_beta c))) = w * b div 128"
    by (simp add: unat_drop_bit_div unat_word_ariths w_def b_def)
  then have s: "unat (max (drop_bit 7 (snd_cwnd tp * ucast (ht_beta c))) 2) = max (w * b div 128) 2"
    by (simp add: unat_max)
  have "w div 2 = w * 64 div 128" by simp
  also have "\<dots> \<le> w * b div 128" by (rule div_le_mono [OF wb(1)])
  finally have lo: "w div 2 \<le> w * b div 128" .
  have hi: "w * b div 128 \<le> w * 102 div 128" by (rule div_le_mono [OF wb(2)])
  have "w * 102 div 128 \<le> w" by simp
  then have "max (w * b div 128) 2 < 2147483648" using hi w by simp
  then have sm: "small (max (drop_bit 7 (snd_cwnd tp * ucast (ht_beta c))) 2)" by (simp add: small_def s)
  show ?thesis
    using c s lo hi sm
    by (intro exI conjI, simp add: htcp_recalc_ssthresh_def)
      (auto simp: w_def b_def le_max_iff_disj)
qed

section \<open>The contract\<close>

text \<open>
  The agent's smoothed round trip time is at least one tick, scaled by eight; with it the
  division by the least round trip time is defined.
\<close>

definition htcp_usable :: "tcp_sock \<Rightarrow> bool" where
  "htcp_usable tp \<longleftrightarrow> sock_ok tp \<and> 8 \<le> unat (srtt tp) \<and> small (srtt tp)"

definition htcp_ok :: "bool \<Rightarrow> htcp \<Rightarrow> bool" where
  "htcp_ok b ca \<longleftrightarrow> rtt_bounded ca \<and> (b \<longrightarrow> beta_ok (ht_beta ca))"

lemma measure_rtt_trap:
  "measure_rtt env tp ca = None \<longleftrightarrow>
     (minRTT ca = 0 \<or> unat (srtt tp) div 8 < unat (minRTT ca)) \<and> unat (srtt tp) < 8
     \<and> icsk_ca_state tp = TCP_CA_Open \<and> snd_ssthresh tp < 0xFFFF"
proof -
  have z: "drop_bit 3 (srtt tp) = 0 \<longleftrightarrow> unat (srtt tp) < 8"
    by (simp add: unat_eq_zero [symmetric] unat_drop_bit_div div_eq_0_iff)
  have l: "drop_bit 3 (srtt tp) < minRTT ca \<longleftrightarrow> unat (srtt tp) div 8 < unat (minRTT ca)"
    by (simp add: word_less_nat_alt unat_drop_bit_div)
  show ?thesis
    using z l by (auto simp: measure_rtt_def htcp_ccount_def Let_def udiv_def)
qed

lemma measure_rtt_ok:
  assumes "htcp_usable tp" and "htcp_ok b ca"
  shows "\<exists>ca'. measure_rtt env tp ca = Some ca' \<and> htcp_ok b ca' \<and> minRTT ca' \<noteq> 0"
proof -
  have "measure_rtt env tp ca \<noteq> None"
    using measure_rtt_trap [of env tp ca] assms(1) by (auto simp: htcp_usable_def)
  then obtain ca' where m: "measure_rtt env tp ca = Some ca'" by blast
  define srt where "srt = drop_bit 3 (srtt tp)"
  have u: "unat srt = unat (srtt tp) div 8" by (simp add: srt_def unat_drop_bit_div)
  have "0 < unat srt" unfolding u using assms(1) by (simp add: htcp_usable_def div_greater_zero_iff)
  moreover have "unat srt < 2 ^ 60"
    unfolding u using assms(1) by (simp add: htcp_usable_def small_def less_mult_imp_div_less)
  moreover have "(minRTT ca' = srt \<or> minRTT ca' = minRTT ca \<and> minRTT ca \<noteq> 0) \<and> ht_beta ca' = ht_beta ca"
    using m by (auto simp: measure_rtt_def htcp_ccount_def Let_def srt_def [symmetric] udiv_eq_Some_iff
        bind_Some_iff split: if_splits)
  ultimately show ?thesis using m assms(2) by (auto simp: htcp_ok_def rtt_bounded_def)
qed

lemma throughput_ok:
  assumes "htcp_ok b ca"
  shows "\<exists>ca'. measure_achieved_throughput par env n last_ackt tp ca = Some ca' \<and> htcp_ok b ca'"
proof -
  have nz: "d \<noteq> 0" if "m \<le> d" "0 < m" for d m :: u32 using that by (auto simp: word_le_nat_alt word_less_nat_alt)
  show ?thesis
    using assms nz by (auto simp: measure_achieved_throughput_def htcp_ccount_def Let_def udiv_def
        htcp_ok_def rtt_bounded_def)
qed

lemma htcp_cong_avoid_ok:
  assumes "htcp_usable tp" and "htcp_ok True ca"
  shows "\<exists>tp' ca'. htcp_cong_avoid par env ack rtt in_flight flag tp ca = Some (tp', ca')
    \<and> window_step tp tp' \<and> htcp_ok True ca'"
proof -
  have so: "sock_ok tp" using assms(1) by (simp add: htcp_usable_def)
  obtain t where t: "tcp_slow_start env tp = Some t" "window_step tp t"
    using sock_ok_slow_start [OF so] by blast
  obtain c where c: "measure_rtt env tp ca = Some c" "htcp_ok True c"
    using measure_rtt_ok [OF assms] by blast
  obtain d where d: "htcp_alpha_update par env c = Some d"
    using alpha_update_ok [of c par env] c(2) by (auto simp: htcp_ok_def)
  note fr = alpha_update_frame [OF d]
  have "htcp_ok True d" using c(2) by (subst fr) (simp add: htcp_ok_def rtt_bounded_def)
  then show ?thesis
    using t c d assms(2) by (auto simp: htcp_cong_avoid_def htcp_ok_def rtt_bounded_def)
qed

interpretation htcp: cong_module "htcp_ops htcp_default" htcp_usable htcp_ok
proof unfold_locales
  fix tp :: tcp_sock and p env ack rtt in_flight flag
  assume a: "clock_ok env" "htcp_usable tp" "htcp_ok True p"
  obtain tp' p' where r: "htcp_cong_avoid htcp_default env ack rtt in_flight flag tp p = Some (tp', p')"
    "window_step tp tp'" "htcp_ok True p'" using htcp_cong_avoid_ok [OF a(2,3)] by blast
  have "htcp_usable tp'"
    using a(2) window_step_sock_ok [OF r(2)] same_but_growthD(4) [of tp tp'] r(2)
    by (auto simp: htcp_usable_def window_step_def)
  then show "\<exists>tp' p'. ca_cong_avoid (htcp_ops htcp_default) env ack rtt in_flight flag tp p = Some (tp', p')
      \<and> htcp_usable tp' \<and> htcp_ok True p'"
    using r by (simp add: htcp_ops_def)
next
  fix tp :: tcp_sock and p env and b :: bool
  assume "clock_ok env" "htcp_usable tp" "htcp_ok b p"
  then show "\<exists>s p'. ca_ssthresh (htcp_ops htcp_default) env tp p = Some (s, p')
      \<and> 2 \<le> unat s \<and> small s \<and> htcp_ok b p'"
    using htcp_ssthresh_spec [of p tp htcp_default env]
    by (auto simp: htcp_ops_def htcp_usable_def sock_ok_def htcp_ok_def rtt_bounded_def)
next
  fix tp :: tcp_sock and p env n last_ackt
  assume "clock_ok env" "htcp_usable tp" "htcp_ok True p" "small n" "past env last_ackt"
  then show "\<exists>tp' p'. run_pkts_acked (htcp_ops htcp_default) env n last_ackt tp p = Some (tp', p')
      \<and> htcp_usable tp' \<and> htcp_ok True p'"
    using throughput_ok by (simp add: htcp_ops_def run_defs)
next
  fix tp :: tcp_sock and p :: htcp and b :: bool
  assume "htcp_usable tp" "htcp_ok b p" "2 \<le> unat (snd_ssthresh tp)"
  then show "\<exists>w. run_min_cwnd (htcp_ops htcp_default) tp p = Some w \<and> w \<noteq> 0 \<and> small w"
    by (auto simp: htcp_ops_def run_defs htcp_usable_def sock_ok_def)
qed (auto simp: htcp_ops_def run_defs htcp_usable_def htcp_init_def htcp_state_def htcp_reset_def htcp_ok_def
    rtt_bounded_def beta_ok_def htcp_consts)

section \<open>Properties\<close>

text \<open>
  On a loss H-TCP keeps a fraction of the window between a half and 102/128, whatever its
  measurements were, and never less than two packets.
\<close>

theorem htcp_loss:
  assumes "rtt_bounded ca" and "small (snd_cwnd tp)"
  shows "\<exists>s ca'. htcp_recalc_ssthresh par env tp ca = Some (s, ca')
    \<and> unat s = max (unat (snd_cwnd tp) * unat (ht_beta ca') div 128) 2
    \<and> unat (snd_cwnd tp) div 2 \<le> unat s \<and> unat s \<le> max (unat (snd_cwnd tp) * 102 div 128) 2"
  using htcp_ssthresh_spec [OF assms] by blast

definition example_htcp :: htcp where
  "example_htcp = \<lparr>ht_alpha = 128, ht_beta = 64, modeswitch = 1, ht_pkts_acked = 1, packetcount = 0,
     minRTT = 100, maxRTT = 200, last_cong = 0, undo_last_cong = 0, undo_maxRTT = 0, undo_old_maxB = 0,
     minB = 0, maxB = 0, old_maxB = 0, Bi = 0, lasttime = 0\<rparr>"

theorem htcp_loss_witness:
  "\<exists>s ca'. htcp_recalc_ssthresh htcp_default example_env (example_sock 100 5) example_htcp = Some (s, ca')
    \<and> 50 \<le> unat s \<and> unat s \<le> 79"
  using htcp_loss [of example_htcp "example_sock 100 5" htcp_default example_env]
  by (auto simp: example_defs example_htcp_def small_def rtt_bounded_def)

text \<open>
  C40: \<^verbatim>\<open>measure_rtt\<close> divides by zero exactly in the open state below the initial threshold,
  with a smoothed round trip under one unit and no smaller positive minimum recorded.
\<close>

theorem htcp_measure_rtt_trap:
  "measure_rtt env tp ca = None \<longleftrightarrow>
     (minRTT ca = 0 \<or> unat (srtt tp) div 8 < unat (minRTT ca)) \<and> unat (srtt tp) < 8
     \<and> icsk_ca_state tp = TCP_CA_Open \<and> snd_ssthresh tp < 0xFFFF"
  by (rule measure_rtt_trap)

end
