(* ===== verification/Illinois.thy ===== *)
theory Illinois
  imports Reno
begin

text \<open>
  TCP Illinois, \<^verbatim>\<open>tcp/linux/src/tcp_illinois.c\<close>: the increase \<^verbatim>\<open>alpha\<close> (in units of 1/128)
  and the factor \<^verbatim>\<open>beta\<close> (in units of 1/64) are functions of the average queueing delay of
  the last round trip.
\<close>

section \<open>State\<close>

definition ALPHA_SHIFT :: nat where "ALPHA_SHIFT = 7"
definition ALPHA_MIN :: u32 where "ALPHA_MIN = 3 * 128 div 10"
definition ALPHA_MAX :: u32 where "ALPHA_MAX = 10 * 128"
definition ALPHA_BASE_illinois :: u32 where "ALPHA_BASE_illinois = 128"
definition RTT_MAX :: u32 where "RTT_MAX = 0xffffffff div ALPHA_MAX"
definition BETA_SHIFT :: nat where "BETA_SHIFT = 6"
definition BETA_MIN_illinois :: u32 where "BETA_MIN_illinois = 64 div 8"
definition BETA_MAX_illinois :: u32 where "BETA_MAX_illinois = 64 div 2"
definition BETA_BASE :: u32 where "BETA_BASE = BETA_MAX_illinois"

lemmas illinois_consts = ALPHA_SHIFT_def ALPHA_MIN_def ALPHA_MAX_def ALPHA_BASE_illinois_def
  RTT_MAX_def BETA_SHIFT_def BETA_MIN_illinois_def BETA_MAX_illinois_def BETA_BASE_def

record illinois_params =
  win_thresh :: cint
  theta :: cint

definition illinois_default :: illinois_params where
  "illinois_default = \<lparr>win_thresh = 15, theta = 5\<rparr>"

record illinois =
  sum_rtt :: u64
  cnt_rtt :: u16
  base_rtt :: u32
  max_rtt :: u32
  end_seq :: u32
  il_alpha :: u32
  il_beta :: u32
  il_acked :: u16
  rtt_above :: u8
  rtt_low :: u8

section \<open>Operations\<close>

definition rtt_reset :: "tcp_sock \<Rightarrow> illinois \<Rightarrow> illinois" where
  "rtt_reset tp ca = ca\<lparr>end_seq := snd_nxt tp, cnt_rtt := 0, sum_rtt := 0\<rparr>"

definition tcp_illinois_init :: "env \<Rightarrow> tcp_sock \<Rightarrow> illinois \<Rightarrow> (tcp_sock \<times> illinois) option" where
  "tcp_illinois_init env tp ca =
     (let ca = ca\<lparr>il_alpha := ALPHA_MAX, il_beta := BETA_BASE, base_rtt := 0x7fffffff, max_rtt := 0,
        il_acked := 0, rtt_low := 0, rtt_above := 0\<rparr>
      in Some (tp, rtt_reset tp ca))"

definition tcp_illinois_acked :: "env \<Rightarrow> u32 \<Rightarrow> s64 \<Rightarrow> tcp_sock \<Rightarrow> illinois \<Rightarrow> illinois option" where
  "tcp_illinois_acked env pkts last_ackt tp ca =
     (let ca = ca\<lparr>il_acked := ulong_uint pkts\<rparr> in
      if ktime_equal last_ackt net_invalid_timestamp then Some ca
      else let rtt = ktime_to_us (net_timedelta env last_ackt);
               rtt = (if RTT_MAX < rtt then RTT_MAX else rtt);
               ca = (if rtt < base_rtt ca then ca\<lparr>base_rtt := rtt\<rparr> else ca);
               ca = (if max_rtt ca < rtt then ca\<lparr>max_rtt := rtt\<rparr> else ca)
           in Some (ca\<lparr>cnt_rtt := cnt_rtt ca + 1, sum_rtt := sum_rtt ca + rtt\<rparr>))"

definition max_delay :: "illinois \<Rightarrow> u32" where
  "max_delay ca = max_rtt ca - base_rtt ca"

definition avg_delay :: "illinois \<Rightarrow> u32 option" where
  "avg_delay ca = do {
     (t, _) \<leftarrow> do_div (sum_rtt ca) (cnt_rtt ca);
     Some (t - base_rtt ca)
   }"

text \<open>The function \<^verbatim>\<open>alpha\<close> of the code; it also counts the low round trips.\<close>

definition illinois_alpha :: "illinois_params \<Rightarrow> illinois \<Rightarrow> u32 \<Rightarrow> u32 \<Rightarrow> (u32 \<times> illinois) option" where
  "illinois_alpha par ca da dm =
     (let d1 = dm div 100 in
      if da \<le> d1 then
        if rtt_above ca = 0 then Some (ALPHA_MAX, ca)
        else let ca = ca\<lparr>rtt_low := rtt_low ca + 1\<rparr>
             in if (ucast (rtt_low ca) :: cint) <s theta par then Some (il_alpha ca, ca)
                else Some (ALPHA_MAX, ca\<lparr>rtt_low := 0, rtt_above := 0\<rparr>)
      else do {
        let ca = ca\<lparr>rtt_above := 1\<rparr>;
        let dm = dm - d1;
        let da = da - d1;
        a \<leftarrow> udiv (dm * ALPHA_MAX) (dm + da * (ALPHA_MAX - ALPHA_MIN) div ALPHA_MIN);
        Some (a, ca)
      })"

definition illinois_beta :: "u32 \<Rightarrow> u32 \<Rightarrow> u32 option" where
  "illinois_beta da dm =
     (let d2 = dm div 10 in
      if da \<le> d2 then Some BETA_MIN_illinois
      else let d3 = 8 * dm div 10 in
        if d3 \<le> da \<or> d3 \<le> d2 then Some BETA_MAX_illinois
        else udiv (BETA_MIN_illinois * d3 - BETA_MAX_illinois * d2
               + (BETA_MAX_illinois - BETA_MIN_illinois) * da) (d3 - d2))"

definition update_params :: "illinois_params \<Rightarrow> tcp_sock \<Rightarrow> illinois \<Rightarrow> illinois option" where
  "update_params par tp ca = do {
     ca \<leftarrow> (if snd_cwnd tp < int_ulong (win_thresh par)
            then Some (ca\<lparr>il_alpha := ALPHA_BASE_illinois, il_beta := BETA_BASE\<rparr>)
            else if 0 < cnt_rtt ca then do {
              let dm = max_delay ca;
              da \<leftarrow> avg_delay ca;
              (a, ca) \<leftarrow> illinois_alpha par ca da dm;
              let ca = ca\<lparr>il_alpha := a\<rparr>;
              b \<leftarrow> illinois_beta da dm;
              Some (ca\<lparr>il_beta := b\<rparr>)
            } else Some ca);
     Some (rtt_reset tp ca)
   }"

definition tcp_illinois_state :: "env \<Rightarrow> u8 \<Rightarrow> tcp_sock \<Rightarrow> illinois \<Rightarrow> (tcp_sock \<times> illinois) option" where
  "tcp_illinois_state env new_state tp ca =
     Some (tp, if new_state = TCP_CA_Loss then
       rtt_reset tp (ca\<lparr>il_alpha := ALPHA_BASE_illinois, il_beta := BETA_BASE, rtt_low := 0, rtt_above := 0\<rparr>)
       else ca)"

definition tcp_illinois_cong_avoid ::
    "illinois_params \<Rightarrow> env \<Rightarrow> u32 \<Rightarrow> u32 \<Rightarrow> u32 \<Rightarrow> cint \<Rightarrow> tcp_sock \<Rightarrow> illinois \<Rightarrow>
     (tcp_sock \<times> illinois) option" where
  "tcp_illinois_cong_avoid par env ack rtt in_flight flag tp ca = do {
     ca \<leftarrow> (if after ack (end_seq ca) then update_params par tp ca else Some ca);
     if \<not> tcp_is_cwnd_limited tp in_flight then Some (tp, ca)
     else if snd_cwnd tp \<le> snd_ssthresh tp then do {
       tp \<leftarrow> tcp_slow_start env tp;
       Some (tp, ca)
     } else do {
       let tp = tp\<lparr>snd_cwnd_cnt := snd_cwnd_cnt tp + il_acked ca\<rparr>;
       let ca = ca\<lparr>il_acked := 1\<rparr>;
       let delta = drop_bit ALPHA_SHIFT (uint_ulong (snd_cwnd_cnt tp) * il_alpha ca);
       if snd_cwnd tp \<le> delta then do {
         q \<leftarrow> udiv delta (snd_cwnd tp);
         Some (tp\<lparr>snd_cwnd := min (snd_cwnd tp + q) (uint_ulong (snd_cwnd_clamp tp)), snd_cwnd_cnt := 0\<rparr>, ca)
       } else Some (tp, ca)
     }
   }"

definition tcp_illinois_ssthresh :: "env \<Rightarrow> tcp_sock \<Rightarrow> illinois \<Rightarrow> (u32 \<times> illinois) option" where
  "tcp_illinois_ssthresh env tp ca =
     Some (max (drop_bit BETA_SHIFT (snd_cwnd tp * il_beta ca)) 2, ca)"

text \<open>The information for netlink; nothing of its body is compiled.\<close>

definition tcp_illinois_info :: "u32 \<Rightarrow> tcp_sock \<Rightarrow> illinois \<Rightarrow> unit option" where
  "tcp_illinois_info ext sk ca = Some ()"

definition tcp_illinois :: "illinois_params \<Rightarrow> illinois ca_ops" where
  "tcp_illinois par = \<lparr>ca_flags = TCP_CONG_RTT_STAMP, ca_name = ''illinois'',
     ca_init = Some tcp_illinois_init, ca_ssthresh = tcp_illinois_ssthresh,
     ca_min_cwnd = Some (\<lambda>tp p. Some (tcp_reno_min_cwnd tp)),
     ca_cong_avoid = tcp_illinois_cong_avoid par, ca_rtt_sample = None,
     ca_set_state = Some tcp_illinois_state, ca_cwnd_event = None, ca_undo_cwnd = None,
     ca_pkts_acked = Some (keep_sock tcp_illinois_acked),
     ca_get_info = Some tcp_illinois_info\<rparr>"


section \<open>Samples\<close>

text \<open>
  The sum of the samples of a round trip lies between the count times the least and the
  greatest round trip time, so the average delay lies between zero and the maximal delay.
\<close>

definition samples_ok :: "illinois \<Rightarrow> bool" where
  "samples_ok ca \<longleftrightarrow> unat (max_rtt ca) \<le> 3355443
     \<and> unat (cnt_rtt ca) * unat (base_rtt ca) \<le> unat (sum_rtt ca)
     \<and> unat (sum_rtt ca) \<le> unat (cnt_rtt ca) * unat (max_rtt ca)
     \<and> (cnt_rtt ca \<noteq> 0 \<longrightarrow> unat (base_rtt ca) \<le> unat (max_rtt ca))"

lemma unat_RTT_MAX: "unat RTT_MAX = 3355443"
  by (simp add: illinois_consts)

lemma illinois_acked_samples:
  assumes "samples_ok ca" and "unat (cnt_rtt ca) + 1 < 2 ^ 32"
  shows "\<exists>ca'. tcp_illinois_acked env n last_ackt tp ca = Some ca' \<and> samples_ok ca'
    \<and> il_alpha ca' = il_alpha ca \<and> il_beta ca' = il_beta ca"
proof (cases "ktime_equal last_ackt net_invalid_timestamp")
  case True
  then show ?thesis using assms(1) by (simp add: tcp_illinois_acked_def samples_ok_def)
next
  case False
  define c where "c = ca\<lparr>il_acked := ulong_uint n\<rparr>"
  define r where "r = (let rtt = ktime_to_us (net_timedelta env last_ackt)
    in if RTT_MAX < rtt then RTT_MAX else rtt)"
  have r: "unat r \<le> 3355443"
    by (auto simp: r_def Let_def word_less_nat_alt unat_RTT_MAX)
  define b m where "b = (if r < base_rtt c then r else base_rtt c)"
    and "m = (if max_rtt c < r then r else max_rtt c)"
  have e: "tcp_illinois_acked env n last_ackt tp ca =
      Some (c\<lparr>base_rtt := b, max_rtt := m, cnt_rtt := cnt_rtt c + 1, sum_rtt := sum_rtt c + r\<rparr>)"
    using False by (simp add: tcp_illinois_acked_def c_def [symmetric] Let_def r_def b_def m_def)
  have cf: "cnt_rtt c = cnt_rtt ca" "sum_rtt c = sum_rtt ca" "base_rtt c = base_rtt ca" "max_rtt c = max_rtt ca"
    by (simp_all add: c_def)
  have u: "unat (cnt_rtt ca + 1) = unat (cnt_rtt ca) + 1"
    using assms(2) by (simp add: unat_word_ariths)
  have s: "samples_ok ca" by (rule assms(1))
  have "unat (sum_rtt ca) \<le> unat (cnt_rtt ca) * 3355443"
    using s by (meson samples_ok_def le_trans mult_le_mono2)
  then have v: "unat (sum_rtt ca + r) = unat (sum_rtt ca) + unat r"
    using r unat32_less [of "cnt_rtt ca"] by (simp add: unat_word_ariths)
  have bm: "unat b \<le> unat (base_rtt ca)" "unat b \<le> unat r" "unat (max_rtt ca) \<le> unat m" "unat r \<le> unat m"
    "unat m \<le> 3355443"
    using r s by (auto simp: b_def m_def cf word_less_nat_alt samples_ok_def)
  have "(unat (cnt_rtt ca) + 1) * unat b \<le> unat (sum_rtt ca) + unat r"
  proof -
    have "unat (cnt_rtt ca) * unat b \<le> unat (cnt_rtt ca) * unat (base_rtt ca)" using bm(1) by (rule mult_le_mono2)
    also have "\<dots> \<le> unat (sum_rtt ca)" using s by (simp add: samples_ok_def)
    finally show ?thesis using bm(2) by simp
  qed
  moreover have "unat (sum_rtt ca) + unat r \<le> (unat (cnt_rtt ca) + 1) * unat m"
  proof -
    have "unat (sum_rtt ca) \<le> unat (cnt_rtt ca) * unat (max_rtt ca)" using s by (simp add: samples_ok_def)
    also have "\<dots> \<le> unat (cnt_rtt ca) * unat m" using bm(3) by (rule mult_le_mono2)
    finally show ?thesis using bm(4) by simp
  qed
  ultimately show ?thesis
    unfolding e using bm u v by (simp add: samples_ok_def cf) (simp add: c_def)
qed

lemma avg_delay_le_max:
  assumes "samples_ok ca" and "cnt_rtt ca \<noteq> 0"
  shows "\<exists>da. avg_delay ca = Some da \<and> da \<le> max_delay ca \<and> unat (max_delay ca) \<le> 3355443"
proof -
  define n where "n = unat (cnt_rtt ca)"
  have n: "0 < n" using assms(2) by (simp add: n_def unat_gt_0)
  define q where "q = sum_rtt ca div uint_ulong (cnt_rtt ca)"
  have q: "unat q = unat (sum_rtt ca) div n" by (simp add: q_def unat_div_distrib n_def)
  have s: "n * unat (base_rtt ca) \<le> unat (sum_rtt ca)" "unat (sum_rtt ca) \<le> n * unat (max_rtt ca)"
    "unat (max_rtt ca) \<le> 3355443" "unat (base_rtt ca) \<le> unat (max_rtt ca)"
    using assms by (simp_all add: samples_ok_def n_def)
  have lo: "unat (base_rtt ca) \<le> unat q"
    unfolding q using s(1) n by (simp add: less_eq_div_iff_mult_less_eq mult.commute)
  have "unat (sum_rtt ca) div n \<le> n * unat (max_rtt ca) div n" by (rule div_le_mono [OF s(2)])
  then have hi: "unat q \<le> unat (max_rtt ca)" unfolding q using n by simp
  have "avg_delay ca = Some (q - base_rtt ca)"
    using assms(2) by (simp add: avg_delay_def do_div_def q_def)
  moreover have "unat (q - base_rtt ca) = unat q - unat (base_rtt ca)"
    using lo by (simp add: unat_sub word_le_nat_alt)
  moreover have "unat (max_delay ca) = unat (max_rtt ca) - unat (base_rtt ca)"
    using s(4) by (simp add: max_delay_def unat_sub word_le_nat_alt)
  ultimately show ?thesis
    using s(3) diff_le_mono [OF hi, of "unat (base_rtt ca)"] by (auto simp: word_le_nat_alt)
qed

section \<open>The two factors\<close>

lemma unat_illinois_consts:
  "unat ALPHA_MIN = 38" "unat ALPHA_MAX = 1280" "unat ALPHA_BASE_illinois = 128"
  "unat BETA_MIN_illinois = 8" "unat BETA_MAX_illinois = 32" "unat BETA_BASE = 32"
  by (simp_all add: illinois_consts)

definition factors_ok :: "illinois \<Rightarrow> bool" where
  "factors_ok ca \<longleftrightarrow> 38 \<le> unat (il_alpha ca) \<and> unat (il_alpha ca) \<le> 1280
     \<and> 8 \<le> unat (il_beta ca) \<and> unat (il_beta ca) \<le> 32"

lemma alpha_quotient:
  fixes dm da :: nat
  assumes "0 < da" and "da \<le> dm"
  shows "38 \<le> dm * 1280 div (dm + da * 1242 div 38)" and "dm * 1280 div (dm + da * 1242 div 38) \<le> 1280"
proof -
  define D where "D = dm + da * 1242 div 38"
  have D: "dm \<le> D" "38 * D \<le> dm * 1280" "0 < D"
    using assms by (auto simp: D_def)
  then show "38 \<le> dm * 1280 div (dm + da * 1242 div 38)"
    by (fold D_def) (simp add: less_eq_div_iff_mult_less_eq)
  have "dm * 1280 div D \<le> D * 1280 div D" using D(1) by (intro div_le_mono) simp
  then show "dm * 1280 div (dm + da * 1242 div 38) \<le> 1280"
    using D(3) by (fold D_def) simp
qed

lemma illinois_alpha_range:
  assumes "da \<le> dm" and "unat dm \<le> 3355443" and "factors_ok ca"
  shows "\<exists>a ca'. illinois_alpha par ca da dm = Some (a, ca') \<and> 38 \<le> unat a \<and> unat a \<le> 1280
    \<and> il_beta ca' = il_beta ca \<and> samples_ok ca' = samples_ok ca"
proof (cases "da \<le> dm div 100")
  case True
  then show ?thesis
    using assms(3) by (simp add: illinois_alpha_def Let_def unat_illinois_consts factors_ok_def samples_ok_def)
next
  case False
  define m a where "m = dm - dm div 100" and "a = da - dm div 100"
  have d1: "unat (dm div 100) = unat dm div 100" by (simp add: unat_div_distrib)
  have m: "unat m = unat dm - unat dm div 100"
    unfolding m_def by (subst unat_sub) (simp_all add: word_le_nat_alt d1)
  have lt: "unat dm div 100 < unat da" using False d1 by (simp add: word_le_nat_alt)
  have a: "unat a = unat da - unat dm div 100"
    unfolding a_def using lt by (subst unat_sub) (simp_all add: word_le_nat_alt d1)
  have am: "0 < unat a" "unat a \<le> unat m" using a m lt assms(1) by (simp_all add: word_le_nat_alt)
  have mb: "unat m \<le> 3355443" using m assms(2) by simp
  define D where "D = m + a * (ALPHA_MAX - ALPHA_MIN) div ALPHA_MIN"
  have k: "ALPHA_MAX - ALPHA_MIN = 1242" "ALPHA_MIN = 38" "ALPHA_MAX = 1280" by (simp_all add: illinois_consts)
  have "unat (a * 1242) = unat a * 1242" using am mb by (simp add: unat_word_ariths)
  then have "unat (a * 1242 div 38) = unat a * 1242 div 38" by (simp add: unat_div_distrib)
  moreover have "unat a * 1242 div 38 \<le> unat a * 1242" by (rule div_le_dividend)
  ultimately have D: "unat D = unat m + unat a * 1242 div 38"
    using am mb by (simp add: D_def k unat_word_ariths)
  then have Dz: "D \<noteq> 0" using am by auto
  have "unat (m * 1280 div D) = unat m * 1280 div (unat m + unat a * 1242 div 38)"
    using mb by (simp add: unat_div_distrib D unat_word_ariths)
  then have r: "38 \<le> unat (m * 1280 div D)" "unat (m * 1280 div D) \<le> 1280"
    using alpha_quotient [OF am] by simp_all
  have "illinois_alpha par ca da dm = Some (m * ALPHA_MAX div D, ca\<lparr>rtt_above := 1\<rparr>)"
    using False Dz by (simp add: illinois_alpha_def Let_def m_def a_def D_def)
  then show ?thesis using r by (simp add: k samples_ok_def)
qed

text \<open>
  The numerator of the line is computed with a difference that may be negative; modulo
  \<open>2 ^ 64\<close> it comes out right.
\<close>

lemma illinois_beta_range:
  assumes "unat dm \<le> 3355443"
  shows "\<exists>b. illinois_beta da dm = Some b \<and> 8 \<le> unat b \<and> unat b \<le> 32"
proof -
  define d2 d3 where "d2 = dm div 10" and "d3 = 8 * dm div 10"
  have d: "unat d2 = unat dm div 10" "unat d3 = 8 * unat dm div 10"
    using assms by (simp_all add: d2_def d3_def unat_div_distrib unat_word_ariths)
  show ?thesis
  proof (cases "da \<le> d2 \<or> d3 \<le> da \<or> d3 \<le> d2")
    case True
    then show ?thesis
      by (auto simp: illinois_beta_def Let_def d2_def [symmetric] d3_def [symmetric] unat_illinois_consts)
  next
    case False
    then have lt: "unat d2 < unat da" "unat da < unat d3" "unat d2 < unat d3"
      by (simp_all add: word_le_nat_alt)
    have b3: "unat d3 \<le> 3355443" using d(2) assms by simp
    have sub: "unat (d3 - d2) = unat d3 - unat d2" "unat (da - d2) = unat da - unat d2"
      using lt by (simp_all add: unat_sub word_le_nat_alt)
    have num: "BETA_MIN_illinois * d3 - BETA_MAX_illinois * d2 + (BETA_MAX_illinois - BETA_MIN_illinois) * da
        = 8 * (d3 - d2) + 24 * (da - d2)"
    proof -
      have k: "BETA_MIN_illinois = 8" "BETA_MAX_illinois = 32" by (simp_all add: illinois_consts)
      show ?thesis unfolding k by (simp add: algebra_simps)
    qed
    have un: "unat (8 * (d3 - d2) + 24 * (da - d2)) = 8 * (unat d3 - unat d2) + 24 * (unat da - unat d2)"
    proof -
      define x y where "x = d3 - d2" and "y = da - d2"
      have "unat x \<le> 3355443" "unat y \<le> 3355443" using b3 lt sub by (simp_all add: x_def y_def)
      then have "unat (8 * x + 24 * y) = 8 * unat x + 24 * unat y" by (simp add: unat_word_ariths)
      then show ?thesis unfolding x_def y_def sub .
    qed
    define D where "D = unat d3 - unat d2"
    have D: "0 < D" "unat da - unat d2 \<le> D" using lt by (simp_all add: D_def)
    have "d3 - d2 \<noteq> 0" using lt by auto
    then have "illinois_beta da dm = Some ((8 * (d3 - d2) + 24 * (da - d2)) div (d3 - d2))"
      using False by (simp add: illinois_beta_def Let_def d2_def [symmetric] d3_def [symmetric] num)
    moreover have "unat ((8 * (d3 - d2) + 24 * (da - d2)) div (d3 - d2)) = (8 * D + 24 * (unat da - unat d2)) div D"
      by (simp only: unat_div_distrib un sub D_def)
    moreover have "8 \<le> (8 * D + 24 * (unat da - unat d2)) div D"
      using D by (simp add: less_eq_div_iff_mult_less_eq)
    moreover have "(8 * D + 24 * (unat da - unat d2)) div D \<le> 32 * D div D"
      using D by (intro div_le_mono) simp
    ultimately show ?thesis using D(1) by simp
  qed
qed

section \<open>The update and the operations\<close>

lemma rtt_reset_simps [simp]:
  "samples_ok (rtt_reset tp ca) = (unat (max_rtt ca) \<le> 3355443)"
  "factors_ok (rtt_reset tp ca) = factors_ok ca"
  by (simp_all add: rtt_reset_def samples_ok_def factors_ok_def)

lemma update_params_ok:
  assumes "samples_ok ca" and "factors_ok ca"
  shows "\<exists>ca'. update_params par tp ca = Some ca' \<and> samples_ok ca' \<and> factors_ok ca'"
proof -
  have mx: "unat (max_rtt ca) \<le> 3355443" using assms(1) by (simp add: samples_ok_def)
  consider (small) "snd_cwnd tp < int_ulong (win_thresh par)"
    | (adapt) "\<not> snd_cwnd tp < int_ulong (win_thresh par)" "cnt_rtt ca \<noteq> 0"
    | (none) "\<not> snd_cwnd tp < int_ulong (win_thresh par)" "cnt_rtt ca = 0" by blast
  then show ?thesis
  proof cases
    case small
    then show ?thesis
      using mx by (simp add: update_params_def factors_ok_def rtt_reset_def samples_ok_def unat_illinois_consts)
  next
    case adapt
    obtain da where da: "avg_delay ca = Some da" "da \<le> max_delay ca" "unat (max_delay ca) \<le> 3355443"
      using avg_delay_le_max [OF assms(1) adapt(2)] by blast
    obtain a c where a: "illinois_alpha par ca da (max_delay ca) = Some (a, c)" "38 \<le> unat a" "unat a \<le> 1280"
      "samples_ok c = samples_ok ca" using illinois_alpha_range [OF da(2,3) assms(2)] by blast
    obtain b where b: "illinois_beta da (max_delay ca) = Some b" "8 \<le> unat b" "unat b \<le> 32"
      using illinois_beta_range [OF da(3)] by blast
    have "unat (max_rtt c) \<le> 3355443" using a(4) assms(1) by (simp add: samples_ok_def)
    then show ?thesis
      using adapt da a b by (simp add: update_params_def Let_def word_gt_0 factors_ok_def rtt_reset_def samples_ok_def)
  next
    case none
    then show ?thesis using assms mx by (simp add: update_params_def factors_ok_def rtt_reset_def samples_ok_def)
  qed
qed

lemma illinois_init_ok:
  "\<exists>ca'. tcp_illinois_init env tp ca = Some (tp, ca') \<and> samples_ok ca' \<and> factors_ok ca'"
  by (simp add: tcp_illinois_init_def Let_def factors_ok_def rtt_reset_def samples_ok_def unat_illinois_consts)

lemma illinois_state_ok:
  "samples_ok ca \<Longrightarrow> factors_ok ca \<Longrightarrow>
    \<exists>ca'. tcp_illinois_state env st tp ca = Some (tp, ca') \<and> samples_ok ca' \<and> factors_ok ca'"
  by (simp add: tcp_illinois_state_def factors_ok_def rtt_reset_def samples_ok_def unat_illinois_consts)

lemma illinois_cong_avoid_ok:
  assumes "sock_ok tp" and "samples_ok ca" and "factors_ok ca"
  shows "\<exists>tp' ca'. tcp_illinois_cong_avoid par env ack rtt in_flight flag tp ca = Some (tp', ca')
    \<and> sock_ok tp' \<and> samples_ok ca' \<and> factors_ok ca'"
proof -
  obtain c where c: "(if after ack (end_seq ca) then update_params par tp ca else Some ca) = Some c"
    "samples_ok c" "factors_ok c"
    using update_params_ok [OF assms(2,3), of par tp] assms(2,3)
    by (cases "after ack (end_seq ca)") auto
  obtain t where t: "tcp_slow_start env tp = Some t" "sock_ok t"
    using sock_ok_slow_start [OF assms(1)] by blast
  define cnt where "cnt = snd_cwnd_cnt tp + il_acked c"
  define delta where "delta = drop_bit ALPHA_SHIFT (uint_ulong cnt * il_alpha c)"
  define q where "q = delta div snd_cwnd tp"
  have nz: "snd_cwnd tp \<noteq> 0" using assms(1) by (simp add: sock_ok_def)
  have "sock_ok (tp\<lparr>snd_cwnd := min (snd_cwnd tp + q) (uint_ulong (snd_cwnd_clamp tp))\<rparr>)"
  proof -
    define w where "w = min (snd_cwnd tp + q) (uint_ulong (snd_cwnd_clamp tp))"
    have "unat q \<le> unat delta" by (simp add: q_def unat_div_distrib)
    moreover have "unat delta < 2 ^ 57"
      unfolding delta_def using unat64_less [of "uint_ulong cnt * il_alpha c"]
      by (simp add: illinois_consts unat_drop_bit_div less_mult_imp_div_less)
    ultimately have "unat (snd_cwnd tp + q) = unat (snd_cwnd tp) + unat q"
      using assms(1) by (simp add: sock_ok_def small_def unat_word_ariths)
    then have "unat w = min (unat (snd_cwnd tp) + unat q) (unat (snd_cwnd_clamp tp))"
      by (simp add: w_def unat_min)
    moreover have "0 < unat (snd_cwnd tp)" "0 < unat (snd_cwnd_clamp tp)"
      using assms(1) by (simp_all add: sock_ok_def unat_gt_0)
    ultimately have "0 < unat w" "unat w \<le> unat (snd_cwnd_clamp tp)" by auto
    then show ?thesis
      using assms(1) unfolding w_def [symmetric] by (auto simp: sock_ok_def small_def)
  qed
  then show ?thesis
    using c t assms(1) nz
    by (auto simp: tcp_illinois_cong_avoid_def Let_def cnt_def [symmetric] delta_def [symmetric]
        q_def [symmetric] samples_ok_def factors_ok_def)
qed

section \<open>The decrease\<close>

text \<open>
  \<^verbatim>\<open>beta\<close> is documented as the decrease, an eighth when the delay is small and a half when it
  is large, but the threshold is \<open>beta\<close> times the window rather than the window less that: the
  smaller the delay, the deeper the cut.
\<close>

lemma illinois_ssthresh_spec:
  assumes "small (snd_cwnd tp)" and "factors_ok ca"
  shows "\<exists>s. tcp_illinois_ssthresh env tp ca = Some (s, ca)
    \<and> unat s = max (unat (snd_cwnd tp) * unat (il_beta ca) div 64) 2
    \<and> unat s \<le> max (unat (snd_cwnd tp) div 2) 2"
proof -
  define w b where "w = unat (snd_cwnd tp)" and "b = unat (il_beta ca)"
  have b: "b \<le> 32" and w: "w < 2147483648"
    using assms by (simp_all add: w_def b_def factors_ok_def small_def)
  have wb: "w * b \<le> w * 32" using b by simp
  then have "w * b < 18446744073709551616" using w by linarith
  then have "unat (drop_bit 6 (snd_cwnd tp * il_beta ca)) = w * b div 64"
    by (simp add: unat_drop_bit_div unat_word_ariths w_def b_def)
  then have "unat (max (drop_bit BETA_SHIFT (snd_cwnd tp * il_beta ca)) 2) = max (w * b div 64) 2"
    by (simp add: unat_max BETA_SHIFT_def)
  moreover have "w * b div 64 \<le> w * 32 div 64" by (rule div_le_mono [OF wb])
  ultimately show ?thesis
    by (auto simp: tcp_illinois_ssthresh_def w_def b_def le_max_iff_disj)
qed

lemma illinois_low_delay_cut:
  assumes "samples_ok ca" and "cnt_rtt ca \<noteq> 0" and "factors_ok ca"
    and "\<not> snd_cwnd tp < int_ulong (win_thresh par)" and "small (snd_cwnd tp)"
    and "avg_delay ca = Some da" and "da \<le> max_delay ca div 10"
  shows "\<exists>ca' s. update_params par tp ca = Some ca' \<and> tcp_illinois_ssthresh env tp ca' = Some (s, ca')
    \<and> unat s = max (unat (snd_cwnd tp) div 8) 2"
proof -
  obtain a c where a: "illinois_alpha par ca da (max_delay ca) = Some (a, c)" "38 \<le> unat a" "unat a \<le> 1280"
    using illinois_alpha_range [of da "max_delay ca" ca par] avg_delay_le_max [OF assms(1,2)] assms(3,6) by auto
  define c' where "c' = rtt_reset tp (c\<lparr>il_alpha := a, il_beta := BETA_MIN_illinois\<rparr>)"
  have u: "update_params par tp ca = Some c'"
    using assms(2,4,6,7) a by (simp add: update_params_def Let_def word_gt_0 illinois_beta_def c'_def)
  have f: "factors_ok c'" "unat (il_beta c') = 8"
    using a by (simp_all add: c'_def factors_ok_def rtt_reset_def unat_illinois_consts)
  obtain s where s: "tcp_illinois_ssthresh env tp c' = Some (s, c')"
    "unat s = max (unat (snd_cwnd tp) * unat (il_beta c') div 64) 2"
    using illinois_ssthresh_spec [OF assms(5) f(1)] by blast
  show ?thesis using u s f(2) by (auto simp: div_mult2_eq [of _ 8 8, simplified] intro!: exI [of _ c'])
qed

section \<open>Properties\<close>

text \<open>
  C38: the two factors Illinois computes once per round trip stay in their ranges: with
  consistent samples \<^verbatim>\<open>update_params\<close> returns (no divisor is 0), keeps \<^verbatim>\<open>alpha\<close> between 0.3 and
  10 (in 1/128) and \<^verbatim>\<open>beta\<close> between 1/8 and 1/2 (in 1/64).
\<close>

theorem illinois_factors_in_range:
  assumes "samples_ok ca" and "factors_ok ca"
  shows "\<exists>ca'. update_params par tp ca = Some ca' \<and> 38 \<le> unat (il_alpha ca') \<and> unat (il_alpha ca') \<le> 1280
    \<and> 8 \<le> unat (il_beta ca') \<and> unat (il_beta ca') \<le> 32"
  using update_params_ok [OF assms] by (auto simp: factors_ok_def)

definition example_illinois :: illinois where
  "example_illinois = \<lparr>sum_rtt = 550, cnt_rtt = 5, base_rtt = 100, max_rtt = 2000, end_seq = 0,
     il_alpha = 128, il_beta = 32, il_acked = 1, rtt_above = 1, rtt_low = 0\<rparr>"

lemma example_illinois_ok: "samples_ok example_illinois" "factors_ok example_illinois"
  by (simp_all add: example_illinois_def samples_ok_def factors_ok_def)

theorem illinois_factors_in_range_witness:
  "\<exists>ca'. update_params illinois_default (example_sock 800 5) example_illinois = Some ca' \<and> unat (il_alpha ca') \<le> 1280"
  using illinois_factors_in_range [OF example_illinois_ok, of illinois_default "example_sock 800 5"] by blast

text \<open>
  C39: when the average delay is low (at most a tenth of the largest), a loss should cost
  Illinois an eighth of the window; instead the window is cut down to an eighth of
  itself, because \<^verbatim>\<open>tcp_illinois_ssthresh\<close> returns the part to give up.
\<close>

theorem illinois_low_delay_keeps_an_eighth:
  assumes "samples_ok ca" and "cnt_rtt ca \<noteq> 0" and "factors_ok ca"
    and "\<not> snd_cwnd tp < int_ulong (win_thresh par)" and "small (snd_cwnd tp)"
    and "avg_delay ca = Some da" and "da \<le> max_delay ca div 10"
  shows "\<exists>ca' s. update_params par tp ca = Some ca' \<and> tcp_illinois_ssthresh env tp ca' = Some (s, ca')
    \<and> unat s = max (unat (snd_cwnd tp) div 8) 2"
  by (rule illinois_low_delay_cut [OF assms])

theorem illinois_low_delay_keeps_an_eighth_witness:
  "\<exists>ca' s. update_params illinois_default (example_sock 800 5) example_illinois = Some ca'
    \<and> tcp_illinois_ssthresh example_env (example_sock 800 5) ca' = Some (s, ca') \<and> unat s = 100"
proof -
  have "avg_delay example_illinois = Some 10"
    by (simp add: avg_delay_def example_illinois_def do_div_def)
  moreover have "10 \<le> max_delay example_illinois div 10"
    by (simp add: max_delay_def example_illinois_def)
  ultimately show ?thesis
    using illinois_low_delay_keeps_an_eighth [of example_illinois "example_sock 800 5" illinois_default 10 example_env]
      example_illinois_ok
    by (auto simp: example_defs small_def illinois_default_def) (auto simp: example_illinois_def)
qed

end
