(* ===== verification/Veno.thy ===== *)
theory Veno
  imports Reno
begin

text \<open>
  TCP Veno, \<^verbatim>\<open>tcp/linux/src/tcp_veno.c\<close>: Reno with an estimate \<^verbatim>\<open>diff\<close> of the packets
  queued in the network (in units of 1/2 packet), which tells random loss from congestion.
\<close>

section \<open>State\<close>

definition V_PARAM_SHIFT :: nat where "V_PARAM_SHIFT = 1"
definition veno_beta :: cint where "veno_beta = push_bit V_PARAM_SHIFT 3"

record veno =
  doing_veno_now :: u8
  cntrtt :: u16
  minrtt :: u32
  basertt :: u32
  veno_inc :: u32
  veno_diff :: u32

section \<open>Operations\<close>

definition veno_enable :: "veno \<Rightarrow> veno" where
  "veno_enable v = v\<lparr>doing_veno_now := 1, minrtt := 0x7fffffff\<rparr>"

definition veno_disable :: "veno \<Rightarrow> veno" where
  "veno_disable v = v\<lparr>doing_veno_now := 0\<rparr>"

definition tcp_veno_init :: "env \<Rightarrow> tcp_sock \<Rightarrow> veno \<Rightarrow> (tcp_sock \<times> veno) option" where
  "tcp_veno_init env sk v = Some (sk, veno_enable (v\<lparr>basertt := 0x7fffffff, veno_inc := 1\<rparr>))"

definition tcp_veno_pkts_acked :: "env \<Rightarrow> u32 \<Rightarrow> s64 \<Rightarrow> tcp_sock \<Rightarrow> veno \<Rightarrow> veno option" where
  "tcp_veno_pkts_acked env cnt last_ackt sk v =
     (if ktime_equal last_ackt net_invalid_timestamp then Some v
      else let vrtt = ktime_to_us (net_timedelta env last_ackt) + 1;
               v = (if vrtt < basertt v then v\<lparr>basertt := vrtt\<rparr> else v)
           in Some (v\<lparr>minrtt := min (minrtt v) vrtt, cntrtt := cntrtt v + 1\<rparr>))"

definition tcp_veno_state :: "env \<Rightarrow> u8 \<Rightarrow> tcp_sock \<Rightarrow> veno \<Rightarrow> (tcp_sock \<times> veno) option" where
  "tcp_veno_state env ca_state sk v =
     Some (sk, if ca_state = TCP_CA_Open then veno_enable v else veno_disable v)"

definition tcp_veno_cwnd_event ::
    "env \<Rightarrow> tcp_ca_event \<Rightarrow> tcp_sock \<Rightarrow> veno \<Rightarrow> (tcp_sock \<times> veno) option" where
  "tcp_veno_cwnd_event env event sk v =
     (if event = CA_EVENT_CWND_RESTART \<or> event = CA_EVENT_TX_START then tcp_veno_init env sk v
      else Some (sk, v))"

text \<open>The increase outside slow start: every round trip, or every other one when congested.\<close>

definition veno_avoid :: "tcp_sock \<Rightarrow> veno \<Rightarrow> tcp_sock \<times> veno" where
  "veno_avoid tp v =
     (if veno_diff v < int_ulong veno_beta then
        (if snd_cwnd tp \<le> uint_ulong (snd_cwnd_cnt tp) then (bump_cwnd tp)\<lparr>snd_cwnd_cnt := 0\<rparr>
         else tp\<lparr>snd_cwnd_cnt := snd_cwnd_cnt tp + 1\<rparr>, v)
      else if snd_cwnd tp \<le> uint_ulong (snd_cwnd_cnt tp) then
        (if veno_inc v \<noteq> 0 \<and> snd_cwnd tp < uint_ulong (snd_cwnd_clamp tp)
         then (tp\<lparr>snd_cwnd := snd_cwnd tp + 1, snd_cwnd_cnt := 0\<rparr>, v\<lparr>veno_inc := 0\<rparr>)
         else (tp\<lparr>snd_cwnd_cnt := 0\<rparr>, v\<lparr>veno_inc := 1\<rparr>))
      else (tp\<lparr>snd_cwnd_cnt := snd_cwnd_cnt tp + 1\<rparr>, v))"

definition tcp_veno_cong_avoid ::
    "env \<Rightarrow> u32 \<Rightarrow> u32 \<Rightarrow> u32 \<Rightarrow> cint \<Rightarrow> tcp_sock \<Rightarrow> veno \<Rightarrow> (tcp_sock \<times> veno) option" where
  "tcp_veno_cong_avoid env ack seq_rtt in_flight flag tp v =
     (if doing_veno_now v = 0 then
        map_option (\<lambda>tp. (tp, v)) (tcp_reno_cong_avoid env ack seq_rtt in_flight flag tp)
      else if \<not> tcp_is_cwnd_limited tp in_flight then Some (tp, v)
      else do {
        (tp, v) \<leftarrow>
          (if cntrtt v \<le> 2 then
             map_option (\<lambda>tp. (tp, v)) (tcp_reno_cong_avoid env ack seq_rtt in_flight flag tp)
           else do {
             let rtt = minrtt v;
             target_cwnd \<leftarrow> udiv (push_bit V_PARAM_SHIFT (snd_cwnd tp * basertt v)) rtt;
             let v = v\<lparr>veno_diff := push_bit V_PARAM_SHIFT (snd_cwnd tp) - target_cwnd\<rparr>;
             (tp, v) \<leftarrow> (if snd_cwnd tp \<le> snd_ssthresh tp then do {
                            tp \<leftarrow> tcp_slow_start env tp;
                            Some (tp, v)
                          } else Some (veno_avoid tp v));
             Some (if snd_cwnd tp < 2 then tp\<lparr>snd_cwnd := 2\<rparr>
                   else if uint_ulong (snd_cwnd_clamp tp) < snd_cwnd tp
                   then tp\<lparr>snd_cwnd := uint_ulong (snd_cwnd_clamp tp)\<rparr> else tp, v)
           });
        Some (tp, v\<lparr>minrtt := 0x7fffffff\<rparr>)
      })"

definition tcp_veno_ssthresh :: "env \<Rightarrow> tcp_sock \<Rightarrow> veno \<Rightarrow> (u32 \<times> veno) option" where
  "tcp_veno_ssthresh env tp v =
     Some (if veno_diff v < int_ulong veno_beta then max (snd_cwnd tp * 4 div 5) 2
           else max (drop_bit 1 (snd_cwnd tp)) 2, v)"

definition tcp_veno :: "veno ca_ops" where
  "tcp_veno = \<lparr>ca_flags = TCP_CONG_RTT_STAMP, ca_name = ''veno'', ca_init = Some tcp_veno_init,
     ca_ssthresh = tcp_veno_ssthresh, ca_min_cwnd = None, ca_cong_avoid = tcp_veno_cong_avoid,
     ca_rtt_sample = None, ca_set_state = Some tcp_veno_state,
     ca_cwnd_event = Some tcp_veno_cwnd_event, ca_undo_cwnd = None,
     ca_pkts_acked = Some (keep_sock tcp_veno_pkts_acked),
     ca_get_info = None\<rparr>"

section \<open>The round trip times\<close>

text \<open>
  The least round trip time of the connection is at most that of the last round trip, and
  neither is zero, so the estimate is defined and does not underflow.
\<close>

definition veno_ok :: "bool \<Rightarrow> veno \<Rightarrow> bool" where
  "veno_ok b v \<longleftrightarrow> (b \<longrightarrow> 0 < unat (basertt v) \<and> unat (basertt v) \<le> unat (minrtt v)
     \<and> unat (minrtt v) \<le> 0x7fffffff)"

lemma veno_acked_ok:
  assumes "veno_ok True v" and "past env last_ackt"
  shows "\<exists>v'. tcp_veno_pkts_acked env n last_ackt tp v = Some v' \<and> veno_ok True v'"
proof -
  define r where "r = ktime_to_us (net_timedelta env last_ackt) + 1"
  have "0 < unat r" using ktime_to_us_past [OF assms(2)] by (simp add: r_def)
  then show ?thesis
    using assms(1) by (auto simp: tcp_veno_pkts_acked_def Let_def r_def [symmetric] veno_ok_def
        word_less_nat_alt unat_min)
qed

text \<open>The estimate: twice the packets of the window that the least round trip time does not account for.\<close>

lemma veno_target:
  assumes "veno_ok True v" and "small (snd_cwnd tp)"
  defines "t \<equiv> push_bit V_PARAM_SHIFT (snd_cwnd tp * basertt v) div minrtt v"
  shows "unat t = 2 * unat (snd_cwnd tp) * unat (basertt v) div unat (minrtt v)"
    and "unat t \<le> 2 * unat (snd_cwnd tp)"
    and "unat (push_bit V_PARAM_SHIFT (snd_cwnd tp) - t) = 2 * unat (snd_cwnd tp) - unat t"
    and "minrtt v \<noteq> 0"
proof -
  define w b m where "w = unat (snd_cwnd tp)" and "b = unat (basertt v)" and "m = unat (minrtt v)"
  have h: "w < 2147483648" "0 < b" "b \<le> m" "m \<le> 2147483647"
    using assms(1,2) by (simp_all add: veno_ok_def small_def w_def b_def m_def)
  have "w * b \<le> 2147483647 * 2147483647" using h by (intro mult_le_mono) auto
  then have p: "unat (push_bit V_PARAM_SHIFT (snd_cwnd tp * basertt v)) = 2 * w * b"
    by (simp add: V_PARAM_SHIFT_def unat_word_ariths w_def b_def)
  have p2: "unat (push_bit V_PARAM_SHIFT (snd_cwnd tp)) = 2 * w"
    using h(1) by (simp add: V_PARAM_SHIFT_def unat_word_ariths w_def)
  show t: "unat t = 2 * unat (snd_cwnd tp) * unat (basertt v) div unat (minrtt v)"
    by (simp only: t_def unat_div_distrib p) (simp add: w_def b_def)
  have "2 * w * b div m \<le> 2 * w * m div m" using h by (intro div_le_mono) auto
  then have "2 * w * b div m \<le> 2 * w" using h by simp
  then show le: "unat t \<le> 2 * unat (snd_cwnd tp)" unfolding t by (simp add: w_def b_def m_def)
  then show "unat (push_bit V_PARAM_SHIFT (snd_cwnd tp) - t) = 2 * unat (snd_cwnd tp) - unat t"
    using p2 by (subst unat_sub) (simp_all add: word_le_nat_alt w_def)
  show "minrtt v \<noteq> 0" using h by (auto simp: m_def)
qed

section \<open>The contract\<close>

lemma veno_avoid_window:
  "window_step tp (fst (veno_avoid tp v)) \<and> basertt (snd (veno_avoid tp v)) = basertt v
   \<and> minrtt (snd (veno_avoid tp v)) = minrtt v"
proof -
  have "window_step tp (tp\<lparr>snd_cwnd := snd_cwnd tp + 1, snd_cwnd_cnt := 0\<rparr>)"
    if "snd_cwnd tp < uint_ulong (snd_cwnd_clamp tp)"
    using window_step_bump [of tp] that by (simp add: bump_cwnd_def window_step_def same_but_growth_def)
  then show ?thesis by (auto simp: veno_avoid_def)
qed

lemma veno_wipe: "veno_ok True v \<Longrightarrow> veno_ok True (v\<lparr>minrtt := 0x7fffffff\<rparr>)"
  by (simp add: veno_ok_def)

lemma tcp_veno_cong_avoid_ok:
  assumes "sock_ok tp" and "veno_ok True v"
  shows "\<exists>tp' v'. tcp_veno_cong_avoid env ack rtt in_flight flag tp v = Some (tp', v')
    \<and> sock_ok tp' \<and> veno_ok True v'"
proof -
  obtain r where r: "tcp_reno_cong_avoid env ack rtt in_flight flag tp = Some r" "sock_ok r"
    using sock_ok_reno_cong_avoid [OF assms(1)] by blast
  obtain t where t: "tcp_slow_start env tp = Some t" "sock_ok t"
    using sock_ok_slow_start [OF assms(1)] by blast
  have sm: "small (snd_cwnd tp)" using assms(1) by (simp add: sock_ok_def)
  define d where "d = push_bit V_PARAM_SHIFT (snd_cwnd tp)
    - push_bit V_PARAM_SHIFT (snd_cwnd tp * basertt v) div minrtt v"
  obtain a v' where a: "veno_avoid tp (v\<lparr>veno_diff := d\<rparr>) = (a, v')" by fastforce
  have av: "sock_ok a" "basertt v' = basertt v"
    using veno_avoid_window [of tp "v\<lparr>veno_diff := d\<rparr>"] window_step_sock_ok [OF _ assms(1)] by (simp_all add: a)
  have cl: "sock_ok (if snd_cwnd x < 2 then x\<lparr>snd_cwnd := 2\<rparr>
      else if uint_ulong (snd_cwnd_clamp x) < snd_cwnd x
      then x\<lparr>snd_cwnd := uint_ulong (snd_cwnd_clamp x)\<rparr> else x)" if "sock_ok x" for x
    using that by (auto simp: sock_ok_def small_def)
  have w: "veno_ok True (u\<lparr>minrtt := 0x7fffffff\<rparr>)" if "basertt u = basertt v" for u
    using assms(2) that by (simp add: veno_ok_def)
  show ?thesis
    using r t a av cl [OF t(2)] cl [OF av(1)] w assms(1,2) veno_target(4) [OF assms(2) sm]
    by (simp add: tcp_veno_cong_avoid_def d_def [symmetric] Let_def)
qed

lemma tcp_veno_ssthresh_spec:
  assumes "small (snd_cwnd tp)"
  shows "\<exists>s. tcp_veno_ssthresh env tp v = Some (s, v) \<and>
    unat s = (if unat (veno_diff v) < 6 then max (unat (snd_cwnd tp) * 4 div 5) 2
              else max (unat (snd_cwnd tp) div 2) 2)"
proof -
  have "unat (int_ulong veno_beta) = 6" by (simp add: veno_beta_def V_PARAM_SHIFT_def)
  moreover have "unat (snd_cwnd tp * 4 div 5) = unat (snd_cwnd tp) * 4 div 5"
    using assms by (simp add: small_def unat_div_distrib unat_word_ariths)
  ultimately show ?thesis
    by (simp add: tcp_veno_ssthresh_def word_less_nat_alt unat_max unat_drop_bit_div)
qed

interpretation veno: cong_module tcp_veno sock_ok veno_ok
proof unfold_locales
  fix tp :: tcp_sock and p env ack rtt in_flight flag
  assume "clock_ok env" "sock_ok tp" "veno_ok True p"
  then show "\<exists>tp' p'. ca_cong_avoid tcp_veno env ack rtt in_flight flag tp p = Some (tp', p')
      \<and> sock_ok tp' \<and> veno_ok True p'"
    using tcp_veno_cong_avoid_ok by (simp add: tcp_veno_def)
next
  fix tp :: tcp_sock and p env and b :: bool
  assume "clock_ok env" "sock_ok tp" "veno_ok b p"
  then show "\<exists>s p'. ca_ssthresh tcp_veno env tp p = Some (s, p') \<and> 2 \<le> unat s \<and> small s \<and> veno_ok b p'"
    using tcp_veno_ssthresh_spec [of tp env p] by (auto simp: tcp_veno_def sock_ok_def small_def)
next
  fix tp :: tcp_sock and p env n last_ackt
  assume "clock_ok env" "sock_ok tp" "veno_ok True p" "small n" "past env last_ackt"
  then show "\<exists>tp' p'. run_pkts_acked tcp_veno env n last_ackt tp p = Some (tp', p')
      \<and> sock_ok tp' \<and> veno_ok True p'"
    using veno_acked_ok by (simp add: tcp_veno_def run_defs)
next
  fix tp :: tcp_sock and p :: veno and b :: bool
  assume "sock_ok tp" "veno_ok b p" "2 \<le> unat (snd_ssthresh tp)"
  then show "\<exists>w. run_min_cwnd tcp_veno tp p = Some w \<and> w \<noteq> 0 \<and> small w"
    by (auto simp: tcp_veno_def run_defs sock_ok_def)
qed (auto simp: tcp_veno_def run_defs tcp_veno_init_def tcp_veno_state_def tcp_veno_cwnd_event_def
    veno_enable_def veno_disable_def veno_ok_def)

section \<open>Properties\<close>

text \<open>
  On a loss Veno keeps four fifths of the window when fewer than three packets were queued
  (a random loss), and half of it otherwise (congestion).
\<close>

theorem veno_loss:
  assumes "small (snd_cwnd tp)"
  shows "\<exists>s. tcp_veno_ssthresh env tp v = Some (s, v) \<and>
    unat s = (if unat (veno_diff v) < 6 then max (unat (snd_cwnd tp) * 4 div 5) 2
              else max (unat (snd_cwnd tp) div 2) 2)"
  by (rule tcp_veno_ssthresh_spec [OF assms])

definition example_veno :: veno where
  "example_veno = \<lparr>doing_veno_now = 1, cntrtt = 4, minrtt = 120, basertt = 100, veno_inc = 1,
     veno_diff = 3\<rparr>"

theorem veno_loss_witness:
  "\<exists>s. tcp_veno_ssthresh example_env (example_sock 100 5) example_veno = Some (s, example_veno) \<and> unat s = 80"
  using veno_loss [of "example_sock 100 5" example_env example_veno] by (auto simp: example_defs example_veno_def small_def)

end
