(* ===== verification/Vegas.thy ===== *)
theory Vegas
  imports Reno
begin

text \<open>
  TCP Vegas, \<^verbatim>\<open>tcp/linux/src/tcp_vegas.c\<close> and \<^verbatim>\<open>tcp_vegas.h\<close>: once per round trip the window
  is compared with the one that the least round trip time would need.  The fields and
  parameters carry the prefix \<open>vg_\<close> (\<^verbatim>\<open>tcp_yeah.c\<close> embeds the structure in its own).
\<close>

section \<open>State\<close>

definition vg_shift :: nat where "vg_shift = 1"

record vegas_params =
  vg_alpha :: cint
  vg_beta :: cint
  vg_gamma :: cint

definition vegas_default :: vegas_params where
  "vegas_default = \<lparr>vg_alpha = push_bit vg_shift 2, vg_beta = push_bit vg_shift 4,
     vg_gamma = push_bit vg_shift 1\<rparr>"

record vegas =
  beg_snd_nxt :: u32
  beg_snd_una :: u32
  beg_snd_cwnd :: u32
  doing_vegas_now :: u8
  cntRTT :: u16
  vg_minRTT :: u32
  baseRTT :: u32

section \<open>Operations\<close>

definition vegas_enable :: "tcp_sock \<Rightarrow> vegas \<Rightarrow> vegas" where
  "vegas_enable tp v = v\<lparr>doing_vegas_now := 1, beg_snd_nxt := snd_nxt tp, cntRTT := 0,
     vg_minRTT := 0x7fffffff\<rparr>"

definition vegas_disable :: "vegas \<Rightarrow> vegas" where
  "vegas_disable v = v\<lparr>doing_vegas_now := 0\<rparr>"

definition tcp_vegas_init :: "env \<Rightarrow> tcp_sock \<Rightarrow> vegas \<Rightarrow> (tcp_sock \<times> vegas) option" where
  "tcp_vegas_init env tp v = Some (tp, vegas_enable tp (v\<lparr>baseRTT := 0x7fffffff\<rparr>))"

definition tcp_vegas_pkts_acked :: "env \<Rightarrow> u32 \<Rightarrow> s64 \<Rightarrow> tcp_sock \<Rightarrow> vegas \<Rightarrow> vegas option" where
  "tcp_vegas_pkts_acked env cnt last_ackt tp v =
     (if ktime_equal last_ackt net_invalid_timestamp then Some v
      else let vrtt = ktime_to_us (net_timedelta env last_ackt) + 1;
               v = (if vrtt < baseRTT v then v\<lparr>baseRTT := vrtt\<rparr> else v)
           in Some (v\<lparr>vg_minRTT := min (vg_minRTT v) vrtt, cntRTT := cntRTT v + 1\<rparr>))"

definition tcp_vegas_state :: "env \<Rightarrow> u8 \<Rightarrow> tcp_sock \<Rightarrow> vegas \<Rightarrow> (tcp_sock \<times> vegas) option" where
  "tcp_vegas_state env ca_state tp v =
     Some (tp, if ca_state = TCP_CA_Open then vegas_enable tp v else vegas_disable v)"

definition tcp_vegas_cwnd_event ::
    "env \<Rightarrow> tcp_ca_event \<Rightarrow> tcp_sock \<Rightarrow> vegas \<Rightarrow> (tcp_sock \<times> vegas) option" where
  "tcp_vegas_cwnd_event env event tp v =
     (if event = CA_EVENT_CWND_RESTART \<or> event = CA_EVENT_TX_START then tcp_vegas_init env tp v
      else Some (tp, v))"

text \<open>The decision of one round trip, from the window that was sent in it.\<close>

definition vegas_adjust ::
    "vegas_params \<Rightarrow> env \<Rightarrow> u32 \<Rightarrow> u32 \<Rightarrow> u32 \<Rightarrow> tcp_sock \<Rightarrow> tcp_sock option" where
  "vegas_adjust par env diff target_cwnd old_snd_cwnd tp =
     (if snd_cwnd tp \<le> snd_ssthresh tp then
        let tp = (if int_ulong (vg_gamma par) < diff
                  then tp\<lparr>snd_ssthresh := 2, snd_cwnd := min (snd_cwnd tp) (drop_bit vg_shift target_cwnd + 1)\<rparr>
                  else tp)
        in tcp_slow_start env tp
      else
        let next_snd_cwnd = (if int_ulong (vg_beta par) < diff then old_snd_cwnd - 1
                             else if diff < int_ulong (vg_alpha par) then old_snd_cwnd + 1
                             else old_snd_cwnd)
        in Some (if snd_cwnd tp < next_snd_cwnd then tp\<lparr>snd_cwnd := snd_cwnd tp + 1\<rparr>
                 else if next_snd_cwnd < snd_cwnd tp then tp\<lparr>snd_cwnd := snd_cwnd tp - 1\<rparr> else tp))"

definition vegas_bound :: "tcp_sock \<Rightarrow> tcp_sock" where
  "vegas_bound tp =
     (if snd_cwnd tp < 2 then tp\<lparr>snd_cwnd := 2\<rparr>
      else if uint_ulong (snd_cwnd_clamp tp) < snd_cwnd tp
      then tp\<lparr>snd_cwnd := uint_ulong (snd_cwnd_clamp tp)\<rparr> else tp)"

definition tcp_vegas_cong_avoid ::
    "vegas_params \<Rightarrow> env \<Rightarrow> u32 \<Rightarrow> u32 \<Rightarrow> u32 \<Rightarrow> cint \<Rightarrow> tcp_sock \<Rightarrow> vegas \<Rightarrow> (tcp_sock \<times> vegas) option" where
  "tcp_vegas_cong_avoid par env ack seq_rtt in_flight flag tp v =
     (if doing_vegas_now v = 0 then
        map_option (\<lambda>tp. (tp, v)) (tcp_reno_cong_avoid env ack seq_rtt in_flight flag tp)
      else if after ack (beg_snd_nxt v) then do {
        old_wnd \<leftarrow> udiv (beg_snd_nxt v - beg_snd_una v) (mss_cache tp);
        let old_snd_cwnd = beg_snd_cwnd v;
        let v = v\<lparr>beg_snd_una := beg_snd_nxt v\<rparr>;
        let v = v\<lparr>beg_snd_nxt := snd_nxt tp\<rparr>;
        let v = v\<lparr>beg_snd_cwnd := snd_cwnd tp\<rparr>;
        tp \<leftarrow> (if cntRTT v \<le> 2 then tcp_reno_cong_avoid env ack seq_rtt in_flight flag tp
               else do {
                 let rtt = vg_minRTT v;
                 target_cwnd \<leftarrow> udiv (push_bit vg_shift (old_wnd * baseRTT v)) rtt;
                 let diff = push_bit vg_shift old_wnd - target_cwnd;
                 tp \<leftarrow> vegas_adjust par env diff target_cwnd old_snd_cwnd tp;
                 Some (vegas_bound tp)
               });
        Some (tp, v\<lparr>cntRTT := 0, vg_minRTT := 0x7fffffff\<rparr>)
      }
      else if snd_cwnd tp \<le> snd_ssthresh tp then map_option (\<lambda>tp. (tp, v)) (tcp_slow_start env tp)
      else Some (tp, v))"

text \<open>The information for netlink; nothing of its body is compiled.\<close>

definition tcp_vegas_get_info :: "u32 \<Rightarrow> tcp_sock \<Rightarrow> vegas \<Rightarrow> unit option" where
  "tcp_vegas_get_info ext sk ca = Some ()"

definition tcp_vegas :: "vegas_params \<Rightarrow> vegas ca_ops" where
  "tcp_vegas par = \<lparr>ca_flags = TCP_CONG_RTT_STAMP, ca_name = ''vegas'', ca_init = Some tcp_vegas_init,
     ca_ssthresh = (\<lambda>env tp p. Some (tcp_reno_ssthresh tp, p)),
     ca_min_cwnd = Some (\<lambda>tp p. Some (tcp_reno_min_cwnd tp)),
     ca_cong_avoid = tcp_vegas_cong_avoid par, ca_rtt_sample = None,
     ca_set_state = Some tcp_vegas_state, ca_cwnd_event = Some tcp_vegas_cwnd_event,
     ca_undo_cwnd = None, ca_pkts_acked = Some (keep_sock tcp_vegas_pkts_acked),
     ca_get_info = Some tcp_vegas_get_info\<rparr>"

section \<open>The round trip times\<close>

definition vegas_ok :: "bool \<Rightarrow> vegas \<Rightarrow> bool" where
  "vegas_ok b v \<longleftrightarrow> (b \<longrightarrow> 0 < unat (baseRTT v) \<and> unat (baseRTT v) \<le> unat (vg_minRTT v)
     \<and> unat (vg_minRTT v) \<le> 0x7fffffff)"

lemma vegas_acked_ok:
  assumes "vegas_ok True v" and "past env last_ackt"
  shows "\<exists>v'. tcp_vegas_pkts_acked env n last_ackt tp v = Some v' \<and> vegas_ok True v'"
proof -
  define r where "r = ktime_to_us (net_timedelta env last_ackt) + 1"
  have "0 < unat r" using ktime_to_us_past [OF assms(2)] by (simp add: r_def)
  then show ?thesis
    using assms(1) by (auto simp: tcp_vegas_pkts_acked_def Let_def r_def [symmetric] vegas_ok_def
        word_less_nat_alt unat_min)
qed

lemma vegas_target:
  assumes "vegas_ok True v" and "small old"
  defines "t \<equiv> push_bit vg_shift (old * baseRTT v) div vg_minRTT v"
  shows "unat t = 2 * unat old * unat (baseRTT v) div unat (vg_minRTT v)"
    and "unat t \<le> 2 * unat old"
    and "unat (push_bit vg_shift old - t) = 2 * unat old - unat t"
proof -
  define w b m where "w = unat old" and "b = unat (baseRTT v)" and "m = unat (vg_minRTT v)"
  have h: "w < 2147483648" "0 < b" "b \<le> m" "m \<le> 2147483647"
    using assms(1,2) by (simp_all add: vegas_ok_def small_def w_def b_def m_def)
  have "w * b \<le> 2147483647 * 2147483647" using h by (intro mult_le_mono) auto
  then have p: "unat (push_bit vg_shift (old * baseRTT v)) = 2 * w * b"
    by (simp add: vg_shift_def unat_word_ariths w_def b_def)
  have p2: "unat (push_bit vg_shift old) = 2 * w"
    using h(1) by (simp add: vg_shift_def unat_word_ariths w_def)
  show t: "unat t = 2 * unat old * unat (baseRTT v) div unat (vg_minRTT v)"
    by (simp only: t_def unat_div_distrib p) (simp add: w_def b_def)
  have "2 * w * b div m \<le> 2 * w * m div m" using h by (intro div_le_mono) auto
  then have "2 * w * b div m \<le> 2 * w" using h by simp
  then show le: "unat t \<le> 2 * unat old" unfolding t by (simp add: w_def b_def m_def)
  then show "unat (push_bit vg_shift old - t) = 2 * unat old - unat t"
    using p2 by (subst unat_sub) (simp_all add: word_le_nat_alt w_def)
qed

section \<open>The contract\<close>

lemma vegas_bound_ok:
  assumes "sock_ok tp" and "small w" and "w \<noteq> 0"
  shows "sock_ok (vegas_bound (tp\<lparr>snd_cwnd := w\<rparr>))"
  using assms by (auto simp: vegas_bound_def sock_ok_def small_def)

lemma vegas_adjust_ok:
  assumes "sock_ok tp"
  shows "\<exists>t. vegas_adjust par env diff target old tp = Some t \<and> sock_ok (vegas_bound t)"
proof (cases "snd_cwnd tp \<le> snd_ssthresh tp")
  case True
  define m where "m = min (snd_cwnd tp) (drop_bit vg_shift target + 1)"
  have "unat (drop_bit vg_shift target) < 2 ^ 63"
    using unat64_less [of target] by (simp add: vg_shift_def unat_drop_bit_div less_mult_imp_div_less)
  then have "unat (drop_bit vg_shift target + 1) = unat (drop_bit vg_shift target) + 1"
    by (simp add: unat_word_ariths)
  then have "unat m = min (unat (snd_cwnd tp)) (unat (drop_bit vg_shift target) + 1)"
    by (simp add: m_def unat_min)
  then have "0 < unat m" "unat m \<le> unat (snd_cwnd tp)"
    using assms by (simp_all add: sock_ok_def unat_gt_0)
  then have "sock_ok (tp\<lparr>snd_ssthresh := 2, snd_cwnd := m\<rparr>)"
    using assms by (auto simp: sock_ok_def small_def)
  moreover have "sock_ok (vegas_bound t)" if "sock_ok t" for t
    using vegas_bound_ok [OF that, of "snd_cwnd t"] that by (simp add: sock_ok_def)
  ultimately show ?thesis
    using True assms sock_ok_slow_start by (auto simp: vegas_adjust_def m_def [symmetric] Let_def) blast+
next
  case False
  have w: "unat (snd_cwnd tp) < 2147483648" "snd_cwnd tp \<noteq> 0"
    using assms by (simp_all add: sock_ok_def small_def)
  then have u: "unat (snd_cwnd tp + 1) = unat (snd_cwnd tp) + 1" "unat (snd_cwnd tp - 1) = unat (snd_cwnd tp) - 1"
    by (simp_all add: unat_word_ariths unat_minus_one)
  have b: "sock_ok (vegas_bound (tp\<lparr>snd_cwnd := x\<rparr>))" if "unat x \<le> 2147483648" for x
    using assms that by (auto simp: vegas_bound_def sock_ok_def small_def word_less_nat_alt)
  have "sock_ok (vegas_bound tp)" using b [of "snd_cwnd tp"] w by simp
  then show ?thesis
    using False b [of "snd_cwnd tp + 1"] b [of "snd_cwnd tp - 1"] u w
    by (simp add: vegas_adjust_def Let_def)
qed

lemma tcp_vegas_cong_avoid_ok:
  assumes "sock_ok tp" and "vegas_ok True v"
  shows "\<exists>tp' v'. tcp_vegas_cong_avoid par env ack rtt in_flight flag tp v = Some (tp', v')
    \<and> sock_ok tp' \<and> vegas_ok True v'"
proof -
  obtain r where r: "tcp_reno_cong_avoid env ack rtt in_flight flag tp = Some r" "sock_ok r"
    using sock_ok_reno_cong_avoid [OF assms(1)] by blast
  obtain t where t: "tcp_slow_start env tp = Some t" "sock_ok t"
    using sock_ok_slow_start [OF assms(1)] by blast
  define old where "old = (beg_snd_nxt v - beg_snd_una v) div mss_cache tp"
  define target where "target = push_bit vg_shift (old * baseRTT v) div vg_minRTT v"
  obtain a where a: "vegas_adjust par env (push_bit vg_shift old - target) target (beg_snd_cwnd v) tp = Some a"
    "sock_ok (vegas_bound a)" using vegas_adjust_ok [OF assms(1)] by blast
  have nz: "mss_cache tp \<noteq> 0" "vg_minRTT v \<noteq> 0"
    using assms by (auto simp: sock_ok_def vegas_ok_def)
  have wipe: "vegas_ok True (u\<lparr>cntRTT := 0, vg_minRTT := 0x7fffffff\<rparr>)" if "baseRTT u = baseRTT v" for u
    using assms(2) that by (simp add: vegas_ok_def)
  show ?thesis
    using r t a nz wipe assms
    by (simp add: tcp_vegas_cong_avoid_def old_def [symmetric] target_def [symmetric] Let_def)
qed

lemma tcp_vegas_mss_trap:
  assumes "doing_vegas_now v \<noteq> 0" and "beg_snd_nxt v < ack" and "mss_cache tp = 0"
  shows "tcp_vegas_cong_avoid par env ack rtt in_flight flag tp v = None"
  using assms by (simp add: tcp_vegas_cong_avoid_def after_def)

interpretation vegas: cong_module "tcp_vegas par" sock_ok vegas_ok for par
proof unfold_locales
  fix tp :: tcp_sock and p env ack rtt in_flight flag
  assume "clock_ok env" "sock_ok tp" "vegas_ok True p"
  then show "\<exists>tp' p'. ca_cong_avoid (tcp_vegas par) env ack rtt in_flight flag tp p = Some (tp', p')
      \<and> sock_ok tp' \<and> vegas_ok True p'"
    using tcp_vegas_cong_avoid_ok by (simp add: tcp_vegas_def)
next
  fix tp :: tcp_sock and p env n last_ackt
  assume "clock_ok env" "sock_ok tp" "vegas_ok True p" "small n" "past env last_ackt"
  then show "\<exists>tp' p'. run_pkts_acked (tcp_vegas par) env n last_ackt tp p = Some (tp', p')
      \<and> sock_ok tp' \<and> vegas_ok True p'"
    using vegas_acked_ok by (simp add: tcp_vegas_def run_defs)
qed (auto simp: tcp_vegas_def run_defs tcp_vegas_init_def tcp_vegas_state_def tcp_vegas_cwnd_event_def
    vegas_enable_def vegas_disable_def vegas_ok_def reno_ssthresh_law reno_min_cwnd_law)

section \<open>The decision\<close>

text \<open>
  In congestion avoidance the window moves by at most one packet per round trip, towards the
  old window plus one when fewer than two packets are queued and minus one when more than four
  are (with the default parameters, in half packets).
\<close>

lemma vegas_adjust_avoidance:
  assumes "snd_ssthresh tp < snd_cwnd tp" and "sock_ok tp" and "old_snd_cwnd = snd_cwnd tp"
  shows "vegas_adjust vegas_default env diff target old_snd_cwnd tp = Some (tp\<lparr>snd_cwnd :=
    if 8 < unat diff then snd_cwnd tp - 1 else if unat diff < 4 then snd_cwnd tp + 1 else snd_cwnd tp\<rparr>)"
proof -
  have w: "unat (snd_cwnd tp) < 2147483648" "snd_cwnd tp \<noteq> 0" "0 < unat (snd_cwnd tp)"
    using assms(2) by (simp_all add: sock_ok_def small_def unat_gt_0)
  then have u: "unat (snd_cwnd tp + 1) = unat (snd_cwnd tp) + 1" "unat (snd_cwnd tp - 1) = unat (snd_cwnd tp) - 1"
    by (simp_all add: unat_word_ariths unat_minus_one)
  have "unat (int_ulong (vg_beta vegas_default)) = 8" "unat (int_ulong (vg_alpha vegas_default)) = 4"
    by (simp_all add: vegas_default_def vg_shift_def)
  then show ?thesis
    using assms(1,3) u w
    by (auto simp: vegas_adjust_def Let_def word_less_nat_alt word_le_nat_alt)
qed

section \<open>Properties\<close>

text \<open>
  Once per round trip Vegas compares the window with the one the least round trip time
  needs: in congestion avoidance the window opens by one packet when fewer than two packets are
  queued, closes by one when more than four are, and stays otherwise.
\<close>

theorem vegas_decision:
  assumes "snd_ssthresh tp < snd_cwnd tp" and "sock_ok tp" and "old_snd_cwnd = snd_cwnd tp"
  shows "vegas_adjust vegas_default env diff target old_snd_cwnd tp = Some (tp\<lparr>snd_cwnd :=
    if 8 < unat diff then snd_cwnd tp - 1 else if unat diff < 4 then snd_cwnd tp + 1 else snd_cwnd tp\<rparr>)"
  by (rule vegas_adjust_avoidance [OF assms])

theorem vegas_decision_witness:
  "vegas_adjust vegas_default example_env 9 30 20 (example_sock 20 5) = Some (example_sock 19 5)"
proof -
  have "sock_ok (example_sock 20 5)" by (simp add: small_def)
  then show ?thesis using vegas_decision [of "example_sock 20 5" 20 example_env 9 30] by (simp add: example_sock_def)
qed

text \<open>
  A whole call of \<^verbatim>\<open>tcp_vegas_cong_avoid\<close> on a usable socket returns, whatever the
  acknowledgment and the saved state of the round trip, and leaves the socket usable and the
  round trip times positive and ordered.
\<close>

theorem vegas_cong_avoid_total:
  assumes "sock_ok tp" and "vegas_ok True v"
  shows "\<exists>tp' v'. tcp_vegas_cong_avoid par env ack rtt in_flight flag tp v = Some (tp', v')
    \<and> sock_ok tp' \<and> vegas_ok True v'"
  by (rule tcp_vegas_cong_avoid_ok [OF assms])

theorem vegas_cong_avoid_total_witness:
  "\<exists>tp' v'. tcp_vegas_cong_avoid vegas_default example_env 60000 0 20 0 (example_sock 20 5)
     \<lparr>beg_snd_nxt = 40000, beg_snd_una = 20000, beg_snd_cwnd = 20, doing_vegas_now = 1, cntRTT = 5,
      vg_minRTT = 120, baseRTT = 100\<rparr> = Some (tp', v') \<and> sock_ok tp'"
  using vegas_cong_avoid_total [of "example_sock 20 5" "\<lparr>beg_snd_nxt = 40000, beg_snd_una = 20000,
      beg_snd_cwnd = 20, doing_vegas_now = 1, cntRTT = 5, vg_minRTT = 120, baseRTT = 100\<rparr>"
      vegas_default example_env 60000 0 20 0]
  by (auto simp: small_def vegas_ok_def)

end
