(* ===== verification/Lp.thy ===== *)
theory Lp
  imports Reno
begin

text \<open>
  TCP-LP, \<^verbatim>\<open>tcp/linux/src/tcp_lp.c\<close>: a low priority variant of Reno that backs off as soon as
  the one-way delay, estimated from the time stamps of the two ends, passes a threshold between
  the least and the largest delay seen.  \<^verbatim>\<open>s64\<close> values are 64-bit words read signed.
\<close>

section \<open>State\<close>

definition LP_RESOL :: u32 where "LP_RESOL = 1000"
definition LP_VALID_RHZ :: u32 where "LP_VALID_RHZ = push_bit 0 1"
definition LP_VALID_OWD :: u32 where "LP_VALID_OWD = push_bit 1 1"
definition LP_WITHIN_THR :: u32 where "LP_WITHIN_THR = push_bit 3 1"
definition LP_WITHIN_INF :: u32 where "LP_WITHIN_INF = push_bit 4 1"

lemmas lp_flags = LP_VALID_RHZ_def LP_VALID_OWD_def LP_WITHIN_THR_def LP_WITHIN_INF_def

record lp =
  lp_flag :: u32
  sowd :: u32
  owd_min :: u32
  owd_max :: u32
  owd_max_rsv :: u32
  remote_hz :: u32
  remote_ref_time :: u32
  local_ref_time :: u32
  last_drop :: u32
  inference :: u32

text \<open>\<^verbatim>\<open>flag |= m\<close> or \<^verbatim>\<open>flag &= ~m\<close>, by a condition.\<close>

definition lp_mark :: "u32 \<Rightarrow> bool \<Rightarrow> lp \<Rightarrow> lp" where
  "lp_mark m c lp = lp\<lparr>lp_flag := if c then lp_flag lp OR m else lp_flag lp AND NOT m\<rparr>"

definition lp_has :: "lp \<Rightarrow> u32 \<Rightarrow> bool" where
  "lp_has lp m \<longleftrightarrow> lp_flag lp AND m \<noteq> 0"

section \<open>Operations\<close>

definition tcp_lp_init :: "env \<Rightarrow> tcp_sock \<Rightarrow> lp \<Rightarrow> (tcp_sock \<times> lp) option" where
  "tcp_lp_init env sk lp =
     Some (sk, \<lparr>lp_flag = 0, sowd = 0, owd_min = 0xffffffff, owd_max = 0, owd_max_rsv = 0,
       remote_hz = 0, remote_ref_time = 0, local_ref_time = 0, last_drop = 0, inference = 0\<rparr>)"

definition tcp_lp_cong_avoid ::
    "env \<Rightarrow> u32 \<Rightarrow> u32 \<Rightarrow> u32 \<Rightarrow> cint \<Rightarrow> tcp_sock \<Rightarrow> lp \<Rightarrow> (tcp_sock \<times> lp) option" where
  "tcp_lp_cong_avoid env ack rtt in_flight flag sk lp =
     (if lp_flag lp AND LP_WITHIN_INF = 0 then
        map_option (\<lambda>sk. (sk, lp)) (tcp_reno_cong_avoid env ack rtt in_flight flag sk)
      else Some (sk, lp))"

text \<open>The new \<^verbatim>\<open>rhz\<close> (64 times the estimate of the remote clock rate), up to the label \<^verbatim>\<open>out\<close>.\<close>

definition lp_new_rhz :: "tcp_sock \<Rightarrow> lp \<Rightarrow> s64 option" where
  "lp_new_rhz tp lp =
     (let rhz = push_bit 6 (remote_hz lp) in
      if remote_ref_time lp = 0 \<or> local_ref_time lp = 0 then Some rhz
      else if rcv_tsval (rx_opt tp) = remote_ref_time lp \<or> rcv_tsecr (rx_opt tp) = local_ref_time lp
      then Some rhz
      else do {
        m \<leftarrow> udiv (HZ * (rcv_tsval (rx_opt tp) - remote_ref_time lp))
                (rcv_tsecr (rx_opt tp) - local_ref_time lp);
        let m = (if m <s 0 then - m else m);
        Some (if 0 <s rhz then rhz + (m - signed_drop_bit 6 rhz) else push_bit 6 m)
      })"

definition tcp_lp_remote_hz_estimator :: "tcp_sock \<Rightarrow> lp \<Rightarrow> (u32 \<times> lp) option" where
  "tcp_lp_remote_hz_estimator tp lp = do {
     rhz \<leftarrow> lp_new_rhz tp lp;
     let lp = lp_mark LP_VALID_RHZ (0 <s signed_drop_bit 6 rhz) lp;
     Some (signed_drop_bit 6 rhz,
       lp\<lparr>remote_ref_time := rcv_tsval (rx_opt tp), local_ref_time := rcv_tsecr (rx_opt tp)\<rparr>)
   }"

definition tcp_lp_owd_calculator :: "tcp_sock \<Rightarrow> lp \<Rightarrow> (u32 \<times> lp) option" where
  "tcp_lp_owd_calculator tp lp = do {
     (hz, lp) \<leftarrow> tcp_lp_remote_hz_estimator tp lp;
     let lp = lp\<lparr>remote_hz := hz\<rparr>;
     owd \<leftarrow> (if lp_has lp LP_VALID_RHZ then do {
              r \<leftarrow> udiv LP_RESOL (remote_hz lp);
              l \<leftarrow> udiv LP_RESOL HZ;
              let owd = rcv_tsval (rx_opt tp) * r - rcv_tsecr (rx_opt tp) * l;
              Some (if owd <s 0 then - owd else owd)
            } else Some 0);
     Some (owd, lp_mark LP_VALID_OWD (0 <s owd) lp)
   }"

text \<open>The range of delays, with a reserve so that the largest one is forgotten.\<close>

definition lp_update_range :: "s64 \<Rightarrow> lp \<Rightarrow> lp" where
  "lp_update_range mowd lp =
     (let lp = (if mowd <s owd_min lp then lp\<lparr>owd_min := mowd\<rparr> else lp) in
      if owd_max lp <s mowd then
        if owd_max_rsv lp <s mowd then
          lp\<lparr>owd_max := if owd_max_rsv lp = 0 then mowd else owd_max_rsv lp, owd_max_rsv := mowd\<rparr>
        else lp\<lparr>owd_max := mowd\<rparr>
      else lp)"

definition lp_smooth :: "s64 \<Rightarrow> lp \<Rightarrow> lp" where
  "lp_smooth mowd lp =
     lp\<lparr>sowd := if sowd lp \<noteq> 0 then sowd lp + (mowd - drop_bit 3 (sowd lp)) else push_bit 3 mowd\<rparr>"

definition tcp_lp_rtt_sample :: "tcp_sock \<Rightarrow> u32 \<Rightarrow> lp \<Rightarrow> lp option" where
  "tcp_lp_rtt_sample tp rtt lp = do {
     (mowd, lp) \<leftarrow> tcp_lp_owd_calculator tp lp;
     Some (if \<not> lp_has lp LP_VALID_RHZ \<or> \<not> lp_has lp LP_VALID_OWD then lp
           else lp_smooth mowd (lp_update_range mowd lp))
   }"

text \<open>The tests of \<^verbatim>\<open>tcp_lp_pkts_acked\<close>, and its reaction outside the threshold.\<close>

definition lp_judge :: "env \<Rightarrow> tcp_sock \<Rightarrow> lp \<Rightarrow> lp" where
  "lp_judge env tp lp =
     (let lp = (if rcv_tsecr (rx_opt tp) < tcp_time_stamp env
                then lp\<lparr>inference := 3 * (tcp_time_stamp env - rcv_tsecr (rx_opt tp))\<rparr> else lp);
          lp = lp_mark LP_WITHIN_INF
                 (last_drop lp \<noteq> 0 \<and> tcp_time_stamp env - last_drop lp < inference lp) lp
      in lp_mark LP_WITHIN_THR
           (drop_bit 3 (sowd lp) < owd_min lp + 15 * (owd_max lp - owd_min lp) div 100) lp)"

definition lp_react :: "env \<Rightarrow> tcp_sock \<Rightarrow> lp \<Rightarrow> tcp_sock \<times> lp" where
  "lp_react env tp lp =
     (if lp_has lp LP_WITHIN_THR then (tp, lp)
      else
        let lp = lp\<lparr>owd_min := drop_bit 3 (sowd lp), owd_max := drop_bit 2 (sowd lp),
                   owd_max_rsv := drop_bit 2 (sowd lp)\<rparr>
        in (tp\<lparr>snd_cwnd := if lp_has lp LP_WITHIN_INF then 1 else max (drop_bit 1 (snd_cwnd tp)) 1\<rparr>,
            lp\<lparr>last_drop := tcp_time_stamp env\<rparr>))"

definition tcp_lp_pkts_acked ::
    "env \<Rightarrow> u32 \<Rightarrow> s64 \<Rightarrow> tcp_sock \<Rightarrow> lp \<Rightarrow> (tcp_sock \<times> lp) option" where
  "tcp_lp_pkts_acked env num_acked last_ackt tp lp = do {
     lp \<leftarrow> (if \<not> ktime_equal last_ackt net_invalid_timestamp
            then tcp_lp_rtt_sample tp (ktime_to_us (net_timedelta env last_ackt)) lp
            else Some lp);
     Some (lp_react env tp (lp_judge env tp lp))
   }"

definition tcp_lp :: "lp ca_ops" where
  "tcp_lp = \<lparr>ca_flags = TCP_CONG_RTT_STAMP, ca_name = ''lp'', ca_init = Some tcp_lp_init,
     ca_ssthresh = (\<lambda>env tp p. Some (tcp_reno_ssthresh tp, p)),
     ca_min_cwnd = Some (\<lambda>tp p. Some (tcp_reno_min_cwnd tp)),
     ca_cong_avoid = tcp_lp_cong_avoid, ca_rtt_sample = None, ca_set_state = None,
     ca_cwnd_event = None, ca_undo_cwnd = None, ca_pkts_acked = Some tcp_lp_pkts_acked,
     ca_get_info = None\<rparr>"

section \<open>The flags\<close>

lemma lp_has_mark [simp]: "m \<noteq> 0 \<Longrightarrow> lp_has (lp_mark m c lp) m = c"
  by (simp add: lp_has_def lp_mark_def flag_set flag_cleared)

lemma lp_has_mark_other:
  assumes "m AND k = 0"
  shows "lp_has (lp_mark m c lp) k = lp_has lp k"
proof -
  have "(x OR m) AND k = x AND k" "(x AND NOT m) AND k = x AND k" for x
    using assms by (auto simp: bit_eq_iff bit_simps)
  then show ?thesis by (simp add: lp_has_def lp_mark_def)
qed

lemma lp_flags_nonzero [simp]:
  "LP_VALID_RHZ \<noteq> 0" "LP_VALID_OWD \<noteq> 0" "LP_WITHIN_THR \<noteq> 0" "LP_WITHIN_INF \<noteq> 0"
  by (simp_all add: lp_flags)

lemma lp_flags_apart: "LP_WITHIN_THR AND LP_WITHIN_INF = 0" "LP_VALID_OWD AND LP_VALID_RHZ = 0"
  by (simp_all add: lp_flags)

lemma lp_mark_frame [simp]:
  "sowd (lp_mark m c lp) = sowd lp" "owd_min (lp_mark m c lp) = owd_min lp"
  "owd_max (lp_mark m c lp) = owd_max lp" "owd_max_rsv (lp_mark m c lp) = owd_max_rsv lp"
  "remote_hz (lp_mark m c lp) = remote_hz lp" "last_drop (lp_mark m c lp) = last_drop lp"
  "inference (lp_mark m c lp) = inference lp"
  by (simp_all add: lp_mark_def)

lemma lp_has_upd [simp]:
  "lp_has (lp\<lparr>remote_hz := a\<rparr>) m = lp_has lp m"
  "lp_has (lp\<lparr>remote_ref_time := a, local_ref_time := b\<rparr>) m = lp_has lp m"
  "lp_has (lp\<lparr>inference := a\<rparr>) m = lp_has lp m" "lp_has (lp\<lparr>last_drop := a\<rparr>) m = lp_has lp m"
  "lp_has (lp\<lparr>owd_min := a, owd_max := b, owd_max_rsv := d\<rparr>) m = lp_has lp m"
  by (simp_all add: lp_has_def)

section \<open>The estimates always return\<close>

lemma lp_new_rhz_returns: "\<exists>rhz. lp_new_rhz tp lp = Some rhz"
  by (simp add: lp_new_rhz_def Let_def)

text \<open>The division by the remote clock rate is guarded by the flag, which is set with it.\<close>

lemma tcp_lp_owd_calculator_returns:
  "\<exists>owd lp'. tcp_lp_owd_calculator tp lp = Some (owd, lp')
    \<and> (lp_has lp' LP_VALID_OWD \<longleftrightarrow> 0 <s owd)
    \<and> owd_min lp' = owd_min lp \<and> owd_max lp' = owd_max lp \<and> owd_max_rsv lp' = owd_max_rsv lp"
proof -
  obtain rhz where rhz: "lp_new_rhz tp lp = Some rhz" using lp_new_rhz_returns by blast
  have "\<not> 0 <s (0 :: s64)" by (simp add: word_sless_alt)
  then have nz: "0 <s k \<Longrightarrow> k \<noteq> 0" for k :: s64 by auto
  show ?thesis
    using nz [of "signed_drop_bit 6 rhz"]
    by (auto simp: tcp_lp_owd_calculator_def tcp_lp_remote_hz_estimator_def rhz LP_RESOL_def Let_def)
qed

section \<open>The range of delays\<close>

definition lp_range_ok :: "lp \<Rightarrow> bool" where
  "lp_range_ok lp \<longleftrightarrow> owd_max lp \<le> owd_max_rsv lp \<and> unat (owd_max_rsv lp) < 2 ^ 63
     \<and> unat (owd_min lp) < 2 ^ 63 \<and> (owd_max_rsv lp \<noteq> 0 \<longrightarrow> owd_min lp \<le> owd_max lp)"

lemma sless_small: "unat a < 2 ^ 63 \<Longrightarrow> 0 <s b \<Longrightarrow> a <s b \<longleftrightarrow> a < b" "unat a < 2 ^ 63 \<Longrightarrow> 0 <s b \<Longrightarrow> b <s a \<longleftrightarrow> b < a"
  "0 <s b \<Longrightarrow> unat b < 2 ^ 63" "0 <s b \<Longrightarrow> b \<noteq> 0" for a b :: s64
proof -
  have s: "sint a = int (unat a)" if "unat a < 2 ^ 63" for a :: s64
    by (rule sint_of_small) (use that in simp)
  have b: "unat b < 2 ^ 63" if "0 <s b"
  proof -
    have "0 \<le> sint b" using that by (simp add: word_sless_alt)
    then have "int (unat b) = sint b" by (rule int_unat_sint)
    also have "sint b < 2 ^ 63" using sint_lt [of b] by simp
    finally show ?thesis using of_nat_less_iff [of "unat b" "2 ^ 63", where 'a=int] by simp
  qed
  show "unat a < 2 ^ 63 \<Longrightarrow> 0 <s b \<Longrightarrow> a <s b \<longleftrightarrow> a < b" "unat a < 2 ^ 63 \<Longrightarrow> 0 <s b \<Longrightarrow> b <s a \<longleftrightarrow> b < a"
    using s b by (simp_all add: word_sless_alt word_less_def)
  show "0 <s b \<Longrightarrow> unat b < 2 ^ 63" by (rule b)
  show "0 <s b \<Longrightarrow> b \<noteq> 0" by (auto simp: word_sless_alt)
qed

lemma lp_update_range_ok:
  assumes "lp_range_ok lp" and "0 <s mowd"
  shows "lp_range_ok (lp_update_range mowd lp)"
proof -
  have l: "unat (owd_max lp) < 2 ^ 63" "unat (owd_max_rsv lp) < 2 ^ 63" "unat (owd_min lp) < 2 ^ 63"
    using assms(1) by (auto simp: lp_range_ok_def word_le_nat_alt)
  note s = sless_small(1) [OF l(1) assms(2)] sless_small(1) [OF l(2) assms(2)] sless_small(2) [OF l(3) assms(2)]
    sless_small(3,4) [OF assms(2)]
  show ?thesis
    using assms(1) s by (auto simp: lp_range_ok_def lp_update_range_def Let_def not_less)
qed

lemma lp_range_ok_cong:
  "owd_min lp' = owd_min lp \<Longrightarrow> owd_max lp' = owd_max lp \<Longrightarrow> owd_max_rsv lp' = owd_max_rsv lp \<Longrightarrow>
    lp_range_ok lp' = lp_range_ok lp"
  by (simp add: lp_range_ok_def)

lemma lp_rtt_sample_ok: "\<exists>lp'. tcp_lp_rtt_sample tp rtt lp = Some lp' \<and> (lp_range_ok lp \<longrightarrow> lp_range_ok lp')"
proof -
  obtain owd l where l: "tcp_lp_owd_calculator tp lp = Some (owd, l)" "lp_has l LP_VALID_OWD \<longleftrightarrow> 0 <s owd"
    "owd_min l = owd_min lp" "owd_max l = owd_max lp" "owd_max_rsv l = owd_max_rsv lp"
    using tcp_lp_owd_calculator_returns by blast
  have e: "lp_range_ok l = lp_range_ok lp" by (rule lp_range_ok_cong) (rule l)+
  have s: "lp_range_ok (lp_smooth owd x) = lp_range_ok x" for x
    by (rule lp_range_ok_cong) (simp_all add: lp_smooth_def)
  show ?thesis
    using l(1,2) lp_update_range_ok [of l owd] e s by (simp add: tcp_lp_rtt_sample_def)
qed

lemma lp_judge_range: "lp_range_ok (lp_judge env tp lp) = lp_range_ok lp"
  by (rule lp_range_ok_cong) (simp_all add: lp_judge_def Let_def)

lemma lp_react_range:
  assumes "lp_range_ok lp"
  shows "lp_range_ok (snd (lp_react env tp lp))"
proof -
  have "unat (sowd lp) div 4 < 2 ^ 63" "unat (sowd lp) div 8 < 2 ^ 63" "unat (sowd lp) div 8 \<le> unat (sowd lp) div 4"
    using unat64_less [of "sowd lp"] by (simp_all add: div_le_mono2)
  then show ?thesis
    using assms by (auto simp: lp_react_def Let_def lp_range_ok_def word_le_nat_alt unat_drop_bit_div)
qed

lemma lp_react_window:
  "snd_cwnd (fst (lp_react env tp lp)) = (if lp_has lp LP_WITHIN_THR then snd_cwnd tp
     else if lp_has lp LP_WITHIN_INF then 1 else max (drop_bit 1 (snd_cwnd tp)) 1)"
  "lp_has (snd (lp_react env tp lp)) m = lp_has lp m"
  "fst (lp_react env tp lp) = tp\<lparr>snd_cwnd := snd_cwnd (fst (lp_react env tp lp))\<rparr>"
  by (simp_all add: lp_react_def Let_def)

lemma tcp_lp_pkts_acked_react:
  "\<exists>l. tcp_lp_pkts_acked env n last_ackt tp lp = Some (lp_react env tp (lp_judge env tp l))
    \<and> (lp_range_ok lp \<longrightarrow> lp_range_ok l)"
  using lp_rtt_sample_ok [of tp "ktime_to_us (net_timedelta env last_ackt)" lp]
  by (auto simp: tcp_lp_pkts_acked_def)

lemma tcp_lp_pkts_acked_sock_ok:
  assumes "sock_ok tp"
  shows "\<exists>tp' lp'. tcp_lp_pkts_acked env n last_ackt tp lp = Some (tp', lp') \<and> sock_ok tp'"
proof -
  obtain l where l: "tcp_lp_pkts_acked env n last_ackt tp lp = Some (lp_react env tp (lp_judge env tp l))"
    using tcp_lp_pkts_acked_react by blast
  define t where "t = fst (lp_react env tp (lp_judge env tp l))"
  have "unat (max (drop_bit 1 (snd_cwnd tp)) 1) = max (unat (snd_cwnd tp) div 2) 1"
    by (simp add: unat_max unat_drop_bit_div)
  then have "small (snd_cwnd t)" "snd_cwnd t \<noteq> 0"
    using assms unfolding t_def lp_react_window(1)
    by (auto simp: sock_ok_def small_def simp flip: unat_eq_zero)
  then have "sock_ok (tp\<lparr>snd_cwnd := snd_cwnd t\<rparr>)" by (intro sock_ok_cwnd assms)
  moreover have "t = tp\<lparr>snd_cwnd := snd_cwnd t\<rparr>" unfolding t_def by (rule lp_react_window(3))
  ultimately have "sock_ok t" by simp
  then show ?thesis using l by (cases "lp_react env tp (lp_judge env tp l)") (simp add: t_def)
qed

interpretation lp: cong_module tcp_lp sock_ok "\<lambda>_ _. True"
proof unfold_locales
  fix tp :: tcp_sock and p env ack rtt in_flight flag
  assume "clock_ok env" "sock_ok tp"
  then show "\<exists>tp' p'. ca_cong_avoid tcp_lp env ack rtt in_flight flag tp p = Some (tp', p')
      \<and> sock_ok tp' \<and> True"
    using sock_ok_reno_cong_avoid [of tp env ack rtt in_flight flag]
    by (auto simp: tcp_lp_def tcp_lp_cong_avoid_def)
next
  fix tp :: tcp_sock and p env n last_ackt
  assume "clock_ok env" "sock_ok tp" "small n" "past env last_ackt"
  then show "\<exists>tp' p'. run_pkts_acked tcp_lp env n last_ackt tp p = Some (tp', p') \<and> sock_ok tp' \<and> True"
    using tcp_lp_pkts_acked_sock_ok by (simp add: tcp_lp_def run_defs)
qed (simp_all add: tcp_lp_def run_defs tcp_lp_init_def reno_ssthresh_law reno_min_cwnd_law)

section \<open>Properties\<close>

text \<open>
  A call of \<^verbatim>\<open>tcp_lp_pkts_acked\<close> always returns (the division by the estimated remote clock
  rate is guarded by the flag set with it), and its reaction is the one of TCP-LP: within the
  delay threshold the window stays; past it, the window falls to one packet inside the
  inference time of the last drop and to a half, but at least one, outside of it.
\<close>

theorem lp_reaction:
  "\<exists>tp' lp'. tcp_lp_pkts_acked env n last_ackt tp lp = Some (tp', lp') \<and>
    tp' = tp\<lparr>snd_cwnd := (if lp_has lp' LP_WITHIN_THR then snd_cwnd tp
      else if lp_has lp' LP_WITHIN_INF then 1 else max (drop_bit 1 (snd_cwnd tp)) 1)\<rparr>"
proof -
  obtain l where "tcp_lp_pkts_acked env n last_ackt tp lp = Some (lp_react env tp (lp_judge env tp l))"
    using tcp_lp_pkts_acked_react by blast
  moreover obtain t' l' where r: "lp_react env tp (lp_judge env tp l) = (t', l')" by force
  ultimately show ?thesis
    using lp_react_window [of env tp "lp_judge env tp l"] by (simp add: r)
qed

text \<open>
  The range of one-way delays stays a range: the least delay is at most the largest, which
  is at most the reserved one, and all are positive as signed numbers, from the
  initialisation on and through every call.
\<close>

theorem lp_range_invariant:
  assumes "lp_range_ok lp"
  shows "\<exists>tp' lp'. tcp_lp_pkts_acked env n last_ackt tp lp = Some (tp', lp') \<and> lp_range_ok lp'"
proof -
  obtain l where l: "tcp_lp_pkts_acked env n last_ackt tp lp = Some (lp_react env tp (lp_judge env tp l))"
    "lp_range_ok l" using tcp_lp_pkts_acked_react assms by blast
  moreover obtain t' l' where r: "lp_react env tp (lp_judge env tp l) = (t', l')" by force
  ultimately show ?thesis
    using lp_react_range [of "lp_judge env tp l" env tp] by (simp add: r lp_judge_range)
qed

theorem lp_range_invariant_witness:
  "\<exists>tp lp tp' lp'. tcp_lp_init example_env (example_sock 20 5) lp = Some (tp, lp')
    \<and> (\<exists>tp'' lp''. tcp_lp_pkts_acked example_env 1 900000000 tp lp' = Some (tp'', lp'') \<and> lp_range_ok lp'')"
proof -
  define l where "l = \<lparr>lp_flag = 0, sowd = 0, owd_min = 0xffffffff, owd_max = 0, owd_max_rsv = 0,
     remote_hz = 0, remote_ref_time = 0, local_ref_time = 0, last_drop = 0, inference = 0\<rparr>"
  have "lp_range_ok l" by (simp add: l_def lp_range_ok_def)
  then show ?thesis
    using lp_range_invariant [of l example_env 1 900000000 "example_sock 20 5"]
    by (auto simp: tcp_lp_init_def l_def)
qed

end
