(* ===== verification/Westwood.thy ===== *)
theory Westwood
  imports Reno
begin

text \<open>
  TCP Westwood+, \<^verbatim>\<open>tcp/linux/src/tcp_westwood.c\<close>: Reno whose window after a loss is the
  estimated bandwidth times the least round trip time.  The bandwidth is the bytes acknowledged
  in a round trip window over its length, low-pass filtered twice.
\<close>

section \<open>State\<close>

definition TCP_WESTWOOD_RTT_MIN :: u32 where "TCP_WESTWOOD_RTT_MIN = HZ div 20"
definition TCP_WESTWOOD_INIT_RTT :: u32 where "TCP_WESTWOOD_INIT_RTT = 20 * HZ"

record westwood =
  bw_ns_est :: u32
  bw_est :: u32
  rtt_win_sx :: u32
  ww_bk :: u32
  ww_snd_una :: u32
  cumul_ack :: u32
  accounted :: u32
  ww_rtt :: u32
  ww_rtt_min :: u32
  first_ack :: u8
  reset_rtt_min :: u8

section \<open>Operations\<close>

definition tcp_westwood_init :: "env \<Rightarrow> tcp_sock \<Rightarrow> westwood \<Rightarrow> (tcp_sock \<times> westwood) option" where
  "tcp_westwood_init env sk w =
     Some (sk, w\<lparr>ww_bk := 0, bw_ns_est := 0, bw_est := 0, accounted := 0, cumul_ack := 0,
       reset_rtt_min := 1, ww_rtt := TCP_WESTWOOD_INIT_RTT, ww_rtt_min := TCP_WESTWOOD_INIT_RTT,
       rtt_win_sx := tcp_time_stamp env, ww_snd_una := snd_una sk, first_ack := 1\<rparr>)"

definition westwood_do_filter :: "u32 \<Rightarrow> u32 \<Rightarrow> u32" where
  "westwood_do_filter a b = drop_bit 3 (7 * a + b)"

definition westwood_filter :: "u32 \<Rightarrow> westwood \<Rightarrow> westwood option" where
  "westwood_filter delta w = do {
     sample \<leftarrow> udiv (ww_bk w) delta;
     Some (if bw_ns_est w = 0 \<and> bw_est w = 0 then w\<lparr>bw_ns_est := sample, bw_est := sample\<rparr>
           else let ns = westwood_do_filter (bw_ns_est w) sample
                in w\<lparr>bw_ns_est := ns, bw_est := westwood_do_filter (bw_est w) ns\<rparr>)
   }"

definition tcp_westwood_pkts_acked :: "env \<Rightarrow> u32 \<Rightarrow> s64 \<Rightarrow> tcp_sock \<Rightarrow> westwood \<Rightarrow> westwood option" where
  "tcp_westwood_pkts_acked env cnt last_ackt sk w =
     Some (if 0 < cnt then w\<lparr>ww_rtt := drop_bit 3 (srtt sk)\<rparr> else w)"

text \<open>
  \<^verbatim>\<open>delta\<close> is an \<^verbatim>\<open>s32\<close>, but the other side of its comparison is unsigned, and so is the
  comparison.
\<close>

definition westwood_update_window :: "env \<Rightarrow> tcp_sock \<Rightarrow> westwood \<Rightarrow> westwood option" where
  "westwood_update_window env sk w =
     (let delta = tcp_time_stamp env - rtt_win_sx w;
          w = (if first_ack w \<noteq> 0 then w\<lparr>ww_snd_una := snd_una sk, first_ack := 0\<rparr> else w)
      in if ww_rtt w \<noteq> 0 \<and> max (ww_rtt w) TCP_WESTWOOD_RTT_MIN < delta then do {
           w \<leftarrow> westwood_filter delta w;
           Some (w\<lparr>ww_bk := 0, rtt_win_sx := tcp_time_stamp env\<rparr>)
         } else Some w)"

definition update_rtt_min :: "westwood \<Rightarrow> westwood" where
  "update_rtt_min w =
     (if reset_rtt_min w \<noteq> 0 then w\<lparr>ww_rtt_min := ww_rtt w, reset_rtt_min := 0\<rparr>
      else w\<lparr>ww_rtt_min := min (ww_rtt w) (ww_rtt_min w)\<rparr>)"

definition westwood_fast_bw :: "env \<Rightarrow> tcp_sock \<Rightarrow> westwood \<Rightarrow> westwood option" where
  "westwood_fast_bw env tp w = do {
     w \<leftarrow> westwood_update_window env tp w;
     let w = w\<lparr>ww_bk := ww_bk w + (snd_una tp - ww_snd_una w)\<rparr>;
     Some (update_rtt_min (w\<lparr>ww_snd_una := snd_una tp\<rparr>))
   }"

definition westwood_acked_count :: "tcp_sock \<Rightarrow> westwood \<Rightarrow> u32 \<times> westwood" where
  "westwood_acked_count tp w =
     (let w = w\<lparr>cumul_ack := snd_una tp - ww_snd_una w\<rparr>;
          w = (if cumul_ack w = 0
               then w\<lparr>accounted := accounted w + mss_cache tp, cumul_ack := mss_cache tp\<rparr> else w);
          w = (if mss_cache tp < cumul_ack w then
                 if cumul_ack w \<le> accounted w
                 then w\<lparr>accounted := accounted w - cumul_ack w, cumul_ack := mss_cache tp\<rparr>
                 else w\<lparr>cumul_ack := cumul_ack w - accounted w, accounted := 0\<rparr>
               else w);
          w = w\<lparr>ww_snd_una := snd_una tp\<rparr>
      in (cumul_ack w, w))"

definition tcp_westwood_bw_rttmin :: "tcp_sock \<Rightarrow> westwood \<Rightarrow> u32 option" where
  "tcp_westwood_bw_rttmin tp w = do {
     q \<leftarrow> udiv (bw_est w * ww_rtt_min w) (mss_cache tp);
     Some (max q 2)
   }"

definition tcp_westwood_event ::
    "env \<Rightarrow> tcp_ca_event \<Rightarrow> tcp_sock \<Rightarrow> westwood \<Rightarrow> (tcp_sock \<times> westwood) option" where
  "tcp_westwood_event env event tp w =
     (case event of
        CA_EVENT_FAST_ACK \<Rightarrow> map_option (Pair tp) (westwood_fast_bw env tp w)
      | CA_EVENT_COMPLETE_CWR \<Rightarrow>
          map_option (\<lambda>s. (tp\<lparr>snd_ssthresh := s, snd_cwnd := s\<rparr>, w)) (tcp_westwood_bw_rttmin tp w)
      | CA_EVENT_FRTO \<Rightarrow>
          map_option (\<lambda>s. (tp\<lparr>snd_ssthresh := s\<rparr>, w\<lparr>reset_rtt_min := 1\<rparr>)) (tcp_westwood_bw_rttmin tp w)
      | CA_EVENT_SLOW_ACK \<Rightarrow> do {
          w \<leftarrow> westwood_update_window env tp w;
          let (c, w) = westwood_acked_count tp w;
          Some (tp, update_rtt_min (w\<lparr>ww_bk := ww_bk w + c\<rparr>))
        }
      | _ \<Rightarrow> Some (tp, w))"

definition tcp_westwood_info :: "u32 \<Rightarrow> tcp_sock \<Rightarrow> westwood \<Rightarrow> unit option" where
  "tcp_westwood_info ext sk w = Some ()"

definition tcp_westwood :: "westwood ca_ops" where
  "tcp_westwood = \<lparr>ca_flags = 0, ca_name = ''westwood'', ca_init = Some tcp_westwood_init,
     ca_ssthresh = (\<lambda>env tp p. Some (tcp_reno_ssthresh tp, p)),
     ca_min_cwnd = Some tcp_westwood_bw_rttmin,
     ca_cong_avoid = stateless tcp_reno_cong_avoid, ca_rtt_sample = None, ca_set_state = None,
     ca_cwnd_event = Some tcp_westwood_event, ca_undo_cwnd = None,
     ca_pkts_acked = Some (keep_sock tcp_westwood_pkts_acked),
     ca_get_info = Some tcp_westwood_info\<rparr>"

section \<open>The bandwidth filter\<close>

lemma unat_westwood_do_filter:
  assumes "unat a < 2 ^ 60" and "unat b < 2 ^ 60"
  shows "unat (westwood_do_filter a b) = (7 * unat a + unat b) div 8"
proof -
  have "unat (7 * a + b) = 7 * unat a + unat b"
    using assms by (simp add: unat_word_ariths)
  then show ?thesis by (simp only: westwood_do_filter_def unat_drop_bit_div) simp
qed

lemma filter_convex:
  fixes a b :: nat
  assumes "L \<le> a" "L \<le> b" "a \<le> B" "b \<le> B"
  shows "L \<le> (7 * a + b) div 8" "(7 * a + b) div 8 \<le> B"
  using assms by linarith+

lemma westwood_filter_frame:
  "westwood_filter delta w = Some w' \<Longrightarrow> w' = w\<lparr>bw_ns_est := bw_ns_est w', bw_est := bw_est w'\<rparr>"
  by (auto simp: westwood_filter_def bind_Some_iff Let_def split: if_splits)

lemma westwood_update_window_returns: "\<exists>w'. westwood_update_window env sk w = Some w'"
proof -
  have "westwood_filter d v \<noteq> None" if "m < d" for m d v
    using that by (auto simp: westwood_filter_def bind_None_iff udiv_eq_None_iff)
  then show ?thesis
    by (auto simp: westwood_update_window_def Let_def bind_Some_iff simp flip: not_None_eq)
qed

section \<open>Properties\<close>

text \<open>
  The bandwidth estimate of Westwood is a weighted mean: \<^verbatim>\<open>westwood_update_window\<close> always
  returns, and the two filtered estimates stay below any bound (under \<open>2 ^ 60\<close>) that they and
  the new sample are below.
\<close>

theorem westwood_estimate_bounded:
  assumes "unat (bw_ns_est w) \<le> B" and "unat (bw_est w) \<le> B" and "B < 2 ^ 60"
    and "unat (ww_bk w) div unat (tcp_time_stamp env - rtt_win_sx w) \<le> B"
  shows "\<exists>w'. westwood_update_window env sk w = Some w' \<and> unat (bw_ns_est w') \<le> B \<and> unat (bw_est w') \<le> B"
proof -
  define d where "d = tcp_time_stamp env - rtt_win_sx w"
  have f: "\<exists>v'. westwood_filter d v = Some v' \<and> unat (bw_ns_est v') \<le> B \<and> unat (bw_est v') \<le> B"
    if v: "bw_ns_est v = bw_ns_est w" "bw_est v = bw_est w" "ww_bk v = ww_bk w" and d: "d \<noteq> 0" for v
  proof -
    define s where "s = ww_bk w div d"
    have s: "unat s \<le> B" using assms(4) by (simp add: s_def d_def unat_div_distrib)
    define ns where "ns = westwood_do_filter (bw_ns_est w) s"
    have ns: "unat ns = (7 * unat (bw_ns_est w) + unat s) div 8"
      unfolding ns_def using assms s by (intro unat_westwood_do_filter) auto
    have nsB: "unat ns \<le> B"
      using filter_convex(2) [of 0 "unat (bw_ns_est w)" "unat s" B] assms(1) s ns by simp
    have "unat (westwood_do_filter (bw_est w) ns) = (7 * unat (bw_est w) + unat ns) div 8"
      using assms nsB by (intro unat_westwood_do_filter) auto
    then have "unat (westwood_do_filter (bw_est w) ns) \<le> B"
      using filter_convex(2) [of 0 "unat (bw_est w)" "unat ns" B] assms(2) nsB by simp
    then show ?thesis
      using v d s nsB by (simp add: westwood_filter_def s_def [symmetric] ns_def [symmetric] Let_def)
  qed
  have "d \<noteq> 0" if "max r TCP_WESTWOOD_RTT_MIN < d" for r using that by auto
  then show ?thesis
    using f [of w] f [of "w\<lparr>ww_snd_una := snd_una sk, first_ack := 0\<rparr>"] assms(1,2)
    by (auto simp: westwood_update_window_def Let_def d_def [symmetric] bind_Some_iff)
qed

definition example_westwood :: westwood where
  "example_westwood = \<lparr>bw_ns_est = 90, bw_est = 80, rtt_win_sx = 900, ww_bk = 10000, ww_snd_una = 20000,
     cumul_ack = 0, accounted = 0, ww_rtt = 60, ww_rtt_min = 55, first_ack = 0, reset_rtt_min = 0\<rparr>"

theorem westwood_estimate_bounded_witness:
  "\<exists>w'. westwood_update_window example_env (example_sock 20 5) example_westwood = Some w'
    \<and> unat (bw_est w') \<le> 100"
  using westwood_estimate_bounded [of example_westwood 100 example_env "example_sock 20 5"]
  by (auto simp: example_westwood_def example_env_def)

text \<open>
  The exact accounting of delayed and partial acknowledgments: what
  \<^verbatim>\<open>westwood_acked_count\<close> returns, less what it newly holds as already counted, is what the
  acknowledgment moved \<^verbatim>\<open>snd_una\<close> by, except that an advance over more than a segment that
  was counted entirely before adds one segment again.
\<close>

theorem westwood_acked_count_exact:
  "case westwood_acked_count tp w of (c, w') \<Rightarrow>
     c + accounted w = (snd_una tp - ww_snd_una w) + accounted w'
       + (if mss_cache tp < snd_una tp - ww_snd_una w \<and> snd_una tp - ww_snd_una w \<le> accounted w
          then mss_cache tp else 0)
     \<and> ww_snd_una w' = snd_una tp"
  by (auto simp: westwood_acked_count_def Let_def)

text \<open>
  Of the calls of Westwood only the end of a recovery and a spurious timeout can fail, and
  only on a socket with no segment size, by which \<^verbatim>\<open>tcp_westwood_bw_rttmin\<close> divides; the window
  it gives is at least two packets.
\<close>

theorem westwood_event_outcome:
  "case tcp_westwood_event env event tp w of
     None \<Rightarrow> mss_cache tp = 0 \<and> event \<in> {CA_EVENT_COMPLETE_CWR, CA_EVENT_FRTO}
   | Some (tp', w') \<Rightarrow> snd_cwnd tp' = snd_cwnd tp \<or>
       (event = CA_EVENT_COMPLETE_CWR \<and> 2 \<le> unat (snd_cwnd tp') \<and> snd_ssthresh tp' = snd_cwnd tp')"
proof -
  have "2 \<le> unat (max q (2 :: u32))" for q by (simp add: unat_max)
  moreover obtain v where "westwood_update_window env tp w = Some v"
    using westwood_update_window_returns by blast
  ultimately show ?thesis
    by (auto simp: tcp_westwood_event_def westwood_fast_bw_def tcp_westwood_bw_rttmin_def udiv_def Let_def
        split: tcp_ca_event.split prod.split)
qed

end
