(* ===== verification/Yeah.thy ===== *)
theory Yeah
  imports Vegas
begin

text \<open>
  YeAH TCP, \<^verbatim>\<open>tcp/linux/src/tcp_yeah.c\<close>: Scalable TCP while the estimated queue is short, Reno
  and early decongestion when it is long.  Its structure starts with the one of Vegas, whose
  operations it calls.
\<close>

section \<open>State\<close>

definition TCP_YEAH_ALPHA :: u32 where "TCP_YEAH_ALPHA = 80"
definition TCP_YEAH_GAMMA :: u32 where "TCP_YEAH_GAMMA = 1"
definition TCP_YEAH_DELTA :: nat where "TCP_YEAH_DELTA = 3"
definition TCP_YEAH_EPSILON :: nat where "TCP_YEAH_EPSILON = 1"
definition TCP_YEAH_PHY :: u32 where "TCP_YEAH_PHY = 8"
definition TCP_YEAH_RHO :: u32 where "TCP_YEAH_RHO = 16"
definition TCP_YEAH_ZETA :: u32 where "TCP_YEAH_ZETA = 50"
definition YEAH_SCALABLE_AI_CNT :: u32 where "YEAH_SCALABLE_AI_CNT = 100"

lemmas yeah_consts = TCP_YEAH_ALPHA_def TCP_YEAH_GAMMA_def TCP_YEAH_DELTA_def TCP_YEAH_EPSILON_def
  TCP_YEAH_PHY_def TCP_YEAH_RHO_def TCP_YEAH_ZETA_def YEAH_SCALABLE_AI_CNT_def

record yeah =
  ye_vegas :: vegas
  lastQ :: u32
  doing_reno_now :: u32
  reno_count :: u32
  fast_count :: u32
  ye_pkts_acked :: u32

text \<open>A Vegas operation on the embedded structure.\<close>

definition on_vegas :: "(vegas \<Rightarrow> (tcp_sock \<times> vegas) option) \<Rightarrow> yeah \<Rightarrow> (tcp_sock \<times> yeah) option" where
  "on_vegas f y = map_option (\<lambda>(tp, v). (tp, y\<lparr>ye_vegas := v\<rparr>)) (f (ye_vegas y))"

section \<open>Operations\<close>

definition tcp_yeah_init :: "env \<Rightarrow> tcp_sock \<Rightarrow> yeah \<Rightarrow> (tcp_sock \<times> yeah) option" where
  "tcp_yeah_init env tp y = do {
     (tp, y) \<leftarrow> on_vegas (tcp_vegas_init env tp) y;
     Some (tp\<lparr>snd_cwnd_clamp := ulong_uint (min (uint_ulong (snd_cwnd_clamp tp)) (0xffffffff div 128))\<rparr>,
       y\<lparr>doing_reno_now := 0, lastQ := 0, reno_count := 2\<rparr>)
   }"

definition tcp_yeah_pkts_acked :: "env \<Rightarrow> u32 \<Rightarrow> s64 \<Rightarrow> tcp_sock \<Rightarrow> yeah \<Rightarrow> yeah option" where
  "tcp_yeah_pkts_acked env cnt last_ackt tp y =
     (let y = (if icsk_ca_state tp = TCP_CA_Open then y\<lparr>ye_pkts_acked := cnt\<rparr> else y) in
      map_option (\<lambda>v. y\<lparr>ye_vegas := v\<rparr>) (tcp_vegas_pkts_acked env cnt last_ackt tp (ye_vegas y)))"

text \<open>The growth of the window: slow start, Scalable, or Reno.\<close>

definition yeah_grow :: "env \<Rightarrow> tcp_sock \<Rightarrow> yeah \<Rightarrow> (tcp_sock \<times> yeah) option" where
  "yeah_grow env tp y =
     (if snd_cwnd tp \<le> snd_ssthresh tp then map_option (\<lambda>tp. (tp, y)) (tcp_slow_start env tp)
      else if doing_reno_now y = 0 then
        let tp = tp\<lparr>snd_cwnd_cnt := snd_cwnd_cnt tp + ulong_uint (ye_pkts_acked y)\<rparr>;
            tp = (if min (snd_cwnd tp) YEAH_SCALABLE_AI_CNT < uint_ulong (snd_cwnd_cnt tp)
                  then (bump_cwnd tp)\<lparr>snd_cwnd_cnt := 0\<rparr> else tp)
        in Some (tp, y\<lparr>ye_pkts_acked := 1\<rparr>)
      else
        let tp = (if uint_ulong (snd_cwnd_cnt tp) < snd_cwnd tp
                  then tp\<lparr>snd_cwnd_cnt := snd_cwnd_cnt tp + 1\<rparr> else tp)
        in Some (if snd_cwnd tp \<le> uint_ulong (snd_cwnd_cnt tp)
                 then tp\<lparr>snd_cwnd := snd_cwnd tp + 1, snd_cwnd_cnt := 0\<rparr> else tp, y))"

text \<open>The packets in the queue, and the decision taken on them.\<close>

definition yeah_queue :: "tcp_sock \<Rightarrow> yeah \<Rightarrow> u32 option" where
  "yeah_queue tp y =
     (let rtt = vg_minRTT (ye_vegas y) in
      map_option fst (do_div (snd_cwnd tp * (rtt - baseRTT (ye_vegas y))) (ucast rtt)))"

definition yeah_decongest :: "u32 \<Rightarrow> tcp_sock \<Rightarrow> yeah \<Rightarrow> tcp_sock" where
  "yeah_decongest queue tp y =
     (if TCP_YEAH_ALPHA < queue \<and> reno_count y < snd_cwnd tp then
        let reduction = min (queue div TCP_YEAH_GAMMA) (drop_bit TCP_YEAH_EPSILON (snd_cwnd tp));
            w = max (snd_cwnd tp - reduction) (reno_count y)
        in tp\<lparr>snd_cwnd := w, snd_ssthresh := w\<rparr>
      else tp)"

definition yeah_decide :: "u32 \<Rightarrow> tcp_sock \<Rightarrow> yeah \<Rightarrow> tcp_sock \<times> yeah" where
  "yeah_decide queue tp y =
     (let rtt = vg_minRTT (ye_vegas y); base = baseRTT (ye_vegas y) in
      if TCP_YEAH_ALPHA < queue \<or> base div TCP_YEAH_PHY < rtt - base then
        let tp = yeah_decongest queue tp y;
            y = (if reno_count y \<le> 2 then y\<lparr>reno_count := max (drop_bit 1 (snd_cwnd tp)) 2\<rparr>
                 else y\<lparr>reno_count := reno_count y + 1\<rparr>)
        in (tp, y\<lparr>doing_reno_now := min (doing_reno_now y + 1) 0xffffff, lastQ := queue\<rparr>)
      else
        let y = y\<lparr>fast_count := fast_count y + 1\<rparr>;
            y = (if TCP_YEAH_ZETA < fast_count y then y\<lparr>reno_count := 2, fast_count := 0\<rparr> else y)
        in (tp, y\<lparr>doing_reno_now := 0, lastQ := queue\<rparr>))"

definition tcp_yeah_cong_avoid ::
    "env \<Rightarrow> u32 \<Rightarrow> u32 \<Rightarrow> u32 \<Rightarrow> cint \<Rightarrow> tcp_sock \<Rightarrow> yeah \<Rightarrow> (tcp_sock \<times> yeah) option" where
  "tcp_yeah_cong_avoid env ack seq_rtt in_flight flag tp y =
     (if \<not> tcp_is_cwnd_limited tp in_flight then Some (tp, y)
      else do {
        (tp, y) \<leftarrow> yeah_grow env tp y;
        if \<not> after ack (beg_snd_nxt (ye_vegas y)) then Some (tp, y)
        else do {
          (tp, y) \<leftarrow> (if 2 < cntRTT (ye_vegas y) then do {
                         queue \<leftarrow> yeah_queue tp y;
                         Some (yeah_decide queue tp y)
                       } else Some (tp, y));
          let v = (ye_vegas y)\<lparr>beg_snd_una := beg_snd_nxt (ye_vegas y), beg_snd_nxt := snd_nxt tp,
                      beg_snd_cwnd := snd_cwnd tp, cntRTT := 0, vg_minRTT := 0x7fffffff\<rparr>;
          Some (tp, y\<lparr>ye_vegas := v\<rparr>)
        }
      })"

definition tcp_yeah_ssthresh :: "env \<Rightarrow> tcp_sock \<Rightarrow> yeah \<Rightarrow> (u32 \<times> yeah) option" where
  "tcp_yeah_ssthresh env tp y =
     (let reduction =
            (if doing_reno_now y < TCP_YEAH_RHO
             then max (min (lastQ y) (max (drop_bit 1 (snd_cwnd tp)) 2))
                    (drop_bit TCP_YEAH_DELTA (snd_cwnd tp))
             else max (drop_bit 1 (snd_cwnd tp)) 2)
      in Some (snd_cwnd tp - reduction,
           y\<lparr>fast_count := 0, reno_count := max (drop_bit 1 (reno_count y)) 2\<rparr>))"

definition tcp_yeah :: "yeah ca_ops" where
  "tcp_yeah = \<lparr>ca_flags = TCP_CONG_RTT_STAMP, ca_name = ''yeah'', ca_init = Some tcp_yeah_init,
     ca_ssthresh = tcp_yeah_ssthresh, ca_min_cwnd = Some (\<lambda>tp p. Some (tcp_reno_min_cwnd tp)),
     ca_cong_avoid = tcp_yeah_cong_avoid, ca_rtt_sample = None,
     ca_set_state = Some (\<lambda>env st tp y. on_vegas (tcp_vegas_state env st tp) y),
     ca_cwnd_event = Some (\<lambda>env ev tp y. on_vegas (tcp_vegas_cwnd_event env ev tp) y),
     ca_undo_cwnd = None, ca_pkts_acked = Some (keep_sock tcp_yeah_pkts_acked),
     ca_get_info = Some (\<lambda>ext tp y. tcp_vegas_get_info ext tp (ye_vegas y))\<rparr>"

section \<open>The queue estimate\<close>

lemma yeah_queue_spec:
  assumes "vegas_ok True (ye_vegas y)" and "small (snd_cwnd tp)"
  shows "\<exists>q. yeah_queue tp y = Some q \<and>
    unat q = unat (snd_cwnd tp) * (unat (vg_minRTT (ye_vegas y)) - unat (baseRTT (ye_vegas y)))
      div unat (vg_minRTT (ye_vegas y))
    \<and> unat q \<le> unat (snd_cwnd tp)"
proof -
  define w b m where "w = unat (snd_cwnd tp)" and "b = unat (baseRTT (ye_vegas y))"
    and "m = unat (vg_minRTT (ye_vegas y))"
  have h: "w < 2147483648" "0 < b" "b \<le> m" "m \<le> 2147483647"
    using assms by (simp_all add: vegas_ok_def small_def w_def b_def m_def)
  have d: "unat (vg_minRTT (ye_vegas y) - baseRTT (ye_vegas y)) = m - b"
    using h(3) by (simp add: unat_sub word_le_nat_alt b_def m_def)
  have "w * (m - b) \<le> 2147483647 * 2147483647" using h by (intro mult_le_mono) auto
  then have p: "unat (snd_cwnd tp * (vg_minRTT (ye_vegas y) - baseRTT (ye_vegas y))) = w * (m - b)"
    using d by (simp add: unat_word_ariths w_def)
  have u: "unat (ucast (vg_minRTT (ye_vegas y)) :: 32 word) = m"
    using h(4) by (simp add: unat_ulong_uint m_def)
  then have nz: "(ucast (vg_minRTT (ye_vegas y)) :: 32 word) \<noteq> 0"
    using h(2,3) by (metis le_zero_eq not_gr_zero unat_0)
  have "w * (m - b) div m \<le> w * m div m" by (intro div_le_mono mult_le_mono2) simp
  also have "\<dots> = w" using h(2,3) by simp
  finally show ?thesis
    using nz by (simp add: yeah_queue_def do_div_def Let_def unat_div_distrib p u)
      (simp add: w_def b_def m_def)
qed

section \<open>Properties\<close>

text \<open>
  Early decongestion takes at most the estimated queue and at most half of the window, never
  goes below \<^verbatim>\<open>reno_count\<close>, and makes the new window the threshold; outside its condition it
  changes nothing.
\<close>

theorem yeah_decongest_bounded:
  "if 80 < unat queue \<and> reno_count y < snd_cwnd tp
   then unat (snd_cwnd (yeah_decongest queue tp y)) =
          max (unat (snd_cwnd tp) - min (unat queue) (unat (snd_cwnd tp) div 2)) (unat (reno_count y))
        \<and> snd_ssthresh (yeah_decongest queue tp y) = snd_cwnd (yeah_decongest queue tp y)
   else yeah_decongest queue tp y = tp"
proof -
  define r where "r = min (queue div TCP_YEAH_GAMMA) (drop_bit TCP_YEAH_EPSILON (snd_cwnd tp))"
  have r: "unat r = min (unat queue) (unat (snd_cwnd tp) div 2)"
    unfolding r_def unat_min unat_drop_bit_div TCP_YEAH_EPSILON_def TCP_YEAH_GAMMA_def by simp
  then have "r \<le> snd_cwnd tp" by (simp add: word_le_nat_alt)
  then have "unat (snd_cwnd tp - r) = unat (snd_cwnd tp) - unat r" by (simp add: unat_sub)
  then show ?thesis
    unfolding yeah_decongest_def r_def [symmetric] Let_def TCP_YEAH_ALPHA_def
    by (simp add: unat_max r word_less_nat_alt)
qed

text \<open>
  At a loss with a window of four packets or more YeAH gives up between an eighth and a half
  of the window.
\<close>

theorem yeah_loss:
  assumes "4 \<le> unat (snd_cwnd tp)"
  shows "\<exists>s y'. tcp_yeah_ssthresh env tp y = Some (s, y')
    \<and> unat (snd_cwnd tp) - unat (snd_cwnd tp) div 2 \<le> unat s
    \<and> unat s \<le> unat (snd_cwnd tp) - unat (snd_cwnd tp) div 8
    \<and> fast_count y' = 0 \<and> 2 \<le> unat (reno_count y')"
proof -
  define w where "w = unat (snd_cwnd tp)"
  define r where "r = (if doing_reno_now y < TCP_YEAH_RHO
     then max (min (lastQ y) (max (drop_bit 1 (snd_cwnd tp)) 2)) (drop_bit TCP_YEAH_DELTA (snd_cwnd tp))
     else max (drop_bit 1 (snd_cwnd tp)) 2)"
  have m: "unat (max (drop_bit 1 (snd_cwnd tp)) 2) = w div 2"
    using assms by (simp add: unat_max unat_drop_bit_div w_def)
  have d: "unat (drop_bit TCP_YEAH_DELTA (snd_cwnd tp)) = w div 8"
    by (simp only: unat_drop_bit_div TCP_YEAH_DELTA_def w_def) simp
  have "w div 8 \<le> unat r" "unat r \<le> w div 2"
    unfolding r_def using m d by (simp_all add: unat_max [of "min _ _"] unat_min split: if_split) linarith+
  moreover from this have "unat (snd_cwnd tp - r) = w - unat r"
    by (simp add: unat_sub word_le_nat_alt w_def)
  moreover have "2 \<le> unat (max (drop_bit 1 (reno_count y)) 2)" by (simp add: unat_max)
  ultimately show ?thesis
    unfolding tcp_yeah_ssthresh_def r_def [symmetric] Let_def w_def [symmetric]
    by (simp add: diff_le_mono2)
qed

definition example_yeah :: yeah where
  "example_yeah = \<lparr>ye_vegas = \<lparr>beg_snd_nxt = 40000, beg_snd_una = 20000, beg_snd_cwnd = 20,
     doing_vegas_now = 1, cntRTT = 5, vg_minRTT = 120, baseRTT = 100\<rparr>, lastQ = 3, doing_reno_now = 20,
     reno_count = 2, fast_count = 0, ye_pkts_acked = 1\<rparr>"

theorem yeah_loss_witness:
  "\<exists>s y'. tcp_yeah_ssthresh example_env (example_sock 20 5) example_yeah = Some (s, y') \<and> 10 \<le> unat s"
  using yeah_loss [of "example_sock 20 5" example_env example_yeah] by (auto simp: example_sock_def)

text \<open>
  With a window of one packet, after sixteen round trips of competition with Reno, the
  threshold after a loss underflows: the reduction is two packets, and the result \<open>2 ^ 64 - 1\<close>.
\<close>

theorem yeah_loss_underflow:
  assumes "snd_cwnd tp = 1" and "\<not> doing_reno_now y < TCP_YEAH_RHO"
  shows "\<exists>y'. tcp_yeah_ssthresh env tp y = Some (- 1, y')"
proof -
  have "max (drop_bit 1 (1 :: u32)) 2 = 2" by simp
  then show ?thesis using assms by (simp add: tcp_yeah_ssthresh_def Let_def)
qed

theorem yeah_loss_underflow_witness:
  "\<exists>y'. tcp_yeah_ssthresh example_env (example_sock 1 5) example_yeah = Some (18446744073709551615, y')"
  using yeah_loss_underflow [of "example_sock 1 5" example_yeah example_env]
  by (auto simp: example_sock_def example_yeah_def TCP_YEAH_RHO_def)

text \<open>
  A call of \<^verbatim>\<open>tcp_yeah_cong_avoid\<close> returns on every usable socket with ordered round trip
  times, and keeps them ordered.
\<close>

theorem yeah_cong_avoid_total:
  assumes "sock_ok tp" and "unat (snd_cwnd tp) < 2147483646" and "vegas_ok True (ye_vegas y)"
  shows "\<exists>tp' y'. tcp_yeah_cong_avoid env ack rtt in_flight flag tp y = Some (tp', y')
    \<and> vegas_ok True (ye_vegas y') \<and> snd_cwnd tp' \<noteq> 0"
proof -
  obtain t where t: "tcp_slow_start env tp = Some t" "sock_ok t"
    using sock_ok_slow_start [OF assms(1)] by blast
  have inc: "small (snd_cwnd tp + 1)" "snd_cwnd tp + 1 \<noteq> 0"
    using assms(2) by (auto simp: small_def unat_word_ariths simp flip: unat_eq_zero)
  have "\<exists>g v. yeah_grow env tp y = Some (g, v) \<and> sock_ok g \<and> ye_vegas v = ye_vegas y"
    using t assms(1) inc by (simp add: yeah_grow_def Let_def sock_ok_bump sock_ok_cwnd)
  then obtain g v where g: "yeah_grow env tp y = Some (g, v)" "sock_ok g" "ye_vegas v = ye_vegas y"
    by blast
  obtain q where q: "yeah_queue g v = Some q"
    using yeah_queue_spec [of v g] g(2,3) assms(3) by (auto simp: sock_ok_def)
  have "snd_cwnd (yeah_decongest q g v) \<noteq> 0"
    using yeah_decongest_bounded [of q v g] g(2)
    by (auto simp: sock_ok_def split: if_splits simp flip: unat_eq_zero)
  then have d: "snd_cwnd (fst (yeah_decide q g v)) \<noteq> 0" "ye_vegas (snd (yeah_decide q g v)) = ye_vegas v"
    using g(2) by (auto simp: yeah_decide_def Let_def sock_ok_def)
  show ?thesis
    using g q d assms by (auto simp: tcp_yeah_cong_avoid_def vegas_ok_def sock_ok_def split: prod.split)
qed

theorem yeah_cong_avoid_total_witness:
  "\<exists>tp' y'. tcp_yeah_cong_avoid example_env 60000 0 20 0 (example_sock 20 5) example_yeah = Some (tp', y')
    \<and> snd_cwnd tp' \<noteq> 0"
  using yeah_cong_avoid_total [of "example_sock 20 5" example_yeah example_env 60000 0 20 0]
  by (auto simp: small_def vegas_ok_def example_yeah_def) (auto simp: example_sock_def)

end
