(* ===== verification/Compound.thy ===== *)
theory Compound
  imports Reno
begin

text \<open>
  TCP Compound, \<^verbatim>\<open>tcp/linux/src/tcp_compound.c\<close>: the window is the sum of a Reno window
  \<^verbatim>\<open>cwnd\<close> and a delay window \<^verbatim>\<open>dwnd\<close>, which grows with the three-quarter power of the window
  while the Vegas estimate of the queue is short.  The quartic root of the growth is found by a
  Newton iteration.
\<close>

section \<open>State\<close>

definition CP_SHIFT :: nat where "CP_SHIFT = 1"
definition TCP_COMPOUND_ALPHA :: nat where "TCP_COMPOUND_ALPHA = 3"
definition TCP_COMPOUND_BETA :: u32 where "TCP_COMPOUND_BETA = 1"
definition TCP_COMPOUND_GAMMA :: cint where "TCP_COMPOUND_GAMMA = 30"

record compound =
  cp_beg_snd_nxt :: u32
  cp_beg_snd_una :: u32
  cp_beg_snd_cwnd :: u32
  cp_doing_vegas_now :: u8
  cp_cntRTT :: u16
  cp_minRTT :: u32
  cp_baseRTT :: u32
  cp_cwnd :: u32
  cp_dwnd :: u32

section \<open>Sampling\<close>

definition cvegas_enable :: "tcp_sock \<Rightarrow> compound \<Rightarrow> compound" where
  "cvegas_enable tp v = v\<lparr>cp_doing_vegas_now := 1, cp_beg_snd_nxt := snd_nxt tp, cp_cntRTT := 0,
     cp_minRTT := 0x7fffffff\<rparr>"

definition cvegas_disable :: "compound \<Rightarrow> compound" where
  "cvegas_disable v = v\<lparr>cp_doing_vegas_now := 0\<rparr>"

definition tcp_compound_init :: "env \<Rightarrow> tcp_sock \<Rightarrow> compound \<Rightarrow> (tcp_sock \<times> compound) option" where
  "tcp_compound_init env tp v =
     Some (tp, (cvegas_enable tp (v\<lparr>cp_baseRTT := 0x7fffffff\<rparr>))\<lparr>cp_dwnd := 0, cp_cwnd := snd_cwnd tp\<rparr>)"

definition tcp_compound_rtt_calc :: "env \<Rightarrow> u32 \<Rightarrow> tcp_sock \<Rightarrow> compound \<Rightarrow> compound option" where
  "tcp_compound_rtt_calc env usrtt tp v =
     (let vrtt = usrtt + 1;
          v = (if vrtt < cp_baseRTT v then v\<lparr>cp_baseRTT := vrtt\<rparr> else v)
      in Some (v\<lparr>cp_minRTT := min (cp_minRTT v) vrtt, cp_cntRTT := cp_cntRTT v + 1\<rparr>))"

definition tcp_compound_state :: "env \<Rightarrow> u8 \<Rightarrow> tcp_sock \<Rightarrow> compound \<Rightarrow> (tcp_sock \<times> compound) option" where
  "tcp_compound_state env ca_state tp v =
     Some (tp, if ca_state = TCP_CA_Open then cvegas_enable tp v else cvegas_disable v)"

definition tcp_compound_cwnd_event ::
    "env \<Rightarrow> tcp_ca_event \<Rightarrow> tcp_sock \<Rightarrow> compound \<Rightarrow> (tcp_sock \<times> compound) option" where
  "tcp_compound_cwnd_event env event tp v =
     (if event = CA_EVENT_CWND_RESTART \<or> event = CA_EVENT_TX_START then tcp_compound_init env tp v
      else Some (tp, v))"

section \<open>The quartic root\<close>

definition cdiv64_64 :: "u64 \<Rightarrow> u64 \<Rightarrow> u64 option" where
  "cdiv64_64 dividend divisor =
     (let shift = unat (fls (ucast (drop_bit 32 divisor)));
          (d, dividend) = (if 0xffffffff < divisor
                           then (drop_bit shift divisor, drop_bit shift dividend)
                           else (divisor, dividend))
      in if drop_bit 32 dividend \<noteq> 0 then map_option fst (do_div dividend (ucast d))
         else udiv dividend d)"

text \<open>\<^verbatim>\<open>abs\<close> takes an \<^verbatim>\<open>int\<close>: the difference is truncated to 32 bits.\<close>

definition c_abs :: "cint \<Rightarrow> cint" where
  "c_abs i = (if i <s 0 then - i else i)"

partial_function (option) qroot_loop :: "u64 \<Rightarrow> u32 \<Rightarrow> u32 option" where
  "qroot_loop a x =
     Option.bind (cdiv64_64 a (x * x * x)) (\<lambda>q.
       let x' = (3 * x + q) div 4
       in if 1 <s c_abs (ucast (x - x')) then qroot_loop a x' else Some x')"

definition qroot :: "u64 \<Rightarrow> u32 option" where
  "qroot a = qroot_loop a (uint_ulong (push_bit (unat (drop_bit 2 (fls64 a))) 1))"

section \<open>Congestion avoidance\<close>

text \<open>The two windows follow a change of their sum from outside.\<close>

definition compound_sync :: "tcp_sock \<Rightarrow> compound \<Rightarrow> compound" where
  "compound_sync tp v =
     (if snd_cwnd tp < cp_cwnd v + cp_dwnd v then
        if snd_cwnd tp < cp_cwnd v \<or> snd_cwnd tp < cp_dwnd v
        then v\<lparr>cp_cwnd := snd_cwnd tp, cp_dwnd := 0\<rparr>
        else v\<lparr>cp_cwnd := snd_cwnd tp - cp_dwnd v\<rparr>
      else v)"

definition compound_count :: "tcp_sock \<Rightarrow> compound \<Rightarrow> tcp_sock \<times> compound" where
  "compound_count tp v =
     (let (inc, tp) = (if cp_cwnd v \<le> snd_ssthresh tp then (True, tp)
                       else (False, if uint_ulong (snd_cwnd_cnt tp) < snd_cwnd tp
                                    then tp\<lparr>snd_cwnd_cnt := snd_cwnd_cnt tp + 1\<rparr> else tp));
          (inc, tp) = (if snd_cwnd tp \<le> uint_ulong (snd_cwnd_cnt tp)
                       then (True, tp\<lparr>snd_cwnd_cnt := 0\<rparr>) else (inc, tp))
      in (tp, if inc \<and> snd_cwnd tp < uint_ulong (snd_cwnd_clamp tp)
              then v\<lparr>cp_cwnd := cp_cwnd v + 1\<rparr> else v))"

text \<open>The new delay window, from the window of the last round trip and the queue estimate.\<close>

definition compound_dwnd :: "u32 \<Rightarrow> u32 \<Rightarrow> u32 \<Rightarrow> u32 option" where
  "compound_dwnd old_wnd diff dwnd =
     (if diff < int_ulong (push_bit CP_SHIFT TCP_COMPOUND_GAMMA) then do {
        r \<leftarrow> qroot (old_wnd * old_wnd * old_wnd);
        let x = drop_bit TCP_COMPOUND_ALPHA r;
        Some ((if 1 < x then x - 1 else 0) + dwnd)
      }
      else if push_bit CP_SHIFT dwnd < diff * TCP_COMPOUND_BETA then Some 0
      else Some (drop_bit CP_SHIFT (push_bit CP_SHIFT dwnd - diff * TCP_COMPOUND_BETA)))"

text \<open>
  The adjustment once per round trip.  The flag is false after one of the early returns,
  which skip the assignment of the window.
\<close>

definition compound_round :: "tcp_sock \<Rightarrow> compound \<Rightarrow> (bool \<times> compound) option" where
  "compound_round tp v =
     (if mss_cache tp = 0 then Some (False, v)
      else do {
        old_wnd \<leftarrow> udiv (cp_beg_snd_nxt v - cp_beg_snd_una v) (mss_cache tp);
        let v = v\<lparr>cp_beg_snd_una := cp_beg_snd_nxt v\<rparr>;
        let v = v\<lparr>cp_beg_snd_nxt := snd_nxt tp, cp_beg_snd_cwnd := snd_cwnd tp\<rparr>;
        if 2 < cp_cntRTT v then
          let rtt = cp_minRTT v in
          if rtt = 0 then Some (False, v)
          else do {
            target_cwnd \<leftarrow> udiv (push_bit CP_SHIFT (old_wnd * cp_baseRTT v)) rtt;
            let diff = push_bit CP_SHIFT old_wnd - target_cwnd;
            dwnd \<leftarrow> compound_dwnd old_wnd diff (cp_dwnd v);
            Some (True, v\<lparr>cp_dwnd := dwnd, cp_cntRTT := 0, cp_minRTT := 0x7fffffff\<rparr>)
          }
        else Some (True, v\<lparr>cp_cntRTT := 0, cp_minRTT := 0x7fffffff\<rparr>)
      })"

definition tcp_compound_cong_avoid ::
    "env \<Rightarrow> u32 \<Rightarrow> u32 \<Rightarrow> u32 \<Rightarrow> cint \<Rightarrow> tcp_sock \<Rightarrow> compound \<Rightarrow> (tcp_sock \<times> compound) option" where
  "tcp_compound_cong_avoid env ack seq_rtt in_flight flag tp v =
     (let v = compound_sync tp v in
      if \<not> tcp_is_cwnd_limited tp in_flight then Some (tp, v)
      else
        let (tp, v) = compound_count tp v in do {
          (fin, v) \<leftarrow> (if after ack (cp_beg_snd_nxt v) then compound_round tp v else Some (True, v));
          Some (if fin then tp\<lparr>snd_cwnd := cp_cwnd v + cp_dwnd v\<rparr> else tp, v)
        })"

text \<open>The information for netlink is written through a null pointer, if it is asked for.\<close>

definition tcp_compound_get_info :: "u32 \<Rightarrow> tcp_sock \<Rightarrow> compound \<Rightarrow> unit option" where
  "tcp_compound_get_info ext sk v = (if ext AND 1 \<noteq> 0 then None else Some ())"

definition tcp_compound :: "compound ca_ops" where
  "tcp_compound = \<lparr>ca_flags = TCP_CONG_RTT_STAMP, ca_name = ''compound'',
     ca_init = Some tcp_compound_init, ca_ssthresh = (\<lambda>env tp p. Some (tcp_reno_ssthresh tp, p)),
     ca_min_cwnd = Some (\<lambda>tp p. Some (tcp_reno_min_cwnd tp)),
     ca_cong_avoid = tcp_compound_cong_avoid, ca_rtt_sample = Some tcp_compound_rtt_calc,
     ca_set_state = Some tcp_compound_state, ca_cwnd_event = Some tcp_compound_cwnd_event,
     ca_undo_cwnd = None, ca_pkts_acked = None, ca_get_info = Some tcp_compound_get_info\<rparr>"

section \<open>The division is the one of the shim\<close>

lemma uint_ulong_ucast: "unat d < 2 ^ 32 \<Longrightarrow> uint_ulong (ucast d) = d"
  by (simp add: word_unat_eq_iff unat_ulong_uint)

lemma do_div_udiv: "unat d < 2 ^ 32 \<Longrightarrow> map_option fst (do_div n (ucast d)) = udiv n d"
  using uint_ulong_ucast [of d] by (auto simp: do_div_def udiv_def)

lemma cdiv64_64_eq: "cdiv64_64 n d = div64_64 n d"
proof (cases "0xffffffff < d")
  case False
  then have d: "unat d < 2 ^ 32" by (simp add: word_less_nat_alt)
  then have "unat (drop_bit 32 d) = 0" by (simp add: unat_drop_bit_div)
  then have "drop_bit 32 d = 0" by (simp only: unat_eq_zero)
  then show ?thesis
    using False do_div_udiv [OF d] by (simp add: cdiv64_64_def div64_64_def)
next
  case True
  define h where "h = (ucast (drop_bit 32 d) :: cint)"
  have "unat (drop_bit 32 d) < 2 ^ 32"
    using unat64_less [of d] by (simp add: unat_drop_bit_div less_mult_imp_div_less)
  then have h: "unat h = unat d div 2 ^ 32" by (simp add: h_def unat_ulong_uint unat_drop_bit_div)
  have "2 ^ 32 \<le> unat d" using True by (simp add: word_less_nat_alt)
  then have "unat h \<noteq> 0" unfolding h by (simp add: div_eq_0_iff)
  then have nz: "h \<noteq> 0" by auto
  define s where "s = unat (fls h)"
  have "unat d < (unat h + 1) * 2 ^ 32" unfolding h by (rule less_Suc_div_mult) simp
  also have "\<dots> \<le> 2 ^ s * 2 ^ 32" using fls_bounds(4) [OF nz] by (intro mult_le_mono1) (simp add: s_def)
  finally have "unat (drop_bit s d) < 2 ^ 32"
    by (simp add: unat_drop_bit_div less_mult_imp_div_less mult.commute)
  then show ?thesis
    using True nz do_div_udiv [of "drop_bit s d"]
    by (simp add: cdiv64_64_def div64_64_def h_def [symmetric] s_def [symmetric] Let_def)
qed

section \<open>The test of the iteration\<close>

lemma c_abs_diff:
  assumes "unat x < 2 ^ 30" and "unat y < 2 ^ 30"
  shows "1 <s c_abs (ucast (x - y)) \<longleftrightarrow> 1 < \<bar>int (unat x) - int (unat (y :: u32))\<bar>"
proof -
  define k where "k = int (unat x) - int (unat y)"
  have "int (unat x) < 2 ^ 30" "int (unat y) < 2 ^ 30"
    using assms of_nat_less_iff [of "unat x" "2 ^ 30", where 'a=int]
      of_nat_less_iff [of "unat y" "2 ^ 30", where 'a=int] by simp_all
  then have k: "\<bar>k\<bar> < 2 ^ 30" unfolding k_def by linarith
  have "x - y = word_of_int k" by (simp add: k_def)
  then have "(ucast (x - y) :: cint) = word_of_int k"
    by (intro bit_word_eqI) (simp add: bit_simps)
  then have c: "c_abs (ucast (x - y)) = (if (word_of_int k :: cint) <s 0 then word_of_int (- k) else word_of_int k)"
    by (simp add: c_abs_def)
  have s: "sint (word_of_int j :: cint) = j" if "\<bar>j\<bar> < 2 ^ 30" for j
    using that by (simp add: sint_word_ariths signed_take_bit_int_eq_self sint_sbintrunc')
  have "1 <s c_abs (ucast (x - y)) \<longleftrightarrow> 1 < \<bar>k\<bar>"
    unfolding c using s [of k] s [of "- k"] k by (simp add: word_sless_alt del: of_int_minus)
  then show ?thesis by (simp only: k_def)
qed

section \<open>The iteration over the natural numbers\<close>

lemma quartic_root_exists: "\<exists>r. r ^ 4 \<le> A \<and> A < (r + 1) ^ 4" for A :: nat
proof (induction A)
  case 0
  show ?case by (intro exI [of _ 0]) simp
next
  case (Suc A)
  then obtain r where r: "r ^ 4 \<le> A" "A < (r + 1) ^ 4" by blast
  show ?case
  proof (cases "Suc A < (r + 1) ^ 4")
    case True
    then show ?thesis using r(1) by (intro exI [of _ r]) simp
  next
    case False
    then have "Suc A = (r + 1) ^ 4" using r(2) by simp
    moreover have "(r + 1) ^ 4 < (r + 1 + 1) ^ 4" by (rule power_strict_mono) auto
    ultimately show ?thesis by (intro exI [of _ "r + 1"]) simp
  qed
qed

text \<open>No step goes below the root (the inequality of the means), or above a larger point.\<close>

lemma newton4_lower:
  fixes r X Q A :: nat
  assumes "0 < X" and "r ^ 4 \<le> A" and "A div X ^ 3 \<le> Q"
  shows "r \<le> (3 * X + Q) div 4"
proof (rule ccontr)
  assume "\<not> r \<le> (3 * X + Q) div 4"
  then have "3 * X + Q < 4 * r" by linarith
  then have Q: "Q + 1 \<le> 4 * r - 3 * X" and le: "3 * X \<le> 4 * r" by linarith+
  have "A < (A div X ^ 3 + 1) * X ^ 3" by (rule less_Suc_div_mult) (use assms(1) in simp)
  also have "\<dots> \<le> (4 * r - 3 * X) * X ^ 3"
    using assms(3) Q by (intro mult_le_mono1) linarith
  finally have "r ^ 4 < (4 * r - 3 * X) * X ^ 3" using assms(2) by linarith
  then have "int (r ^ 4) < int ((4 * r - 3 * X) * X ^ 3)" by (simp only: of_nat_less_iff)
  then have "int r ^ 4 < (4 * int r - 3 * int X) * int X ^ 3" using le by (simp add: of_nat_diff)
  moreover have "int r ^ 4 - (4 * int r - 3 * int X) * int X ^ 3 =
      (int r - int X) ^ 2 * ((int r + int X) ^ 2 + 2 * int X ^ 2)" by algebra
  moreover have "0 \<le> (int r - int X) ^ 2 * ((int r + int X) ^ 2 + 2 * int X ^ 2)" by simp
  ultimately show False by linarith
qed

lemma newton4_above:
  fixes r X Q A :: nat
  assumes "r < X" and "A < (r + 1) ^ 4" and "Q \<le> A div X ^ 3 + 2"
  shows "(3 * X + Q) div 4 \<le> X"
proof -
  have "A < X ^ 4" using assms(1,2) power_mono [of "r + 1" X 4] by linarith
  then have "A < X * X ^ 3" by (simp add: power_numeral_reduce)
  then have "A div X ^ 3 < X" by (rule less_mult_imp_div_less)
  then show ?thesis using assms(3) by linarith
qed

text \<open>At the root itself the iteration ends, but for roots under 4 when the quotient is inexact.\<close>

lemma newton4_at:
  fixes r Q A :: nat
  assumes "3 \<le> r" and "A < (r + 1) ^ 4" and "Q \<le> A div r ^ 3 + 2" and "r ^ 3 < 2 ^ 32 \<Longrightarrow> Q = A div r ^ 3"
  shows "(3 * r + Q) div 4 \<le> r + 1"
proof -
  have "A < (r + 6) * r ^ 3" if "4 \<le> r"
  proof -
    have "6 * r ^ 2 + 4 * r + 1 \<le> 2 * (r * r ^ 2)"
    proof -
      have "4 * r \<le> r ^ 2" using that by (simp add: power2_eq_square)
      moreover have "1 \<le> r ^ 2" using that by simp
      moreover have "4 * r ^ 2 \<le> r * r ^ 2" using that by (intro mult_le_mono1)
      ultimately show ?thesis by linarith
    qed
    moreover have "(r + 1) ^ 4 = r ^ 4 + 4 * r ^ 3 + 6 * r ^ 2 + 4 * r + 1" by algebra
    moreover have "(r + 6) * r ^ 3 = r ^ 4 + 6 * r ^ 3" by algebra
    moreover have "r * r ^ 2 = r ^ 3" by algebra
    ultimately show ?thesis using assms(2) by linarith
  qed
  then have "A div r ^ 3 < r + 6" if "4 \<le> r" using that by (intro less_mult_imp_div_less) simp
  moreover have "Q \<le> 9" if "r = 3"
  proof -
    have "A div 27 \<le> 9" using assms(2) that by simp
    then show ?thesis using assms(4) that by simp
  qed
  ultimately show ?thesis using assms(1,3) by (cases "r = 3") (simp, linarith)
qed

text \<open>
  A step from above that ends the iteration ends at most one above the root; for \<open>A < 16\<close> the
  point may be two above it.
\<close>

lemma newton4_stop:
  fixes r X Q A Y :: nat
  assumes X: "r < X" "0 < r" and A: "A < (r + 1) ^ 4"
    and Q: "Q \<le> A div X ^ 3 + 2" "X ^ 3 < 2 ^ 32 \<Longrightarrow> Q = A div X ^ 3"
    and Y: "Y = (3 * X + Q) div 4" "X \<le> Y + 1"
  shows "Y \<le> r + (if A < 16 then 2 else 1)"
proof (rule ccontr)
  assume "\<not> Y \<le> r + (if A < 16 then 2 else 1)"
  then have far: "r + 2 \<le> Y" "A < 16 \<Longrightarrow> r + 3 \<le> Y" by (auto split: if_splits)
  have YX: "Y \<le> X" using newton4_above [OF X(1) A Q(1)] Y(1) by simp
  define d where "d = A div X ^ 3"
  have d: "d * X ^ 3 \<le> A" by (simp add: d_def)
  have dlow: "c * X ^ 3 \<le> A" if "c \<le> d" for c using d that by (meson le_trans mult_le_mono1)
  have Alow: "A < m ^ 4" if "r + 1 \<le> m" for m using A power_mono [OF that, of 4] by linarith
  have q: "4 * Y \<le> 3 * X + Q" using Y(1) by linarith
  show False
  proof (cases "X < 12")
    case True
    then have "X ^ 3 < 12 ^ 3" by (intro power_strict_mono) auto
    then have Qd: "Q = d" using Q(2) by (simp add: d_def)
    have "Y \<noteq> X"
    proof
      assume "Y = X"
      then have "X \<le> d" "r + 1 \<le> X" using q Qd far(1) by linarith+
      moreover have "X * X ^ 3 = X ^ 4" by algebra
      ultimately show False using dlow [of X] Alow [of X] by simp
    qed
    then have Y1: "Y + 1 = X" using YX Y(2) by linarith
    show False
    proof (cases "X \<le> 4")
      case True
      then have "r = 1" using far(1) X(2) Y1 by linarith
      then have "A < 16" using Alow [of 2] by simp
      then show False using far(2) \<open>r = 1\<close> True Y1 by linarith
    next
      case False
      then have "5 \<le> X" by linarith
      then obtain t where t: "X = t + 5" by (metis add.commute le_Suc_ex)
      have "r + 1 \<le> t + 3" "t + 1 \<le> d" using far(1) q Qd Y1 t by linarith+
      moreover have "(t + 3) ^ 4 \<le> (t + 1) * (t + 5) ^ 3"
      proof -
        have "(t + 1) * (t + 5) ^ 3 = (t + 3) ^ 4 + 4 * t ^ 3 + 36 * t ^ 2 + 92 * t + 44"
          by algebra
        then show ?thesis by simp
      qed
      ultimately show False using dlow [of "t + 1"] Alow [of "t + 3"] by (simp add: t)
    qed
  next
    case False
    then obtain t where t: "X = t + 12" by (metis add.commute le_Suc_ex not_less)
    have Qd: "Q \<le> d + 2" using Q(1) by (simp add: d_def)
    have "Y = X \<or> Y + 1 = X" using YX Y(2) by linarith
    then show False
    proof
      assume "Y = X"
      then have "t + 10 \<le> d" "r + 1 \<le> t + 11" using q Qd t far(1) by linarith+
      moreover have "(t + 11) ^ 4 \<le> (t + 10) * (t + 12) ^ 3"
      proof -
        have "(t + 10) * (t + 12) ^ 3 = (t + 11) ^ 4 + 2 * t ^ 3 + 66 * t ^ 2 + 724 * t + 2639"
          by algebra
        then show ?thesis by simp
      qed
      ultimately show False using dlow [of "t + 10"] Alow [of "t + 11"] by (simp add: t)
    next
      assume "Y + 1 = X"
      then have "t + 6 \<le> d" "r + 1 \<le> t + 10" using q Qd t far(1) by linarith+
      moreover have "(t + 10) ^ 4 \<le> (t + 6) * (t + 12) ^ 3"
      proof -
        have "(t + 6) * (t + 12) ^ 3 = (t + 10) ^ 4 + 2 * t ^ 3 + 48 * t ^ 2 + 320 * t + 368"
          by algebra
        then show ?thesis by simp
      qed
      ultimately show False using dlow [of "t + 6"] Alow [of "t + 10"] by (simp add: t)
    qed
  qed
qed

section \<open>The iteration on machine words\<close>

lemma qroot_step:
  assumes X: "X = unat x" "0 < X" "X < 2 ^ 18" and b: "unat a div X ^ 3 \<le> 16 * X"
  shows "\<exists>y Q. qroot_loop a x = (if 1 < \<bar>int X - int (unat y)\<bar> then qroot_loop a y else Some y)
    \<and> unat y = (3 * X + Q) div 4 \<and> unat a div X ^ 3 \<le> Q \<and> Q \<le> unat a div X ^ 3 + 2
    \<and> (X ^ 3 < 2 ^ 32 \<longrightarrow> Q = unat a div X ^ 3)"
proof -
  have "X ^ 3 < (2 ^ 18) ^ 3" using X(3) by (intro power_strict_mono) auto
  then have c: "X * X * X < 2 ^ 54" by (simp add: power3_eq_cube)
  have "X * X < 2 ^ 18 * 2 ^ 18" using X(3) by (intro mult_strict_mono) auto
  then have x3: "unat (x * x * x) = X ^ 3"
    using c X(1) by (simp add: unat_word_ariths power3_eq_cube)
  then have "x * x * x \<noteq> 0" using X(2) by (metis power_eq_0_iff not_gr_zero unat_0)
  then obtain q where q: "div64_64 a (x * x * x) = Some q" "unat a div X ^ 3 \<le> unat q"
    "unat q \<le> unat a div X ^ 3 + 2" "X ^ 3 < 2 ^ 32 \<longrightarrow> unat q = unat a div X ^ 3"
    using div64_64_spec [of "x * x * x" a] unfolding x3 by blast
  define y where "y = (3 * x + q) div 4"
  have q2: "unat q \<le> 16 * X + 2" using q(3) b by linarith
  have "unat (3 * x + q) = 3 * X + unat q"
    using X(1,3) q2 by (simp add: unat_word_ariths)
  then have y: "unat y = (3 * X + unat q) div 4" by (simp add: y_def unat_div_distrib)
  then have "unat y < 2 ^ 30" using q2 X(3) by simp
  then have t: "1 <s c_abs (ucast (x - y)) \<longleftrightarrow> 1 < \<bar>int X - int (unat y)\<bar>"
    using c_abs_diff [of x y] X(1,3) by simp
  have "qroot_loop a x = (if 1 < \<bar>int X - int (unat y)\<bar> then qroot_loop a y else Some y)"
    by (subst qroot_loop.simps) (simp only: cdiv64_64_eq q(1) bind.bind_lunit Let_def y_def [symmetric] t)
  then show ?thesis using y q(2-4) by blast
qed

lemma quotient_bound:
  fixes A r X :: nat
  assumes "A < (r + 1) ^ 4" and "r \<le> X" and "0 < X"
  shows "A div X ^ 3 \<le> 16 * X"
proof -
  have "(r + 1) ^ 4 \<le> (2 * X) ^ 4" using assms(2,3) by (intro power_mono) auto
  also have "\<dots> = 16 * X * X ^ 3" by algebra
  finally have "A < 16 * X * X ^ 3" using assms(1) by simp
  then show ?thesis by (simp add: less_mult_imp_div_less less_imp_le)
qed

definition qroot_measure :: "nat \<Rightarrow> nat \<Rightarrow> nat" where
  "qroot_measure r X = (if X = r \<and> r \<le> 2 then 5 else X)"

lemma qroot_at_small:
  fixes A r Q :: nat
  assumes "0 < r" "r \<le> 2" and "A < (r + 1) ^ 4" and "Q = A div r ^ 3"
  shows "(3 * r + Q) div 4 \<le> 4"
proof -
  have p: "(1 + 1 :: nat) ^ 4 = 16" "(2 + 1 :: nat) ^ 4 = 81" by (simp_all del: One_nat_def)
  show ?thesis
  proof (cases "r = 1")
    case True
    then have "A < 16" using assms(3) by (simp only: p)
    then show ?thesis using True assms(4) by simp
  next
    case False
    then have r: "r = 2" using assms(1,2) by linarith
    then have "A < 81" using assms(3) by (simp only: p)
    then have "A div 2 ^ 3 \<le> 10" by simp
    then show ?thesis using r assms(4) by simp
  qed
qed

lemma qroot_loop_returns:
  assumes r: "0 < r" "r ^ 4 \<le> unat a" "unat a < (r + 1) ^ 4"
  shows "r \<le> unat x \<Longrightarrow> unat x < 2 ^ 18 \<Longrightarrow> \<exists>y. qroot_loop a x = Some y \<and> r \<le> unat y
    \<and> unat y \<le> r + (if unat a < 16 then 2 else 1)"
proof (induction x rule: measure_induct_rule [of "\<lambda>x. qroot_measure r (unat x)"])
  case (less x)
  define X where "X = unat x"
  have X: "0 < X" "r \<le> X" "X < 2 ^ 18" using less.prems r(1) by (simp_all add: X_def)
  obtain y Q where y: "qroot_loop a x = (if 1 < \<bar>int X - int (unat y)\<bar> then qroot_loop a y else Some y)"
    "unat y = (3 * X + Q) div 4" "unat a div X ^ 3 \<le> Q" "Q \<le> unat a div X ^ 3 + 2"
    "X ^ 3 < 2 ^ 32 \<longrightarrow> Q = unat a div X ^ 3"
    using qroot_step [OF X_def X(1,3) quotient_bound [OF r(3) X(2,1)]] by blast
  have low: "r \<le> unat y" using newton4_lower [OF X(1) r(2) y(3)] y(2) by simp
  show ?case
  proof (cases "r < X")
    case True
    have le: "unat y \<le> X" using newton4_above [OF True r(3) y(4)] y(2) by simp
    show ?thesis
    proof (cases "X \<le> unat y + 1")
      case stop: True
      have "unat y \<le> r + (if unat a < 16 then 2 else 1)"
        using newton4_stop [OF True r(1,3) y(4) _ y(2) stop] y(5) by blast
      moreover have "\<not> 1 < \<bar>int X - int (unat y)\<bar>" using stop le by linarith
      ultimately show ?thesis using y(1) low by simp
    next
      case False
      have "qroot_measure r (unat y) < qroot_measure r X"
        using False le low True y(2) by (auto simp: qroot_measure_def)
      moreover have "1 < \<bar>int X - int (unat y)\<bar>" using False by linarith
      ultimately show ?thesis
        using less.IH [of y] low le X(3) y(1) by (simp add: X_def)
    qed
  next
    case False
    then have Xr: "X = r" using X(2) by simp
    show ?thesis
    proof (cases "3 \<le> r")
      case True
      have "unat y \<le> r + 1"
        using newton4_at [OF True r(3) y(4) [unfolded Xr]] y(2,5) unfolding Xr by simp
      moreover from this have "\<not> 1 < \<bar>int X - int (unat y)\<bar>" using low Xr by linarith
      ultimately show ?thesis using y(1) low by simp
    next
      case False
      then have "r ^ 3 \<le> 2 ^ 3" by (intro power_mono) auto
      then have Q: "Q = unat a div r ^ 3" using y(5) Xr by simp
      then have y4: "unat y \<le> 4" using qroot_at_small [OF r(1) _ r(3), of Q] False y(2) Xr by simp
      show ?thesis
      proof (cases "1 < \<bar>int X - int (unat y)\<bar>")
        case True
        then have "qroot_measure r (unat y) < qroot_measure r X"
          using y4 low Xr False by (auto simp: qroot_measure_def)
        then show ?thesis using less.IH [of y] low y4 y(1) True by (simp add: X_def)
      next
        case False
        then have "unat y \<le> r + 1" using Xr by linarith
        then show ?thesis using False low y(1) by simp
      qed
    qed
  qed
qed

lemma qroot_returns:
  "\<exists>y r. qroot a = Some y \<and> r ^ 4 \<le> unat a \<and> unat a < (r + 1) ^ 4 \<and> r \<le> unat y
    \<and> unat y \<le> r + (if unat a < 16 then 2 else 1)"
proof (cases "a = 0")
  case True
  have "qroot_loop 0 1 = Some 0"
    by (subst qroot_loop.simps) (simp add: cdiv64_64_def udiv_def c_abs_def word_sless_alt)
  then have "qroot a = Some 0" using True by (simp add: qroot_def fls64_def)
  then show ?thesis using True by (intro exI [of _ 0]) simp
next
  case False
  define A where "A = unat a"
  obtain r where r: "r ^ 4 \<le> A" "A < (r + 1) ^ 4" using quartic_root_exists by blast
  have "A \<noteq> 0" using False by (simp add: A_def unat_eq_zero)
  then have r0: "0 < r" using r(2) by (cases "r = 0") auto
  define F where "F = unat (fls64 a)"
  have F: "F \<le> 64" "A < 2 ^ F" using fls64_bounds [OF False] by (simp_all add: F_def A_def)
  define x :: u32 where "x = uint_ulong (push_bit (unat (drop_bit 2 (fls64 a))) 1)"
  define X :: nat where "X = 2 ^ (F div 4)"
  have s: "unat (drop_bit 2 (fls64 a)) = F div 4" by (simp add: unat_drop_bit_div F_def)
  have "X \<le> 2 ^ 16" unfolding X_def using F(1) by (intro power_increasing) auto
  moreover have "unat x = X mod 2 ^ 32" unfolding x_def s unat_uint_ulong unat_push_bit by (simp add: X_def)
  ultimately have X: "X = unat x" "0 < X" "X < 2 ^ 18" "X \<le> 2 ^ 16" by (simp_all add: X_def)
  have "F \<le> 4 * (F div 4) + 3" by linarith
  then have "A < 2 ^ (4 * (F div 4) + 3)"
    using F(2) power_increasing [of F "4 * (F div 4) + 3" "2::nat"] by linarith
  also have "(2 :: nat) ^ (4 * (F div 4) + 3) = 8 * X ^ 4"
    unfolding X_def power_add power_mult [symmetric] by (simp add: mult.commute)
  also have "\<dots> = 8 * X * X ^ 3" by algebra
  finally have b: "A div X ^ 3 < 8 * X" by (rule less_mult_imp_div_less)
  have b16: "unat a div X ^ 3 \<le> 16 * X" using b by (simp add: A_def)
  obtain y Q where y: "qroot_loop a x = (if 1 < \<bar>int X - int (unat y)\<bar> then qroot_loop a y else Some y)"
    "unat y = (3 * X + Q) div 4" "A div X ^ 3 \<le> Q" "Q \<le> A div X ^ 3 + 2" "X ^ 3 < 2 ^ 32 \<longrightarrow> Q = A div X ^ 3"
    using qroot_step [OF X(1-3) b16] unfolding A_def by blast
  have low: "r \<le> unat y" using newton4_lower [OF X(2) r(1) y(3)] y(2) by simp
  have small: "unat y < 2 ^ 18" using y(2,4) b X(4) by simp
  have q: "qroot a = qroot_loop a x" by (simp add: qroot_def x_def)
  have "\<exists>z. qroot a = Some z \<and> r \<le> unat z \<and> unat z \<le> r + (if A < 16 then 2 else 1)"
  proof (cases "1 < \<bar>int X - int (unat y)\<bar>")
    case True
    then show ?thesis
      using qroot_loop_returns [OF r0 r [unfolded A_def] low small] q y(1) by (simp add: A_def)
  next
    case False
    have "unat y \<le> r + (if A < 16 then 2 else 1)"
    proof (cases "r < X")
      case True
      have "X \<le> unat y + 1" using False by linarith
      then show ?thesis using newton4_stop [OF True r0 r(2) y(4) _ y(2)] y(5) by blast
    next
      case above: False
      have "unat y \<le> X + 1" using False by linarith
      then show ?thesis using above by simp
    qed
    then show ?thesis using q y(1) False low by auto
  qed
  then show ?thesis using r by (auto simp: A_def)
qed

lemma qroot_some: "\<exists>y. qroot a = Some y"
  using qroot_returns [of a] by blast

section \<open>Properties\<close>

text \<open>
  The 64-bit division of \<^verbatim>\<open>tcp_compound.c\<close>, which avoids the wide division for small
  dividends, computes the same as \<^verbatim>\<open>div64_64\<close> of the shim on every input, the trap included.
\<close>

theorem cdiv64_64_is_div64_64: "cdiv64_64 n d = div64_64 n d"
  by (rule cdiv64_64_eq)

text \<open>
  C36: the Newton iteration \<^verbatim>\<open>qroot\<close> ends for every 64-bit argument, without a division by zero,
  and its result is the integer quartic root or one more; only for arguments under 16 may it be
  two more.
\<close>

theorem qroot_total_and_accurate:
  "\<exists>y r. qroot a = Some y \<and> r ^ 4 \<le> unat a \<and> unat a < (r + 1) ^ 4 \<and> r \<le> unat y
    \<and> unat y \<le> r + (if unat a < 16 then 2 else 1)"
  by (rule qroot_returns)

lemma compound_dwnd_returns: "\<exists>d. compound_dwnd old_wnd diff dwnd = Some d"
proof -
  obtain y where "qroot (old_wnd * old_wnd * old_wnd) = Some y"
    using qroot_some by blast
  then show ?thesis by (simp add: compound_dwnd_def Let_def)
qed

lemma compound_round_returns: "\<exists>f v'. compound_round tp v = Some (f, v')"
proof -
  obtain d where "compound_dwnd ((cp_beg_snd_nxt v - cp_beg_snd_una v) div mss_cache tp)
      (push_bit CP_SHIFT ((cp_beg_snd_nxt v - cp_beg_snd_una v) div mss_cache tp) -
       push_bit CP_SHIFT ((cp_beg_snd_nxt v - cp_beg_snd_una v) div mss_cache tp * cp_baseRTT v) div cp_minRTT v)
      (cp_dwnd v) = Some d"
    using compound_dwnd_returns by blast
  then show ?thesis by (auto simp: compound_round_def Let_def)
qed

lemma compound_count_cwnd: "compound_count tp v = (tp', v') \<Longrightarrow> snd_cwnd tp' = snd_cwnd tp"
  by (auto simp: compound_count_def Let_def split: if_splits prod.splits)

text \<open>
  C25: \<^verbatim>\<open>tcp_compound_cong_avoid\<close> returns from every state and on every socket; it leaves the
  window as it was or sets it to the sum of the two windows.
\<close>

theorem compound_cong_avoid_total:
  "\<exists>tp' v'. tcp_compound_cong_avoid env ack rtt in_flight flag tp v = Some (tp', v')
    \<and> (snd_cwnd tp' = snd_cwnd tp \<or> snd_cwnd tp' = cp_cwnd v' + cp_dwnd v')"
proof -
  define u where "u = compound_sync tp v"
  obtain tp1 v1 where c: "compound_count tp u = (tp1, v1)" by force
  obtain f v2 where r: "compound_round tp1 v1 = Some (f, v2)" using compound_round_returns by blast
  show ?thesis
    using c r compound_count_cwnd [OF c]
    by (auto simp: tcp_compound_cong_avoid_def u_def [symmetric] Let_def)
qed



text \<open>
  Asked for the netlink information, \<^verbatim>\<open>tcp_compound_get_info\<close> writes through a null pointer;
  the other algorithms do nothing.
\<close>

theorem compound_get_info_crashes:
  "tcp_compound_get_info ext tp v = None \<longleftrightarrow> bit ext 0"
  by (simp add: tcp_compound_get_info_def one_and_eq and.commute [of _ 1] odd_iff_mod_2_eq_one bit_0)

end
