(* ===== verification/Scoreboard.thy ===== *)
theory Scoreboard
  imports Prelude
begin

text \<open>
  \<^verbatim>\<open>tcp/scoreboard1.cc\<close> and \<^verbatim>\<open>scoreboard1.h\<close>: the scoreboard of a TCP-Linux sender, a linked list
  of blocks of consecutive packets that are in flight, sacked, lost or retransmitted, with the
  counters from which the sender computes what is in flight.

  A node of the list has the address it was allocated at, so that the pointer
  \<^verbatim>\<open>nxt_to_retrx_\<close> into the list can dangle: following it to a node that is no longer there is
  \<^const>\<open>None\<close>, and so are a failing \<^verbatim>\<open>ASSERT2\<close> (which exits) and a read of the member \<^verbatim>\<open>retran_\<close>,
  which the constructor leaves uninitialised. Packet numbers, an \<^verbatim>\<open>int\<close> of the source, are integers.
\<close>

section \<open>Blocks\<close>

datatype skb_flag = SKB_FLAG_INFLIGHT | SKB_FLAG_SACKED | SKB_FLAG_LOST | SKB_FLAG_RETRANSMITTED

record sb_node =
  addr :: nat
  nd_flag :: skb_flag
  nd_seq :: int
  nd_nxt :: int
  nd_retran :: "int option"

definition new_node :: "nat \<Rightarrow> int \<Rightarrow> int \<Rightarrow> skb_flag \<Rightarrow> sb_node" where
  "new_node a start stop fl = \<lparr>addr = a, nd_flag = fl, nd_seq = start, nd_nxt = stop, nd_retran = None\<rparr>"

definition GetEnd :: "sb_node \<Rightarrow> int" where
  "GetEnd n = (if nd_flag n = SKB_FLAG_RETRANSMITTED then nd_seq n else nd_nxt n)"

definition GetLength :: "sb_node \<Rightarrow> int" where
  "GetLength n = (if nd_flag n = SKB_FLAG_RETRANSMITTED then 1 else nd_nxt n + 1 - nd_seq n)"

definition SetFlag :: "skb_flag \<Rightarrow> sb_node \<Rightarrow> sb_node" where
  "SetFlag fl n = (let n = (if nd_flag n = SKB_FLAG_RETRANSMITTED then n\<lparr>nd_nxt := nd_seq n\<rparr> else n) in n\<lparr>nd_flag := fl\<rparr>)"

definition Inside :: "int \<Rightarrow> sb_node \<Rightarrow> bool" where
  "Inside sq n = (if nd_flag n = SKB_FLAG_RETRANSMITTED then sq = nd_seq n else nd_seq n \<le> sq \<and> sq \<le> nd_nxt n)"

definition ShouldClean :: "int \<Rightarrow> sb_node \<Rightarrow> int" where
  "ShouldClean ackseq n =
     (if ackseq < nd_seq n then 0
      else if nd_flag n = SKB_FLAG_RETRANSMITTED \<or> nd_nxt n \<le> ackseq then - 1
      else ackseq + 1 - nd_seq n)"

text \<open>Whether a node can take over the next one, and the node after it did.\<close>

definition Mergable :: "sb_node \<Rightarrow> sb_node \<Rightarrow> bool" where
  "Mergable n nx \<longleftrightarrow> nd_flag nx \<noteq> SKB_FLAG_RETRANSMITTED \<and> nd_flag nx = nd_flag n"

definition Merge :: "sb_node \<Rightarrow> sb_node \<Rightarrow> sb_node" where
  "Merge n nx = n\<lparr>nd_nxt := nd_nxt nx\<rparr>"

text \<open>The two halves of a node split before packet \<open>sq\<close>, the second one allocated at \<open>a\<close>.\<close>

definition Split :: "nat \<Rightarrow> int \<Rightarrow> sb_node \<Rightarrow> sb_node \<times> sb_node" where
  "Split a sq n = (n\<lparr>nd_nxt := sq - 1\<rparr>, new_node a sq (nd_nxt n) (nd_flag n))"

section \<open>The board\<close>

record scoreboard =
  sb_head :: "sb_node list"
  nxt_to_retrx :: "nat option"
  acked_rtx_id :: int
  rtx_id :: int
  fack :: int
  fack_out :: int
  sack_out :: int
  last_rtx_seq :: int
  fresh :: nat

definition FLAG_ECE :: u8 where "FLAG_ECE = 1"
definition FLAG_DATA_SACKED :: u8 where "FLAG_DATA_SACKED = 2"
definition FLAG_DATA_ACKED :: u8 where "FLAG_DATA_ACKED = 4"
definition FLAG_DATA_LOST :: u8 where "FLAG_DATA_LOST = 8"
definition FLAG_UNSURE_TSTAMP :: u8 where "FLAG_UNSURE_TSTAMP = 16"

definition NSA :: nat where "NSA = 3"

definition ClearScoreBoard :: "scoreboard \<Rightarrow> scoreboard" where
  "ClearScoreBoard sb = sb\<lparr>rtx_id := 0, acked_rtx_id := - 1, fack_out := 0, sack_out := 0,
     fack := 0, nxt_to_retrx := None, sb_head := []\<rparr>"

definition ScoreBoard1 :: scoreboard where
  "ScoreBoard1 = ClearScoreBoard \<lparr>sb_head = [], nxt_to_retrx = None, acked_rtx_id = 0, rtx_id = 0,
     fack = 0, fack_out = 0, sack_out = 0, last_rtx_seq = - 1, fresh = 0\<rparr>"

definition packets_in_flight :: "scoreboard \<Rightarrow> int \<Rightarrow> int \<Rightarrow> int" where
  "packets_in_flight sb snd_una snd_nxt = snd_nxt - snd_una - fack_out sb - sack_out sb"

definition head_addr :: "sb_node list \<Rightarrow> nat option" where
  "head_addr ns = (case ns of [] \<Rightarrow> None | n # _ \<Rightarrow> Some (addr n))"

section \<open>The cumulative acknowledgment\<close>

text \<open>
  The counters after \<open>pkt_num\<close> packets of a block left the board, with the two assertions.
\<close>

definition uncount :: "skb_flag \<Rightarrow> int \<Rightarrow> scoreboard \<Rightarrow> scoreboard option" where
  "uncount fl pkt_num sb =
     (case fl of
        SKB_FLAG_SACKED \<Rightarrow> let sb = sb\<lparr>sack_out := sack_out sb - pkt_num\<rparr> in
          if 0 \<le> sack_out sb then Some sb else None
      | SKB_FLAG_LOST \<Rightarrow> let sb = sb\<lparr>fack_out := fack_out sb - pkt_num\<rparr> in
          if 0 \<le> fack_out sb then Some sb else None
      | _ \<Rightarrow> Some sb)"

text \<open>What the removal of a whole block records about an acknowledged retransmission.\<close>

definition acked_rtx :: "sb_node \<Rightarrow> scoreboard \<times> bool \<times> u8 \<Rightarrow> (scoreboard \<times> bool \<times> u8) option" where
  "acked_rtx n = (\<lambda>(sb, changed, fl).
     if nd_flag n = SKB_FLAG_RETRANSMITTED then do {
       rtx \<leftarrow> nd_retran n;
       Some (if acked_rtx_id sb < rtx
             then (sb\<lparr>acked_rtx_id := rtx\<rparr>, True, fl OR FLAG_UNSURE_TSTAMP)
             else (sb, changed, fl OR FLAG_UNSURE_TSTAMP))
     } else Some (sb, changed, fl))"

fun clean_loop :: "int \<Rightarrow> sb_node list \<Rightarrow> scoreboard \<times> bool \<times> u8 \<Rightarrow> (scoreboard \<times> bool \<times> u8) option" where
  "clean_loop last_ack [] (sb, changed, fl) = Some (sb\<lparr>sb_head := []\<rparr>, changed, fl)"
| "clean_loop last_ack (n # ns) (sb, changed, fl) =
     (let cmp = ShouldClean last_ack n in
      if cmp = 0 then Some (sb\<lparr>sb_head := n # ns\<rparr>, changed, fl)
      else do {
        sb \<leftarrow> uncount (nd_flag n) (if cmp < 0 then GetLength n else cmp) sb;
        if cmp < 0 then do {
          (sb, changed, fl) \<leftarrow> acked_rtx n (sb, changed, fl);
          let sb = (if nxt_to_retrx sb = Some (addr n) then sb\<lparr>nxt_to_retrx := head_addr ns\<rparr> else sb);
          clean_loop last_ack ns (sb, changed, fl)
        } else Some (sb\<lparr>sb_head := n\<lparr>nd_seq := last_ack + 1\<rparr> # ns\<rparr>, changed, fl)
      })"

definition CleanRtxQueue :: "int \<Rightarrow> scoreboard \<Rightarrow> u8 \<Rightarrow> (scoreboard \<times> bool \<times> u8) option" where
  "CleanRtxQueue last_ack sb fl = clean_loop last_ack (sb_head sb) (sb, False, fl)"

section \<open>The selective acknowledgment\<close>

text \<open>
  The blocks of the acknowledgment in increasing order, those below the cumulative
  acknowledgment dropped: the insertion shifts the blocks that start later to the right.
\<close>

fun sack_insert :: "int \<times> int \<Rightarrow> (int \<times> int) list \<Rightarrow> (int \<times> int) list" where
  "sack_insert (l, r) xs =
     (let later = (\<lambda>(l', _). l < l') in
      rev (dropWhile later (rev xs)) @ (l, r) # rev (takeWhile later (rev xs)))"

definition sort_sacks :: "int \<Rightarrow> (int \<times> int) list \<Rightarrow> (int \<times> int) list" where
  "sort_sacks last_ack sacks =
     fold (\<lambda>(l, r) xs. if last_ack \<le> l then sack_insert (l, r) xs else xs) sacks []"

text \<open>
  The block under consideration against the first sack block that ends after its start: split
  where the sack block starts or ends inside of it, marked as sacked where it is covered.
\<close>

definition mark_sacked ::
    "(int \<times> int) list \<Rightarrow> scoreboard \<Rightarrow> bool \<Rightarrow> u8 \<Rightarrow> sb_node \<Rightarrow> sb_node list
      \<Rightarrow> (scoreboard \<times> bool \<times> u8 \<times> sb_node \<times> sb_node list) option" where
  "mark_sacked ss sb thorough fl now rest =
     (case ss of
        [] \<Rightarrow> Some (sb, thorough, fl, now, rest)
      | (l, r) # _ \<Rightarrow>
          if l \<le> GetEnd now then
            if nd_seq now < l then
              let (now, new) = Split (fresh sb) l now in
              Some (sb\<lparr>fresh := fresh sb + 1\<rparr>, thorough, fl, now, new # rest)
            else
              let (sb, now, rest) =
                (if r \<le> GetEnd now
                 then let (now, new) = Split (fresh sb) r now in (sb\<lparr>fresh := fresh sb + 1\<rparr>, now, new # rest)
                 else (sb, now, rest));
                pktnum = GetLength now in do {
              (sb, thorough, fl) \<leftarrow>
                (case nd_flag now of
                   SKB_FLAG_LOST \<Rightarrow> Some (sb\<lparr>fack_out := fack_out sb - pktnum\<rparr>, thorough, fl)
                 | SKB_FLAG_RETRANSMITTED \<Rightarrow> do {
                     rtx \<leftarrow> nd_retran now;
                     Some (sb\<lparr>acked_rtx_id := rtx\<rparr>, True, fl OR FLAG_UNSURE_TSTAMP)
                   }
                 | _ \<Rightarrow> Some (sb, thorough, fl));
              Some (sb\<lparr>sack_out := sack_out sb + pktnum\<rparr>, thorough, fl OR FLAG_DATA_SACKED,
                    SetFlag SKB_FLAG_SACKED now, rest)
            }
          else Some (sb, thorough, fl, now, rest))"

definition first_retran :: "sb_node \<Rightarrow> scoreboard \<Rightarrow> scoreboard" where
  "first_retran now sb = (if nxt_to_retrx sb = None then sb\<lparr>nxt_to_retrx := Some (addr now)\<rparr> else sb)"

text \<open>The block under consideration, which no sack block reaches, may be lost, or lost again.\<close>

definition mark_lost ::
    "int \<Rightarrow> int \<Rightarrow> scoreboard \<Rightarrow> u8 \<Rightarrow> sb_node \<Rightarrow> sb_node list
      \<Rightarrow> (scoreboard \<times> u8 \<times> sb_node \<times> sb_node list) option" where
  "mark_lost dupack lost_thr sb fl now rest =
     (case nd_flag now of
        SKB_FLAG_RETRANSMITTED \<Rightarrow> do {
          again \<leftarrow> (if nd_nxt now \<le> fack sb then Some True
                   else map_option (\<lambda>rtx. rtx + dupack + 1 < acked_rtx_id sb) (nd_retran now));
          Some (if again
            then (first_retran now (sb\<lparr>fack_out := fack_out sb + 1\<rparr>), fl OR FLAG_DATA_LOST,
                  SetFlag SKB_FLAG_LOST now, rest)
            else (sb, fl, now, rest))
        }
      | SKB_FLAG_INFLIGHT \<Rightarrow>
          if nd_seq now \<le> lost_thr then
            let (sb, now, rest) =
              (if lost_thr < GetEnd now
               then let (now, new) = Split (fresh sb) (lost_thr + 1) now in
                 (sb\<lparr>fresh := fresh sb + 1\<rparr>, now, new # rest)
               else (sb, now, rest));
              now = SetFlag SKB_FLAG_LOST now in
            Some (first_retran now (sb\<lparr>fack_out := fack_out sb + GetLength now\<rparr>),
                  fl OR FLAG_DATA_LOST, now, rest)
          else Some (sb, fl, now, rest)
      | SKB_FLAG_LOST \<Rightarrow> Some (first_retran now sb, fl, now, rest)
      | SKB_FLAG_SACKED \<Rightarrow> Some (sb, fl, now, rest))"

definition visit ::
    "int \<Rightarrow> int \<Rightarrow> (int \<times> int) list \<Rightarrow> scoreboard \<Rightarrow> bool \<Rightarrow> u8 \<Rightarrow> sb_node \<Rightarrow> sb_node list
      \<Rightarrow> ((int \<times> int) list \<times> scoreboard \<times> bool \<times> u8 \<times> sb_node \<times> sb_node list) option" where
  "visit dupack lost_thr ss sb thorough fl now rest =
     (if nd_flag now \<noteq> SKB_FLAG_SACKED then
        let ss = dropWhile (\<lambda>(l, r). r \<le> nd_seq now) ss in do {
          (sb, thorough, fl, now, rest) \<leftarrow> mark_sacked ss sb thorough fl now rest;
          if ss = [] \<or> GetEnd now < fst (hd ss) then do {
            (sb, fl, now, rest) \<leftarrow> mark_lost dupack lost_thr sb fl now rest;
            Some (ss, sb, thorough, fl, now, rest)
          } else Some (ss, sb, thorough, fl, now, rest)
        }
      else Some (ss, sb, thorough, fl, now, rest))"

text \<open>
  The block joins the ones before it (\<open>visited\<close>, the last one first), merged with the previous
  one when both have the same state; at the end of the list the board is extended to \<^verbatim>\<open>fack_\<close>.
\<close>

definition link_block :: "sb_node list \<Rightarrow> sb_node \<Rightarrow> sb_node list" where
  "link_block visited now =
     (case visited of
        [] \<Rightarrow> [now]
      | prev # before \<Rightarrow> if Mergable prev now then Merge prev now # before else now # visited)"

definition extend_board :: "sb_node list \<Rightarrow> scoreboard \<Rightarrow> sb_node list \<Rightarrow> scoreboard \<times> sb_node list" where
  "extend_board visited sb rest =
     (if rest = [] \<and> GetEnd (hd visited) < fack sb
      then (sb\<lparr>fresh := fresh sb + 1\<rparr>,
            [new_node (fresh sb) (GetEnd (hd visited) + 1) (fack sb) SKB_FLAG_INFLIGHT])
      else (sb, rest))"

partial_function (option) scan ::
    "int \<Rightarrow> int \<Rightarrow> (int \<times> int) list \<Rightarrow> scoreboard \<Rightarrow> bool \<Rightarrow> u8 \<Rightarrow> sb_node list \<Rightarrow> sb_node list
      \<Rightarrow> (scoreboard \<times> u8) option" where
  "scan dupack lost_thr ss sb thorough fl visited nodes =
     (case nodes of
        [] \<Rightarrow> Some (sb\<lparr>sb_head := rev visited\<rparr>, fl)
      | now # rest \<Rightarrow>
          if ss = [] \<and> \<not> thorough then Some (sb\<lparr>sb_head := rev visited @ nodes\<rparr>, fl)
          else do {
            (ss, sb, thorough, fl, now, rest) \<leftarrow> visit dupack lost_thr ss sb thorough fl now rest;
            let visited = link_block visited now;
            let (sb, rest) = extend_board visited sb rest;
            scan dupack lost_thr ss sb thorough fl visited rest
          })"

definition UpdateScoreBoard :: "int \<Rightarrow> (int \<times> int) list \<Rightarrow> int \<Rightarrow> scoreboard \<Rightarrow> (scoreboard \<times> u8) option" where
  "UpdateScoreBoard last_ack sacks dupack sb = do {
     (sb, thorough, fl) \<leftarrow> CleanRtxQueue last_ack sb 0;
     let (sb, thorough) = (if sb_head sb = [] then (ClearScoreBoard sb, False) else (sb, thorough));
     if \<not> thorough \<and> sacks = [] then Some (sb, fl)
     else if NSA + 1 < length sacks then None
     else
       let ss = sort_sacks last_ack sacks in
       if \<not> thorough \<and> ss = [] then Some (sb, fl)
       else
         let (sb, thorough) =
           (if ss \<noteq> [] \<and> fack sb < snd (last ss) - 1 then (sb\<lparr>fack := snd (last ss) - 1\<rparr>, True)
            else (sb, thorough));
           sb = (if sb_head sb = []
             then sb\<lparr>sb_head := [new_node (fresh sb) (last_ack + 1) (fack sb) SKB_FLAG_INFLIGHT],
                    fresh := fresh sb + 1\<rparr>
             else sb);
           sb = sb\<lparr>nxt_to_retrx := None\<rparr> in
         scan dupack (fack sb - (dupack + 1)) ss sb thorough fl [] (sb_head sb)
   }"

section \<open>Timeout\<close>

definition loss_block :: "bool \<Rightarrow> sb_node list \<Rightarrow> sb_node \<Rightarrow> scoreboard \<Rightarrow> scoreboard \<times> bool \<times> sb_node list" where
  "loss_block last_lost visited now sb =
     (if nd_flag now \<noteq> SKB_FLAG_SACKED then
        let sb = (if nd_flag now \<noteq> SKB_FLAG_LOST
                  then sb\<lparr>fack_out := fack_out sb + (GetEnd now - nd_seq now + 1)\<rparr> else sb);
            now = SetFlag SKB_FLAG_LOST now in
        if last_lost then (sb, True, Merge (hd visited) now # tl visited)
        else (first_retran now sb, True, now # visited)
      else (sb, False, now # visited))"

partial_function (option) loss_loop ::
    "int \<Rightarrow> bool \<Rightarrow> sb_node list \<Rightarrow> sb_node list \<Rightarrow> scoreboard \<Rightarrow> (scoreboard \<times> sb_node list) option" where
  "loss_loop snd_nxt last_lost visited nodes sb =
     (case nodes of
        [] \<Rightarrow> Some (sb, visited)
      | now # rest \<Rightarrow>
          let (sb, last_lost, visited) = loss_block last_lost visited now sb in
          if rest = [] \<and> GetEnd (hd visited) + 1 < snd_nxt
          then loss_loop snd_nxt last_lost visited
                 [new_node (fresh sb) (GetEnd (hd visited) + 1) (snd_nxt - 1) SKB_FLAG_INFLIGHT]
                 (sb\<lparr>fresh := fresh sb + 1\<rparr>)
          else loss_loop snd_nxt last_lost visited rest sb)"

definition MarkLoss :: "int \<Rightarrow> int \<Rightarrow> scoreboard \<Rightarrow> scoreboard option" where
  "MarkLoss snd_una snd_nxt sb = do {
     (sb, visited) \<leftarrow> loss_loop snd_nxt False [] (sb_head sb) (sb\<lparr>nxt_to_retrx := None\<rparr>);
     let sb = sb\<lparr>sb_head := rev visited\<rparr>;
     let sb = (if visited = [] \<and> snd_una < snd_nxt
       then sb\<lparr>sb_head := [new_node (fresh sb) snd_una (snd_nxt - 1) SKB_FLAG_LOST],
              nxt_to_retrx := Some (fresh sb), fack_out := fack_out sb + (snd_nxt - snd_una),
              fresh := fresh sb + 1\<rparr>
       else sb);
     Some (sb\<lparr>rtx_id := 0, acked_rtx_id := - 1\<rparr>)
   }"

section \<open>Retransmission\<close>

text \<open>The list from the node at an address on; a dangling address is undefined.\<close>

definition deref :: "nat \<Rightarrow> sb_node list \<Rightarrow> (sb_node list \<times> sb_node \<times> sb_node list) option" where
  "deref a ns = (case dropWhile (\<lambda>n. addr n \<noteq> a) ns of
     [] \<Rightarrow> None | n # rest \<Rightarrow> Some (takeWhile (\<lambda>n. addr n \<noteq> a) ns, n, rest))"

definition GetNextRetran :: "scoreboard \<Rightarrow> (int \<times> scoreboard) option" where
  "GetNextRetran sb =
     (case nxt_to_retrx sb of
        None \<Rightarrow> Some (- 1, sb)
      | Some a \<Rightarrow> do {
          (_, n, rest) \<leftarrow> deref a (sb_head sb);
          Some (case dropWhile (\<lambda>n. nd_flag n \<noteq> SKB_FLAG_LOST) (n # rest) of
            [] \<Rightarrow> (- 1, sb\<lparr>nxt_to_retrx := None\<rparr>)
          | m # _ \<Rightarrow> (nd_seq m, sb\<lparr>nxt_to_retrx := Some (addr m)\<rparr>))
        })"

definition MarkRetran_node :: "nat \<Rightarrow> int \<Rightarrow> int \<Rightarrow> sb_node \<Rightarrow> sb_node list" where
  "MarkRetran_node a snd_nxt retrans_id n =
     (let (n, rest) = (if nd_seq n < nd_nxt n then (let (n, new) = Split a (nd_seq n + 1) n in (n, [new])) else (n, [])) in
      n\<lparr>nd_flag := SKB_FLAG_RETRANSMITTED, nd_nxt := snd_nxt, nd_retran := Some retrans_id\<rparr> # rest)"

definition MarkRetran :: "int \<Rightarrow> int \<Rightarrow> scoreboard \<Rightarrow> scoreboard option" where
  "MarkRetran retran_seqno snd_nxt sb =
     (case nxt_to_retrx sb of
        None \<Rightarrow> None
      | Some a \<Rightarrow> do {
          (before, n, rest) \<leftarrow> deref a (sb_head sb);
          if \<not> Inside retran_seqno n then None
          else let sb = sb\<lparr>fack_out := fack_out sb - 1\<rparr> in
            if fack_out sb < 0 then None
            else Some (sb\<lparr>sb_head := before @ MarkRetran_node (fresh sb) snd_nxt (rtx_id sb) n @ rest,
                         fresh := fresh sb + 1, rtx_id := rtx_id sb + 1, last_rtx_seq := retran_seqno\<rparr>)
        })"

section \<open>Well-formed boards\<close>

lemmas sb_defs = GetEnd_def GetLength_def SetFlag_def Merge_def Split_def new_node_def Let_def

text \<open>The nodes cover the packets from \<open>s\<close> on without a gap, each of them at least one.\<close>

fun contiguous :: "int \<Rightarrow> sb_node list \<Rightarrow> bool" where
  "contiguous s [] = True"
| "contiguous s (n # ns) = (nd_seq n = s \<and> s \<le> GetEnd n \<and> contiguous (GetEnd n + 1) ns)"

fun board_end :: "int \<Rightarrow> sb_node list \<Rightarrow> int" where
  "board_end s [] = s - 1"
| "board_end s (n # ns) = board_end (GetEnd n + 1) ns"

definition tally :: "skb_flag \<Rightarrow> sb_node list \<Rightarrow> int" where
  "tally f ns = (\<Sum>n\<leftarrow>ns. if nd_flag n = f then GetLength n else 0)"

definition packets :: "skb_flag \<Rightarrow> sb_node list \<Rightarrow> int set" where
  "packets f ns = (\<Union>n\<in>{n \<in> set ns. nd_flag n = f}. {nd_seq n..GetEnd n})"

definition segment_ok :: "int \<Rightarrow> nat \<Rightarrow> sb_node list \<Rightarrow> bool" where
  "segment_ok s a ns \<longleftrightarrow> contiguous s ns \<and> distinct (map addr ns) \<and> (\<forall>n\<in>set ns. addr n < a)
     \<and> (\<forall>n\<in>set ns. nd_flag n = SKB_FLAG_RETRANSMITTED \<longrightarrow> nd_retran n \<noteq> None)"

text \<open>The pointer to the next retransmission is into the list, and no lost packet is before it.\<close>

definition pointer_ok :: "nat option \<Rightarrow> sb_node list \<Rightarrow> bool" where
  "pointer_ok p ns = (case p of None \<Rightarrow> True | Some a \<Rightarrow>
     a \<in> addr ` set ns \<and> (\<forall>n\<in>set (takeWhile (\<lambda>n. addr n \<noteq> a) ns). nd_flag n \<noteq> SKB_FLAG_LOST))"

definition board_ok :: "int \<Rightarrow> scoreboard \<Rightarrow> bool" where
  "board_ok una sb \<longleftrightarrow> segment_ok una (fresh sb) (sb_head sb)
     \<and> fack_out sb = tally SKB_FLAG_LOST (sb_head sb) \<and> sack_out sb = tally SKB_FLAG_SACKED (sb_head sb)
     \<and> pointer_ok (nxt_to_retrx sb) (sb_head sb)"

lemma GetLength_eq: "GetLength n = GetEnd n + 1 - nd_seq n"
  by (simp add: GetLength_def GetEnd_def)

lemma contiguous_append:
  "contiguous s (xs @ ys) \<longleftrightarrow> contiguous s xs \<and> contiguous (board_end s xs + 1) ys"
  by (induction xs arbitrary: s) auto

lemma board_end_append [simp]: "board_end s (xs @ ys) = board_end (board_end s xs + 1) ys"
  by (induction xs arbitrary: s) auto

lemma board_end_ge: "contiguous s ns \<Longrightarrow> s - 1 \<le> board_end s ns"
  by (induction ns arbitrary: s) force+

lemma tally_simps [simp]:
  "tally f [] = 0" "tally f (n # ns) = (if nd_flag n = f then GetLength n else 0) + tally f ns"
  "tally f (xs @ ys) = tally f xs + tally f ys" "tally f (rev xs) = tally f xs"
  by (simp_all add: tally_def rev_map [symmetric] sum_list_rev)

lemma packets_simps [simp]:
  "packets f [] = {}" "packets f (n # ns) = (if nd_flag n = f then {nd_seq n..GetEnd n} else {}) \<union> packets f ns"
  "packets f (xs @ ys) = packets f xs \<union> packets f ys" "packets f (rev xs) = packets f xs"
  by (auto simp: packets_def split: if_splits)

lemma packets_range: "contiguous s ns \<Longrightarrow> packets f ns \<subseteq> {s..board_end s ns}"
proof (induction ns arbitrary: s)
  case (Cons n ns)
  then have "packets f ns \<subseteq> {GetEnd n + 1..board_end (GetEnd n + 1) ns}" by simp
  then show ?case using Cons.prems board_end_ge [of "GetEnd n + 1" ns] by auto
qed simp

lemma finite_packets [simp]: "contiguous s ns \<Longrightarrow> finite (packets f ns)"
  using packets_range finite_subset finite_atLeastAtMost_int by metis

text \<open>The counters count packets.\<close>

lemma tally_card: "contiguous s ns \<Longrightarrow> tally f ns = int (card (packets f ns))"
proof (induction ns arbitrary: s)
  case (Cons n ns)
  have r: "packets f ns \<subseteq> {GetEnd n + 1..board_end (GetEnd n + 1) ns}"
    using Cons.prems packets_range [of "GetEnd n + 1" ns f] by simp
  have fin: "finite (packets f ns)" using r finite_subset finite_atLeastAtMost_int by blast
  have "{nd_seq n..GetEnd n} \<inter> packets f ns = {}" using r by auto
  then have "card ({nd_seq n..GetEnd n} \<union> packets f ns) = card {nd_seq n..GetEnd n} + card (packets f ns)"
    by (intro card_Un_disjoint fin) auto
  then show ?case using Cons by (auto simp: GetLength_eq)
qed simp

lemma tally_nonneg: "contiguous s ns \<Longrightarrow> 0 \<le> tally f ns"
  by (simp add: tally_card)

lemma packets_disjoint:
  assumes "contiguous s ns" and "f \<noteq> g"
  shows "packets f ns \<inter> packets g ns = {}"
  using assms(1)
proof (induction ns arbitrary: s)
  case (Cons n ns)
  have "packets h ns \<subseteq> {GetEnd n + 1..board_end (GetEnd n + 1) ns}" for h
    using Cons.prems packets_range [of "GetEnd n + 1" ns h] by simp
  then have "{nd_seq n..GetEnd n} \<inter> packets h ns = {}" for h by force
  then show ?case using Cons assms(2) by (auto split: if_splits)
qed simp
text \<open>
  What a step on a run of nodes keeps: where the run ends, the difference of the counters and
  the lengths, the furthest sacked packet; new nodes are new.
\<close>

definition same_run :: "int \<Rightarrow> scoreboard \<Rightarrow> sb_node list \<Rightarrow> scoreboard \<Rightarrow> sb_node list \<Rightarrow> bool" where
  "same_run s sb ns sb' ns' \<longleftrightarrow> board_end s ns' = board_end s ns \<and> fresh sb \<le> fresh sb' \<and> fack sb' = fack sb
     \<and> fack_out sb' - tally SKB_FLAG_LOST ns' = fack_out sb - tally SKB_FLAG_LOST ns
     \<and> sack_out sb' - tally SKB_FLAG_SACKED ns' = sack_out sb - tally SKB_FLAG_SACKED ns
     \<and> addr ` set ns' \<subseteq> addr ` set ns \<union> {fresh sb..}"

lemma same_run_refl [simp]: "same_run s sb ns sb ns"
  by (auto simp: same_run_def)

lemma same_run_trans:
  "same_run s sb ns sb' ns' \<Longrightarrow> same_run s sb' ns' sb'' ns'' \<Longrightarrow> same_run s sb ns sb'' ns''"
  unfolding same_run_def by (intro conjI; (elim conjE, simp add: subset_iff; fastforce)?)

lemma segment_ok_Cons:
  "segment_ok s a (n # ns) \<longleftrightarrow> nd_seq n = s \<and> s \<le> GetEnd n \<and> segment_ok (GetEnd n + 1) a ns
     \<and> addr n \<notin> addr ` set ns \<and> addr n < a
     \<and> (nd_flag n = SKB_FLAG_RETRANSMITTED \<longrightarrow> nd_retran n \<noteq> None)"
  by (auto simp: segment_ok_def)

lemma segment_ok_mono: "segment_ok s a ns \<Longrightarrow> a \<le> b \<Longrightarrow> segment_ok s b ns"
  by (auto simp: segment_ok_def)

lemma fresh_notin: "segment_ok s a ns \<Longrightarrow> a \<notin> addr ` set ns"
  by (auto simp: segment_ok_def)

lemma SetFlag_simps [simp]:
  "nd_seq (SetFlag f n) = nd_seq n" "addr (SetFlag f n) = addr n" "nd_flag (SetFlag f n) = f"
  "f \<noteq> SKB_FLAG_RETRANSMITTED \<Longrightarrow> GetEnd (SetFlag f n) = GetEnd n"
  "f \<noteq> SKB_FLAG_RETRANSMITTED \<Longrightarrow> GetLength (SetFlag f n) = GetLength n"
  by (simp_all add: SetFlag_def GetEnd_def GetLength_def Let_def)

lemma Split_simps [simp]:
  "addr (fst (Split a q n)) = addr n" "nd_seq (fst (Split a q n)) = nd_seq n"
  "nd_flag (fst (Split a q n)) = nd_flag n" "nd_flag (snd (Split a q n)) = nd_flag n"
  "nd_seq (snd (Split a q n)) = q" "addr (snd (Split a q n)) = a"
  "nd_flag n \<noteq> SKB_FLAG_RETRANSMITTED \<Longrightarrow> GetEnd (fst (Split a q n)) = q - 1"
  "nd_flag n \<noteq> SKB_FLAG_RETRANSMITTED \<Longrightarrow> GetEnd (snd (Split a q n)) = GetEnd n"
  by (simp_all add: Split_def new_node_def GetEnd_def)

lemma split_run:
  assumes "segment_ok s (fresh sb) (now # rest)" and "nd_flag now \<noteq> SKB_FLAG_RETRANSMITTED"
    and "s < q" and "q \<le> GetEnd now"
  shows "segment_ok s (fresh sb + 1) (fst (Split (fresh sb) q now) # snd (Split (fresh sb) q now) # rest)"
    (is ?ok)
    and "same_run s sb (now # rest) (sb\<lparr>fresh := fresh sb + 1\<rparr>)
      (fst (Split (fresh sb) q now) # snd (Split (fresh sb) q now) # rest)" (is ?same)
proof -
  note now = assms(1) [unfolded segment_ok_Cons]
  have new: "fresh sb \<notin> addr ` set rest" using now fresh_notin by blast
  have e: "GetEnd (snd (Split (fresh sb) q now)) = GetEnd now" using assms(2) by simp
  have f: "nd_flag (snd (Split (fresh sb) q now)) \<noteq> SKB_FLAG_RETRANSMITTED" using assms(2) by simp
  have "segment_ok (GetEnd now + 1) (fresh sb + 1) rest" using now segment_ok_mono [of _ "fresh sb" _ "fresh sb + 1"] by auto
  then show ?ok
    using assms(2,3,4) now new f unfolding segment_ok_Cons e by simp
  show ?same
    using assms(2) now by (simp add: same_run_def e GetLength_eq) blast
qed

lemma set_flag_run:
  assumes "segment_ok s a (now # rest)" and "f \<noteq> SKB_FLAG_RETRANSMITTED"
  shows "segment_ok s a (SetFlag f now # rest)"
  using assms by (auto simp: segment_ok_Cons)

text \<open>
  One node against the sack blocks: it is sacked when the first block that ends after its start
  covers it, and otherwise no block that follows reaches it.
\<close>

lemma mark_sacked_spec:
  assumes "segment_ok s (fresh sb) (now # rest)" and "nd_flag now \<noteq> SKB_FLAG_SACKED"
    and "ss \<noteq> [] \<Longrightarrow> nd_seq now < snd (hd ss)"
  shows "case mark_sacked ss sb th fl now rest of None \<Rightarrow> False | Some (sb', th', fl', now', rest') \<Rightarrow>
    segment_ok s (fresh sb') (now' # rest') \<and> same_run s sb (now # rest) sb' (now' # rest')
    \<and> addr now' = addr now \<and> nxt_to_retrx sb' = nxt_to_retrx sb \<and> (th \<longrightarrow> th')
    \<and> packets SKB_FLAG_SACKED rest' = packets SKB_FLAG_SACKED rest \<and> GetEnd now' \<le> GetEnd now
    \<and> (nd_flag now' = SKB_FLAG_SACKED \<longrightarrow> ss \<noteq> [] \<and> fst (hd ss) \<le> s \<and> GetEnd now' < snd (hd ss))
    \<and> (nd_flag now' \<noteq> SKB_FLAG_SACKED \<longrightarrow> ss = [] \<or> GetEnd now' < fst (hd ss))"
proof (cases "ss = [] \<or> GetEnd now < fst (hd ss)")
  case True
  have "mark_sacked ss sb th fl now rest = Some (sb, th, fl, now, rest)"
    using True by (cases ss) (auto simp: mark_sacked_def)
  then show ?thesis using assms True by simp
next
  case False
  then obtain l r ss' where ss: "ss = (l, r) # ss'" "l \<le> GetEnd now" by (cases ss) force+
  have s: "nd_seq now = s" "s < r" using assms by (simp_all add: ss segment_ok_Cons)
  show ?thesis
  proof (cases "s < l")
    case True
    have nr: "nd_flag now \<noteq> SKB_FLAG_RETRANSMITTED"
      using True ss s by (auto simp: GetEnd_def split: if_splits)
    have "mark_sacked ss sb th fl now rest = Some (sb\<lparr>fresh := fresh sb + 1\<rparr>, th, fl,
        fst (Split (fresh sb) l now), snd (Split (fresh sb) l now) # rest)"
      using ss s True by (simp add: mark_sacked_def case_prod_beta)
    then show ?thesis
      using split_run [OF assms(1) nr True ss(2)] assms(2) nr ss by simp
  next
    case False
    define cut where "cut \<longleftrightarrow> r \<le> GetEnd now"
    define sb1 where "sb1 = (if cut then sb\<lparr>fresh := fresh sb + 1\<rparr> else sb)"
    define n1 where "n1 = (if cut then fst (Split (fresh sb) r now) else now)"
    define rest1 where "rest1 = (if cut then snd (Split (fresh sb) r now) # rest else rest)"
    have nr: "nd_flag now \<noteq> SKB_FLAG_RETRANSMITTED" if cut
      using that s by (auto simp: cut_def GetEnd_def split: if_splits)
    have run: "segment_ok s (fresh sb1) (n1 # rest1)" "same_run s sb (now # rest) sb1 (n1 # rest1)"
      using split_run [OF assms(1) _ s(2)] nr assms(1) by (auto simp: sb1_def n1_def rest1_def cut_def)
    have n1: "addr n1 = addr now" "nd_flag n1 = nd_flag now" "GetEnd n1 < r" "nd_seq n1 = s" "GetEnd n1 \<le> GetEnd now"
      "packets SKB_FLAG_SACKED rest1 = packets SKB_FLAG_SACKED rest" "nxt_to_retrx sb1 = nxt_to_retrx sb"
      using assms(1,2) nr by (auto simp: n1_def rest1_def sb1_def segment_ok_Cons cut_def)
    have eq: "(if r \<le> GetEnd now then let (now, new) = Split (fresh sb) r now in
        (sb\<lparr>fresh := fresh sb + 1\<rparr>, now, new # rest) else (sb, now, rest)) = (sb1, n1, rest1)"
      by (simp add: sb1_def n1_def rest1_def cut_def case_prod_beta Let_def)
    define sb2 where "sb2 = (case nd_flag n1 of
        SKB_FLAG_LOST \<Rightarrow> sb1\<lparr>fack_out := fack_out sb1 - GetLength n1\<rparr>
      | SKB_FLAG_RETRANSMITTED \<Rightarrow> sb1\<lparr>acked_rtx_id := the (nd_retran n1)\<rparr> | _ \<Rightarrow> sb1)"
    define n2 where "n2 = SetFlag SKB_FLAG_SACKED n1"
    obtain th' fl' where m: "mark_sacked ss sb th fl now rest =
        Some (sb2\<lparr>sack_out := sack_out sb2 + GetLength n1\<rparr>, th', fl', n2, rest1)" "th \<longrightarrow> th'"
      using False ss(2) s run(1) unfolding mark_sacked_def ss(1) list.case prod.case eq
      by (cases "nd_flag n1") (auto simp: sb2_def n2_def segment_ok_Cons Let_def)
    have sb2: "fresh sb2 = fresh sb1" "fack sb2 = fack sb1" "sack_out sb2 = sack_out sb1"
      "nxt_to_retrx sb2 = nxt_to_retrx sb"
      "fack_out sb2 = fack_out sb1 - (if nd_flag n1 = SKB_FLAG_LOST then GetLength n1 else 0)"
      using n1(7) by (auto simp: sb2_def split: skb_flag.split)
    have "segment_ok s (fresh sb1) (n2 # rest1)"
      using set_flag_run [OF run(1), of SKB_FLAG_SACKED] by (simp add: n2_def)
    moreover have "same_run s sb (now # rest) (sb2\<lparr>sack_out := sack_out sb2 + GetLength n1\<rparr>) (n2 # rest1)"
      using run(2) n1(2) assms(2) by (simp add: same_run_def n2_def sb2)
    ultimately show ?thesis
      unfolding m option.case prod.case using n1 m(2) False ss by (simp add: n2_def sb2)
  qed
qed
lemma mark_lost_spec:
  assumes "segment_ok s (fresh sb) (now # rest)"
  shows "case mark_lost dupack thr sb fl now rest of None \<Rightarrow> False | Some (sb', fl', now', rest') \<Rightarrow>
    segment_ok s (fresh sb') (now' # rest') \<and> same_run s sb (now # rest) sb' (now' # rest')
    \<and> addr now' = addr now
    \<and> nxt_to_retrx sb' = (if nxt_to_retrx sb = None \<and> nd_flag now' = SKB_FLAG_LOST
        then Some (addr now) else nxt_to_retrx sb)
    \<and> packets SKB_FLAG_SACKED rest' = packets SKB_FLAG_SACKED rest
    \<and> (nd_flag now' = SKB_FLAG_SACKED \<longleftrightarrow> nd_flag now = SKB_FLAG_SACKED)
    \<and> GetEnd now' \<le> GetEnd now
    \<and> (nd_flag now' = SKB_FLAG_INFLIGHT \<longrightarrow> thr < s)"
proof -
  have s: "nd_seq now = s" using assms by (simp add: segment_ok_Cons)
  show ?thesis
  proof (cases "nd_flag now")
    case SKB_FLAG_INFLIGHT
    show ?thesis
    proof (cases "s \<le> thr")
      case True
      define cut where "cut \<longleftrightarrow> thr < GetEnd now"
      define sb1 where "sb1 = (if cut then sb\<lparr>fresh := fresh sb + 1\<rparr> else sb)"
      define n1 where "n1 = (if cut then fst (Split (fresh sb) (thr + 1) now) else now)"
      define rest1 where "rest1 = (if cut then snd (Split (fresh sb) (thr + 1) now) # rest else rest)"
      have eq: "(if thr < GetEnd now then let (now, new) = Split (fresh sb) (thr + 1) now in
          (sb\<lparr>fresh := fresh sb + 1\<rparr>, now, new # rest) else (sb, now, rest)) = (sb1, n1, rest1)"
        by (simp add: sb1_def n1_def rest1_def cut_def case_prod_beta Let_def)
      have run: "segment_ok s (fresh sb1) (n1 # rest1)" "same_run s sb (now # rest) sb1 (n1 # rest1)"
        using split_run [OF assms, of "thr + 1"] SKB_FLAG_INFLIGHT True assms
        by (auto simp: sb1_def n1_def rest1_def cut_def)
      have n1: "addr n1 = addr now" "nd_flag n1 = SKB_FLAG_INFLIGHT" "GetEnd n1 \<le> GetEnd now"
        "packets SKB_FLAG_SACKED rest1 = packets SKB_FLAG_SACKED rest" "nxt_to_retrx sb1 = nxt_to_retrx sb"
        using SKB_FLAG_INFLIGHT by (auto simp: n1_def rest1_def sb1_def cut_def)
      define n2 where "n2 = SetFlag SKB_FLAG_LOST n1"
      define sb2 where "sb2 = first_retran n2 (sb1\<lparr>fack_out := fack_out sb1 + GetLength n2\<rparr>)"
      have m: "mark_lost dupack thr sb fl now rest = Some (sb2, fl OR FLAG_DATA_LOST, n2, rest1)"
        unfolding mark_lost_def SKB_FLAG_INFLIGHT skb_flag.case eq using s True
        by (simp add: n2_def sb2_def Let_def)
      have sb2: "fresh sb2 = fresh sb1" "fack sb2 = fack sb1" "sack_out sb2 = sack_out sb1"
        "fack_out sb2 = fack_out sb1 + GetLength n2"
        "nxt_to_retrx sb2 = (if nxt_to_retrx sb = None then Some (addr now) else nxt_to_retrx sb)"
        using n1 by (auto simp: sb2_def first_retran_def n2_def)
      have "segment_ok s (fresh sb2) (n2 # rest1)"
        using set_flag_run [OF run(1), of SKB_FLAG_LOST] by (simp add: n2_def sb2)
      moreover have "same_run s sb (now # rest) sb2 (n2 # rest1)"
        using run(2) n1(2) by (simp add: same_run_def sb2) (simp add: n2_def)
      ultimately show ?thesis unfolding m option.case prod.case using n1 sb2(5) SKB_FLAG_INFLIGHT by (simp add: n2_def)
    next
      case False
      then show ?thesis using assms SKB_FLAG_INFLIGHT s by (simp add: mark_lost_def)
    qed
  next
    case SKB_FLAG_RETRANSMITTED
    then obtain x where x: "nd_retran now = Some x" using assms by (auto simp: segment_ok_Cons)
    have len: "GetLength now = 1" using SKB_FLAG_RETRANSMITTED by (simp add: GetLength_def)
    define sb2 where "sb2 = first_retran now (sb\<lparr>fack_out := fack_out sb + 1\<rparr>)"
    have sb2: "fresh sb2 = fresh sb" "fack sb2 = fack sb" "sack_out sb2 = sack_out sb"
      "fack_out sb2 = fack_out sb + 1"
      "nxt_to_retrx sb2 = (if nxt_to_retrx sb = None then Some (addr now) else nxt_to_retrx sb)"
      by (auto simp: sb2_def first_retran_def)
    have m: "mark_lost dupack thr sb fl now rest =
      Some (if nxt_now then (sb2, fl OR FLAG_DATA_LOST, SetFlag SKB_FLAG_LOST now, rest) else (sb, fl, now, rest))"
      if "nxt_now = (nd_nxt now \<le> fack sb \<or> x + dupack + 1 < acked_rtx_id sb)" for nxt_now
      using that x by (simp add: mark_lost_def SKB_FLAG_RETRANSMITTED sb2_def)
    have "same_run s sb (now # rest) sb2 (SetFlag SKB_FLAG_LOST now # rest)"
      using SKB_FLAG_RETRANSMITTED len by (auto simp: same_run_def sb2)
    then show ?thesis
      unfolding m [OF refl]
      using assms SKB_FLAG_RETRANSMITTED sb2 set_flag_run [OF assms, of SKB_FLAG_LOST] by simp
  qed (use assms in \<open>auto simp: mark_lost_def first_retran_def same_run_def\<close>)
qed
lemma visit_spec:
  assumes "segment_ok s (fresh sb) (now # rest)"
  shows "case visit dupack thr ss sb th fl now rest of None \<Rightarrow> False | Some (ss', sb', th', fl', now', rest') \<Rightarrow>
    segment_ok s (fresh sb') (now' # rest') \<and> same_run s sb (now # rest) sb' (now' # rest')
    \<and> addr now' = addr now \<and> (th \<longrightarrow> th')
    \<and> nxt_to_retrx sb' = (if nxt_to_retrx sb = None \<and> nd_flag now' = SKB_FLAG_LOST
        then Some (addr now) else nxt_to_retrx sb)
    \<and> packets SKB_FLAG_SACKED rest' = packets SKB_FLAG_SACKED rest \<and> GetEnd now' \<le> GetEnd now
    \<and> (nd_flag now' = SKB_FLAG_INFLIGHT \<longrightarrow> thr < s)
    \<and> ss' = (if nd_flag now = SKB_FLAG_SACKED then ss else dropWhile (\<lambda>(l, r). r \<le> s) ss)
    \<and> (nd_flag now = SKB_FLAG_SACKED \<longrightarrow> now' = now)
    \<and> (nd_flag now \<noteq> SKB_FLAG_SACKED \<longrightarrow> nd_flag now' = SKB_FLAG_SACKED \<longrightarrow>
        ss' \<noteq> [] \<and> fst (hd ss') \<le> s \<and> GetEnd now' < snd (hd ss'))
    \<and> (nd_flag now' \<noteq> SKB_FLAG_SACKED \<longrightarrow> ss' = [] \<or> GetEnd now' < fst (hd ss'))"
proof (cases "nd_flag now = SKB_FLAG_SACKED")
  case True
  then show ?thesis using assms by (simp add: visit_def)
next
  case False
  have s: "nd_seq now = s" using assms by (simp add: segment_ok_Cons)
  define ss1 where "ss1 = dropWhile (\<lambda>(l, r). r \<le> s) ss"
  have ss1: "ss1 \<noteq> [] \<Longrightarrow> nd_seq now < snd (hd ss1)"
    using hd_dropWhile [of "\<lambda>(l, r). r \<le> s" ss] s by (auto simp: ss1_def case_prod_beta)
  note sack = mark_sacked_spec [OF assms False ss1, of th fl]
  obtain sb1 th1 fl1 n1 rest1 where m1: "mark_sacked ss1 sb th fl now rest = Some (sb1, th1, fl1, n1, rest1)"
    using sack by (cases "mark_sacked ss1 sb th fl now rest") auto
  note s1 = sack [unfolded m1 option.case prod.case]
  show ?thesis
  proof (cases "nd_flag n1 = SKB_FLAG_SACKED")
    case True
    have v: "n1 \<noteq> n1 \<or> \<not> (ss1 = [] \<or> GetEnd n1 < fst (hd ss1))"
    proof -
      have "s \<le> GetEnd n1" using s1 by (simp add: segment_ok_Cons)
      then show ?thesis using s1 True by simp
    qed
    then have "visit dupack thr ss sb th fl now rest = Some (ss1, sb1, th1, fl1, n1, rest1)"
      using False s m1 by (simp add: visit_def ss1_def [symmetric] Let_def)
    then show ?thesis using s1 True False by (simp add: ss1_def [symmetric])
  next
    case nsacked: False
    note lost = mark_lost_spec
      [where s = s and sb = sb1 and now = n1 and rest = rest1 and dupack = dupack and thr = thr and fl = fl1]
    obtain sb2 fl2 n2 rest2 where m2: "mark_lost dupack thr sb1 fl1 n1 rest1 = Some (sb2, fl2, n2, rest2)"
      using lost s1 by (cases "mark_lost dupack thr sb1 fl1 n1 rest1") auto
    note s2 = lost [unfolded m2 option.case prod.case]
    have "visit dupack thr ss sb th fl now rest = Some (ss1, sb2, th1, fl2, n2, rest2)"
      using False s m1 m2 s1 nsacked by (simp add: visit_def ss1_def [symmetric] Let_def)
    then show ?thesis
      using s1 s2 nsacked False same_run_trans [of s sb "now # rest" sb1 "n1 # rest1" sb2 "n2 # rest2"]
      by (auto simp: ss1_def [symmetric])
  qed
qed

lemma segment_ok_append:
  "segment_ok s a (xs @ ys) \<longleftrightarrow> segment_ok s a xs \<and> segment_ok (board_end s xs + 1) a ys
     \<and> addr ` set xs \<inter> addr ` set ys = {}"
  by (auto simp: segment_ok_def contiguous_append)

lemma GetEnd_Merge:
  assumes "Mergable p n"
  shows "GetEnd (Merge p n) = GetEnd n" "nd_flag (Merge p n) = nd_flag p" "nd_seq (Merge p n) = nd_seq p"
    "addr (Merge p n) = addr p" "nd_flag p \<noteq> SKB_FLAG_RETRANSMITTED" "nd_flag n = nd_flag p"
    "nd_retran (Merge p n) = nd_retran p"
  using assms by (auto simp: Mergable_def Merge_def GetEnd_def)

text \<open>Joining a block to the ones before it keeps the board.\<close>

lemma link_block_run:
  assumes "segment_ok una a (rev visited @ now # rest)"
  shows "segment_ok una a (rev (link_block visited now) @ rest)"
    and "board_end una (rev (link_block visited now)) = GetEnd now"
    and "tally f (link_block visited now) = tally f (now # visited)"
    and "packets f (link_block visited now) = packets f (now # visited)"
    and "GetEnd (hd (link_block visited now)) = GetEnd now"
proof -
  have "segment_ok una a (rev (link_block visited now) @ rest)
    \<and> board_end una (rev (link_block visited now)) = GetEnd now
    \<and> tally f (link_block visited now) = tally f (now # visited)
    \<and> packets f (link_block visited now) = packets f (now # visited)
    \<and> GetEnd (hd (link_block visited now)) = GetEnd now"
  proof (cases "visited = [] \<or> \<not> Mergable (hd visited) now")
    case True
    then have "link_block visited now = now # visited" by (auto simp: link_block_def split: list.split)
    then show ?thesis using assms by simp
  next
    case False
    then obtain p before where v: "visited = p # before" "Mergable p now" by (cases visited) auto
    note mg = GetEnd_Merge [OF v(2)]
    have l: "link_block visited now = Merge p now # before" using v by (simp add: link_block_def)
    have r: "segment_ok una a (rev before)" "segment_ok (board_end una (rev before) + 1) a (p # now # rest)"
      "addr ` set (rev before) \<inter> addr ` set (p # now # rest) = {}"
      using segment_ok_append [of una a "rev before" "p # now # rest"] assms by (simp_all add: v)
    note p = r(2) [unfolded segment_ok_Cons]
    have u: "{nd_seq p..GetEnd p} \<union> {nd_seq now..GetEnd now} = {nd_seq p..GetEnd now}" using p by auto
    have "segment_ok (board_end una (rev before) + 1) a (Merge p now # rest)"
      using p unfolding segment_ok_Cons mg by auto
    moreover have "addr ` set (rev before) \<inter> addr ` set (Merge p now # rest) = {}"
      using r(3) by (simp add: mg)
    ultimately have "segment_ok una a (rev (link_block visited now) @ rest)"
      using segment_ok_append [of una a "rev before" "Merge p now # rest"] r(1) by (simp add: l)
    moreover have "tally f (link_block visited now) = tally f (now # visited)"
      using p v(1) l by (simp add: mg GetLength_eq)
    moreover have "packets f (link_block visited now) = packets f (now # visited)"
      using u v(1) l by (auto simp: mg)
    ultimately show ?thesis unfolding l by (simp add: mg)
  qed
  then show "segment_ok una a (rev (link_block visited now) @ rest)"
    and "board_end una (rev (link_block visited now)) = GetEnd now"
    and "tally f (link_block visited now) = tally f (now # visited)"
    and "packets f (link_block visited now) = packets f (now # visited)"
    and "GetEnd (hd (link_block visited now)) = GetEnd now" by blast+
qed
text \<open>
  The invariant of the traversal: where the board stands with \<open>visited\<close> done (from \<open>una\<close> on,
  the last block first) and \<open>nodes\<close> to come, for the sorted sack blocks \<open>sacks\<close> of which
  \<open>ss\<close> remain, and the packets \<open>S\<close> that were sacked before.
\<close>

definition covered :: "(int \<times> int) list \<Rightarrow> int set" where
  "covered sacks = (\<Union>(l, r)\<in>set sacks. {l..<r})"

definition scan_inv ::
    "int \<Rightarrow> int \<Rightarrow> int set \<Rightarrow> (int \<times> int) list \<Rightarrow> (int \<times> int) list \<Rightarrow> scoreboard \<Rightarrow> sb_node list \<Rightarrow> sb_node list \<Rightarrow> bool"
where
  "scan_inv una thr S sacks ss sb visited nodes \<longleftrightarrow>
     segment_ok una (fresh sb) (rev visited @ nodes)
     \<and> fack_out sb = tally SKB_FLAG_LOST (rev visited @ nodes)
     \<and> sack_out sb = tally SKB_FLAG_SACKED (rev visited @ nodes)
     \<and> pointer_ok (nxt_to_retrx sb) (rev visited)
     \<and> (nxt_to_retrx sb = None \<longrightarrow> (\<forall>n\<in>set visited. nd_flag n \<noteq> SKB_FLAG_LOST))
     \<and> (\<forall>n\<in>set visited. nd_flag n = SKB_FLAG_INFLIGHT \<longrightarrow> thr < nd_seq n)
     \<and> packets SKB_FLAG_SACKED visited = (S \<union> covered sacks) \<inter> {una..board_end una (rev visited)}
     \<and> packets SKB_FLAG_SACKED nodes = S \<inter> {board_end una (rev visited)<..}
     \<and> (\<exists>passed. sacks = passed @ ss \<and> (\<forall>(l, r)\<in>set passed. r \<le> board_end una (rev visited) + 1))
     \<and> sorted (map fst sacks)"

lemma pointer_ok_append: "pointer_ok p xs \<Longrightarrow> pointer_ok p (xs @ ys)"
  by (fastforce simp: pointer_ok_def takeWhile_append split: option.splits)

lemma set_rev_link:
  "n \<in> set (link_block visited now) \<Longrightarrow>
     n \<in> set (now # visited) \<or> Mergable (hd visited) now \<and> visited \<noteq> [] \<and> n = Merge (hd visited) now"
  by (auto simp: link_block_def split: list.splits if_splits)

lemma pointer_ok_flags: "pointer_ok p zs = (case p of None \<Rightarrow> True | Some a \<Rightarrow> a \<in> addr ` set zs
   \<and> SKB_FLAG_LOST \<notin> nd_flag ` set (takeWhile (\<lambda>n. addr n \<noteq> a) zs))"
  unfolding pointer_ok_def image_iff by (simp only: bex_simps ball_simps not_not eq_commute)

lemma pointer_ok_cong:
  assumes "map addr xs = map addr ys" and "map nd_flag xs = map nd_flag ys"
  shows "pointer_ok p xs = pointer_ok p ys"
proof -
  have "map nd_flag (takeWhile (\<lambda>n. addr n \<noteq> b) xs) = map nd_flag (takeWhile (\<lambda>n. addr n \<noteq> b) ys)" for b
    using assms by (induction xs ys rule: list_induct2') simp_all
  from arg_cong [OF this, of set]
  have "nd_flag ` set (takeWhile (\<lambda>n. addr n \<noteq> b) xs) = nd_flag ` set (takeWhile (\<lambda>n. addr n \<noteq> b) ys)" for b
    by simp
  moreover have "addr ` set xs = addr ` set ys" using arg_cong [OF assms(1), of set] by simp
  ultimately show ?thesis by (simp add: pointer_ok_flags split: option.split)
qed

text \<open>The pointer after a block joins: it is the new block when that is the first lost one.\<close>

lemma pointer_link:
  assumes ptr: "pointer_ok p (rev visited)" and none: "p = None \<Longrightarrow> \<forall>n\<in>set visited. nd_flag n \<noteq> SKB_FLAG_LOST"
    and p': "p' = (if p = None \<and> nd_flag now = SKB_FLAG_LOST then Some (addr now) else p)"
    and new: "addr now \<notin> addr ` set visited"
  shows "pointer_ok p' (rev (link_block visited now))"
    and "p' = None \<Longrightarrow> \<forall>n\<in>set (link_block visited now). nd_flag n \<noteq> SKB_FLAG_LOST"
proof -
  have "pointer_ok p' (rev (link_block visited now))
    \<and> (p' = None \<longrightarrow> (\<forall>n\<in>set (link_block visited now). nd_flag n \<noteq> SKB_FLAG_LOST))"
  proof (cases "visited = [] \<or> \<not> Mergable (hd visited) now")
    case True
    then have l: "link_block visited now = now # visited" by (auto simp: link_block_def split: list.split)
    have "takeWhile (\<lambda>n. addr n \<noteq> addr now) (rev visited @ [now]) = rev visited"
      using new by (subst takeWhile_append2) (metis image_eqI set_rev, simp)
    then show ?thesis
      using ptr none p' pointer_ok_append [OF ptr] by (auto simp: l pointer_ok_def)
  next
    case False
    then obtain q before where v: "visited = q # before" "Mergable q now" by (cases visited) auto
    note mg = GetEnd_Merge [OF v(2)]
    have l: "link_block visited now = Merge q now # before" using v by (simp add: link_block_def)
    have "p' = p" using p' none v(1) mg(6) by auto
    moreover have "pointer_ok p (rev (Merge q now # before)) = pointer_ok p (rev visited)"
      by (rule pointer_ok_cong) (simp_all add: v mg)
    ultimately show ?thesis using ptr none unfolding l by (simp add: v mg)
  qed
  then show "pointer_ok p' (rev (link_block visited now))"
    and "p' = None \<Longrightarrow> \<forall>n\<in>set (link_block visited now). nd_flag n \<noteq> SKB_FLAG_LOST" by blast+
qed
text \<open>One round of the traversal.\<close>

lemma visit_link_inv:
  assumes inv: "scan_inv una thr S sacks ss sb visited (now # rest)"
    and v: "visit dupack thr ss sb th fl now rest = Some (ss', sb', th', fl', now', rest')"
  shows "scan_inv una thr S sacks ss' sb' (link_block visited now') rest'"
    and "board_end una (rev visited) < GetEnd now'"
    and "board_end una (rev (link_block visited now') @ rest') = board_end una (rev visited @ now # rest)"
    and "fack sb' = fack sb" and "th \<longrightarrow> th'"
proof -
  define s where "s = board_end una (rev visited) + 1"
  note I = inv [unfolded scan_inv_def s_def [symmetric]]
  have sg: "segment_ok una (fresh sb) (rev visited)" "segment_ok s (fresh sb) (now # rest)"
    "addr ` set (rev visited) \<inter> addr ` set (now # rest) = {}"
    using I segment_ok_append [of una "fresh sb" "rev visited" "now # rest"] by (simp_all add: s_def)
  have V: "segment_ok s (fresh sb') (now' # rest')" "same_run s sb (now # rest) sb' (now' # rest')"
    "addr now' = addr now" "th \<longrightarrow> th'"
    "nxt_to_retrx sb' = (if nxt_to_retrx sb = None \<and> nd_flag now' = SKB_FLAG_LOST
      then Some (addr now) else nxt_to_retrx sb)"
    "packets SKB_FLAG_SACKED rest' = packets SKB_FLAG_SACKED rest" "GetEnd now' \<le> GetEnd now"
    "nd_flag now' = SKB_FLAG_INFLIGHT \<longrightarrow> thr < s"
    "ss' = (if nd_flag now = SKB_FLAG_SACKED then ss else dropWhile (\<lambda>(l, r). r \<le> s) ss)"
    "nd_flag now = SKB_FLAG_SACKED \<longrightarrow> now' = now"
    "nd_flag now \<noteq> SKB_FLAG_SACKED \<longrightarrow> nd_flag now' = SKB_FLAG_SACKED \<longrightarrow>
      ss' \<noteq> [] \<and> fst (hd ss') \<le> s \<and> GetEnd now' < snd (hd ss')"
    "nd_flag now' \<noteq> SKB_FLAG_SACKED \<longrightarrow> ss' = [] \<or> GetEnd now' < fst (hd ss')"
    using visit_spec [OF sg(2), where dupack = dupack and thr = thr and ss = ss and th = th and fl = fl]
    unfolding v option.case prod.case by - (elim conjE; assumption)+
  have now: "nd_seq now = s" "s \<le> GetEnd now" "segment_ok (GetEnd now + 1) (fresh sb) rest"
    using sg(2) by (simp_all add: segment_ok_Cons)
  have now': "nd_seq now' = s" "s \<le> GetEnd now'" "addr now' \<notin> addr ` set rest'"
    using V(1) by (simp_all add: segment_ok_Cons)
  have seg: "segment_ok una (fresh sb') (rev visited @ now' # rest')"
  proof -
    have "segment_ok una (fresh sb') (rev visited)"
      using sg(1) V(2) segment_ok_mono by (auto simp: same_run_def)
    moreover have "addr ` set (rev visited) \<inter> addr ` set (now' # rest') = {}"
    proof -
      have "addr ` set (now' # rest') \<subseteq> addr ` set (now # rest) \<union> {fresh sb..}"
        using V(2) by (simp only: same_run_def)
      moreover have "addr ` set (rev visited) \<inter> {fresh sb..} = {}"
        using sg(1) by (force simp: segment_ok_def)
      ultimately show ?thesis using sg(3) by blast
    qed
    ultimately show ?thesis using V(1) segment_ok_append [of una "fresh sb'"] by (simp add: s_def)
  qed
  note L = link_block_run [OF seg]
  have e: "board_end una (rev visited @ now' # rest') = board_end una (rev visited @ now # rest)"
    using V(2) by (simp add: same_run_def s_def)
  show "board_end una (rev visited) < GetEnd now'" using now'(2) by (simp add: s_def)
  show "board_end una (rev (link_block visited now') @ rest') = board_end una (rev visited @ now # rest)"
    using e L(2) by simp
  show "fack sb' = fack sb" using V(2) by (simp add: same_run_def)
  show "th \<longrightarrow> th'" by (rule V(4))
  have tallies: "fack_out sb' = tally SKB_FLAG_LOST (rev (link_block visited now') @ rest')"
    "sack_out sb' = tally SKB_FLAG_SACKED (rev (link_block visited now') @ rest')"
    using V(2) I by (simp_all add: same_run_def L(3))
  have new: "addr now' \<notin> addr ` set visited" using sg(3) V(3) by auto
  have ptr: "pointer_ok (nxt_to_retrx sb') (rev (link_block visited now'))"
    "nxt_to_retrx sb' = None \<Longrightarrow> \<forall>n\<in>set (link_block visited now'). nd_flag n \<noteq> SKB_FLAG_LOST"
    using pointer_link [OF _ _ V(5) [folded V(3)] new] I by blast+
  have thr: "\<forall>n\<in>set (link_block visited now'). nd_flag n = SKB_FLAG_INFLIGHT \<longrightarrow> thr < nd_seq n"
  proof
    fix n assume "n \<in> set (link_block visited now')"
    then consider "n \<in> set visited" | "n = now'"
      | "Mergable (hd visited) now'" "visited \<noteq> []" "n = Merge (hd visited) now'"
      using set_rev_link by fastforce
    then show "nd_flag n = SKB_FLAG_INFLIGHT \<longrightarrow> thr < nd_seq n"
      using I V(8) now'(1) GetEnd_Merge [of "hd visited" now'] by cases auto
  qed
  obtain passed where passed: "sacks = passed @ ss" "\<forall>(l, r)\<in>set passed. r \<le> s"
    using I by (auto simp: s_def)
  define passed' where "passed' = passed @ (if nd_flag now = SKB_FLAG_SACKED then [] else takeWhile (\<lambda>(l, r). r \<le> s) ss)"
  have p': "sacks = passed' @ ss'" "\<forall>(l, r)\<in>set passed'. r \<le> s"
    using passed V(9) by (auto simp: passed'_def dest: set_takeWhileD)
  have so: "sorted (map fst sacks)" using I by blast
  have us: "una \<le> s" using sg(1) board_end_ge [of una "rev visited"] by (simp add: segment_ok_def s_def)
  have split: "{una..GetEnd now'} = {una..s - 1} \<union> {s..GetEnd now'}" using us now'(2) by auto
  have vis: "packets SKB_FLAG_SACKED visited = (S \<union> covered sacks) \<inter> {una..s - 1}"
    using I by (simp add: s_def)
  have r: "packets SKB_FLAG_SACKED rest \<subseteq> {GetEnd now + 1..}"
    using now(3) packets_range [of "GetEnd now + 1" rest SKB_FLAG_SACKED] by (auto simp: segment_ok_def)
  have S: "(if nd_flag now = SKB_FLAG_SACKED then {s..GetEnd now} else {}) \<union> packets SKB_FLAG_SACKED rest = S \<inter> {s - 1<..}"
  proof -
    have "packets SKB_FLAG_SACKED (now # rest) = S \<inter> {board_end una (rev visited)<..}" using I by blast
    then show ?thesis unfolding packets_simps now(1) by (simp only: s_def add_diff_cancel_right')
  qed
  have S1: "S \<inter> {GetEnd now<..} = packets SKB_FLAG_SACKED rest"
  proof -
    have "S \<inter> {GetEnd now<..} = (S \<inter> {s - 1<..}) \<inter> {GetEnd now<..}" using now(2) by auto
    also have "\<dots> = packets SKB_FLAG_SACKED rest" unfolding S [symmetric] using r by auto
    finally show ?thesis .
  qed
  have S2: "S \<inter> {s..GetEnd now} = (if nd_flag now = SKB_FLAG_SACKED then {s..GetEnd now} else {})"
  proof -
    have "S \<inter> {s..GetEnd now} = (S \<inter> {s - 1<..}) \<inter> {s..GetEnd now}" by auto
    also have "\<dots> = (if nd_flag now = SKB_FLAG_SACKED then {s..GetEnd now} else {})"
      unfolding S [symmetric] using r by auto
    finally show ?thesis .
  qed
  have rest': "packets SKB_FLAG_SACKED rest' = S \<inter> {GetEnd now'<..}"
  proof -
    have "S \<inter> {GetEnd now'<..GetEnd now} = {}"
    proof (cases "nd_flag now = SKB_FLAG_SACKED")
      case True
      then show ?thesis using V(10) by auto
    next
      case False
      then show ?thesis using S2 now'(2) by auto
    qed
    then show ?thesis unfolding V(6) S1 [symmetric] using V(7) by auto
  qed
  have T: "covered sacks \<inter> {s..GetEnd now'} = {}" if nsacked: "nd_flag now' \<noteq> SKB_FLAG_SACKED"
  proof -
    have "x \<notin> {l..<r}" if lr: "(l, r) \<in> set sacks" and x: "x \<in> {s..GetEnd now'}" for x l r
    proof -
      consider "(l, r) \<in> set passed'" | "(l, r) \<in> set ss'" using lr p'(1) by auto
      then show ?thesis
      proof cases
        case 1
        then show ?thesis using p'(2) x by auto
      next
        case 2
        have "sorted (map fst ss')" using so p'(1) by (simp add: sorted_append)
        then have "fst (hd ss') \<le> l" using 2 by (cases ss') auto
        then show ?thesis using V(12) nsacked 2 x by auto
      qed
    qed
    then show ?thesis by (auto simp: covered_def)
  qed
  have X: "(if nd_flag now' = SKB_FLAG_SACKED then {s..GetEnd now'} else {}) = (S \<union> covered sacks) \<inter> {s..GetEnd now'}"
  proof (cases "nd_flag now' = SKB_FLAG_SACKED")
    case sacked: True
    have "{s..GetEnd now'} \<subseteq> S \<union> covered sacks"
    proof (cases "nd_flag now = SKB_FLAG_SACKED")
      case True
      then show ?thesis using S2 V(10) by auto
    next
      case False
      then have h: "ss' \<noteq> []" "fst (hd ss') \<le> s" "GetEnd now' < snd (hd ss')" using V(11) sacked by auto
      then have "hd ss' \<in> set sacks" by (simp add: p'(1))
      then have "{fst (hd ss')..<snd (hd ss')} \<subseteq> covered sacks" by (force simp: covered_def)
      moreover have "{s..GetEnd now'} \<subseteq> {fst (hd ss')..<snd (hd ss')}" using h by auto
      ultimately show ?thesis by blast
    qed
    then show ?thesis using sacked by auto
  next
    case False
    then have "nd_flag now \<noteq> SKB_FLAG_SACKED" using V(10) by auto
    then have "S \<inter> {s..GetEnd now'} = {}" using S2 V(7) by auto
    then show ?thesis using False T by auto
  qed
  have sacked: "packets SKB_FLAG_SACKED (now' # visited) = (S \<union> covered sacks) \<inter> {una..GetEnd now'}"
    unfolding packets_simps now'(1) X vis split by blast
  show "scan_inv una thr S sacks ss' sb' (link_block visited now') rest'"
    unfolding scan_inv_def L(2)
  proof (intro conjI)
    show "\<exists>passed. sacks = passed @ ss' \<and> (\<forall>(l, r)\<in>set passed. r \<le> GetEnd now' + 1)"
      using p' now'(2) by (intro exI [of _ passed']) auto
  qed (use L(1,4) tallies ptr thr sacked rest' so in \<open>auto\<close>)
qed
lemma extend_board_inv:
  assumes "scan_inv una thr S sacks ss sb visited rest" and "visited \<noteq> []"
    and "extend_board visited sb rest = (sb', rest')"
    and e: "GetEnd (hd visited) = board_end una (rev visited)"
  shows "scan_inv una thr S sacks ss sb' visited rest'" and "fack sb' = fack sb"
    and "rest' = [] \<Longrightarrow> fack sb \<le> board_end una (rev visited)"
    and "max (board_end una (rev visited @ rest')) (fack sb) = max (board_end una (rev visited @ rest)) (fack sb)"
    and "board_end una (rev visited @ rest) \<le> board_end una (rev visited @ rest')"
proof -
  have "scan_inv una thr S sacks ss sb' visited rest' \<and> fack sb' = fack sb
    \<and> (rest' = [] \<longrightarrow> fack sb \<le> board_end una (rev visited))
    \<and> max (board_end una (rev visited @ rest')) (fack sb) = max (board_end una (rev visited @ rest)) (fack sb)
    \<and> board_end una (rev visited @ rest) \<le> board_end una (rev visited @ rest')"
  proof (cases "rest = [] \<and> GetEnd (hd visited) < fack sb")
    case True
    define new where "new = new_node (fresh sb) (GetEnd (hd visited) + 1) (fack sb) SKB_FLAG_INFLIGHT"
    have x: "sb' = sb\<lparr>fresh := fresh sb + 1\<rparr>" "rest' = [new]"
      using assms(3) True by (auto simp: extend_board_def new_def)
    have n: "nd_flag new = SKB_FLAG_INFLIGHT" "nd_seq new = board_end una (rev visited) + 1"
      "GetEnd new = fack sb" "addr new = fresh sb"
      using e by (simp_all add: new_def new_node_def GetEnd_def)
    have sg: "segment_ok una (fresh sb) (rev visited)" using assms(1) True by (simp add: scan_inv_def)
    then have "segment_ok una (fresh sb + 1) (rev visited @ [new])"
      using True e segment_ok_mono [OF sg, of "fresh sb + 1"] fresh_notin [OF sg]
      by (simp add: segment_ok_append segment_ok_Cons n) (simp add: segment_ok_def)
    then show ?thesis using assms(1) True e n unfolding x scan_inv_def by auto
  next
    case False
    then have "sb' = sb" "rest' = rest" using assms(3) by (auto simp: extend_board_def)
    then show ?thesis using assms(1) False e by auto
  qed
  then show "scan_inv una thr S sacks ss sb' visited rest'" and "fack sb' = fack sb"
    and "rest' = [] \<Longrightarrow> fack sb \<le> board_end una (rev visited)"
    and "max (board_end una (rev visited @ rest')) (fack sb) = max (board_end una (rev visited @ rest)) (fack sb)"
    and "board_end una (rev visited @ rest) \<le> board_end una (rev visited @ rest')" by blast+
qed

text \<open>
  The traversal ends, without following a bad pointer or reading an uninitialised member; it
  leaves a well-formed board on which the packets of the sack blocks are sacked, and when it
  was thorough no packet at or below the threshold is still taken to be in flight.
\<close>

lemma scan_returns:
  assumes "scan_inv una thr S sacks ss sb visited nodes"
    and "nodes = [] \<Longrightarrow> visited \<noteq> [] \<and> fack sb \<le> board_end una (rev visited)"
    and "S \<subseteq> {una..board_end una (rev visited @ nodes)}"
  shows "\<exists>sb' fl'. scan dupack thr ss sb th fl visited nodes = Some (sb', fl') \<and> board_ok una sb' \<and> sb_head sb' \<noteq> []
    \<and> fack sb' = fack sb \<and> board_end una (rev visited @ nodes) \<le> board_end una (sb_head sb')
    \<and> board_end una (sb_head sb') \<le> max (board_end una (rev visited @ nodes)) (fack sb)
    \<and> packets SKB_FLAG_SACKED (sb_head sb') = (S \<union> covered sacks) \<inter> {una..board_end una (sb_head sb')}
    \<and> (th \<longrightarrow> fack sb \<le> board_end una (sb_head sb')
        \<and> (\<forall>n\<in>set (sb_head sb'). nd_flag n = SKB_FLAG_INFLIGHT \<longrightarrow> thr < nd_seq n))"
  using assms
proof (induction "nat (max (board_end una (rev visited @ nodes)) (fack sb) - board_end una (rev visited))"
    arbitrary: ss sb th fl visited nodes rule: less_induct)
  case less
  note I = less.prems(1) [unfolded scan_inv_def]
  show ?case
  proof (cases nodes)
    case Nil
    have "scan dupack thr ss sb th fl visited nodes = Some (sb\<lparr>sb_head := rev visited\<rparr>, fl)"
      by (simp add: scan.simps Nil)
    moreover have "board_ok una (sb\<lparr>sb_head := rev visited\<rparr>)"
      using I by (simp add: board_ok_def Nil)
    ultimately show ?thesis using I less.prems(2) by (auto simp: Nil)
  next
    case (Cons now rest)
    have sg: "segment_ok una (fresh sb) (rev visited @ nodes)" using I by blast
    show ?thesis
    proof (cases "ss = [] \<and> \<not> th")
      case True
      have sc: "scan dupack thr ss sb th fl visited nodes = Some (sb\<lparr>sb_head := rev visited @ nodes\<rparr>, fl)"
        using True by (simp add: scan.simps Cons)
      have "board_ok una (sb\<lparr>sb_head := rev visited @ nodes\<rparr>)"
        using I by (simp add: board_ok_def pointer_ok_append)
      moreover have "packets SKB_FLAG_SACKED (rev visited @ nodes)
          = (S \<union> covered sacks) \<inter> {una..board_end una (rev visited @ nodes)}"
      proof -
        have "covered sacks \<subseteq> {..board_end una (rev visited)}"
          using I True by (fastforce simp: covered_def)
        moreover have "board_end una (rev visited) \<le> board_end una (rev visited @ nodes)"
          using sg board_end_ge [of "board_end una (rev visited) + 1" nodes]
          by (simp add: segment_ok_append) (simp add: segment_ok_def)
        moreover have "una - 1 \<le> board_end una (rev visited)"
          using sg board_end_ge [of una "rev visited"] by (simp add: segment_ok_append) (simp add: segment_ok_def)
        moreover have p: "packets SKB_FLAG_SACKED visited = (S \<union> covered sacks) \<inter> {una..board_end una (rev visited)}"
          "packets SKB_FLAG_SACKED nodes = S \<inter> {board_end una (rev visited)<..}" using I by blast+
        ultimately show ?thesis
          using less.prems(3) unfolding packets_simps p by (auto simp del: board_end_append)
      qed
      moreover have "nodes \<noteq> []" by (simp add: Cons)
      ultimately show ?thesis unfolding sc using True by (auto simp del: packets_simps board_end_append)
    next
      case False
      have seg: "segment_ok (board_end una (rev visited) + 1) (fresh sb) (now # rest)"
        using sg segment_ok_append [of una "fresh sb" "rev visited" nodes] by (simp add: Cons)
      have "visit dupack thr ss sb th fl now rest \<noteq> None"
      proof
        assume n: "visit dupack thr ss sb th fl now rest = None"
        show False
          using visit_spec [OF seg, where dupack = dupack and thr = thr and ss = ss and th = th and fl = fl]
          unfolding n option.case .
      qed
      then obtain ss1 sb1 th1 fl1 now1 rest1 where
        v: "visit dupack thr ss sb th fl now rest = Some (ss1, sb1, th1, fl1, now1, rest1)"
        by (metis not_None_eq prod_cases6)
      note inv1 = visit_link_inv [OF less.prems(1) [unfolded Cons] v]
      define visited1 where "visited1 = link_block visited now1"
      obtain sb2 rest2 where ex: "extend_board visited1 sb1 rest1 = (sb2, rest2)" by force
      have ne: "visited1 \<noteq> []" by (auto simp: visited1_def link_block_def split: list.split)
      have sg1: "segment_ok una (fresh sb1) (rev visited1 @ rest1)"
        using inv1(1) by (simp add: scan_inv_def visited1_def)
      have hd1: "GetEnd (hd visited1) = board_end una (rev visited1)"
        using ne by (cases visited1) simp_all
      note inv2 = extend_board_inv [OF inv1(1) [folded visited1_def] ne ex hd1]
      have grow: "board_end una (rev visited) < board_end una (rev visited1)"
        using inv1(2) hd1 by (auto simp: visited1_def link_block_def GetEnd_Merge split: list.splits if_splits)
      have step: "scan dupack thr ss sb th fl visited nodes = scan dupack thr ss1 sb2 th1 fl1 visited1 rest2"
        by (subst scan.simps) (use False v ex in \<open>auto simp: Cons visited1_def [symmetric] Let_def\<close>)
      have mx: "max (board_end una (rev visited1 @ rest2)) (fack sb2) = max (board_end una (rev visited @ nodes)) (fack sb)"
        using inv1(3,4) inv2(2,4) by (simp add: Cons visited1_def [symmetric])
      have le: "board_end una (rev visited1) \<le> board_end una (rev visited1 @ rest2)"
        using inv2(1) board_end_ge [of "board_end una (rev visited1) + 1" rest2]
        by (simp add: scan_inv_def segment_ok_append) (simp add: segment_ok_def)
      have lt: "nat (max (board_end una (rev visited1 @ rest2)) (fack sb2) - board_end una (rev visited1))
          < nat (max (board_end una (rev visited @ nodes)) (fack sb) - board_end una (rev visited))"
        using grow le unfolding mx [symmetric] by linarith
      have "S \<subseteq> {una..board_end una (rev visited1 @ rest2)}"
        using less.prems(3) inv1(3) inv2(5) by (auto simp: Cons visited1_def [symmetric] simp del: board_end_append)
      from less.hyps [OF lt inv2(1) _ this, of th1 fl1] ne inv2(2,3,5) mx inv1(3,4,5)
      show ?thesis unfolding step by (auto simp: Cons visited1_def [symmetric] simp del: board_end_append)
    qed
  qed
qed
subsection \<open>The cumulative acknowledgment\<close>

lemma pointer_ok_Cons: "pointer_ok (Some b) (n # ns) \<longleftrightarrow>
    b = addr n \<or> nd_flag n \<noteq> SKB_FLAG_LOST \<and> pointer_ok (Some b) ns"
  if "addr n \<notin> addr ` set ns"
  using that by (auto simp: pointer_ok_def image_iff split: if_splits)

lemma pointer_ok_None [simp]: "pointer_ok None ns"
  by (simp add: pointer_ok_def)

lemma pointer_ok_head: "pointer_ok (head_addr ns) ns"
  by (cases ns) (simp_all add: head_addr_def pointer_ok_def)

text \<open>What is left of the board when the packets up to \<open>last_ack\<close> are acknowledged.\<close>

lemma clean_loop_returns:
  assumes "segment_ok una (fresh sb) ns" and "fack_out sb = tally SKB_FLAG_LOST ns"
    and "sack_out sb = tally SKB_FLAG_SACKED ns" and "pointer_ok (nxt_to_retrx sb) ns" and "una \<le> last_ack + 1"
  shows "\<exists>sb' ch fl'. clean_loop last_ack ns (sb, changed, fl) = Some (sb', ch, fl')
    \<and> board_ok (last_ack + 1) sb' \<and> fack sb' = fack sb
    \<and> packets f (sb_head sb') = packets f ns \<inter> {last_ack<..}
    \<and> (sb_head sb' \<noteq> [] \<longrightarrow> board_end (last_ack + 1) (sb_head sb') = board_end una ns)
    \<and> (sb_head sb' = [] \<longrightarrow> board_end una ns \<le> last_ack)"
  using assms
proof (induction ns arbitrary: una sb changed fl)
  case Nil
  then show ?case by (auto simp: board_ok_def segment_ok_def pointer_ok_def split: option.splits)
next
  case (Cons n ns)
  have n: "nd_seq n = una" "una \<le> GetEnd n" "segment_ok (GetEnd n + 1) (fresh sb) ns" "addr n \<notin> addr ` set ns"
    using Cons.prems(1) by (simp_all add: segment_ok_Cons)
  have r: "packets g ns \<subseteq> {GetEnd n + 1..}" for g
    using n(3) packets_range [of "GetEnd n + 1" ns g] by (auto simp: segment_ok_def)
  have pos: "0 \<le> tally g ns" for g using n(3) tally_nonneg by (auto simp: segment_ok_def)
  show ?case
  proof (cases "last_ack < una")
    case True
    then have "ShouldClean last_ack n = 0" using n by (simp add: ShouldClean_def)
    moreover have "last_ack + 1 = una" using True Cons.prems(5) by simp
    moreover have "packets f (n # ns) \<inter> {last_ack<..} = packets f (n # ns)"
      using True n(1,2) r [of f] by (auto split: if_splits)
    ultimately show ?thesis using Cons.prems by (auto simp: board_ok_def)
  next
    case False
    show ?thesis
    proof (cases "GetEnd n \<le> last_ack")
      case True
      then have neg: "ShouldClean last_ack n = - 1"
        using False n by (auto simp: ShouldClean_def GetEnd_def split: if_splits)
      obtain sb1 where u: "uncount (nd_flag n) (GetLength n) sb = Some sb1"
        and sb1: "fresh sb1 = fresh sb" "fack sb1 = fack sb" "nxt_to_retrx sb1 = nxt_to_retrx sb"
          "fack_out sb1 = tally SKB_FLAG_LOST ns" "sack_out sb1 = tally SKB_FLAG_SACKED ns"
        using Cons.prems(2,3) pos by (cases "nd_flag n") (auto simp: uncount_def Let_def)
      obtain sb2 ch fl2 where a: "acked_rtx n (sb1, changed, fl) = Some (sb2, ch, fl2)"
        and sb2: "fresh sb2 = fresh sb" "fack sb2 = fack sb" "nxt_to_retrx sb2 = nxt_to_retrx sb"
          "fack_out sb2 = tally SKB_FLAG_LOST ns" "sack_out sb2 = tally SKB_FLAG_SACKED ns"
        using sb1 Cons.prems(1)
        by (cases "nd_flag n = SKB_FLAG_RETRANSMITTED"; cases "nd_retran n"; cases "acked_rtx_id sb1 < the (nd_retran n)")
          (auto simp: acked_rtx_def segment_ok_Cons split: if_splits)
      define sb3 where "sb3 = (if nxt_to_retrx sb2 = Some (addr n) then sb2\<lparr>nxt_to_retrx := head_addr ns\<rparr> else sb2)"
      have sb3: "fresh sb3 = fresh sb" "fack sb3 = fack sb" "fack_out sb3 = tally SKB_FLAG_LOST ns"
        "sack_out sb3 = tally SKB_FLAG_SACKED ns"
        using sb2 by (auto simp: sb3_def)
      have "pointer_ok (nxt_to_retrx sb3) ns"
        using Cons.prems(4) pointer_ok_Cons [OF n(4)] pointer_ok_head sb2(3)
        by (cases "nxt_to_retrx sb") (auto simp: sb3_def)
      then have ih: "\<exists>sb' ch' fl'. clean_loop last_ack ns (sb3, ch, fl2) = Some (sb', ch', fl')
        \<and> board_ok (last_ack + 1) sb' \<and> fack sb' = fack sb3
        \<and> packets f (sb_head sb') = packets f ns \<inter> {last_ack<..}
        \<and> (sb_head sb' \<noteq> [] \<longrightarrow> board_end (last_ack + 1) (sb_head sb') = board_end (GetEnd n + 1) ns)
        \<and> (sb_head sb' = [] \<longrightarrow> board_end (GetEnd n + 1) ns \<le> last_ack)"
        using Cons.IH [of "GetEnd n + 1" sb3 ch fl2] sb3 n(3) True by auto
      have step: "clean_loop last_ack (n # ns) (sb, changed, fl) = clean_loop last_ack ns (sb3, ch, fl2)"
        using neg u a by (simp add: sb3_def Let_def)
      have "packets f (n # ns) \<inter> {last_ack<..} = packets f ns \<inter> {last_ack<..}"
        using True by (auto split: if_splits)
      then show ?thesis using ih sb3(2) unfolding step by auto
    next
      case partial: False
      have nr: "nd_flag n \<noteq> SKB_FLAG_RETRANSMITTED" using False partial n(1) by (auto simp: GetEnd_def)
      then have c: "ShouldClean last_ack n = last_ack + 1 - una"
        using False partial n(1) by (auto simp: ShouldClean_def GetEnd_def split: if_splits)
      define m where "m = n\<lparr>nd_seq := last_ack + 1\<rparr>"
      have m: "addr m = addr n" "nd_flag m = nd_flag n" "GetEnd m = GetEnd n" "nd_seq m = last_ack + 1"
        "nd_retran m = nd_retran n"
        using nr by (simp_all add: m_def GetEnd_def)
      have len: "GetLength m = GetLength n - (last_ack + 1 - una)"
        using n(1) m by (simp add: GetLength_eq)
      have lpos: "0 \<le> GetLength m" using partial m by (simp add: GetLength_eq)
      obtain sb1 where u: "uncount (nd_flag n) (last_ack + 1 - una) sb = Some sb1"
        and sb1: "fresh sb1 = fresh sb" "fack sb1 = fack sb" "nxt_to_retrx sb1 = nxt_to_retrx sb"
          "fack_out sb1 = tally SKB_FLAG_LOST (m # ns)" "sack_out sb1 = tally SKB_FLAG_SACKED (m # ns)"
        using Cons.prems(2,3) pos [of SKB_FLAG_LOST] pos [of SKB_FLAG_SACKED] lpos len by (cases "nd_flag n") (auto simp: uncount_def Let_def m)
      have "clean_loop last_ack (n # ns) (sb, changed, fl) = Some (sb1\<lparr>sb_head := m # ns\<rparr>, changed, fl)"
        using c u False by (simp add: Let_def m_def)
      moreover have "pointer_ok (nxt_to_retrx sb) (m # ns)"
        using Cons.prems(4) pointer_ok_cong [of "m # ns" "n # ns"] by (simp add: m)
      moreover have "segment_ok (last_ack + 1) (fresh sb) (m # ns)"
        using Cons.prems(1) partial by (simp add: segment_ok_Cons m)
      moreover have "packets f (m # ns) = packets f (n # ns) \<inter> {last_ack<..}"
        using n(1) False partial r [of f] by (auto simp: m split: if_splits)
      ultimately show ?thesis using sb1 by (simp add: board_ok_def m)
    qed
  qed
qed

lemma clean_returns:
  assumes "board_ok una sb" and "una \<le> last_ack + 1"
  shows "\<exists>sb' ch fl'. CleanRtxQueue last_ack sb fl = Some (sb', ch, fl')
    \<and> board_ok (last_ack + 1) sb' \<and> fack sb' = fack sb
    \<and> packets f (sb_head sb') = packets f (sb_head sb) \<inter> {last_ack<..}
    \<and> (sb_head sb' \<noteq> [] \<longrightarrow> board_end (last_ack + 1) (sb_head sb') = board_end una (sb_head sb))
    \<and> (sb_head sb' = [] \<longrightarrow> board_end una (sb_head sb) \<le> last_ack)"
  using clean_loop_returns [of una sb "sb_head sb" last_ack False fl f] assms
  by (auto simp: board_ok_def CleanRtxQueue_def)
subsection \<open>The selective acknowledgment\<close>

lemma set_sack_insert: "set (sack_insert x xs) = insert x (set xs)"
proof -
  obtain l r where x: "x = (l, r)" by force
  have "set (dropWhile P ys) \<union> set (takeWhile P ys) = set ys" for P and ys :: "(int \<times> int) list"
    by (metis set_append sup_commute takeWhile_dropWhile_id)
  from this [of "\<lambda>(l', _). l < l'" "rev xs"] show ?thesis by (auto simp: x Let_def)
qed

lemma sorted_sack_insert:
  assumes "sorted (map fst xs)"
  shows "sorted (map fst (sack_insert x xs))"
proof -
  obtain l r where x: "x = (l, r)" by force
  define later where "later = (\<lambda>p :: int \<times> int. l < fst p)"
  have later: "(\<lambda>(l' :: int, _ :: int). l < l') = later" by (auto simp: later_def)
  define A where "A = rev (dropWhile later (rev xs))"
  define B where "B = rev (takeWhile later (rev xs))"
  have AB: "xs = A @ B" unfolding A_def B_def by (metis rev_append rev_rev_ident takeWhile_dropWhile_id)
  have B: "\<forall>p\<in>set B. l < fst p" unfolding B_def using set_takeWhileD by (fastforce simp: later_def)
  have "fst p \<le> l" if "p \<in> set A" for p
  proof (cases "dropWhile later (rev xs)")
    case Nil
    then have "A = []" unfolding A_def by (simp only: rev.simps)
    then show ?thesis using that by simp
  next
    case (Cons y ys)
    have "\<not> later y" using hd_dropWhile [of later "rev xs"] Cons by simp
    moreover have "A = rev ys @ [y]" by (simp add: A_def Cons)
    moreover have "sorted (map fst A)" using assms AB by (simp add: sorted_append)
    ultimately show ?thesis using that by (auto simp: sorted_append later_def)
  qed
  moreover have "sack_insert x xs = A @ (l, r) # B" by (simp add: x A_def B_def later Let_def)
  moreover have "sorted (map fst (A @ B))" using assms AB by simp
  ultimately show ?thesis using B by (auto simp: sorted_append less_imp_le)
qed

lemma sort_sacks:
  "set (sort_sacks last_ack sacks) = {x \<in> set sacks. last_ack \<le> fst x}"
  "sorted (map fst (sort_sacks last_ack sacks))"
proof -
  have "set (fold (\<lambda>(l, r) xs. if last_ack \<le> l then sack_insert (l, r) xs else xs) ys xs)
      = set xs \<union> {x \<in> set ys. last_ack \<le> fst x}
    \<and> (sorted (map fst xs) \<longrightarrow>
       sorted (map fst (fold (\<lambda>(l, r) xs. if last_ack \<le> l then sack_insert (l, r) xs else xs) ys xs)))" for xs ys
  proof (induction ys arbitrary: xs)
    case (Cons y ys)
    obtain l r where y: "y = (l, r)" by force
    show ?case
      using Cons.IH [of "if last_ack \<le> l then sack_insert (l, r) xs else xs"]
        set_sack_insert [of "(l, r)" xs] sorted_sack_insert [of xs "(l, r)"]
      by (auto simp: y simp del: sack_insert.simps)
  qed simp
  from this [of sacks "[]"] show "set (sort_sacks last_ack sacks) = {x \<in> set sacks. last_ack \<le> fst x}"
    and "sorted (map fst (sort_sacks last_ack sacks))" by (simp_all add: sort_sacks_def)
qed

lemma sorted_le_last: "sorted xs \<Longrightarrow> x \<in> set xs \<Longrightarrow> x \<le> last xs" for x :: int
  by (induction xs) auto

text \<open>
  The sack blocks of a receiver: beyond the cumulative acknowledgment, not empty, not nested in
  one another; no more of them than the header holds. Blocks below are duplicate reports.
\<close>

definition sacks_ok :: "int \<Rightarrow> (int \<times> int) list \<Rightarrow> bool" where
  "sacks_ok last_ack sacks \<longleftrightarrow> length sacks \<le> NSA + 1
     \<and> (\<forall>(l, r)\<in>set sacks. last_ack \<le> l \<longrightarrow> last_ack < l \<and> l < r)
     \<and> (\<forall>(l, r)\<in>set sacks. \<forall>(l', r')\<in>set sacks. l \<le> l' \<longrightarrow> r \<le> r')"

lemma sacks_okD:
  "sacks_ok last_ack sacks \<Longrightarrow> x \<in> set sacks \<Longrightarrow> last_ack \<le> fst x \<Longrightarrow> last_ack < fst x \<and> fst x < snd x"
  "sacks_ok last_ack sacks \<Longrightarrow> x \<in> set sacks \<Longrightarrow> y \<in> set sacks \<Longrightarrow> fst x \<le> fst y \<Longrightarrow> snd x \<le> snd y"
  unfolding sacks_ok_def by (auto simp: case_prod_beta)

definition reported :: "int \<Rightarrow> (int \<times> int) list \<Rightarrow> int set" where
  "reported last_ack sacks = (\<Union>(l, r)\<in>{x \<in> set sacks. last_ack \<le> fst x}. {l..<r})"

definition board_inv :: "int \<Rightarrow> int \<Rightarrow> scoreboard \<Rightarrow> bool" where
  "board_inv una nxt sb \<longleftrightarrow> board_ok una sb \<and> 0 \<le> una \<and> 0 \<le> fack sb \<and> board_end una (sb_head sb) < nxt
     \<and> (if sb_head sb = [] then fack sb = 0 else fack sb \<le> board_end una (sb_head sb))"

lemma clear_ok: "board_ok una (ClearScoreBoard sb)"
  by (simp add: board_ok_def segment_ok_def ClearScoreBoard_def)

lemma update_returns:
  assumes inv: "board_inv una nxt sb" and ack: "una \<le> last_ack + 1" "last_ack < nxt"
    and sacks: "sacks_ok last_ack sacks" "\<forall>(l, r)\<in>set sacks. r \<le> nxt"
  shows "\<exists>sb' fl. UpdateScoreBoard last_ack sacks dupack sb = Some (sb', fl) \<and> board_inv (last_ack + 1) nxt sb'
    \<and> packets SKB_FLAG_SACKED (sb_head sb') =
        packets SKB_FLAG_SACKED (sb_head sb) \<inter> {last_ack<..} \<union> reported last_ack sacks
    \<and> (fack sb < fack sb' \<longrightarrow> (\<forall>n\<in>set (sb_head sb'). nd_flag n = SKB_FLAG_INFLIGHT \<longrightarrow>
        fack sb' - (dupack + 1) < nd_seq n))"
proof -
  define S where "S = packets SKB_FLAG_SACKED (sb_head sb) \<inter> {last_ack<..}"
  have ok: "board_ok una sb" using inv by (simp add: board_inv_def)
  obtain sb1 ch fl1 where c: "CleanRtxQueue last_ack sb 0 = Some (sb1, ch, fl1)"
    "board_ok (last_ack + 1) sb1" "fack sb1 = fack sb" "packets SKB_FLAG_SACKED (sb_head sb1) = S"
    "sb_head sb1 \<noteq> [] \<Longrightarrow> board_end (last_ack + 1) (sb_head sb1) = board_end una (sb_head sb)"
    "sb_head sb1 = [] \<Longrightarrow> board_end una (sb_head sb) \<le> last_ack"
    using clean_returns [OF ok ack(1), of 0 SKB_FLAG_SACKED] by (auto simp: S_def)
  have h0: "sb_head sb = [] \<Longrightarrow> sb_head sb1 = []" using c(1) by (auto simp: CleanRtxQueue_def)
  define sb2 where "sb2 = (if sb_head sb1 = [] then ClearScoreBoard sb1 else sb1)"
  define th where "th = (if sb_head sb1 = [] then False else ch)"
  have sb2: "board_ok (last_ack + 1) sb2" "packets SKB_FLAG_SACKED (sb_head sb2) = S" "fack sb2 \<le> fack sb"
    "sb_head sb2 = [] \<Longrightarrow> fack sb2 = 0 \<and> \<not> th" "board_inv (last_ack + 1) nxt sb2" "0 \<le> last_ack + 1"
    "sb_head sb2 = sb_head sb1" "sb_head sb2 \<noteq> [] \<Longrightarrow> fack sb2 = fack sb"
    using c h0 clear_ok inv ack by (auto simp: sb2_def th_def ClearScoreBoard_def board_inv_def split: if_splits)
  have pre: "(let (sb, thorough) = (if sb_head sb1 = [] then (ClearScoreBoard sb1, False) else (sb1, ch)) in P sb thorough)
      = P sb2 th" for P :: "scoreboard \<Rightarrow> bool \<Rightarrow> (scoreboard \<times> u8) option"
    by (simp add: sb2_def th_def Let_def)
  define ss where "ss = sort_sacks last_ack sacks"
  have ss: "set ss = {x \<in> set sacks. last_ack \<le> fst x}" "sorted (map fst ss)" "covered ss = reported last_ack sacks"
    using sort_sacks [of last_ack sacks] by (simp_all add: ss_def covered_def reported_def)
  have len: "\<not> NSA + 1 < length sacks" using sacks by (simp add: sacks_ok_def)
  have up: "UpdateScoreBoard last_ack sacks dupack sb =
    (if \<not> th \<and> sacks = [] then Some (sb2, fl1)
     else if \<not> th \<and> ss = [] then Some (sb2, fl1)
     else let (sb, thorough) =
           (if ss \<noteq> [] \<and> fack sb2 < snd (last ss) - 1 then (sb2\<lparr>fack := snd (last ss) - 1\<rparr>, True)
            else (sb2, th));
           sb = (if sb_head sb = []
             then sb\<lparr>sb_head := [new_node (fresh sb) (last_ack + 1) (fack sb) SKB_FLAG_INFLIGHT],
                    fresh := fresh sb + 1\<rparr>
             else sb);
           sb = sb\<lparr>nxt_to_retrx := None\<rparr> in
         scan dupack (fack sb - (dupack + 1)) ss sb thorough fl1 [] (sb_head sb))"
    unfolding UpdateScoreBoard_def c(1) bind.bind_lunit prod.case pre ss_def [symmetric] if_not_P [OF len] by simp
  show ?thesis
  proof (cases "\<not> th \<and> ss = []")
    case True
    then have "reported last_ack sacks = {}" using ss by (auto simp: covered_def)
    moreover have "UpdateScoreBoard last_ack sacks dupack sb = Some (sb2, fl1)" using True up by simp
    ultimately show ?thesis using sb2 by (simp add: S_def)
  next
    case False
    define adv where "adv \<longleftrightarrow> ss \<noteq> [] \<and> fack sb2 < snd (last ss) - 1"
    define fk where "fk = (if adv then snd (last ss) - 1 else fack sb2)"
    define ns where "ns = (if sb_head sb2 = [] then [new_node (fresh sb2) (last_ack + 1) fk SKB_FLAG_INFLIGHT]
      else sb_head sb2)"
    define sb3 where "sb3 = (let sb = (if adv then sb2\<lparr>fack := snd (last ss) - 1\<rparr> else sb2);
      sb = (if sb_head sb = [] then sb\<lparr>sb_head := [new_node (fresh sb) (last_ack + 1) (fack sb) SKB_FLAG_INFLIGHT],
        fresh := fresh sb + 1\<rparr> else sb) in sb\<lparr>nxt_to_retrx := None\<rparr>)"
    have sb3: "fack sb3 = fk" "sb_head sb3 = ns" "nxt_to_retrx sb3 = None" "fack_out sb3 = fack_out sb2"
      "sack_out sb3 = sack_out sb2" "fresh sb3 = (if sb_head sb2 = [] then fresh sb2 + 1 else fresh sb2)"
      by (auto simp: sb3_def ns_def fk_def Let_def)
    have up': "UpdateScoreBoard last_ack sacks dupack sb = scan dupack (fk - (dupack + 1)) ss sb3 (adv \<or> th) fl1 [] ns"
    proof -
      have nonempty: "sacks = [] \<Longrightarrow> ss = []" using ss(1) by simp
      have "UpdateScoreBoard last_ack sacks dupack sb
          = scan dupack (fack sb3 - (dupack + 1)) ss sb3 (adv \<or> th) fl1 [] (sb_head sb3)"
        using False nonempty unfolding up adv_def [symmetric] by (cases adv) (auto simp: sb3_def Let_def)
      then show ?thesis by (simp only: sb3)
    qed
    have lastin: "last ss \<in> set sacks" "last_ack \<le> fst (last ss)" if "ss \<noteq> []"
      using last_in_set [OF that] ss(1) by auto
    have last: "last_ack + 1 < snd (last ss) \<and> snd (last ss) \<le> nxt" if "ss \<noteq> []"
      using lastin [OF that] sacks_okD(1) [OF sacks(1) lastin(1) [OF that]] sacks(2) by (auto simp: case_prod_beta)
    have top: "r \<le> snd (last ss)" if "(l, r) \<in> set ss" for l r
    proof -
      have "ss \<noteq> []" using that by auto
      then have "l \<le> fst (last ss)"
        using sorted_le_last [OF ss(2), of l] that by (force simp: last_map)
      moreover have "(l, r) \<in> set sacks" using that ss(1) by auto
      ultimately show ?thesis using sacks_okD(2) [OF sacks(1) _ lastin(1) [OF \<open>ss \<noteq> []\<close>], of "(l, r)"] by simp
    qed
    have "0 < nxt" if "sb_head sb2 = []"
      using last sb2(4) [OF that] sb2(6) False by linarith
    then have fk: "0 \<le> fk" "fk < nxt" "ss \<noteq> [] \<Longrightarrow> snd (last ss) - 1 \<le> fk" "fack sb2 \<le> fk"
      using last sb2(5,6) ack by (auto simp: fk_def adv_def board_inv_def split: if_splits)
    have ne: "sb_head sb2 = [] \<Longrightarrow> last_ack + 1 \<le> fk"
      using fk(3) last False sb2(4) by force
    have seg: "segment_ok (last_ack + 1) (fresh sb3) ns"
      using sb2(1) ne by (auto simp: sb3 ns_def board_ok_def segment_ok_def new_node_def GetEnd_def)
    have nsne: "ns \<noteq> []" by (simp add: ns_def)
    have end3: "board_end (last_ack + 1) ns = (if sb_head sb2 = [] then fk else board_end (last_ack + 1) (sb_head sb2))"
      by (simp add: ns_def new_node_def GetEnd_def)
    have inv3: "scan_inv (last_ack + 1) (fk - (dupack + 1)) S ss ss sb3 [] ns"
    proof -
      have "S \<subseteq> {last_ack<..}" by (auto simp: S_def)
      then show ?thesis
        using seg sb2(1,2) ss(2) ne
        by (auto simp: scan_inv_def sb3 ns_def board_ok_def new_node_def GetEnd_def)
    qed
    have S: "S \<subseteq> {last_ack + 1..board_end (last_ack + 1) (rev [] @ ns)}"
      using packets_range [of "last_ack + 1" "sb_head sb2" SKB_FLAG_SACKED] sb2(1,2)
      by (auto simp: end3 board_ok_def segment_ok_def split: if_splits)
    obtain sb' fl' where r: "scan dupack (fk - (dupack + 1)) ss sb3 (adv \<or> th) fl1 [] ns = Some (sb', fl')"
      "board_ok (last_ack + 1) sb'" "sb_head sb' \<noteq> []" "fack sb' = fk"
      "board_end (last_ack + 1) ns \<le> board_end (last_ack + 1) (sb_head sb')"
      "board_end (last_ack + 1) (sb_head sb') \<le> max (board_end (last_ack + 1) ns) fk"
      "packets SKB_FLAG_SACKED (sb_head sb') = (S \<union> covered ss) \<inter> {last_ack + 1..board_end (last_ack + 1) (sb_head sb')}"
      "adv \<or> th \<Longrightarrow> fk \<le> board_end (last_ack + 1) (sb_head sb')
        \<and> (\<forall>n\<in>set (sb_head sb'). nd_flag n = SKB_FLAG_INFLIGHT \<longrightarrow> fk - (dupack + 1) < nd_seq n)"
      using scan_returns [OF inv3 _ S, of dupack "adv \<or> th" fl1, unfolded sb3(1) rev.simps append_Nil]
      using nsne by blast
    have top': "fk \<le> board_end (last_ack + 1) (sb_head sb')"
      using r(5,8) end3 sb2(5) by (cases "adv \<or> th") (auto simp: fk_def board_inv_def split: if_splits)
    have lt: "board_end (last_ack + 1) (sb_head sb') < nxt"
      using r(6) end3 sb2(5) fk(2) by (auto simp: board_inv_def split: if_splits)
    have "x \<in> {last_ack + 1..fk}" if "(l, r) \<in> set ss" "l \<le> x" "x < r" for x l r
    proof -
      have "last_ack < l" using sacks_okD(1) [OF sacks(1), of "(l, r)"] that(1) ss(1) by auto
      moreover have "ss \<noteq> []" using that(1) by auto
      ultimately show ?thesis using top [OF that(1)] fk(3) that(2,3) by auto
    qed
    then have "covered ss \<subseteq> {last_ack + 1..fk}" unfolding covered_def by auto
    then have "packets SKB_FLAG_SACKED (sb_head sb') = S \<union> covered ss"
      using r(5,7) S top' by auto
    moreover have "board_inv (last_ack + 1) nxt sb'"
      using r(2-4) lt top' fk(1) sb2(6) by (simp add: board_inv_def)
    moreover have "fack sb < fack sb' \<Longrightarrow> adv" using sb2(3) r(4) by (auto simp: fk_def split: if_splits)
    then have "fack sb < fack sb' \<longrightarrow> (\<forall>n\<in>set (sb_head sb'). nd_flag n = SKB_FLAG_INFLIGHT \<longrightarrow>
        fack sb' - (dupack + 1) < nd_seq n)" using r(4,8) by blast
    ultimately show ?thesis unfolding up' r(1) ss(3) S_def by blast
  qed
qed

subsection \<open>Timeout\<close>

definition loss_inv :: "int \<Rightarrow> int \<Rightarrow> int set \<Rightarrow> bool \<Rightarrow> scoreboard \<Rightarrow> sb_node list \<Rightarrow> sb_node list \<Rightarrow> bool" where
  "loss_inv una nxt S last_lost sb visited nodes \<longleftrightarrow>
     segment_ok una (fresh sb) (rev visited @ nodes)
     \<and> fack_out sb = tally SKB_FLAG_LOST (rev visited @ nodes)
     \<and> sack_out sb = tally SKB_FLAG_SACKED (rev visited @ nodes)
     \<and> pointer_ok (nxt_to_retrx sb) (rev visited)
     \<and> (nxt_to_retrx sb = None \<longrightarrow> (\<forall>n\<in>set visited. nd_flag n \<noteq> SKB_FLAG_LOST))
     \<and> (last_lost \<longleftrightarrow> visited \<noteq> [] \<and> nd_flag (hd visited) = SKB_FLAG_LOST)
     \<and> (\<forall>n\<in>set visited. nd_flag n \<in> {SKB_FLAG_LOST, SKB_FLAG_SACKED})
     \<and> packets SKB_FLAG_SACKED (rev visited @ nodes) = S
     \<and> (nodes = [] \<longrightarrow> visited \<noteq> [] \<longrightarrow> nxt \<le> board_end una (rev visited) + 1)"

text \<open>A block that is not sacked is lost, and joins the previous lost block.\<close>

lemma loss_block_link:
  assumes "last_lost \<longleftrightarrow> visited \<noteq> [] \<and> nd_flag (hd visited) = SKB_FLAG_LOST"
    and "nd_flag now \<noteq> SKB_FLAG_SACKED"
  shows "\<exists>sb'. loss_block last_lost visited now sb = (sb', True, link_block visited (SetFlag SKB_FLAG_LOST now))
    \<and> fresh sb' = fresh sb \<and> fack sb' = fack sb \<and> sack_out sb' = sack_out sb
    \<and> fack_out sb' = fack_out sb + (if nd_flag now = SKB_FLAG_LOST then 0 else GetLength now)
    \<and> nxt_to_retrx sb' = (if \<not> last_lost \<and> nxt_to_retrx sb = None then Some (addr now) else nxt_to_retrx sb)"
  using assms
  by (cases visited)
    (auto simp: loss_block_def link_block_def Mergable_def first_retran_def Let_def GetLength_eq)

lemma loss_block_inv:
  assumes inv: "loss_inv una nxt S last_lost sb visited (now # rest)"
    and b: "loss_block last_lost visited now sb = (sb', last_lost', visited')"
  shows "segment_ok una (fresh sb') (rev visited' @ rest)"
    and "fack_out sb' = tally SKB_FLAG_LOST (rev visited' @ rest)"
    and "sack_out sb' = tally SKB_FLAG_SACKED (rev visited' @ rest)"
    and "pointer_ok (nxt_to_retrx sb') (rev visited')"
    and "nxt_to_retrx sb' = None \<longrightarrow> (\<forall>n\<in>set visited'. nd_flag n \<noteq> SKB_FLAG_LOST)"
    and "last_lost' \<longleftrightarrow> visited' \<noteq> [] \<and> nd_flag (hd visited') = SKB_FLAG_LOST"
    and "\<forall>n\<in>set visited'. nd_flag n \<in> {SKB_FLAG_LOST, SKB_FLAG_SACKED}"
    and "packets SKB_FLAG_SACKED (rev visited' @ rest) = S"
    and "visited' \<noteq> [] \<and> GetEnd (hd visited') = board_end una (rev visited')"
    and "board_end una (rev visited' @ rest) = board_end una (rev visited @ now # rest)"
    and "fack sb' = fack sb"
proof -
  note I = inv [unfolded loss_inv_def]
  have seg: "segment_ok una (fresh sb) (rev visited @ now # rest)" using I by blast
  have new: "addr now \<notin> addr ` set visited"
    using seg segment_ok_append [of una "fresh sb" "rev visited" "now # rest"] by auto
  have "segment_ok una (fresh sb') (rev visited' @ rest)
    \<and> fack_out sb' = tally SKB_FLAG_LOST (rev visited' @ rest)
    \<and> sack_out sb' = tally SKB_FLAG_SACKED (rev visited' @ rest)
    \<and> pointer_ok (nxt_to_retrx sb') (rev visited')
    \<and> (nxt_to_retrx sb' = None \<longrightarrow> (\<forall>n\<in>set visited'. nd_flag n \<noteq> SKB_FLAG_LOST))
    \<and> (last_lost' \<longleftrightarrow> visited' \<noteq> [] \<and> nd_flag (hd visited') = SKB_FLAG_LOST)
    \<and> (\<forall>n\<in>set visited'. nd_flag n \<in> {SKB_FLAG_LOST, SKB_FLAG_SACKED})
    \<and> packets SKB_FLAG_SACKED (rev visited' @ rest) = S
    \<and> visited' \<noteq> []
    \<and> board_end una (rev visited' @ rest) = board_end una (rev visited @ now # rest) \<and> fack sb' = fack sb"
  proof (cases "nd_flag now = SKB_FLAG_SACKED")
    case True
    then have x: "sb' = sb" "last_lost' = False" "visited' = now # visited"
      using b by (auto simp: loss_block_def)
    show ?thesis using I True pointer_ok_append [of "nxt_to_retrx sb" "rev visited" "[now]"] by (auto simp: x)
  next
    case False
    define m where "m = SetFlag SKB_FLAG_LOST now"
    have m: "nd_flag m = SKB_FLAG_LOST" "addr m = addr now" "GetLength m = GetLength now" "GetEnd m = GetEnd now"
      by (simp_all add: m_def)
    have x: "last_lost' = True" "visited' = link_block visited m"
      "fresh sb' = fresh sb" "fack sb' = fack sb" "sack_out sb' = sack_out sb"
      "fack_out sb' = fack_out sb + (if nd_flag now = SKB_FLAG_LOST then 0 else GetLength now)"
      "nxt_to_retrx sb' = (if \<not> last_lost \<and> nxt_to_retrx sb = None then Some (addr now) else nxt_to_retrx sb)"
      using loss_block_link [of last_lost visited now sb] I False b by (auto simp: m_def)
    have p: "nxt_to_retrx sb' = (if nxt_to_retrx sb = None \<and> nd_flag m = SKB_FLAG_LOST then Some (addr m) else nxt_to_retrx sb)"
      using I x(7) m by (cases visited) auto
    have seg': "segment_ok una (fresh sb) (rev visited @ m # rest)"
      using seg segment_ok_append [of una "fresh sb" "rev visited"] set_flag_run [of _ "fresh sb" now rest SKB_FLAG_LOST] m
      by (simp add: m_def)
    note L = link_block_run [OF seg']
    have a: "pointer_ok (nxt_to_retrx sb) (rev visited)"
      "nxt_to_retrx sb = None \<Longrightarrow> \<forall>n\<in>set visited. nd_flag n \<noteq> SKB_FLAG_LOST" "addr m \<notin> addr ` set visited"
      using I new m(2) by (blast, blast, simp)
    have ptr: "pointer_ok (nxt_to_retrx sb') (rev visited')"
      "nxt_to_retrx sb' = None \<Longrightarrow> \<forall>n\<in>set visited'. nd_flag n \<noteq> SKB_FLAG_LOST"
      unfolding x(2) by (rule pointer_link [OF a(1) a(2) p a(3)], assumption)+
    have hd': "visited' \<noteq> []" "nd_flag (hd visited') = SKB_FLAG_LOST"
      using m(1) by (auto simp: x(2) link_block_def GetEnd_Merge split: list.splits)
    have fl: "\<forall>n\<in>set visited'. nd_flag n \<in> {SKB_FLAG_LOST, SKB_FLAG_SACKED}"
    proof
      fix n assume "n \<in> set visited'"
      then consider "n \<in> set visited" | "n = m" | "Mergable (hd visited) m" "visited \<noteq> []" "n = Merge (hd visited) m"
        unfolding x(2) using set_rev_link by fastforce
      then show "nd_flag n \<in> {SKB_FLAG_LOST, SKB_FLAG_SACKED}"
        using I m(1) GetEnd_Merge [of "hd visited" m] by cases auto
    qed
    have t: "fack_out sb' = tally SKB_FLAG_LOST (rev visited' @ rest)"
      "sack_out sb' = tally SKB_FLAG_SACKED (rev visited' @ rest)"
      using I m False by (auto simp: x L(3))
    have "packets SKB_FLAG_SACKED (rev visited' @ rest) = S"
      using I m False L(4) [of SKB_FLAG_SACKED] unfolding x by auto
    then show ?thesis
      using L(1,2) ptr hd' fl t m(4) unfolding x by (auto simp del: packets_simps tally_simps)
  qed
  then show "segment_ok una (fresh sb') (rev visited' @ rest)"
    and "fack_out sb' = tally SKB_FLAG_LOST (rev visited' @ rest)"
    and "sack_out sb' = tally SKB_FLAG_SACKED (rev visited' @ rest)"
    and "pointer_ok (nxt_to_retrx sb') (rev visited')"
    and "nxt_to_retrx sb' = None \<longrightarrow> (\<forall>n\<in>set visited'. nd_flag n \<noteq> SKB_FLAG_LOST)"
    and "last_lost' \<longleftrightarrow> visited' \<noteq> [] \<and> nd_flag (hd visited') = SKB_FLAG_LOST"
    and "\<forall>n\<in>set visited'. nd_flag n \<in> {SKB_FLAG_LOST, SKB_FLAG_SACKED}"
    and "packets SKB_FLAG_SACKED (rev visited' @ rest) = S"
    and "visited' \<noteq> [] \<and> GetEnd (hd visited') = board_end una (rev visited')"
    and "board_end una (rev visited' @ rest) = board_end una (rev visited @ now # rest)"
    and "fack sb' = fack sb"
    by (blast, blast, blast, blast, blast, blast, blast, blast, cases visited', simp, simp, blast, blast)
qed

lemma loss_loop_returns:
  assumes "loss_inv una nxt S last_lost sb visited nodes"
  shows "\<exists>sb' visited'. loss_loop nxt last_lost visited nodes sb = Some (sb', visited')
    \<and> (\<exists>l. loss_inv una nxt S l sb' visited' []) \<and> fack sb' = fack sb
    \<and> board_end una (rev visited @ nodes) \<le> board_end una (rev visited')
    \<and> board_end una (rev visited') \<le> max (board_end una (rev visited @ nodes)) (nxt - 1)
    \<and> (visited' = [] \<longleftrightarrow> visited = [] \<and> nodes = [])"
  using assms
proof (induction "length nodes + (if board_end una (rev visited @ nodes) + 1 < nxt then 1 else 0)"
    arbitrary: last_lost sb visited nodes rule: less_induct)
  case less
  show ?case
  proof (cases nodes)
    case Nil
    then show ?thesis using less.prems by (auto simp: loss_loop.simps)
  next
    case (Cons now rest)
    obtain sb1 l1 visited1 where b: "loss_block last_lost visited now sb = (sb1, l1, visited1)"
      by (metis prod_cases3)
    note B = loss_block_inv [OF less.prems [unfolded Cons] b]
    show ?thesis
    proof (cases "rest = [] \<and> GetEnd (hd visited1) + 1 < nxt")
      case True
      define new where "new = new_node (fresh sb1) (GetEnd (hd visited1) + 1) (nxt - 1) SKB_FLAG_INFLIGHT"
      define sb2 where "sb2 = sb1\<lparr>fresh := fresh sb1 + 1\<rparr>"
      have n: "nd_flag new = SKB_FLAG_INFLIGHT" "nd_seq new = board_end una (rev visited1) + 1"
        "GetEnd new = nxt - 1" "addr new = fresh sb1"
        using B(9) by (simp_all add: new_def new_node_def GetEnd_def)
      have seg: "segment_ok una (fresh sb1) (rev visited1)" using B(1) True by simp
      have "segment_ok una (fresh sb2) (rev visited1 @ [new])"
        using True B(9) segment_ok_mono [OF seg, of "fresh sb2"] fresh_notin [OF seg]
        by (simp add: segment_ok_append segment_ok_Cons n sb2_def) (simp add: segment_ok_def)
      then have inv2: "loss_inv una nxt S l1 sb2 visited1 [new]"
        using B(2-8) True n by (auto simp: loss_inv_def sb2_def)
      have step: "loss_loop nxt last_lost visited nodes sb = loss_loop nxt l1 visited1 [new] sb2"
        using True b by (subst loss_loop.simps) (simp add: Cons new_def sb2_def)
      have e: "board_end una (rev visited1 @ [new]) = nxt - 1" using n by simp
      have old: "board_end una (rev visited @ nodes) + 1 < nxt"
        using True B(9,10) Cons by simp
      have lt: "length [new] + (if board_end una (rev visited1 @ [new]) + 1 < nxt then 1 else 0)
          < length nodes + (if board_end una (rev visited @ nodes) + 1 < nxt then 1 else 0)"
        using e old by (simp add: Cons)
      show ?thesis using less.hyps [OF lt inv2] e old B(11) unfolding step by (auto simp: Cons sb2_def)
    next
      case False
      have inv2: "loss_inv una nxt S l1 sb1 visited1 rest"
        using B(1-9) False by (auto simp: loss_inv_def)
      have step: "loss_loop nxt last_lost visited nodes sb = loss_loop nxt l1 visited1 rest sb1"
        using False b by (subst loss_loop.simps) (auto simp: Cons)
      have lt: "length rest + (if board_end una (rev visited1 @ rest) + 1 < nxt then 1 else 0)
          < length nodes + (if board_end una (rev visited @ nodes) + 1 < nxt then 1 else 0)"
        using B(10) by (simp add: Cons)
      show ?thesis
        using less.hyps [OF lt inv2] B(9,10,11) unfolding step by (auto simp: Cons simp del: board_end_append)
    qed
  qed
qed

text \<open>After the timeout every packet that is not sacked is lost.\<close>

lemma packets_cover:
  assumes "contiguous s ns" and "\<forall>n\<in>set ns. nd_flag n \<in> {f, g}"
  shows "packets f ns \<union> packets g ns = {s..board_end s ns}"
  using assms
proof (induction ns arbitrary: s)
  case (Cons n ns)
  have "packets f ns \<union> packets g ns = {GetEnd n + 1..board_end (GetEnd n + 1) ns}" using Cons by simp
  moreover have "{nd_seq n..GetEnd n} \<union> {GetEnd n + 1..board_end (GetEnd n + 1) ns} = {s..board_end s (n # ns)}"
    using Cons.prems(1) board_end_ge [of "GetEnd n + 1" ns] by auto
  moreover have "packets f (n # ns) \<union> packets g (n # ns) = {nd_seq n..GetEnd n} \<union> (packets f ns \<union> packets g ns)"
    using Cons.prems(2) by auto
  ultimately show ?case by simp
qed simp

lemma loss_returns:
  assumes inv: "board_inv una nxt sb" and le: "una \<le> nxt"
  shows "\<exists>sb'. MarkLoss una nxt sb = Some sb' \<and> board_inv una nxt sb'
    \<and> packets SKB_FLAG_SACKED (sb_head sb') = packets SKB_FLAG_SACKED (sb_head sb)
    \<and> packets SKB_FLAG_LOST (sb_head sb') = {una..<nxt} - packets SKB_FLAG_SACKED (sb_head sb)"
proof -
  define S where "S = packets SKB_FLAG_SACKED (sb_head sb)"
  have ok: "segment_ok una (fresh sb) (sb_head sb)" "fack_out sb = tally SKB_FLAG_LOST (sb_head sb)"
    "sack_out sb = tally SKB_FLAG_SACKED (sb_head sb)" using inv by (simp_all add: board_inv_def board_ok_def)
  have "loss_inv una nxt S False (sb\<lparr>nxt_to_retrx := None\<rparr>) [] (sb_head sb)"
    using ok by (simp add: loss_inv_def S_def)
  from loss_loop_returns [OF this] obtain sb1 visited l where
    r: "loss_loop nxt False [] (sb_head sb) (sb\<lparr>nxt_to_retrx := None\<rparr>) = Some (sb1, visited)"
    and L: "loss_inv una nxt S l sb1 visited []" and fk: "fack sb1 = fack sb"
    and ends: "board_end una (sb_head sb) \<le> board_end una (rev visited)"
      "board_end una (rev visited) \<le> max (board_end una (sb_head sb)) (nxt - 1)"
    and emp: "visited = [] \<longleftrightarrow> sb_head sb = []"
    by auto
  show ?thesis
  proof (cases "visited = []")
    case True
    then have S: "S = {}" and head: "sb_head sb = []" using emp by (simp_all add: S_def)
    show ?thesis
    proof (cases "una < nxt")
      case lt: True
      define sb2 where "sb2 = sb1\<lparr>sb_head := [new_node (fresh sb1) una (nxt - 1) SKB_FLAG_LOST],
        nxt_to_retrx := Some (fresh sb1), fack_out := fack_out sb1 + (nxt - una), fresh := fresh sb1 + 1,
        rtx_id := 0, acked_rtx_id := - 1\<rparr>"
      have "MarkLoss una nxt sb = Some sb2"
        using r True lt by (simp add: MarkLoss_def sb2_def Let_def)
      then show ?thesis
        using L True lt inv head fk S unfolding S_def [symmetric]
        by (auto simp: sb2_def board_inv_def board_ok_def segment_ok_def loss_inv_def new_node_def
            GetEnd_def GetLength_def pointer_ok_def)
    next
      case False
      define sb2 where "sb2 = sb1\<lparr>sb_head := [], rtx_id := 0, acked_rtx_id := - 1\<rparr>"
      have "MarkLoss una nxt sb = Some sb2"
        using r True False by (simp add: MarkLoss_def sb2_def Let_def)
      then show ?thesis
        using L True False inv head fk S unfolding S_def [symmetric]
        by (auto simp: sb2_def board_inv_def board_ok_def segment_ok_def loss_inv_def)
    qed
  next
    case False
    define sb2 where "sb2 = sb1\<lparr>sb_head := rev visited, rtx_id := 0, acked_rtx_id := - 1\<rparr>"
    have m: "MarkLoss una nxt sb = Some sb2" using r False by (simp add: MarkLoss_def sb2_def Let_def)
    have "nxt \<le> board_end una (rev visited) + 1" using L False by (simp add: loss_inv_def)
    then have e: "board_end una (rev visited) = nxt - 1"
      using ends inv by (simp add: board_inv_def)
    have con: "contiguous una (rev visited)" using L by (simp add: loss_inv_def segment_ok_def)
    have "packets SKB_FLAG_LOST (rev visited) \<union> packets SKB_FLAG_SACKED (rev visited) = {una..nxt - 1}"
      using packets_cover [OF con, of SKB_FLAG_LOST SKB_FLAG_SACKED] L e by (simp add: loss_inv_def del: packets_simps)
    moreover have "packets SKB_FLAG_LOST (rev visited) \<inter> packets SKB_FLAG_SACKED (rev visited) = {}"
      using packets_disjoint [OF con] by simp
    moreover have "packets SKB_FLAG_SACKED (rev visited) = S" using L by (simp add: loss_inv_def)
    ultimately have p: "packets SKB_FLAG_LOST (rev visited) = {una..<nxt} - S"
      "packets SKB_FLAG_SACKED (rev visited) = S" by auto
    have "board_inv una nxt sb2"
      using L False inv fk e ends emp by (auto simp: sb2_def board_inv_def board_ok_def loss_inv_def)
    then show ?thesis using m p by (simp add: sb2_def S_def)
  qed
qed

subsection \<open>Retransmission\<close>

lemma deref_in:
  assumes "a \<in> addr ` set ns"
  shows "\<exists>before n rest. deref a ns = Some (before, n, rest) \<and> ns = before @ n # rest \<and> addr n = a
    \<and> before = takeWhile (\<lambda>n. addr n \<noteq> a) ns"
proof (cases "dropWhile (\<lambda>n. addr n \<noteq> a) ns")
  case Nil
  then show ?thesis using assms by auto
next
  case (Cons n rest)
  then have "addr n = a" using hd_dropWhile [of "\<lambda>n. addr n \<noteq> a" ns] by auto
  moreover have "ns = takeWhile (\<lambda>n. addr n \<noteq> a) ns @ n # rest"
    using takeWhile_dropWhile_id [of "\<lambda>n. addr n \<noteq> a" ns] Cons by simp
  ultimately show ?thesis using Cons by (simp add: deref_def)
qed

lemma least_lost:
  assumes "contiguous s (before @ n # rest)" and "\<forall>m\<in>set before. nd_flag m \<noteq> SKB_FLAG_LOST"
    and "nd_flag n = SKB_FLAG_LOST"
  shows "nd_seq n \<in> packets SKB_FLAG_LOST (before @ n # rest)"
    and "p \<in> packets SKB_FLAG_LOST (before @ n # rest) \<Longrightarrow> nd_seq n \<le> p"
proof -
  have n: "nd_seq n \<le> GetEnd n" "contiguous (GetEnd n + 1) rest" using assms(1) by (auto simp: contiguous_append)
  have "packets SKB_FLAG_LOST before = {}" using assms(2) by (auto simp: packets_def)
  then show "nd_seq n \<in> packets SKB_FLAG_LOST (before @ n # rest)"
    and "p \<in> packets SKB_FLAG_LOST (before @ n # rest) \<Longrightarrow> nd_seq n \<le> p"
    using n assms(3) packets_range [OF n(2), of SKB_FLAG_LOST] by auto
qed

text \<open>The next retransmission is the first lost packet of the board, if one is found.\<close>

lemma next_retran_returns:
  assumes "board_inv una nxt sb"
  shows "\<exists>s sb'. GetNextRetran sb = Some (s, sb') \<and> board_inv una nxt sb' \<and> sb_head sb' = sb_head sb
    \<and> fack_out sb' = fack_out sb \<and> sack_out sb' = sack_out sb
    \<and> (if s = - 1 then nxt_to_retrx sb = None \<or> packets SKB_FLAG_LOST (sb_head sb) = {}
       else \<exists>before n rest. sb_head sb = before @ n # rest \<and> nxt_to_retrx sb' = Some (addr n)
         \<and> nd_flag n = SKB_FLAG_LOST \<and> nd_seq n = s \<and> (\<forall>m\<in>set before. nd_flag m \<noteq> SKB_FLAG_LOST))"
proof (cases "nxt_to_retrx sb")
  case None
  then show ?thesis using assms by (simp add: GetNextRetran_def)
next
  case (Some a)
  have ok: "board_ok una sb" using assms by (simp add: board_inv_def)
  have ain: "a \<in> addr ` set (sb_head sb)" using ok Some by (simp add: board_ok_def pointer_ok_def)
  obtain before n rest where d: "deref a (sb_head sb) = Some (before, n, rest)" "sb_head sb = before @ n # rest"
    "before = takeWhile (\<lambda>n. addr n \<noteq> a) (sb_head sb)" "addr n = a"
    using deref_in [OF ain] by blast
  have nl: "\<forall>m\<in>set before. nd_flag m \<noteq> SKB_FLAG_LOST" using ok Some d(3) by (simp add: board_ok_def pointer_ok_def)
  let ?P = "\<lambda>n. nd_flag n \<noteq> SKB_FLAG_LOST"
  show ?thesis
  proof (cases "dropWhile ?P (n # rest)")
    case Nil
    then have "\<forall>m\<in>set (n # rest). nd_flag m \<noteq> SKB_FLAG_LOST" by (simp only: dropWhile_eq_Nil_conv)
    then have "packets SKB_FLAG_LOST (sb_head sb) = {}" using nl d(2) by (auto simp: packets_def)
    moreover have "GetNextRetran sb = Some (- 1, sb\<lparr>nxt_to_retrx := None\<rparr>)"
      using Some d(1) Nil by (simp only: GetNextRetran_def option.case bind.bind_lunit prod.case list.case)
    ultimately show ?thesis using assms by (simp add: board_inv_def board_ok_def)
  next
    case (Cons m ms)
    have m: "nd_flag m = SKB_FLAG_LOST" using hd_dropWhile [of ?P "n # rest"] Cons by auto
    define pre where "pre = before @ takeWhile ?P (n # rest)"
    have h: "sb_head sb = pre @ m # ms"
      using takeWhile_dropWhile_id [of ?P "n # rest"] Cons d(2) by (simp add: pre_def)
    have pre: "\<forall>k\<in>set pre. nd_flag k \<noteq> SKB_FLAG_LOST"
      using nl by (auto simp only: pre_def set_append dest: set_takeWhileD)
    have seg: "segment_ok una (fresh sb) (pre @ m # ms)" using ok h by (simp add: board_ok_def)
    then have "addr m \<notin> addr ` set pre" by (auto simp: segment_ok_append)
    then have tw: "takeWhile (\<lambda>n. addr n \<noteq> addr m) (pre @ m # ms) = pre"
      by (subst takeWhile_append2) (metis image_eqI, simp)
    have "pointer_ok (Some (addr m)) (pre @ m # ms)" unfolding pointer_ok_def option.case tw using pre by simp
    moreover have "0 \<le> una \<and> una \<le> nd_seq m"
      using assms seg board_end_ge [of una pre] by (simp add: board_inv_def segment_ok_def contiguous_append)
    moreover have "GetNextRetran sb = Some (nd_seq m, sb\<lparr>nxt_to_retrx := Some (addr m)\<rparr>)"
      using Some d(1) Cons by (simp only: GetNextRetran_def option.case bind.bind_lunit prod.case list.case)
    ultimately show ?thesis
      using assms h m pre by (auto simp: board_inv_def board_ok_def simp del: packets_simps)
  qed
qed

text \<open>Retransmitting it takes exactly this packet from the lost ones.\<close>

lemma mark_retran_returns:
  assumes inv: "board_inv una nxt sb" and h: "sb_head sb = before @ n # rest" and ptr: "nxt_to_retrx sb = Some (addr n)"
    and lost: "nd_flag n = SKB_FLAG_LOST" and before: "\<forall>m\<in>set before. nd_flag m \<noteq> SKB_FLAG_LOST"
  shows "\<exists>sb'. MarkRetran (nd_seq n) nxt sb = Some sb' \<and> board_inv una nxt sb'
    \<and> fack_out sb' = fack_out sb - 1 \<and> sack_out sb' = sack_out sb
    \<and> packets SKB_FLAG_LOST (sb_head sb') = packets SKB_FLAG_LOST (sb_head sb) - {nd_seq n}
    \<and> packets SKB_FLAG_SACKED (sb_head sb') = packets SKB_FLAG_SACKED (sb_head sb)"
proof -
  have ok: "segment_ok una (fresh sb) (before @ n # rest)" "fack_out sb = tally SKB_FLAG_LOST (before @ n # rest)"
    "sack_out sb = tally SKB_FLAG_SACKED (before @ n # rest)"
    using inv h by (simp_all add: board_inv_def board_ok_def)
  define s where "s = board_end una before + 1"
  have seg: "segment_ok una (fresh sb) before" "segment_ok s (fresh sb) (n # rest)"
    "addr ` set before \<inter> addr ` set (n # rest) = {}"
    using ok(1) segment_ok_append [of una "fresh sb" before "n # rest"] by (simp_all add: s_def)
  have n: "nd_seq n = s" "s \<le> GetEnd n" "segment_ok (GetEnd n + 1) (fresh sb) rest" "addr n \<notin> addr ` set rest"
    "addr n < fresh sb" "GetEnd n = nd_nxt n"
    using seg(2) lost by (simp_all add: segment_ok_Cons GetEnd_def)
  have "addr n \<notin> addr ` set before" using seg(3) by auto
  then have ne: "addr x \<noteq> addr n" if "x \<in> set before" for x using that by (metis image_eqI)
  have tw: "takeWhile (\<lambda>m. addr m \<noteq> addr n) (before @ n # rest) = before"
    "dropWhile (\<lambda>m. addr m \<noteq> addr n) (before @ n # rest) = n # rest"
    by (simp_all add: takeWhile_append2 dropWhile_append2 ne)
  have d: "deref (addr n) (sb_head sb) = Some (before, n, rest)" by (simp add: deref_def h tw)
  have pos: "1 \<le> fack_out sb"
    using ok(2) tally_nonneg [of una before SKB_FLAG_LOST] tally_nonneg [of "GetEnd n + 1" rest SKB_FLAG_LOST] n lost seg(1)
    by (simp add: segment_ok_def GetLength_eq)
  define ns where "ns = MarkRetran_node (fresh sb) nxt (rtx_id sb) n"
  define sb' where "sb' = sb\<lparr>fack_out := fack_out sb - 1, sb_head := before @ ns @ rest, fresh := fresh sb + 1,
    rtx_id := rtx_id sb + 1, last_rtx_seq := nd_seq n\<rparr>"
  have m: "MarkRetran (nd_seq n) nxt sb = Some sb'"
    using ptr d pos lost n(2,6) unfolding n(1) [symmetric] by (simp add: MarkRetran_def Inside_def sb'_def ns_def)
  have new: "fresh sb \<notin> addr ` set rest" using n(3) fresh_notin by blast
  have ns: "segment_ok s (fresh sb + 1) (ns @ rest)" "board_end s (ns @ rest) = board_end s (n # rest)"
    "addr ` set (ns @ rest) \<subseteq> insert (fresh sb) (addr ` set (n # rest))"
    "tally SKB_FLAG_LOST ns = GetLength n - 1" "tally SKB_FLAG_SACKED ns = 0"
    "packets SKB_FLAG_LOST ns = {nd_seq n..GetEnd n} - {nd_seq n}" "packets SKB_FLAG_SACKED ns = {}"
    "ns \<noteq> []" "addr (hd ns) = addr n"
    using n lost new segment_ok_mono [OF n(3), of "fresh sb + 1"]
    by (auto simp: ns_def MarkRetran_node_def Split_def new_node_def Let_def segment_ok_Cons GetEnd_def GetLength_def)
  have sg': "segment_ok una (fresh sb + 1) (before @ ns @ rest)"
  proof -
    have "addr ` set before \<inter> addr ` set (ns @ rest) = {}"
    proof -
      have "X \<subseteq> insert f Y \<Longrightarrow> A \<inter> Y = {} \<Longrightarrow> f \<notin> A \<Longrightarrow> A \<inter> X = {}" for A X Y :: "nat set" and f by blast
      from this [OF ns(3) seg(3) fresh_notin [OF seg(1)]] show ?thesis .
    qed
    then show ?thesis
      using ns(1) segment_ok_mono [OF seg(1), of "fresh sb + 1"] segment_ok_append [of una "fresh sb + 1" before "ns @ rest"]
      by (simp add: s_def)
  qed
  have "addr n \<in> addr ` set ns" using ns(8,9) by (metis image_eqI list.set_sel(1))
  moreover have "takeWhile (\<lambda>m. addr m \<noteq> addr n) (before @ ns @ rest) = before"
    using \<open>addr n \<notin> addr ` set before\<close> ns(8,9)
    by (subst takeWhile_append2, metis image_eqI) (cases ns, simp_all)
  ultimately have ptr': "pointer_ok (nxt_to_retrx sb) (before @ ns @ rest)"
    using before by (simp add: pointer_ok_def ptr image_Un)
  have r: "packets SKB_FLAG_LOST rest \<subseteq> {GetEnd n + 1..}"
    using n(3) packets_range [of "GetEnd n + 1" rest SKB_FLAG_LOST] by (auto simp: segment_ok_def)
  have b: "packets SKB_FLAG_LOST before = {}" using before by (auto simp: packets_def)
  have "board_inv una nxt sb'"
    using inv sg' ptr' ok ns(2,4,5,8) lost h by (simp add: sb'_def board_inv_def board_ok_def s_def)
  moreover have "packets SKB_FLAG_LOST (sb_head sb') = packets SKB_FLAG_LOST (sb_head sb) - {nd_seq n}"
    using ns(6) b r n(2) lost by (auto simp: sb'_def h n(1))
  moreover have "packets SKB_FLAG_SACKED (sb_head sb') = packets SKB_FLAG_SACKED (sb_head sb)"
    using ns(7) lost by (simp add: sb'_def h)
  ultimately show ?thesis using m by (simp add: sb'_def)
qed

section \<open>Reachable boards\<close>

text \<open>
  What the sender does with its board, with the first outstanding packet and the next packet
  number: it processes an acknowledgment (with an empty board and no sack blocks the board is
  left alone), sends a new packet, looks for a retransmission and performs it, marks all
  outstanding packets lost at a timeout, and clears the board when recovery is over.
\<close>

inductive board_step :: "int \<times> int \<times> scoreboard \<Rightarrow> int \<times> int \<times> scoreboard \<Rightarrow> bool" where
  Ack: "una \<le> last_ack + 1 \<Longrightarrow> last_ack < nxt \<Longrightarrow> sacks_ok last_ack sacks \<Longrightarrow> \<forall>(l, r)\<in>set sacks. r \<le> nxt \<Longrightarrow>
    UpdateScoreBoard last_ack sacks dupack sb = Some (sb', fl) \<Longrightarrow> board_step (una, nxt, sb) (last_ack + 1, nxt, sb')"
| Advance: "sb_head sb = [] \<Longrightarrow> una \<le> last_ack + 1 \<Longrightarrow> last_ack < nxt \<Longrightarrow> board_step (una, nxt, sb) (last_ack + 1, nxt, sb)"
| Send: "board_step (una, nxt, sb) (una, nxt + 1, sb)"
| Nothing_lost: "GetNextRetran sb = Some (- 1, sb') \<Longrightarrow> board_step (una, nxt, sb) (una, nxt, sb')"
| Retransmit: "GetNextRetran sb = Some (s, sb') \<Longrightarrow> s \<noteq> - 1 \<Longrightarrow> MarkRetran s nxt sb' = Some sb'' \<Longrightarrow>
    board_step (una, nxt, sb) (una, nxt, sb'')"
| Timeout: "MarkLoss una nxt sb = Some sb' \<Longrightarrow> board_step (una, nxt, sb) (una, nxt, sb')"
| Clear: "board_step (una, nxt, sb) (una, nxt, ClearScoreBoard sb)"

inductive board_reachable :: "int \<times> int \<times> scoreboard \<Rightarrow> bool" where
  Start: "board_reachable (0, 0, ScoreBoard1)"
| Step: "board_reachable st \<Longrightarrow> board_step st st' \<Longrightarrow> board_reachable st'"

inductive_cases board_stepE: "board_step (una, nxt, sb) st"

lemma board_inv_ackD: "board_inv una nxt sb \<Longrightarrow> una \<le> nxt"
  using board_end_ge [of una "sb_head sb"] by (simp add: board_inv_def board_ok_def segment_ok_def)

text \<open>Looking for a retransmission and performing it, as the sender does.\<close>

lemma retransmit_returns:
  assumes "board_inv una nxt sb"
  shows "\<exists>s sb1. GetNextRetran sb = Some (s, sb1) \<and> board_inv una nxt sb1
    \<and> (s \<noteq> - 1 \<longrightarrow> s \<in> packets SKB_FLAG_LOST (sb_head sb) \<and> (\<forall>p\<in>packets SKB_FLAG_LOST (sb_head sb). s \<le> p)
      \<and> (\<exists>sb2. MarkRetran s nxt sb1 = Some sb2 \<and> board_inv una nxt sb2
        \<and> packets SKB_FLAG_LOST (sb_head sb2) = packets SKB_FLAG_LOST (sb_head sb) - {s}
        \<and> packets SKB_FLAG_SACKED (sb_head sb2) = packets SKB_FLAG_SACKED (sb_head sb)
        \<and> packets_in_flight sb2 una nxt = packets_in_flight sb una nxt + 1))"
proof -
  obtain s sb1 where g: "GetNextRetran sb = Some (s, sb1)" "board_inv una nxt sb1" "sb_head sb1 = sb_head sb"
    "fack_out sb1 = fack_out sb" "sack_out sb1 = sack_out sb"
    "if s = - 1 then nxt_to_retrx sb = None \<or> packets SKB_FLAG_LOST (sb_head sb) = {}
       else \<exists>before n rest. sb_head sb = before @ n # rest \<and> nxt_to_retrx sb1 = Some (addr n)
         \<and> nd_flag n = SKB_FLAG_LOST \<and> nd_seq n = s \<and> (\<forall>m\<in>set before. nd_flag m \<noteq> SKB_FLAG_LOST)"
    using next_retran_returns [OF assms] by blast
  show ?thesis
  proof (cases "s = - 1")
    case True
    then show ?thesis using g(1,2) by blast
  next
    case False
    then obtain before n rest where n: "sb_head sb = before @ n # rest" "nxt_to_retrx sb1 = Some (addr n)"
      "nd_flag n = SKB_FLAG_LOST" "nd_seq n = s" "\<forall>m\<in>set before. nd_flag m \<noteq> SKB_FLAG_LOST"
      using g(6) [unfolded if_not_P [OF False]] by blast
    have h: "sb_head sb1 = before @ n # rest" using g(3) n(1) by simp
    obtain sb2 where m: "MarkRetran (nd_seq n) nxt sb1 = Some sb2" "board_inv una nxt sb2"
      "fack_out sb2 = fack_out sb1 - 1" "sack_out sb2 = sack_out sb1"
      "packets SKB_FLAG_LOST (sb_head sb2) = packets SKB_FLAG_LOST (sb_head sb1) - {nd_seq n}"
      "packets SKB_FLAG_SACKED (sb_head sb2) = packets SKB_FLAG_SACKED (sb_head sb1)"
      using mark_retran_returns [OF g(2) h n(2,3,5)] by blast
    have "contiguous una (before @ n # rest)"
      using assms n(1) by (simp add: board_inv_def board_ok_def segment_ok_def)
    note ll = least_lost [OF this n(5) n(3)]
    have "packets_in_flight sb2 una nxt = packets_in_flight sb una nxt + 1"
      using m(3,4) g(4,5) by (simp add: packets_in_flight_def)
    then show ?thesis using g(1,2,3) m(1,2,5,6) ll n(1,4) by (metis (no_types, lifting))
  qed
qed

lemma board_step_inv:
  assumes "board_inv una nxt sb" and "board_step (una, nxt, sb) (una', nxt', sb')"
  shows "board_inv una' nxt' sb'"
  using assms(2)
proof (elim board_stepE, goal_cases)
  case (1 last_ack sacks dupack sb1 fl)
  then show ?case using update_returns [OF assms(1) 1(2,3,4,5), of dupack] by auto
next
  case (2 last_ack)
  then show ?case using assms(1) by (auto simp: board_inv_def board_ok_def segment_ok_def)
next
  case 3
  then show ?case using assms(1) by (auto simp: board_inv_def)
next
  case (4 sb1)
  then show ?case using retransmit_returns [OF assms(1)] by auto
next
  case (5 s sb1 sb2)
  then show ?case using retransmit_returns [OF assms(1)] by auto
next
  case (6 sb1)
  then show ?case using loss_returns [OF assms(1)] board_inv_ackD [OF assms(1)] by auto
next
  case 7
  then show ?case
    using assms(1) clear_ok [of una sb] board_inv_ackD [OF assms(1)] by (auto simp: board_inv_def ClearScoreBoard_def)
qed

lemma reachable_inv: "board_reachable (una, nxt, sb) \<Longrightarrow> board_inv una nxt sb"
proof (induction "(una, nxt, sb)" arbitrary: una nxt sb rule: board_reachable.induct)
  case Start
  then show ?case using clear_ok by (simp add: board_inv_def ScoreBoard1_def ClearScoreBoard_def board_ok_def segment_ok_def)
next
  case (Step st)
  then show ?case using board_step_inv by (metis prod_cases3)
qed

lemma in_flight_card:
  assumes inv: "board_inv una nxt sb"
  shows "packets_in_flight sb una nxt =
    int (card ({una..<nxt} - (packets SKB_FLAG_LOST (sb_head sb) \<union> packets SKB_FLAG_SACKED (sb_head sb))))"
proof -
  have con: "contiguous una (sb_head sb)" and c: "fack_out sb = tally SKB_FLAG_LOST (sb_head sb)"
    "sack_out sb = tally SKB_FLAG_SACKED (sb_head sb)" "board_end una (sb_head sb) < nxt"
    using inv by (simp_all add: board_inv_def board_ok_def segment_ok_def)
  let ?U = "packets SKB_FLAG_LOST (sb_head sb) \<union> packets SKB_FLAG_SACKED (sb_head sb)"
  have sub: "?U \<subseteq> {una..<nxt}" using packets_range [OF con] c(3) by fastforce
  have "card ?U = card (packets SKB_FLAG_LOST (sb_head sb)) + card (packets SKB_FLAG_SACKED (sb_head sb))"
    using packets_disjoint [OF con] con by (intro card_Un_disjoint) auto
  moreover have "card ({una..<nxt} - ?U) = card {una..<nxt} - card ?U"
    using sub finite_subset [OF sub] by (intro card_Diff_subset) auto
  moreover have "card ?U \<le> card {una..<nxt}" using sub by (intro card_mono) auto
  ultimately show ?thesis
    using c board_inv_ackD [OF inv] by (simp add: packets_in_flight_def tally_card [OF con])
qed

section \<open>Properties\<close>

text \<open>
  C15: the sender's estimate is exact: on every reachable board
  \<^verbatim>\<open>packets_in_flight\<close>, which only subtracts two counters, is the number of outstanding packets
  that the board has neither as lost nor as sacked; so it is never negative.
\<close>

theorem in_flight_counts:
  assumes "board_reachable (una, nxt, sb)"
  shows "packets_in_flight sb una nxt =
    int (card ({una..<nxt} - (packets SKB_FLAG_LOST (sb_head sb) \<union> packets SKB_FLAG_SACKED (sb_head sb))))"
  by (rule in_flight_card [OF reachable_inv [OF assms]])

text \<open>
  C14: an acknowledgment with sack blocks is recorded exactly: \<^verbatim>\<open>UpdateScoreBoard\<close> returns on
  every reachable board (no assertion fails, no dangling pointer and no uninitialised member
  is read, the loops end), the packets sacked afterwards are those that were, less the ones
  acknowledged, and those the blocks report; and when the furthest sacked packet advances, no
  packet more than \<^verbatim>\<open>dupack_threshold\<close> behind it is still taken to be in flight.
\<close>

theorem update_exact:
  assumes "board_reachable (una, nxt, sb)" and "una \<le> last_ack + 1" and "last_ack < nxt"
    and "sacks_ok last_ack sacks" and "\<forall>(l, r)\<in>set sacks. r \<le> nxt"
  shows "\<exists>sb' fl. UpdateScoreBoard last_ack sacks dupack sb = Some (sb', fl)
    \<and> packets SKB_FLAG_SACKED (sb_head sb') =
        packets SKB_FLAG_SACKED (sb_head sb) \<inter> {last_ack<..} \<union> reported last_ack sacks
    \<and> (fack sb < fack sb' \<longrightarrow>
        (\<forall>p\<in>packets SKB_FLAG_INFLIGHT (sb_head sb'). fack sb' - (dupack + 1) < p))"
proof -
  obtain sb' fl where r: "UpdateScoreBoard last_ack sacks dupack sb = Some (sb', fl)"
    "packets SKB_FLAG_SACKED (sb_head sb') =
        packets SKB_FLAG_SACKED (sb_head sb) \<inter> {last_ack<..} \<union> reported last_ack sacks"
    "fack sb < fack sb' \<Longrightarrow> (\<forall>n\<in>set (sb_head sb'). nd_flag n = SKB_FLAG_INFLIGHT \<longrightarrow>
        fack sb' - (dupack + 1) < nd_seq n)"
    using update_returns [OF reachable_inv [OF assms(1)] assms(2-5), of dupack] by blast
  then have "fack sb < fack sb' \<longrightarrow>
      (\<forall>p\<in>packets SKB_FLAG_INFLIGHT (sb_head sb'). fack sb' - (dupack + 1) < p)"
    by (force simp: packets_def)
  then show ?thesis using r by blast
qed


text \<open>
  C17: a timeout marks every outstanding packet that is not sacked as lost, whatever the board
  had recorded of it, keeps the sacked ones, and leaves nothing in flight.
\<close>

theorem timeout_exact:
  assumes "board_reachable (una, nxt, sb)"
  shows "\<exists>sb'. MarkLoss una nxt sb = Some sb'
    \<and> packets SKB_FLAG_SACKED (sb_head sb') = packets SKB_FLAG_SACKED (sb_head sb)
    \<and> packets SKB_FLAG_LOST (sb_head sb') = {una..<nxt} - packets SKB_FLAG_SACKED (sb_head sb)
    \<and> packets_in_flight sb' una nxt = 0"
proof -
  have inv: "board_inv una nxt sb" by (rule reachable_inv [OF assms])
  obtain sb' where r: "MarkLoss una nxt sb = Some sb'" "board_inv una nxt sb'"
    "packets SKB_FLAG_SACKED (sb_head sb') = packets SKB_FLAG_SACKED (sb_head sb)"
    "packets SKB_FLAG_LOST (sb_head sb') = {una..<nxt} - packets SKB_FLAG_SACKED (sb_head sb)"
    using loss_returns [OF inv board_inv_ackD [OF inv]] by blast
  have con: "contiguous una (sb_head sb')" and c: "fack_out sb' = tally SKB_FLAG_LOST (sb_head sb')"
    "sack_out sb' = tally SKB_FLAG_SACKED (sb_head sb')" "board_end una (sb_head sb') < nxt"
    using r(2) by (simp_all add: board_inv_def board_ok_def segment_ok_def)
  have sub: "packets SKB_FLAG_SACKED (sb_head sb') \<subseteq> {una..<nxt}"
    using packets_range [OF con, of SKB_FLAG_SACKED] c(3) by auto
  have "card ({una..<nxt} - packets SKB_FLAG_SACKED (sb_head sb'))
      = card {una..<nxt} - card (packets SKB_FLAG_SACKED (sb_head sb'))"
    using con sub by (intro card_Diff_subset) auto
  moreover have "card (packets SKB_FLAG_SACKED (sb_head sb')) \<le> card {una..<nxt}"
    using sub by (intro card_mono) auto
  ultimately have "packets_in_flight sb' una nxt = 0"
    using c board_inv_ackD [OF inv] r(3,4) by (simp add: packets_in_flight_def tally_card [OF con])
  then show ?thesis using r by blast
qed

text \<open>A board after four losses of which two were retransmitted, for the concrete instances.\<close>

primrec sends :: "nat \<Rightarrow> int \<times> int \<times> scoreboard \<Rightarrow> int \<times> int \<times> scoreboard" where
  "sends 0 st = st"
| "sends (Suc n) st = (case sends n st of (una, nxt, sb) \<Rightarrow> (una, nxt + 1, sb))"

lemma reachable_sends: "board_reachable st \<Longrightarrow> board_reachable (sends n st)"
proof (induction n)
  case (Suc n)
  obtain una nxt sb where "sends n st = (una, nxt, sb)" by (metis prod_cases3)
  then show ?case using board_reachable.Step [OF _ board_step.Send, of una nxt sb] Suc by simp
qed simp

datatype board_event = Sacks "(int \<times> int) list" | Retran | Sends nat

text \<open>The events of a connection on which packet 0 is acknowledged, checked as they happen.\<close>

fun board_run :: "board_event list \<Rightarrow> int \<times> int \<times> scoreboard \<Rightarrow> (int \<times> int \<times> scoreboard) option" where
  "board_run [] st = Some st"
| "board_run (Sends n # es) st = board_run es (sends n st)"
| "board_run (Retran # es) (una, nxt, sb) = do {
     (s, sb) \<leftarrow> GetNextRetran sb;
     if s = - 1 then None else do { sb \<leftarrow> MarkRetran s nxt sb; board_run es (una, nxt, sb) }
   }"
| "board_run (Sacks sacks # es) (una, nxt, sb) =
     (if una \<le> 1 \<and> 0 < nxt \<and> sacks_ok 0 sacks \<and> (\<forall>(l, r)\<in>set sacks. r \<le> nxt)
      then do { (sb, fl) \<leftarrow> UpdateScoreBoard 0 sacks 3 sb; board_run es (1, nxt, sb) } else None)"

lemma board_run_reachable: "board_run es st = Some st' \<Longrightarrow> board_reachable st \<Longrightarrow> board_reachable st'"
proof (induction es st rule: board_run.induct)
  case (3 es una nxt sb)
  then obtain s sb1 sb2 where r: "GetNextRetran sb = Some (s, sb1)" "s \<noteq> - 1" "MarkRetran s nxt sb1 = Some sb2"
    "board_run es (una, nxt, sb2) = Some st'"
    by (auto simp: bind_eq_Some_conv split: if_splits)
  have "board_reachable (una, nxt, sb2)"
    using 3(3) r(1-3) by (blast intro: board_reachable.Step board_step.Retransmit)
  then show ?case using 3(1) [OF r(1) refl r(2,3,4)] by simp
next
  case (4 sacks es una nxt sb)
  then obtain sb1 fl where c: "una \<le> 1" "0 < nxt" "sacks_ok 0 sacks" "\<forall>(l, r)\<in>set sacks. r \<le> nxt"
    and r: "UpdateScoreBoard 0 sacks 3 sb = Some (sb1, fl)" "board_run es (1, nxt, sb1) = Some st'"
    by (auto simp: bind_eq_Some_conv split: if_splits)
  have "board_reachable (1, nxt, sb1)"
    using board_reachable.Step [OF 4(3) board_step.Ack [OF _ c(2) c(3) c(4) r(1)]] c(1) by simp
  then show ?case using 4 c r by auto
qed (auto dest: reachable_sends)

declare scan.simps [code] loss_loop.simps [code]

definition example_board :: scoreboard where
  "example_board = snd (snd (the (board_run [Sends 12, Sacks [(8, 12)], Retran, Retran] (0, 0, ScoreBoard1))))"

lemma example_board:
  "board_run [Sends 12, Sacks [(8, 12)], Retran, Retran] (0, 0, ScoreBoard1) = Some (1, 12, example_board)"
  by code_simp

lemma packets_blocks: "packets f ns =
    (\<Union>(g, a, b)\<in>set (map (\<lambda>n. (nd_flag n, nd_seq n, GetEnd n)) ns). if g = f then {a..b} else {})"
  by (auto simp: packets_def split: if_splits)

lemma example_board_blocks: "map (\<lambda>n. (nd_flag n, nd_seq n, GetEnd n)) (sb_head example_board) =
    [(SKB_FLAG_RETRANSMITTED, 1, 1), (SKB_FLAG_RETRANSMITTED, 2, 2), (SKB_FLAG_LOST, 3, 7), (SKB_FLAG_SACKED, 8, 11)]"
  by code_simp

lemma example_board_packets:
  "packets SKB_FLAG_LOST (sb_head example_board) = {3..7}" "packets SKB_FLAG_SACKED (sb_head example_board) = {8..11}"
  unfolding packets_blocks example_board_blocks by auto

lemma example_board_reachable: "board_reachable (1, 12, example_board)"
  by (rule board_run_reachable [OF example_board board_reachable.Start])

theorem in_flight_counts_witness:
  "packets_in_flight example_board 1 12 = int (card ({1..<12} - ({3..7} \<union> {8..11} :: int set)))"
  using in_flight_counts [OF example_board_reachable] by (simp add: example_board_packets)

theorem update_exact_witness:
  "\<exists>sb' fl. UpdateScoreBoard 0 [(2, 3), (8, 12)] 3 example_board = Some (sb', fl)
    \<and> packets SKB_FLAG_SACKED (sb_head sb') = {2} \<union> {8..11}"
proof -
  have p: "\<forall>(l, r)\<in>set [(2, 3), (8, 12)]. r \<le> (12 :: int)" by simp
  have o: "sacks_ok 0 [(2, 3), (8, 12)]" by (simp add: sacks_ok_def NSA_def)
  have "\<exists>sb' fl. UpdateScoreBoard 0 [(2, 3), (8, 12)] 3 example_board = Some (sb', fl)
      \<and> packets SKB_FLAG_SACKED (sb_head sb') = {8..11} \<inter> {0<..} \<union> reported 0 [(2, 3), (8, 12)]"
    using update_exact [OF example_board_reachable _ _ o p, of 3, unfolded example_board_packets, simplified]
    by blast
  moreover have eq: "reported 0 [(2, 3), (8, 12)] = {2..<3} \<union> {8..<12}"
  proof -
    have "{x \<in> set [(2, 3), (8, 12)]. (0 :: int) \<le> fst x} = {(2 :: int, 3 :: int), (8, 12)}" by force
    then show ?thesis unfolding reported_def by simp
  qed
  have "{8..11} \<inter> {0<..} \<union> reported 0 [(2, 3), (8, 12)] = {2} \<union> {8..11}"
    unfolding eq by auto
  ultimately show ?thesis by (simp only: eq)
qed


theorem timeout_exact_witness:
  "\<exists>sb'. MarkLoss 1 12 example_board = Some sb' \<and> packets SKB_FLAG_LOST (sb_head sb') = {1..7}"
proof -
  have "{1..<12} - {8..11} = {1..7 :: int}" by auto
  then show ?thesis
    using timeout_exact [OF example_board_reachable] by (auto simp: example_board_packets)
qed

definition forgetful_events :: "board_event list" where
  "forgetful_events = [Sends 12, Sacks [(8, 12)], Retran, Retran, Sends 1, Retran, Sacks [(8, 13)], Retran, Sacks [(2, 3)]]"

text \<open>
  C18: the search can miss a lost packet. The traversal of \<^verbatim>\<open>UpdateScoreBoard\<close> forgets the
  pointer to the next retransmission and stops after the last sack block when nothing new was
  learnt, so when the blocks of an acknowledgment all lie below a retransmitted packet, the
  lost packets behind it are not found until a later acknowledgment: a sequence of events
  reaches a board on which \<^verbatim>\<open>GetNextRetran\<close> reports that there is nothing to retransmit while
  packets are lost.
\<close>

theorem retransmission_missed:
  "\<exists>una nxt sb sb'. board_run forgetful_events (0, 0, ScoreBoard1) = Some (una, nxt, sb)
    \<and> board_reachable (una, nxt, sb) \<and> GetNextRetran sb = Some (- 1, sb') \<and> 0 < fack_out sb
    \<and> packets SKB_FLAG_LOST (sb_head sb) \<noteq> {}"
proof -
  define st where "st = the (board_run forgetful_events (0, 0, ScoreBoard1))"
  have r: "board_run forgetful_events (0, 0, ScoreBoard1) = Some st" unfolding st_def by code_simp
  obtain una nxt sb where s: "st = (una, nxt, sb)" by (metis prod_cases3)
  have reach: "board_reachable st" by (rule board_run_reachable [OF r board_reachable.Start])
  have g: "nxt_to_retrx (snd (snd st)) = None \<and> 0 < fack_out (snd (snd st))" unfolding st_def by code_simp
  then have n: "GetNextRetran sb = Some (- 1, sb)" and f: "0 < fack_out sb" by (simp_all add: s GetNextRetran_def)
  have "board_ok una sb" using reachable_inv reach by (simp add: s board_inv_def)
  then have "fack_out sb = int (card (packets SKB_FLAG_LOST (sb_head sb)))"
    using tally_card by (auto simp: board_ok_def segment_ok_def)
  then have "packets SKB_FLAG_LOST (sb_head sb) \<noteq> {}" using f by auto
  then show ?thesis using r reach n f unfolding s by blast
qed
end
