(* ===== verification/Param_Manager.thy ===== *)
theory Param_Manager
  imports Linux_Shim
begin

text \<open>
  The parameters of the congestion modules as \<^verbatim>\<open>tcp/tcp-linux.cc\<close> manages them: the modules'
  global variables at their addresses (\<^verbatim>\<open>*(int*)p->ptr\<close>), the defaults that a script sets in
  them, and for each connection a list (\<^verbatim>\<open>ParamList\<close>) of its own values, which are
  loaded into the variables before the module runs and taken back afterwards.
\<close>

section \<open>Local values\<close>

type_synonym memory = "nat \<Rightarrow> cint"

record paramNode =
  pn_addr :: nat
  pn_value :: cint
  pn_default :: cint

fun ParamList_get_param :: "nat \<Rightarrow> paramNode list \<Rightarrow> cint option" where
  "ParamList_get_param address [] = None"
| "ParamList_get_param address (p # ps) =
     (if pn_addr p = address then Some (pn_value p) else ParamList_get_param address ps)"

text \<open>The search of \<^verbatim>\<open>set_param\<close>: the list with the value set in the first node of the address.\<close>

fun set_found :: "nat \<Rightarrow> cint \<Rightarrow> paramNode list \<Rightarrow> paramNode list option" where
  "set_found address value [] = None"
| "set_found address value (p # ps) =
     (if pn_addr p = address then Some (p\<lparr>pn_value := value\<rparr> # ps)
      else map_option ((#) p) (set_found address value ps))"

definition ParamList_set_param :: "memory \<Rightarrow> nat \<Rightarrow> cint \<Rightarrow> paramNode list \<Rightarrow> paramNode list" where
  "ParamList_set_param mem address value ps =
     (case set_found address value ps of
        Some ps \<Rightarrow> ps
      | None \<Rightarrow> \<lparr>pn_addr = address, pn_value = value, pn_default = mem address\<rparr> # ps)"

definition ParamList_refresh_default :: "memory \<Rightarrow> paramNode list \<Rightarrow> paramNode list" where
  "ParamList_refresh_default mem ps = map (\<lambda>p. p\<lparr>pn_default := mem (pn_addr p)\<rparr>) ps"

fun restore_default :: "memory \<times> paramNode list \<Rightarrow> memory \<times> paramNode list" where
  "restore_default (mem, []) = (mem, [])"
| "restore_default (mem, p # ps) =
     (let p = p\<lparr>pn_value := mem (pn_addr p)\<rparr>;
          mem = mem(pn_addr p := pn_default p);
          (mem, ps) = restore_default (mem, ps)
      in (mem, p # ps))"

fun load_local :: "memory \<times> paramNode list \<Rightarrow> memory \<times> paramNode list" where
  "load_local (mem, []) = (mem, [])"
| "load_local (mem, p # ps) =
     (let p = p\<lparr>pn_default := mem (pn_addr p)\<rparr>;
          mem = mem(pn_addr p := pn_value p);
          (mem, ps) = load_local (mem, ps)
      in (mem, p # ps))"

section \<open>Parameters by name\<close>

text \<open>
  The manager's searches, which unlike those of \<^verbatim>\<open>ns-linux-c.c\<close> create nothing. The file name
  of the module is formatted into a buffer of 100 bytes. A parameter of which only the description
  was recorded has no type, and the comparison of its type dereferences a null pointer.
\<close>

definition proto_file :: "string \<Rightarrow> string" where
  "proto_file proto = take 99 (''tcp_'' @ proto @ ''.c'')"

definition manager_find_cc :: "cc_list list \<Rightarrow> string \<Rightarrow> cc_list option" where
  "manager_find_cc cs proto = find (\<lambda>p. cl_proto p = proto_file proto) cs"

fun find_int_param :: "string \<Rightarrow> cc_param_list list \<Rightarrow> cc_param_list option option" where
  "find_int_param name [] = Some None"
| "find_int_param name (q # qs) =
     (if pl_name q \<noteq> name then find_int_param name qs
      else case pl_type q of None \<Rightarrow> None | Some ty \<Rightarrow>
        if ty \<noteq> ''int'' then find_int_param name qs else Some (Some q))"

definition manager_find_param :: "cc_list list \<Rightarrow> string \<Rightarrow> string \<Rightarrow> cc_param_list option option" where
  "manager_find_param cs proto name =
     (case manager_find_cc cs proto of
        None \<Rightarrow> Some None
      | Some p \<Rightarrow> find_int_param name (cl_param_head p))"

text \<open>The operations: whether the parameter was found, with the new state or the value read.\<close>

definition set_default_param :: "cc_list list \<Rightarrow> string \<Rightarrow> string \<Rightarrow> cint \<Rightarrow> memory \<Rightarrow> (bool \<times> memory) option" where
  "set_default_param cs proto param value mem = do {
     found \<leftarrow> manager_find_param cs proto param;
     case found of
       None \<Rightarrow> Some (False, mem)
     | Some p \<Rightarrow> do { a \<leftarrow> pl_ptr p; Some (True, mem(a := value)) }
   }"

definition set_param ::
    "cc_list list \<Rightarrow> string \<Rightarrow> string \<Rightarrow> cint \<Rightarrow> memory \<Rightarrow> paramNode list \<Rightarrow> (bool \<times> paramNode list) option" where
  "set_param cs proto param value mem ps = do {
     found \<leftarrow> manager_find_param cs proto param;
     case found of
       None \<Rightarrow> Some (False, ps)
     | Some p \<Rightarrow> do { a \<leftarrow> pl_ptr p; Some (True, ParamList_set_param mem a value ps) }
   }"

definition get_default_param :: "cc_list list \<Rightarrow> string \<Rightarrow> string \<Rightarrow> memory \<Rightarrow> cint option option" where
  "get_default_param cs proto param mem = do {
     found \<leftarrow> manager_find_param cs proto param;
     case found of
       None \<Rightarrow> Some None
     | Some p \<Rightarrow> do { a \<leftarrow> pl_ptr p; Some (Some (mem a)) }
   }"

definition get_param :: "cc_list list \<Rightarrow> string \<Rightarrow> string \<Rightarrow> memory \<Rightarrow> paramNode list \<Rightarrow> cint option option" where
  "get_param cs proto param mem ps = do {
     found \<leftarrow> manager_find_param cs proto param;
     case found of
       None \<Rightarrow> Some None
     | Some p \<Rightarrow> do {
         a \<leftarrow> pl_ptr p;
         case ParamList_get_param a ps of Some v \<Rightarrow> Some (Some v) | None \<Rightarrow> Some (Some (mem a))
       }
   }"

section \<open>Lemmas\<close>

abbreviation addresses :: "paramNode list \<Rightarrow> nat list" where
  "addresses ps \<equiv> map pn_addr ps"

lemma get_param_iff: "(ParamList_get_param a ps = None) \<longleftrightarrow> a \<notin> set (addresses ps)"
  by (induction ps) auto

lemma set_found_None: "set_found a v ps = None \<longleftrightarrow> a \<notin> set (addresses ps)"
  by (induction ps) auto

lemma set_found_Some:
  "set_found a v ps = Some qs \<Longrightarrow> addresses qs = addresses ps
    \<and> (\<forall>b. ParamList_get_param b qs = (if b = a then Some v else ParamList_get_param b ps))"
  by (induction ps arbitrary: qs) (auto split: if_splits)

lemma set_param_get:
  "ParamList_get_param b (ParamList_set_param mem a v ps) = (if b = a then Some v else ParamList_get_param b ps)"
  using set_found_Some [of a v ps] by (auto simp: ParamList_set_param_def split: option.split)

lemma set_param_distinct:
  "distinct (addresses ps) \<Longrightarrow> distinct (addresses (ParamList_set_param mem a v ps))"
  using set_found_Some [of a v ps] by (auto simp: ParamList_set_param_def set_found_None split: option.split)

lemma load_local_spec:
  assumes "distinct (addresses ps)" and "load_local (mem, ps) = (mem', ps')"
  shows "addresses ps' = addresses ps
    \<and> (\<forall>a. mem' a = (case ParamList_get_param a ps of None \<Rightarrow> mem a | Some v \<Rightarrow> v))
    \<and> (\<forall>p\<in>set ps'. pn_default p = mem (pn_addr p))"
  using assms
proof (induction ps arbitrary: mem mem' ps')
  case (Cons q ps)
  obtain m qs where l: "load_local (mem(pn_addr q := pn_value q), ps) = (m, qs)" by force
  have d: "distinct (addresses ps)" "pn_addr q \<notin> set (addresses ps)" using Cons.prems by simp_all
  note ih = Cons.IH [OF d(1) l]
  have "pn_addr p \<noteq> pn_addr q" if "p \<in> set qs" for p
    using that ih d(2) by (metis image_eqI list.set_map)
  then show ?case using ih l d get_param_iff [of "pn_addr q" ps] Cons.prems(2)
    by (auto simp: Let_def split: option.splits)
qed auto

lemma restore_default_spec:
  assumes "distinct (addresses ps)" and "restore_default (mem, ps) = (mem', ps')"
  shows "addresses ps' = addresses ps
    \<and> (\<forall>a. ParamList_get_param a ps' = (if a \<in> set (addresses ps) then Some (mem a) else None))
    \<and> (\<forall>a. a \<notin> set (addresses ps) \<longrightarrow> mem' a = mem a)
    \<and> (\<forall>p\<in>set ps. mem' (pn_addr p) = pn_default p)"
  using assms
proof (induction ps arbitrary: mem mem' ps')
  case (Cons q ps)
  obtain m qs where l: "restore_default (mem(pn_addr q := pn_default q), ps) = (m, qs)" by force
  have d: "distinct (addresses ps)" "pn_addr q \<notin> set (addresses ps)" using Cons.prems by simp_all
  note ih = Cons.IH [OF d(1) l]
  show ?case using ih l d Cons.prems(2) by (auto simp: Let_def)
qed auto

section \<open>Properties\<close>

text \<open>
  The parameters of one connection do not leak into another. Between \<^verbatim>\<open>load_local\<close> and
  \<^verbatim>\<open>restore_default\<close> the variables have the connection's own values and the defaults elsewhere;
  whatever the module then does to the variables (\<open>run\<close>), afterwards those with a local value
  have their defaults back, the others are as the module left them, and the list has the values
  the module left for the next time. The list has no address twice, however it was built.
\<close>

theorem local_parameters_isolated:
  assumes "distinct (addresses ps)"
  shows "case load_local (mem, ps) of (mem1, ps1) \<Rightarrow> case restore_default (run mem1, ps1) of (mem2, ps2) \<Rightarrow>
    (\<forall>a. mem1 a = (case ParamList_get_param a ps of None \<Rightarrow> mem a | Some v \<Rightarrow> v))
    \<and> (\<forall>a. mem2 a = (if ParamList_get_param a ps = None then run mem1 a else mem a))
    \<and> (\<forall>a. ParamList_get_param a ps2 = (if ParamList_get_param a ps = None then None else Some (run mem1 a)))
    \<and> distinct (addresses (ParamList_set_param mem2 b v ps2))"
proof -
  obtain mem1 ps1 where l: "load_local (mem, ps) = (mem1, ps1)" by force
  obtain mem2 ps2 where r: "restore_default (run mem1, ps1) = (mem2, ps2)" by force
  note L = load_local_spec [OF assms l]
  have d: "distinct (addresses ps1)" using assms L by simp
  note R = restore_default_spec [OF d r]
  have "mem2 a = (if ParamList_get_param a ps = None then run mem1 a else mem a)" for a
  proof (cases "a \<in> set (addresses ps)")
    case True
    then have "a \<in> set (addresses ps1)" using L by simp
    then obtain p where "p \<in> set ps1" "a = pn_addr p" by auto
    then have "mem2 a = mem a" using R L by simp
    moreover have "ParamList_get_param a ps \<noteq> None" using True by (simp only: get_param_iff not_not)
    ultimately show ?thesis by (simp only: if_False)
  next
    case False
    then have "mem2 a = run mem1 a" using R L by simp
    then show ?thesis using False get_param_iff [of a ps] by simp
  qed
  moreover have "distinct (addresses (ParamList_set_param mem2 b v ps2))"
    using set_param_distinct d R by simp
  moreover have "ParamList_get_param a ps2 = (if ParamList_get_param a ps = None then None else Some (run mem1 a))" for a
    using R L by (simp add: get_param_iff)
  ultimately show ?thesis using L by (simp add: l r)
qed

theorem local_parameters_isolated_witness:
  "case load_local ((\<lambda>_. 7), [\<lparr>pn_addr = 3, pn_value = 5, pn_default = 0\<rparr>]) of (mem1, ps1) \<Rightarrow>
     case restore_default (mem1(4 := 9), ps1) of (mem2, ps2) \<Rightarrow> mem2 3 = 7 \<and> mem2 4 = 9"
  using local_parameters_isolated [of "[\<lparr>pn_addr = 3, pn_value = 5, pn_default = 0\<rparr>]" "\<lambda>_. 7" "\<lambda>m. m(4 := 9)" 0 0]
  by (simp add: case_prod_beta)

text \<open>
  A parameter that a module registered as an \<^verbatim>\<open>int\<close> is set for one connection without an
  effect on the default or on other parameters, and set by default without an effect on the
  connections that have a value of their own; a name that is not registered is refused and
  changes nothing.
\<close>

theorem parameter_operations:
  assumes "manager_find_param cs proto param = Some found" and "\<And>p. found = Some p \<Longrightarrow> pl_ptr p \<noteq> None"
  shows "case found of
      None \<Rightarrow> set_param cs proto param v mem ps = Some (False, ps)
        \<and> set_default_param cs proto param v mem = Some (False, mem)
        \<and> get_param cs proto param mem ps = Some None
    | Some p \<Rightarrow> (\<exists>ps' mem'. set_param cs proto param v mem ps = Some (True, ps')
        \<and> get_param cs proto param mem ps' = Some (Some v)
        \<and> set_default_param cs proto param v mem = Some (True, mem')
        \<and> get_default_param cs proto param mem' = Some (Some v)
        \<and> (\<forall>u. get_param cs proto param mem (ParamList_set_param mem (the (pl_ptr p)) u ps)
             = get_param cs proto param mem' (ParamList_set_param mem (the (pl_ptr p)) u ps)))"
  using assms set_param_get
  by (auto simp: set_param_def set_default_param_def get_param_def get_default_param_def split: option.split)

theorem parameter_operations_witness:
  "\<exists>ps'. set_param (record_linux_param [] ''tcp_bic.c'' ''beta'' ''int'' 3) ''bic'' ''beta'' 900 (\<lambda>_. 0) [] = Some (True, ps')
    \<and> get_param (record_linux_param [] ''tcp_bic.c'' ''beta'' ''int'' 3) ''bic'' ''beta'' (\<lambda>_. 0) ps' = Some (Some 900)"
proof -
  define cs where "cs = record_linux_param [] ''tcp_bic.c'' ''beta'' ''int'' 3"
  have "manager_find_param cs ''bic'' ''beta'' =
      Some (Some \<lparr>pl_name = ''beta'', pl_type = Some ''int'', pl_description = None, pl_ptr = Some 3\<rparr>)"
    by (simp add: cs_def record_linux_param_def find_param_by_proto_name_def find_cc_by_proto_def update_param_def
        manager_find_param_def manager_find_cc_def proto_file_def Let_def)
  from parameter_operations [OF this, of 900 "\<lambda>_. 0" "[]"] show ?thesis unfolding cs_def [symmetric] by auto
qed

end
