(* ===== verification/Agent.thy ===== *)
theory Agent
  imports Module_Ops Scoreboard
begin

text \<open>
  \<^verbatim>\<open>tcp/tcp-linux.cc\<close>: the TCP-Linux agent with a congestion module installed. The state is
  the socket the modules see (\<^verbatim>\<open>linux_\<close>), the module's private area, the scoreboard and the
  agent's own variables. Packet numbers are integers, as in \<^theory_text>\<open>Scoreboard\<close>; what the modules get
  (\<^verbatim>\<open>u32\<close>) is at its width. The window \<^verbatim>\<open>cwnd_\<close> and the threshold \<^verbatim>\<open>ssthresh_\<close> of the base
  class, declared \<^verbatim>\<open>double\<close>, only receive integers here and are integers of the model.

  The simulator's clock and the arithmetic in \<^verbatim>\<open>double\<close> on it are inputs: an acknowledgment comes
  with the time stamps and the round trip sample the agent computes of it.
\<close>

section \<open>State and inputs\<close>

record 'p agent =
  linux :: tcp_sock
  ca_priv :: 'p
  initialized :: bool
  scb :: scoreboard
  highest_ack :: int
  t_seqno :: int
  maxseq :: int
  curseq :: int
  recover :: int
  next_pkts_in_flight :: int
  prev_highest_ack :: int
  last_ack :: int
  cwnd_ns :: int
  ssthresh_ns :: int
  t_srtt :: cint
  t_rttvar :: cint
  nackpack :: int
  ncwndcuts :: int
  necnresponses :: int
  nrexmit :: int

record options =
  ecn :: bool
  bugfix_ts :: bool
  tcp_max_burst :: u8
  slow_start_restart :: bool
  maxburst :: int
  restart_bugfix :: bool
  wnd :: int
  wnd_init :: int
  size_ns :: int
  wnd_init_option :: int
  syn :: bool
  delay_growth :: bool
  max_ssthresh :: int
  srtt_init_ticks :: cint
  rttvar_init_ticks :: cint
  control_increase :: bool

text \<open>
  \<^verbatim>\<open>wnd_\<close> and \<^verbatim>\<open>wnd_init_\<close>, which a script sets, are read as integers by the agent; \<open>size_ns\<close> is
  \<^verbatim>\<open>size_\<close>, and \<open>srtt_init_ticks\<close> is \<^verbatim>\<open>int(srtt_init_ / tcp_tick_)\<close>.

  An acknowledgment: its number (of the last packet it acknowledges), sack blocks, echo of
  congestion; the time at which the packet with this number was sent, in nanoseconds; the values
  the time stamp option gives, the round trip sample (in ticks and in microseconds) when one is taken,
  and the sample passed to the module.
\<close>

record ack_packet =
  pk_seqno :: int
  pk_sacks :: "(int \<times> int) list"
  pk_ecnecho :: bool
  pk_sent :: s64
  pk_ts :: "(u32 \<times> u32) option"
  pk_rtt :: "(cint \<times> u32) option"
  pk_seq_rtt :: u32

definition FLAG_CA_ALERT :: u8 where "FLAG_CA_ALERT = FLAG_DATA_SACKED OR FLAG_ECE"
definition FLAG_NOT_DUP :: u8 where "FLAG_NOT_DUP = FLAG_DATA_ACKED"

abbreviation has :: "u8 \<Rightarrow> u8 \<Rightarrow> bool" where
  "has flag bits \<equiv> flag AND bits \<noteq> 0"

abbreviation ulong :: "int \<Rightarrow> u32" where
  "ulong i \<equiv> word_of_int i"

text \<open>\<^verbatim>\<open>(int)linux_.snd_cwnd\<close>\<close>

definition int_cwnd :: "tcp_sock \<Rightarrow> int" where
  "int_cwnd tp = sint (ucast (snd_cwnd tp) :: cint)"

definition window :: "'p agent \<Rightarrow> int" where
  "window A = int_cwnd (linux A)"

definition pkts_in_flight :: "'p agent \<Rightarrow> int" where
  "pkts_in_flight A = packets_in_flight (scb A) (highest_ack A + 1) (t_seqno A)"

definition is_congestion :: "'p agent \<Rightarrow> bool" where
  "is_congestion A \<longleftrightarrow> int_cwnd (linux A) \<le> pkts_in_flight A"

section \<open>The base class's window\<close>

definition load_to_linux :: "options \<Rightarrow> 'p agent \<Rightarrow> 'p agent" where
  "load_to_linux opt A =
     (let A = A\<lparr>linux := (linux A)\<lparr>snd_ssthresh := ulong (ssthresh_ns A)\<rparr>\<rparr>;
          A = (if int_cwnd (linux A) < next_pkts_in_flight A \<and> int_cwnd (linux A) \<le> cwnd_ns A
               then A\<lparr>next_pkts_in_flight := cwnd_ns A\<rparr>
               else A\<lparr>linux := (linux A)\<lparr>snd_cwnd := ulong (cwnd_ns A)\<rparr>\<rparr>)
      in A\<lparr>linux := (linux A)\<lparr>snd_cwnd_clamp := word_of_int (wnd opt)\<rparr>\<rparr>)"

definition save_from_linux :: "'p agent \<Rightarrow> 'p agent" where
  "save_from_linux A =
     (let A = (if int_cwnd (linux A) < next_pkts_in_flight A then A\<lparr>cwnd_ns := next_pkts_in_flight A\<rparr>
               else A\<lparr>cwnd_ns := uint (snd_cwnd (linux A))\<rparr>)
      in A\<lparr>ssthresh_ns := uint (snd_ssthresh (linux A)), last_ack := highest_ack A\<rparr>)"

definition load_to_linux_once :: "options \<Rightarrow> 'p agent \<Rightarrow> 'p agent" where
  "load_to_linux_once opt A =
     (let A = A\<lparr>linux := (linux A)\<lparr>snd_cwnd_clamp := word_of_int (wnd opt)\<rparr>\<rparr>
      in A\<lparr>linux := (linux A)\<lparr>snd_ssthresh := uint_ulong (snd_cwnd_clamp (linux A)), mss_cache := ulong (size_ns opt)\<rparr>\<rparr>)"

text \<open>The installation of the first module, before the first acknowledgment.\<close>

definition install_first :: "options \<Rightarrow> 'p agent \<Rightarrow> 'p agent" where
  "install_first opt A = save_from_linux (load_to_linux opt (load_to_linux_once opt A))"

text \<open>\<^verbatim>\<open>slowdown(CLOSE_CWND_INIT)\<close> of \<^verbatim>\<open>tcp/tcp.cc\<close>, the restart of an idle connection.\<close>

definition slowdown_init :: "options \<Rightarrow> 'p agent \<Rightarrow> 'p agent" where
  "slowdown_init opt A = A\<lparr>ncwndcuts := ncwndcuts A + 1, cwnd_ns := wnd_init opt,
     ssthresh_ns := (if ssthresh_ns A < 2 then 2 else ssthresh_ns A)\<rparr>"

section \<open>Reset\<close>

text \<open>
  \<^verbatim>\<open>reset\<close> and what it calls in \<^verbatim>\<open>tcp/tcp.cc\<close>, for the variables above; without Quick-Start
  (\<^verbatim>\<open>qs_cwnd_\<close> is 0). With another \<^verbatim>\<open>wnd_init_option_\<close> than 1 and 2, \<^verbatim>\<open>initial_window\<close> aborts.
\<close>

definition initial_window :: "options \<Rightarrow> int option" where
  "initial_window opt =
     (if wnd_init_option opt = 1 then Some (wnd_init opt)
      else if wnd_init_option opt = 2 then
        Some (if size_ns opt \<le> 1095 then 4 else if size_ns opt < 2190 then 3 else 2)
      else None)"

definition set_initial_window :: "options \<Rightarrow> 'p agent \<Rightarrow> 'p agent option" where
  "set_initial_window opt A =
     (if syn opt \<and> delay_growth opt then Some (A\<lparr>cwnd_ns := 1\<rparr>)
      else map_option (\<lambda>w. A\<lparr>cwnd_ns := w\<rparr>) (initial_window opt))"

definition rtt_init :: "options \<Rightarrow> 'p agent \<Rightarrow> 'p agent" where
  "rtt_init opt A = A\<lparr>t_srtt := push_bit 3 (srtt_init_ticks opt), t_rttvar := push_bit 2 (rttvar_init_ticks opt)\<rparr>"

definition TcpAgent_reset :: "options \<Rightarrow> 'p agent \<Rightarrow> 'p agent option" where
  "TcpAgent_reset opt A = do {
     A \<leftarrow> set_initial_window opt ((rtt_init opt A)\<lparr>curseq := 0\<rparr>);
     let A = A\<lparr>t_seqno := 0, maxseq := - 1, last_ack := - 1, highest_ack := - 1, ssthresh_ns := wnd opt\<rparr>;
     let A = (if 0 < max_ssthresh opt \<and> max_ssthresh opt < ssthresh_ns A
              then A\<lparr>ssthresh_ns := max_ssthresh opt\<rparr> else A);
     let A = A\<lparr>recover := 0, nackpack := 0, nrexmit := 0, necnresponses := 0, ncwndcuts := 0\<rparr>;
     Some (if control_increase opt then A\<lparr>prev_highest_ack := highest_ack A\<rparr> else A)
   }"

definition reset :: "options \<Rightarrow> 'p agent \<Rightarrow> 'p agent option" where
  "reset opt A =
     (let A = A\<lparr>scb := ClearScoreBoard (scb A),
                linux := (linux A)\<lparr>icsk_ca_state := TCP_CA_Open, snd_cwnd_stamp := 0, snd_cwnd := 2, bytes_acked := 0\<rparr>,
                initialized := False\<rparr> in do {
        A \<leftarrow> TcpAgent_reset opt A;
        Some (load_to_linux opt (load_to_linux_once opt A))
      })"

section \<open>Calls of the module\<close>

definition tcp_set_ca_state :: "'p ca_ops \<Rightarrow> env \<Rightarrow> u8 \<Rightarrow> 'p agent \<Rightarrow> 'p agent option" where
  "tcp_set_ca_state ca env st A = do {
     (tp, p) \<leftarrow> run_set_state ca env st (linux A) (ca_priv A);
     Some (A\<lparr>linux := tp\<lparr>icsk_ca_state := st\<rparr>, ca_priv := p\<rparr>)
   }"

definition tcp_ca_event_call :: "'p ca_ops \<Rightarrow> env \<Rightarrow> tcp_ca_event \<Rightarrow> 'p agent \<Rightarrow> 'p agent option" where
  "tcp_ca_event_call ca env event A = do {
     (tp, p) \<leftarrow> run_cwnd_event ca env event (linux A) (ca_priv A);
     Some (A\<lparr>linux := tp, ca_priv := p\<rparr>)
   }"

definition touch_cwnd :: "env \<Rightarrow> 'p agent \<Rightarrow> 'p agent" where
  "touch_cwnd env A = A\<lparr>linux := (linux A)\<lparr>snd_cwnd_stamp := tcp_time_stamp env\<rparr>\<rparr>"

definition tcp_moderate_cwnd :: "env \<Rightarrow> options \<Rightarrow> 'p agent \<Rightarrow> 'p agent" where
  "tcp_moderate_cwnd env opt A = touch_cwnd env
     (A\<lparr>linux := (linux A)\<lparr>snd_cwnd := ulong (min (int_cwnd (linux A)) (pkts_in_flight A + uint (tcp_max_burst opt)))\<rparr>\<rparr>)"

definition init_module :: "'p ca_ops \<Rightarrow> env \<Rightarrow> 'p agent \<Rightarrow> 'p agent option" where
  "init_module ca env A =
     (if \<not> initialized A then do {
        (tp, p) \<leftarrow> run_init ca env (linux A) (ca_priv A);
        Some (A\<lparr>linux := tp, ca_priv := p, initialized := True\<rparr>)
      } else Some A)"

definition packets_acked :: "'p ca_ops \<Rightarrow> env \<Rightarrow> u32 \<Rightarrow> s64 \<Rightarrow> 'p agent \<Rightarrow> 'p agent option" where
  "packets_acked ca env n last_ackt A = do {
     (tp, p) \<leftarrow> run_pkts_acked ca env n last_ackt (linux A) (ca_priv A);
     Some (A\<lparr>linux := tp, ca_priv := p\<rparr>)
   }"

definition cong_avoid_call ::
    "'p ca_ops \<Rightarrow> env \<Rightarrow> u32 \<Rightarrow> u32 \<Rightarrow> u32 \<Rightarrow> cint \<Rightarrow> 'p agent \<Rightarrow> 'p agent option" where
  "cong_avoid_call ca env ack rtt in_flight good A = do {
     (tp, p) \<leftarrow> ca_cong_avoid ca env (ack * mss_cache (linux A)) rtt in_flight good (linux A) (ca_priv A);
     Some (touch_cwnd env (A\<lparr>linux := tp, ca_priv := p\<rparr>))
   }"

section \<open>Round trip times\<close>

text \<open>The smoothed round trip time and its variation, with the default exponents \<^verbatim>\<open>T_SRTT_BITS\<close> 3
  and \<^verbatim>\<open>T_RTTVAR_BITS\<close> 2; the difference is a \<^verbatim>\<open>short\<close>.\<close>

definition rtt_average :: "cint \<Rightarrow> cint \<Rightarrow> cint \<Rightarrow> cint \<times> cint" where
  "rtt_average rtt sr rv =
     (let rtt = (if rtt <s 1 then 1 else rtt) in
      if sr \<noteq> 0 then
        let delta = ucast (rtt - signed_drop_bit 3 sr) :: 16 word;
            sr = sr + scast delta;
            sr = (if sr \<le>s 0 then 1 else sr);
            delta = (if delta <s 0 then
                let delta = - delta;
                    delta = (ucast ((scast delta :: cint) - signed_drop_bit 2 rv) :: 16 word) in
                if 0 <s delta then signed_drop_bit 3 delta else delta
              else (ucast ((scast delta :: cint) - signed_drop_bit 2 rv) :: 16 word)) in
        (sr, rv + scast delta)
      else (push_bit 3 rtt, push_bit 1 rtt))"

definition rtt_update :: "'p ca_ops \<Rightarrow> env \<Rightarrow> cint \<Rightarrow> u32 \<Rightarrow> 'p agent \<Rightarrow> 'p agent option" where
  "rtt_update ca env t_rtt usrtt A = do {
     p \<leftarrow> run_rtt_sample ca env usrtt (linux A) (ca_priv A);
     let (srtt', rttvar) = rtt_average t_rtt (t_srtt A) (t_rttvar A);
     Some (A\<lparr>ca_priv := p, t_srtt := srtt', t_rttvar := rttvar, linux := (linux A)\<lparr>srtt := scast srtt'\<rparr>\<rparr>)
   }"

text \<open>The part of \<^verbatim>\<open>time_processing\<close> that the modules see.\<close>

definition time_processing :: "'p ca_ops \<Rightarrow> env \<Rightarrow> ack_packet \<Rightarrow> 'p agent \<Rightarrow> 'p agent option" where
  "time_processing ca env pkt A =
     (let opts = (case pk_ts pkt of
          None \<Rightarrow> (rx_opt (linux A))\<lparr>saw_tstamp := False\<rparr>
        | Some (tsval, tsecr) \<Rightarrow> \<lparr>rcv_tsval = tsval, rcv_tsecr = tsecr, saw_tstamp = True\<rparr>);
        A = A\<lparr>linux := (linux A)\<lparr>rx_opt := opts\<rparr>\<rparr> in
      case pk_rtt pkt of None \<Rightarrow> Some A | Some (t_rtt, usrtt) \<Rightarrow> rtt_update ca env t_rtt usrtt A)"

section \<open>Sending\<close>

text \<open>
  \<^verbatim>\<open>send_much\<close> and its loop, without a random send overhead (\<^verbatim>\<open>overhead_\<close> is 0, and the timer of
  delayed sends is never set): retransmissions first, then new
  packets up to \<^verbatim>\<open>curseq_\<close>, at most \<open>burst\<close> of them if that is not 0. The result has the packets handed to \<^verbatim>\<open>output\<close>, which also
  raises \<^verbatim>\<open>maxseq_\<close>, in their order.
\<close>

definition output_packet :: "int \<Rightarrow> 'p agent \<Rightarrow> 'p agent" where
  "output_packet seqno A = A\<lparr>maxseq := max (maxseq A) seqno\<rparr>"

definition after_output :: "int \<Rightarrow> 'p agent \<Rightarrow> 'p agent" where
  "after_output xmit_seqno A =
     (let A = output_packet xmit_seqno A;
          A = A\<lparr>next_pkts_in_flight := min (next_pkts_in_flight A) (max (pkts_in_flight A - 1) 1)\<rparr>;
          A = (if t_seqno A \<le> xmit_seqno then A\<lparr>t_seqno := xmit_seqno + 1\<rparr> else A)
      in A\<lparr>linux := (linux A)\<lparr>snd_nxt := ulong (t_seqno A) * mss_cache (linux A)\<rparr>\<rparr>)"

partial_function (option) send_loop ::
    "int \<Rightarrow> int \<Rightarrow> int \<Rightarrow> 'p agent \<Rightarrow> (int list \<times> 'p agent) option" where
  "send_loop burst win npacket A =
     (if pkts_in_flight A < max win (next_pkts_in_flight A) then do {
        (xmit_seqno, sb) \<leftarrow> GetNextRetran (scb A);
        let A = A\<lparr>scb := sb\<rparr>;
        if xmit_seqno = - 1 \<and> curseq A \<le> t_seqno A then Some ([], A)
        else do {
          (xmit_seqno, win, A) \<leftarrow>
            (if xmit_seqno = - 1 then Some (t_seqno A, win, A\<lparr>t_seqno := t_seqno A + 1\<rparr>)
             else do {
               sb \<leftarrow> MarkRetran xmit_seqno (t_seqno A) (scb A);
               Some (xmit_seqno, window A, A\<lparr>scb := sb\<rparr>)
             });
          let A = after_output xmit_seqno A;
          if burst \<noteq> 0 \<and> burst \<le> npacket + 1 then Some ([xmit_seqno], A)
          else do {
            (sent, A) \<leftarrow> send_loop burst win (npacket + 1) A;
            Some (xmit_seqno # sent, A)
          }
        }
      } else Some ([], A))"

declare send_loop.simps [code]

definition send_much :: "int \<Rightarrow> 'p agent \<Rightarrow> (int list \<times> 'p agent) option" where
  "send_much burst A =
     (let win = window A;
          A = A\<lparr>next_pkts_in_flight := min (next_pkts_in_flight A) (pkts_in_flight A + 1)\<rparr>
      in send_loop burst win 0 A)"

text \<open>
  An application's request to send, \<^verbatim>\<open>sendmsg\<close> and \<^verbatim>\<open>advanceby\<close> of \<^verbatim>\<open>tcp/tcp.cc\<close>: \<^verbatim>\<open>- 1\<close> bytes are
  without limit; the division by \<^verbatim>\<open>size_\<close> rounds up.
\<close>

definition TCP_MAXSEQ :: int where "TCP_MAXSEQ = 1073741824"

definition data_packets :: "int \<Rightarrow> int \<Rightarrow> int" where
  "data_packets nbytes sz = nbytes sdiv sz + (if nbytes smod sz \<noteq> 0 then 1 else 0)"

definition sendmsg :: "options \<Rightarrow> int \<Rightarrow> 'p agent \<Rightarrow> (int list \<times> 'p agent) option" where
  "sendmsg opt nbytes A =
     (if nbytes = - 1 \<and> curseq A \<le> TCP_MAXSEQ then send_much (maxburst opt) (A\<lparr>curseq := TCP_MAXSEQ\<rparr>)
      else if size_ns opt = 0 then None
      else send_much (maxburst opt) (A\<lparr>curseq := curseq A + data_packets nbytes (size_ns opt)\<rparr>))"

definition advanceby :: "options \<Rightarrow> int \<Rightarrow> 'p agent \<Rightarrow> (int list \<times> 'p agent) option" where
  "advanceby opt delta A = send_much (maxburst opt) (A\<lparr>curseq := curseq A + delta\<rparr>)"

section \<open>Acknowledgments\<close>

definition ack_processing :: "int \<Rightarrow> u8 \<Rightarrow> 'p agent \<Rightarrow> u8 \<times> 'p agent" where
  "ack_processing seqno flag A =
     (if has flag FLAG_DATA_ACKED then
        let A = A\<lparr>highest_ack := seqno\<rparr>;
            A = A\<lparr>linux := (linux A)\<lparr>snd_una := ulong (highest_ack A + 1) * mss_cache (linux A)\<rparr>\<rparr>;
            A = A\<lparr>maxseq := max (maxseq A) (highest_ack A)\<rparr>;
            A = (if t_seqno A < highest_ack A + 1 then
                   let A = A\<lparr>t_seqno := highest_ack A + 1\<rparr> in
                   A\<lparr>linux := (linux A)\<lparr>snd_nxt := ulong (t_seqno A) * mss_cache (linux A)\<rparr>\<rparr>
                 else A)
        in (flag, A)
      else (flag OR FLAG_UNSURE_TSTAMP, A))"

definition tcp_fastretrans_alert ::
    "'p ca_ops \<Rightarrow> env \<Rightarrow> options \<Rightarrow> u8 \<Rightarrow> 'p agent \<Rightarrow> 'p agent option" where
  "tcp_fastretrans_alert ca env opt flag A =
     (if icsk_ca_state (linux A) \<noteq> TCP_CA_Open \<and> recover A \<le> highest_ack A then
        let A = A\<lparr>scb := ClearScoreBoard (scb A)\<rparr>;
            A = (if snd_cwnd (linux A) < snd_ssthresh (linux A)
                 then tcp_moderate_cwnd env opt (A\<lparr>linux := (linux A)\<lparr>snd_cwnd := snd_ssthresh (linux A)\<rparr>\<rparr>)
                 else A) in do {
          A \<leftarrow> tcp_set_ca_state ca env TCP_CA_Open A;
          Some (A\<lparr>next_pkts_in_flight := 0\<rparr>)
        }
      else if icsk_ca_state (linux A) = TCP_CA_Recovery then Some A
      else if has flag (FLAG_DATA_LOST OR FLAG_ECE) then
        let A = touch_cwnd env (A\<lparr>recover := maxseq A\<rparr>);
            A = A\<lparr>next_pkts_in_flight := int_cwnd (linux A)\<rparr> in do {
          (s, p) \<leftarrow> ca_ssthresh ca env (linux A) (ca_priv A);
          let A = A\<lparr>linux := (linux A)\<lparr>snd_ssthresh := s, snd_cwnd_cnt := 0, bytes_acked := 0\<rparr>, ca_priv := p\<rparr>;
          w \<leftarrow> run_min_cwnd ca (linux A) (ca_priv A);
          let A = A\<lparr>linux := (linux A)\<lparr>snd_cwnd := w\<rparr>, ncwndcuts := ncwndcuts A + 1\<rparr>;
          let A = (if has flag FLAG_ECE then A\<lparr>necnresponses := necnresponses A + 1\<rparr> else A);
          tcp_set_ca_state ca env TCP_CA_Recovery A
        }
      else Some A)"

definition tcp_ack_is_dubious :: "u8 \<Rightarrow> 'p agent \<Rightarrow> bool" where
  "tcp_ack_is_dubious flag A \<longleftrightarrow>
     \<not> has flag FLAG_NOT_DUP \<or> has flag FLAG_CA_ALERT \<or> icsk_ca_state (linux A) \<noteq> TCP_CA_Open"

definition tcp_may_raise_cwnd :: "u8 \<Rightarrow> 'p agent \<Rightarrow> bool" where
  "tcp_may_raise_cwnd flag A \<longleftrightarrow>
     (\<not> has flag FLAG_ECE \<or> snd_cwnd (linux A) < snd_ssthresh (linux A))
       \<and> icsk_ca_state (linux A) \<noteq> TCP_CA_Recovery \<and> icsk_ca_state (linux A) \<noteq> TCP_CA_CWR"

text \<open>The window the acknowledgment gives: growth, or the reaction to loss.\<close>

definition ack_control ::
    "'p ca_ops \<Rightarrow> env \<Rightarrow> options \<Rightarrow> u8 \<Rightarrow> u32 \<Rightarrow> u32 \<Rightarrow> u32 \<Rightarrow> 'p agent \<Rightarrow> 'p agent option" where
  "ack_control ca env opt flag ack seq_rtt prior_in_flight A =
     (if tcp_ack_is_dubious flag A then do {
        A \<leftarrow> (if has flag FLAG_DATA_ACKED \<and> tcp_may_raise_cwnd flag A
             then cong_avoid_call ca env ack seq_rtt prior_in_flight 0 A else Some A);
        tcp_fastretrans_alert ca env opt flag A
      } else if has flag FLAG_DATA_ACKED then
        cong_avoid_call ca env ack seq_rtt prior_in_flight 1 (A\<lparr>prev_highest_ack := highest_ack A\<rparr>)
      else Some A)"

definition ack_events :: "'p ca_ops \<Rightarrow> env \<Rightarrow> options \<Rightarrow> ack_packet \<Rightarrow> u8 \<Rightarrow> u32 \<Rightarrow> 'p agent \<Rightarrow> 'p agent option" where
  "ack_events ca env opt pkt flag n A = do {
     A \<leftarrow> init_module ca env A;
     A \<leftarrow> (if has flag FLAG_NOT_DUP
          then packets_acked ca env n
                 (if has flag FLAG_UNSURE_TSTAMP \<or> \<not> bugfix_ts opt then 0 else pk_sent pkt) A
          else Some A);
     tcp_ca_event_call ca env
       (if icsk_ca_state (linux A) = TCP_CA_Open \<and> \<not> has flag FLAG_CA_ALERT \<and> has flag FLAG_NOT_DUP
        then CA_EVENT_FAST_ACK else CA_EVENT_SLOW_ACK) A
   }"

text \<open>
  The first part of \<^verbatim>\<open>recv\<close>: sequence numbers, scoreboard and flags of an acceptable
  acknowledgment.
\<close>

definition recv_sequence :: "options \<Rightarrow> ack_packet \<Rightarrow> 'p agent \<Rightarrow> (u8 \<times> 'p agent) option" where
  "recv_sequence opt pkt A =
     (let prior_snd_una = ulong (highest_ack A + 1);
          ack = ulong (pk_seqno pkt + 1);
          flag = (if pk_ecnecho pkt \<and> ecn opt \<and> 1 < ack then FLAG_ECE else 0);
          (flag, A) =
            (if prior_snd_una < ack
             then (flag OR FLAG_DATA_ACKED,
                   A\<lparr>linux := (linux A)\<lparr>bytes_acked := bytes_acked (linux A) + (ack - prior_snd_una) * mss_cache (linux A)\<rparr>\<rparr>)
             else (flag, A));
          (fl, A) = ack_processing (pk_seqno pkt) flag A;
          flag = flag OR fl in
      if pk_sacks pkt \<noteq> [] \<or> sb_head (scb A) \<noteq> [] then do {
        (sb, fl) \<leftarrow> UpdateScoreBoard (highest_ack A) (pk_sacks pkt) 3 (scb A);
        Some (flag OR fl, A\<lparr>scb := sb\<rparr>)
      } else Some (flag, A))"

definition recv_accepted :: "'p ca_ops \<Rightarrow> env \<Rightarrow> options \<Rightarrow> ack_packet \<Rightarrow> 'p agent \<Rightarrow> 'p agent option" where
  "recv_accepted ca env opt pkt A =
     (let n = ulong (pk_seqno pkt + 1) - ulong (highest_ack A + 1);
          prior_in_flight = ulong (pkts_in_flight A) in do {
        (flag, A) \<leftarrow> recv_sequence opt pkt A;
        A \<leftarrow> time_processing ca env pkt A;
        A \<leftarrow> ack_events ca env opt pkt flag n A;
        A \<leftarrow> ack_control ca env opt flag (ulong (pk_seqno pkt + 1)) (pk_seq_rtt pkt) prior_in_flight A;
        Some (save_from_linux A)
      })"

text \<open>What an acknowledgment makes of the agent, and the packets sent in response.\<close>

definition recv :: "'p ca_ops \<Rightarrow> env \<Rightarrow> options \<Rightarrow> ack_packet \<Rightarrow> 'p agent \<Rightarrow> (int list \<times> 'p agent) option" where
  "recv ca env opt pkt A =
     (let prior_snd_una = ulong (highest_ack A + 1);
          ack = ulong (pk_seqno pkt + 1);
          A = A\<lparr>nackpack := nackpack A + 1\<rparr> in
      if ulong (t_seqno A) < ack then Some ([], A)
      else if ack < prior_snd_una then Some ([], A)
      else do {
        A \<leftarrow> recv_accepted ca env opt pkt A;
        send_much (maxburst opt) A
      })"

section \<open>Timeout\<close>

definition enter_loss :: "'p ca_ops \<Rightarrow> env \<Rightarrow> 'p agent \<Rightarrow> 'p agent option" where
  "enter_loss ca env A =
     (let A = touch_cwnd env A in do {
        (s, p) \<leftarrow> ca_ssthresh ca env (linux A) (ca_priv A);
        let A = A\<lparr>linux := (linux A)\<lparr>snd_ssthresh := s\<rparr>, ca_priv := p\<rparr>;
        A \<leftarrow> tcp_ca_event_call ca env CA_EVENT_LOSS A;
        let A = A\<lparr>linux := (linux A)\<lparr>snd_cwnd := 1, snd_cwnd_cnt := 0, bytes_acked := 0\<rparr>,
                  ncwndcuts := ncwndcuts A + 1\<rparr>;
        A \<leftarrow> tcp_set_ca_state ca env TCP_CA_Loss (A\<lparr>recover := maxseq A\<rparr>);
        sb \<leftarrow> MarkLoss (highest_ack A + 1) (t_seqno A) (scb A);
        Some (A\<lparr>scb := sb\<rparr>)
      })"

text \<open>The retransmission timer.\<close>

definition timeout :: "'p ca_ops \<Rightarrow> env \<Rightarrow> options \<Rightarrow> 'p agent \<Rightarrow> (int list \<times> 'p agent) option" where
  "timeout ca env opt A =
     (if highest_ack A = maxseq A \<and> \<not> slow_start_restart opt then Some ([], A)
      else do {
        A \<leftarrow> (if highest_ack A = maxseq A \<and> restart_bugfix opt
             then Some (load_to_linux opt (slowdown_init opt (save_from_linux A)))
             else map_option (\<lambda>A. A\<lparr>nrexmit := nrexmit A + 1\<rparr>) (enter_loss ca env A));
        let A = A\<lparr>next_pkts_in_flight := 0, linux := (linux A)\<lparr>bytes_acked := 0\<rparr>\<rparr>;
        send_much 0 (save_from_linux A)
      })"

end
