(* ===== verification/Agent_Safety.thy ===== *)
theory Agent_Safety
  imports Agent
begin

text \<open>
  The agent of \<^theory_text>\<open>Agent\<close> keeps its invariant with every module that fulfils the contract of
  \<^theory_text>\<open>Module_Ops\<close>: sending, the processing of an acknowledgment and the retransmission timeout
  return and leave a usable socket, a well-formed scoreboard and a smoothed round trip time in range.
\<close>

section \<open>Sending keeps the rest of the agent\<close>

definition same_but_sending :: "'p agent \<Rightarrow> 'p agent \<Rightarrow> bool" where
  "same_but_sending A A' \<longleftrightarrow> (linux A')\<lparr>snd_nxt := 0\<rparr> = (linux A)\<lparr>snd_nxt := 0\<rparr>
     \<and> ca_priv A' = ca_priv A \<and> initialized A' = initialized A \<and> highest_ack A' = highest_ack A
     \<and> curseq A' = curseq A \<and> recover A' = recover A \<and> cwnd_ns A' = cwnd_ns A
     \<and> ssthresh_ns A' = ssthresh_ns A \<and> t_srtt A' = t_srtt A \<and> t_rttvar A' = t_rttvar A"

lemma same_but_sending_refl [simp]: "same_but_sending A A"
  by (simp add: same_but_sending_def)

lemma same_but_sending_trans:
  "same_but_sending A B \<Longrightarrow> same_but_sending B C \<Longrightarrow> same_but_sending A C"
  by (simp add: same_but_sending_def)

lemma same_but_sending_linux:
  assumes "same_but_sending A A'"
  shows "snd_cwnd (linux A') = snd_cwnd (linux A)" "snd_ssthresh (linux A') = snd_ssthresh (linux A)"
    "snd_cwnd_clamp (linux A') = snd_cwnd_clamp (linux A)" "mss_cache (linux A') = mss_cache (linux A)"
    "srtt (linux A') = srtt (linux A)" "rx_opt (linux A') = rx_opt (linux A)"
    "icsk_ca_state (linux A') = icsk_ca_state (linux A)"
proof -
  have e: "(linux A')\<lparr>snd_nxt := 0\<rparr> = (linux A)\<lparr>snd_nxt := 0\<rparr>" using assms by (simp add: same_but_sending_def)
  show "snd_cwnd (linux A') = snd_cwnd (linux A)" using arg_cong [OF e, of snd_cwnd] by simp
  show "snd_ssthresh (linux A') = snd_ssthresh (linux A)" using arg_cong [OF e, of snd_ssthresh] by simp
  show "snd_cwnd_clamp (linux A') = snd_cwnd_clamp (linux A)" using arg_cong [OF e, of snd_cwnd_clamp] by simp
  show "mss_cache (linux A') = mss_cache (linux A)" using arg_cong [OF e, of mss_cache] by simp
  show "srtt (linux A') = srtt (linux A)" using arg_cong [OF e, of srtt] by simp
  show "rx_opt (linux A') = rx_opt (linux A)" using arg_cong [OF e, of rx_opt] by simp
  show "icsk_ca_state (linux A') = icsk_ca_state (linux A)" using arg_cong [OF e, of icsk_ca_state] by simp
qed

lemma same_but_sending_window [simp]: "same_but_sending A A' \<Longrightarrow> window A' = window A"
  by (simp add: window_def int_cwnd_def same_but_sending_linux)

lemma contiguous_seq_ge: "contiguous s ns \<Longrightarrow> n \<in> set ns \<Longrightarrow> s \<le> nd_seq n"
  by (induction ns arbitrary: s) force+

lemma no_retran: "nxt_to_retrx sb = None \<Longrightarrow> GetNextRetran sb = Some (- 1, sb)"
  by (simp add: GetNextRetran_def)

lemma no_retran_left:
  assumes g: "GetNextRetran sb = Some (- 1, sb')" and inv: "board_inv una nxt sb"
  shows "nxt_to_retrx sb' = None"
proof (cases "nxt_to_retrx sb")
  case None
  then show ?thesis using g by (simp add: GetNextRetran_def)
next
  case (Some a)
  have con: "contiguous una (sb_head sb)" "0 \<le> una" using inv by (simp_all add: board_inv_def board_ok_def segment_ok_def)
  from g Some obtain before n rest where d: "deref a (sb_head sb) = Some (before, n, rest)"
    by (auto simp: GetNextRetran_def bind_Some_iff)
  then have ns: "set (n # rest) \<subseteq> set (sb_head sb)"
    by (auto simp: deref_def split: list.splits dest: set_dropWhileD) (metis list.set_intros set_dropWhileD)+
  show ?thesis
  proof (cases "dropWhile (\<lambda>n. nd_flag n \<noteq> SKB_FLAG_LOST) (n # rest)")
    case Nil
    then show ?thesis using g Some d
      by (simp only: GetNextRetran_def option.case bind.bind_lunit prod.case list.case) auto
  next
    case (Cons m ms)
    then have "m \<in> set (sb_head sb)" using ns set_dropWhileD [of m _ "n # rest"] by (metis list.set_intros(1) subsetD)
    then have "0 \<le> nd_seq m" using contiguous_seq_ge [OF con(1)] con(2) by fastforce
    then show ?thesis using g Some d Cons
      by (simp only: GetNextRetran_def option.case bind.bind_lunit prod.case list.case) auto
  qed
qed

section \<open>The sending loop\<close>

abbreviation lost_packets :: "'p agent \<Rightarrow> int set" where
  "lost_packets A \<equiv> packets SKB_FLAG_LOST (sb_head (scb A))"

abbreviation sacked_packets :: "'p agent \<Rightarrow> int set" where
  "sacked_packets A \<equiv> packets SKB_FLAG_SACKED (sb_head (scb A))"

definition board_fits :: "'p agent \<Rightarrow> bool" where
  "board_fits A \<longleftrightarrow> board_reachable (highest_ack A + 1, t_seqno A, scb A) \<and> maxseq A = t_seqno A - 1"

lemma board_fits_inv: "board_fits A \<Longrightarrow> board_inv (highest_ack A + 1) (t_seqno A) (scb A)"
  using reachable_inv by (simp add: board_fits_def)

text \<open>
  What was sent between two states: lost packets in ascending order, then new packets in sequence.
\<close>

definition sent_between :: "'p agent \<Rightarrow> int list \<Rightarrow> 'p agent \<Rightarrow> bool" where
  "sent_between A sent A' \<longleftrightarrow>
     (\<exists>rs. sent = rs @ [t_seqno A..t_seqno A' - 1] \<and> sorted_wrt (<) rs \<and> set rs \<subseteq> lost_packets A
        \<and> lost_packets A' = lost_packets A - set rs \<and> (nxt_to_retrx (scb A) = None \<longrightarrow> rs = []))
     \<and> sacked_packets A' = sacked_packets A \<and> t_seqno A \<le> t_seqno A' \<and> t_seqno A' \<le> max (t_seqno A) (curseq A)
     \<and> pkts_in_flight A' = pkts_in_flight A + int (length sent)
     \<and> next_pkts_in_flight A' \<le> next_pkts_in_flight A \<and> same_but_sending A A' \<and> board_fits A'"

text \<open>Why the loop stopped.\<close>

definition sending_stopped :: "int \<Rightarrow> int \<Rightarrow> 'p agent \<Rightarrow> bool" where
  "sending_stopped burst n A \<longleftrightarrow> burst \<noteq> 0 \<and> burst \<le> n
     \<or> max (window A) (next_pkts_in_flight A) \<le> pkts_in_flight A
     \<or> nxt_to_retrx (scb A) = None \<and> curseq A \<le> t_seqno A"

lemma after_output_sent:
  assumes "x < t_seqno A"
  shows "scb (after_output x A) = scb A" "t_seqno (after_output x A) = t_seqno A"
    "highest_ack (after_output x A) = highest_ack A" "maxseq (after_output x A) = max (maxseq A) x"
    "next_pkts_in_flight (after_output x A) \<le> next_pkts_in_flight A"
    "same_but_sending A (after_output x A)"
    "pkts_in_flight (after_output x A) = pkts_in_flight A"
  using assms by (simp_all add: after_output_def output_packet_def Let_def same_but_sending_def pkts_in_flight_def)

lemma sent_between_refl: "board_fits A \<Longrightarrow> sent_between A [] A"
  by (simp add: sent_between_def)

lemma new_packet_sent:
  assumes fit: "board_fits A" and none: "GetNextRetran (scb A) = Some (- 1, sb)" and more: "t_seqno A < curseq A"
  shows "sent_between A [t_seqno A] (after_output (t_seqno A) (A\<lparr>scb := sb, t_seqno := t_seqno A + 1\<rparr>))"
    and "nxt_to_retrx (scb (after_output (t_seqno A) (A\<lparr>scb := sb, t_seqno := t_seqno A + 1\<rparr>))) = None"
proof -
  let ?B = "A\<lparr>scb := sb, t_seqno := t_seqno A + 1\<rparr>"
  have inv: "board_inv (highest_ack A + 1) (t_seqno A) (scb A)" by (rule board_fits_inv [OF fit])
  have n: "board_inv (highest_ack A + 1) (t_seqno A) sb" "sb_head sb = sb_head (scb A)"
    "fack_out sb = fack_out (scb A)" "sack_out sb = sack_out (scb A)"
    using next_retran_returns [OF inv] none by auto
  note o = after_output_sent [of "t_seqno A" ?B, simplified]
  have s: "same_but_sending A ?B" by (simp add: same_but_sending_def)
  have "board_reachable (highest_ack A + 1, t_seqno A + 1, sb)"
    using fit board_reachable.Step [OF board_reachable.Step, OF _ board_step.Nothing_lost [OF none] board_step.Send]
    by (simp add: board_fits_def)
  then have "board_fits (after_output (t_seqno A) ?B)" using fit o by (simp add: board_fits_def)
  moreover have "pkts_in_flight ?B = pkts_in_flight A + 1"
    using n by (simp add: pkts_in_flight_def packets_in_flight_def)
  ultimately show "sent_between A [t_seqno A] (after_output (t_seqno A) ?B)"
    using o n(2) more same_but_sending_trans [OF s o(6)] by (simp add: sent_between_def)
  show "nxt_to_retrx (scb (after_output (t_seqno A) ?B)) = None"
    using no_retran_left [OF none inv] o by simp
qed

lemma retransmission_sent:
  assumes fit: "board_fits A" and g: "GetNextRetran (scb A) = Some (s, sb)" and s: "s \<noteq> - 1"
  shows "\<exists>sb2. MarkRetran s (t_seqno A) sb = Some sb2
    \<and> sent_between A [s] (after_output s (A\<lparr>scb := sb2\<rparr>))
    \<and> s \<in> lost_packets A \<and> lost_packets (after_output s (A\<lparr>scb := sb2\<rparr>)) = lost_packets A - {s}
    \<and> (\<forall>p\<in>lost_packets (after_output s (A\<lparr>scb := sb2\<rparr>)). s < p)
    \<and> nxt_to_retrx (scb A) \<noteq> None \<and> t_seqno (after_output s (A\<lparr>scb := sb2\<rparr>)) = t_seqno A"
proof -
  have inv: "board_inv (highest_ack A + 1) (t_seqno A) (scb A)" by (rule board_fits_inv [OF fit])
  obtain sb2 where m: "s \<in> lost_packets A" "\<forall>p\<in>lost_packets A. s \<le> p" "MarkRetran s (t_seqno A) sb = Some sb2"
    "board_inv (highest_ack A + 1) (t_seqno A) sb2" "packets SKB_FLAG_LOST (sb_head sb2) = lost_packets A - {s}"
    "packets SKB_FLAG_SACKED (sb_head sb2) = sacked_packets A"
    "packets_in_flight sb2 (highest_ack A + 1) (t_seqno A) = pkts_in_flight A + 1"
    using retransmit_returns [OF inv] g s by (auto simp: pkts_in_flight_def)
  have "s < t_seqno A"
    using m(1) inv packets_range [of "highest_ack A + 1" "sb_head (scb A)" SKB_FLAG_LOST]
    by (force simp: board_inv_def board_ok_def segment_ok_def)
  note o = after_output_sent [of s "A\<lparr>scb := sb2\<rparr>", simplified, OF this]
  have r: "same_but_sending A (A\<lparr>scb := sb2\<rparr>)" by (simp add: same_but_sending_def)
  have nn: "nxt_to_retrx (scb A) \<noteq> None" using g s no_retran [of "scb A"] by auto
  have "board_reachable (highest_ack A + 1, t_seqno A, sb2)"
    using fit board_reachable.Step [OF _ board_step.Retransmit [OF g s m(3)]] by (simp add: board_fits_def)
  then have "board_fits (after_output s (A\<lparr>scb := sb2\<rparr>))" using fit o \<open>s < t_seqno A\<close> by (simp add: board_fits_def)
  moreover have "pkts_in_flight (A\<lparr>scb := sb2\<rparr>) = pkts_in_flight A + 1" using m(7) by (simp add: pkts_in_flight_def)
  ultimately have "sent_between A [s] (after_output s (A\<lparr>scb := sb2\<rparr>))"
    using o m(1,5,6) same_but_sending_trans [OF r o(6)] nn by (simp add: sent_between_def)
  moreover have "\<forall>p\<in>lost_packets (after_output s (A\<lparr>scb := sb2\<rparr>)). s < p" using m(2,5) o by force
  ultimately show ?thesis using m o nn by simp
qed

lemma sent_between_fits: "sent_between A sent A' \<Longrightarrow> board_fits A'"
  by (simp add: sent_between_def)

lemma sent_between_common:
  assumes "sent_between A xs B" and "sent_between B ys C"
  shows "sacked_packets C = sacked_packets A \<and> t_seqno A \<le> t_seqno C \<and> t_seqno C \<le> max (t_seqno A) (curseq A)
     \<and> pkts_in_flight C = pkts_in_flight A + int (length (xs @ ys))
     \<and> next_pkts_in_flight C \<le> next_pkts_in_flight A \<and> same_but_sending A C \<and> board_fits C"
proof -
  have "same_but_sending A B" "same_but_sending B C" using assms by (simp_all add: sent_between_def)
  then have "same_but_sending A C" "curseq B = curseq A"
    by (rule same_but_sending_trans) (use \<open>same_but_sending A B\<close> in \<open>simp add: same_but_sending_def\<close>)
  then show ?thesis using assms by (auto simp: sent_between_def)
qed

lemma sent_between_new:
  assumes a: "sent_between A [t_seqno A] B" and n: "nxt_to_retrx (scb B) = None" and t: "t_seqno B = t_seqno A + 1"
    and b: "sent_between B ys C"
  shows "sent_between A (t_seqno A # ys) C"
proof -
  obtain rs where rs: "[t_seqno A] = rs @ [t_seqno A..t_seqno B - 1]" "lost_packets B = lost_packets A - set rs"
    using a by (auto simp: sent_between_def)
  have "[t_seqno A..t_seqno B - 1] = [t_seqno A]" using t by simp
  with rs have "lost_packets B = lost_packets A" by simp
  moreover have "ys = [t_seqno B..t_seqno C - 1]" "lost_packets C = lost_packets B" "t_seqno B \<le> t_seqno C"
    using b n by (auto simp: sent_between_def)
  moreover from this have "t_seqno A # ys = [t_seqno A..t_seqno C - 1]"
    using t upto_rec1 [of "t_seqno A" "t_seqno C - 1"] by simp
  ultimately show ?thesis
    using sent_between_common [OF a b] unfolding sent_between_def [of A _ C] by (intro conjI exI [of _ "[]"]) simp_all
qed

lemma sent_between_retran:
  assumes a: "sent_between A [s] B" and l: "s \<in> lost_packets A" "lost_packets B = lost_packets A - {s}"
    "\<forall>p\<in>lost_packets B. s < p" "nxt_to_retrx (scb A) \<noteq> None" and t: "t_seqno B = t_seqno A"
    and b: "sent_between B ys C"
  shows "sent_between A (s # ys) C"
proof -
  obtain rs where rs: "ys = rs @ [t_seqno B..t_seqno C - 1]" "sorted_wrt (<) rs" "set rs \<subseteq> lost_packets B"
    "lost_packets C = lost_packets B - set rs" using b by (auto simp: sent_between_def)
  have "s # ys = (s # rs) @ [t_seqno A..t_seqno C - 1]" "sorted_wrt (<) (s # rs)" "set (s # rs) \<subseteq> lost_packets A"
    "lost_packets C = lost_packets A - set (s # rs)"
    using rs l t by auto
  then show ?thesis
    using sent_between_common [OF a b] l(4) unfolding sent_between_def [of A _ C] by (intro conjI exI [of _ "s # rs"]) simp_all
qed
lemma send_loop_full: "\<not> pkts_in_flight A < max win (next_pkts_in_flight A) \<Longrightarrow> send_loop burst win n A = Some ([], A)"
  by (subst send_loop.simps) simp

lemma send_loop_idle:
  "pkts_in_flight A < max win (next_pkts_in_flight A) \<Longrightarrow> GetNextRetran (scb A) = Some (- 1, sb) \<Longrightarrow>
    curseq A \<le> t_seqno A \<Longrightarrow> send_loop burst win n A = Some ([], A\<lparr>scb := sb\<rparr>)"
  by (subst send_loop.simps) (simp add: Let_def)

lemma send_loop_new:
  assumes "pkts_in_flight A < max win (next_pkts_in_flight A)" and "GetNextRetran (scb A) = Some (- 1, sb)"
    and "t_seqno A < curseq A" and "B = after_output (t_seqno A) (A\<lparr>scb := sb, t_seqno := t_seqno A + 1\<rparr>)"
  shows "send_loop burst win n A =
    (if burst \<noteq> 0 \<and> burst \<le> n + 1 then Some ([t_seqno A], B)
     else map_option (\<lambda>(sent, C). (t_seqno A # sent, C)) (send_loop burst win (n + 1) B))"
  using assms by (subst send_loop.simps) (simp add: Let_def map_option_case case_prod_beta split: option.split)

lemma send_loop_retran:
  assumes "pkts_in_flight A < max win (next_pkts_in_flight A)" and "GetNextRetran (scb A) = Some (s, sb)"
    and "s \<noteq> - 1" and "MarkRetran s (t_seqno A) sb = Some sb2" and "B = after_output s (A\<lparr>scb := sb2\<rparr>)"
    and "win = window A"
  shows "send_loop burst win n A =
    (if burst \<noteq> 0 \<and> burst \<le> n + 1 then Some ([s], B)
     else map_option (\<lambda>(sent, C). (s # sent, C)) (send_loop burst win (n + 1) B))"
  using assms by (subst send_loop.simps) (simp add: Let_def window_def map_option_case case_prod_beta split: option.split)

lemma sent_between_window: "sent_between A xs B \<Longrightarrow> window B = window A"
  by (simp add: sent_between_def)

lemma send_loop_returns:
  assumes "board_fits A" and "win = window A" and "burst = 0 \<or> n < burst"
  shows "\<exists>sent A'. send_loop burst win n A = Some (sent, A') \<and> sent_between A sent A'
    \<and> sending_stopped burst (n + int (length sent)) A'
    \<and> (burst \<noteq> 0 \<longrightarrow> n + int (length sent) \<le> burst)
    \<and> pkts_in_flight A' \<le> max (pkts_in_flight A) (max win (next_pkts_in_flight A))"
  using assms
proof (induction "nat (max win (next_pkts_in_flight A) - pkts_in_flight A)" arbitrary: A n rule: less_induct)
  case less
  note fit = less.prems(1)
  have inv: "board_inv (highest_ack A + 1) (t_seqno A) (scb A)" by (rule board_fits_inv [OF fit])
  show ?case
  proof (cases "pkts_in_flight A < max win (next_pkts_in_flight A)")
    case False
    then show ?thesis using send_loop_full [OF False, of burst n] sent_between_refl [OF fit] less.prems
      by (intro exI [of _ "[]"] exI [of _ A]) (auto simp: sending_stopped_def)
  next
    case room: True
    obtain s sb where g: "GetNextRetran (scb A) = Some (s, sb)" using next_retran_returns [OF inv] by blast
    have continue: "?thesis" if b: "sent_between A [x] B" "window B = window A"
      and step: "send_loop burst win n A = (if burst \<noteq> 0 \<and> burst \<le> n + 1 then Some ([x], B)
         else map_option (\<lambda>(sent, C). (x # sent, C)) (send_loop burst win (n + 1) B))"
      and trans: "\<And>ys C. sent_between B ys C \<Longrightarrow> sent_between A (x # ys) C" for x B
    proof -
      have fl: "pkts_in_flight B = pkts_in_flight A + 1" "next_pkts_in_flight B \<le> next_pkts_in_flight A"
        using b(1) by (simp_all add: sent_between_def)
      show ?thesis
      proof (cases "burst \<noteq> 0 \<and> burst \<le> n + 1")
        case True
        then show ?thesis using step b fl room less.prems(3) by (auto simp: sending_stopped_def)
      next
        case False
        have "nat (max win (next_pkts_in_flight B) - pkts_in_flight B)
            < nat (max win (next_pkts_in_flight A) - pkts_in_flight A)" using fl room by linarith
        from less.hyps [OF this sent_between_fits [OF b(1)], of "n + 1"] False less.prems b(2)
        obtain sent C where r: "send_loop burst win (n + 1) B = Some (sent, C)" "sent_between B sent C"
          "sending_stopped burst (n + 1 + int (length sent)) C"
          "burst \<noteq> 0 \<longrightarrow> n + 1 + int (length sent) \<le> burst"
          "pkts_in_flight C \<le> max (pkts_in_flight B) (max win (next_pkts_in_flight B))" by auto
        have "send_loop burst win n A = Some (x # sent, C)" unfolding step if_not_P [OF False] r(1) by simp
        moreover have "n + int (length (x # sent)) = n + 1 + int (length sent)" by simp
        moreover have "pkts_in_flight C \<le> max (pkts_in_flight A) (max win (next_pkts_in_flight A))"
          using r(5) fl room by linarith
        ultimately show ?thesis using trans [OF r(2)] r(3,4) by metis
      qed
    qed
    show ?thesis
    proof (cases "s = - 1")
      case none: True
      with g have g1: "GetNextRetran (scb A) = Some (- 1, sb)" by simp
      show ?thesis
      proof (cases "curseq A \<le> t_seqno A")
        case True
        have "sent_between A [] (A\<lparr>scb := sb\<rparr>)"
          using fit next_retran_returns [OF inv] g1 board_reachable.Step [OF _ board_step.Nothing_lost [OF g1]]
          by (auto simp: sent_between_def board_fits_def same_but_sending_def pkts_in_flight_def packets_in_flight_def)
        moreover have "sending_stopped burst n (A\<lparr>scb := sb\<rparr>)"
          using True no_retran_left [OF g1 inv] by (simp add: sending_stopped_def)
        ultimately show ?thesis using send_loop_idle [OF room g1 True] less.prems by (auto simp: pkts_in_flight_def sent_between_def)
      next
        case False
        then have more: "t_seqno A < curseq A" by simp
        define B where "B = after_output (t_seqno A) (A\<lparr>scb := sb, t_seqno := t_seqno A + 1\<rparr>)"
        note new = new_packet_sent [OF fit g1 more, folded B_def]
        have "t_seqno B = t_seqno A + 1" using after_output_sent(2) [of "t_seqno A" "A\<lparr>scb := sb, t_seqno := t_seqno A + 1\<rparr>"] by (simp add: B_def)
        from sent_between_new [OF new this] show ?thesis
          by (rule continue [OF new(1) sent_between_window [OF new(1)] send_loop_new [OF room g1 more B_def]])
      qed
    next
      case False
      obtain sb2 B where m: "MarkRetran s (t_seqno A) sb = Some sb2" "B = after_output s (A\<lparr>scb := sb2\<rparr>)"
        "sent_between A [s] B" "s \<in> lost_packets A" "lost_packets B = lost_packets A - {s}"
        "\<forall>p\<in>lost_packets B. s < p" "nxt_to_retrx (scb A) \<noteq> None" "t_seqno B = t_seqno A"
        using retransmission_sent [OF fit g False] by blast
      from sent_between_retran [OF m(3-8)] show ?thesis
        by (rule continue [OF m(3) sent_between_window [OF m(3)] send_loop_retran [OF room g False m(1,2) less.prems(2)]])
    qed
  qed
qed
lemma send_much_returns:
  assumes fit: "board_fits A" and burst: "0 \<le> burst"
  shows "\<exists>sent A'. send_much burst A = Some (sent, A') \<and> sent_between A sent A'
    \<and> sending_stopped burst (int (length sent)) A' \<and> (burst \<noteq> 0 \<longrightarrow> int (length sent) \<le> burst)
    \<and> pkts_in_flight A' \<le> max (pkts_in_flight A + 1) (window A)"
proof -
  define B where "B = A\<lparr>next_pkts_in_flight := min (next_pkts_in_flight A) (pkts_in_flight A + 1)\<rparr>"
  have B: "board_fits B" "pkts_in_flight B = pkts_in_flight A" "window B = window A"
    "next_pkts_in_flight B \<le> pkts_in_flight A + 1"
    using fit by (simp_all add: B_def board_fits_def pkts_in_flight_def window_def)
  obtain sent A' where r: "send_loop burst (window A) 0 B = Some (sent, A')" "sent_between B sent A'"
    "sending_stopped burst (0 + int (length sent)) A'" "burst \<noteq> 0 \<longrightarrow> 0 + int (length sent) \<le> burst"
    "pkts_in_flight A' \<le> max (pkts_in_flight B) (max (window A) (next_pkts_in_flight B))"
    using send_loop_returns [OF B(1) B(3) [symmetric], of burst 0] burst by (metis order_le_less)
  have "same_but_sending A B" by (simp add: same_but_sending_def B_def)
  then have "sent_between A sent A'"
    using r(2) same_but_sending_trans [of A B A'] by (simp add: sent_between_def B_def pkts_in_flight_def)
  moreover have "send_much burst A = Some (sent, A')" using r(1) by (simp add: send_much_def B_def Let_def)
  ultimately show ?thesis using r B by auto
qed
section \<open>The smoothed round trip time\<close>

lemma sint_short:
  assumes "- 32768 \<le> sint d" and "sint d < 32768"
  shows "sint (ucast (d :: cint) :: 16 word) = sint d"
  using assms
proof transfer
  fix d :: int
  assume "- 32768 \<le> signed_take_bit (LENGTH(32) - Suc 0) d" "signed_take_bit (LENGTH(32) - Suc 0) d < 32768"
  then have "signed_take_bit 15 (signed_take_bit 31 d) = signed_take_bit 31 d"
    by (intro signed_take_bit_int_eq_self) simp_all
  then show "signed_take_bit (LENGTH(16) - Suc 0) (take_bit LENGTH(32) d) = signed_take_bit (LENGTH(32) - Suc 0) d"
    by (simp add: signed_take_bit_take_bit min_def)
qed

lemma sint_of_short [simp]: "sint (scast (d :: 16 word) :: cint) = sint d"
  by transfer simp

lemma sint_add32: "- 2147483648 \<le> sint a + sint b \<Longrightarrow> sint a + sint b < 2147483648 \<Longrightarrow>
  sint (a + b) = sint a + sint b" for a b :: cint
  by (simp add: sint_word_add signed_take_bit_int_eq_self)

lemma sint_diff32: "- 2147483648 \<le> sint a - sint b \<Longrightarrow> sint a - sint b < 2147483648 \<Longrightarrow>
  sint (a - b) = sint a - sint b" for a b :: cint
  using sint_word_ariths(2) [of a b] by (simp add: signed_take_bit_int_eq_self)

lemma sint_times_8: "- 268435456 \<le> sint a \<Longrightarrow> sint a < 268435456 \<Longrightarrow>
  sint (push_bit 3 a) = sint a * 8" for a :: cint
  using sint_word_ariths(3) [of a 8] by (simp add: push_bit_eq_mult signed_take_bit_int_eq_self)

text \<open>The estimate, eight times the average, stays between one tick and the bound of the samples.\<close>

definition srtt_in :: "int \<Rightarrow> cint \<Rightarrow> bool" where
  "srtt_in limit sr \<longleftrightarrow> 8 \<le> sint sr \<and> sint sr < 8 * limit"

lemma rtt_average_in:
  assumes limit: "2 \<le> limit" "limit \<le> 32768" and rtt: "sint rtt < limit"
    and sr: "sr \<noteq> 0 \<Longrightarrow> srtt_in limit sr"
  shows "srtt_in limit (fst (rtt_average rtt sr rv))"
proof -
  define r where "r = (if rtt <s 1 then 1 else rtt)"
  have r: "1 \<le> sint r" "sint r < limit" using rtt limit by (auto simp: r_def word_sless_alt)
  show ?thesis
  proof (cases "sr = 0")
    case True
    have "sint (push_bit 3 r) = sint r * 8" by (rule sint_times_8) (use r limit in auto)
    then show ?thesis using True r by (simp add: rtt_average_def r_def [symmetric] srtt_in_def Let_def)
  next
    case False
    then have s: "8 \<le> sint sr" "sint sr < 8 * limit" using sr by (simp_all add: srtt_in_def)
    define q where "q = sint (signed_drop_bit 3 sr)"
    have q: "q = sint sr div 8" by (simp add: q_def sint_signed_drop_bit_eq drop_bit_eq_div)
    have qr: "1 \<le> q" "q < limit" "8 * q \<le> sint sr" "sint sr < 8 * q + 8" using s unfolding q by linarith+
    have d: "sint (r - signed_drop_bit 3 sr) = sint r - q"
      unfolding q_def by (rule sint_diff32) (use r qr limit in \<open>simp_all add: q_def [symmetric]\<close>)
    define delta where "delta = (ucast (r - signed_drop_bit 3 sr) :: 16 word)"
    have delta: "sint delta = sint r - q"
      unfolding delta_def by (subst sint_short) (use d r qr limit in simp_all)
    have sum: "sint (sr + scast delta) = sint sr + (sint r - q)"
      by (subst sint_add32) (use delta r qr s limit in simp_all)
    have range: "8 \<le> sint sr + (sint r - q)" "sint sr + (sint r - q) < 8 * limit" using r qr s by linarith+
    then have "\<not> sr + scast delta \<le>s 0" using sum by (simp add: word_sle_eq)
    then show ?thesis
      using False sum range
      by (simp add: rtt_average_def r_def [symmetric] delta_def [symmetric] srtt_in_def Let_def)
  qed
qed
section \<open>The agent's invariant\<close>

text \<open>
  A module that the agent can drive: on every usable socket whose smoothed round trip time is in
  the range the agent keeps it in, and it takes round trip samples of any such socket before the
  first one has been averaged.
\<close>

locale agent_module = cong_module ops usable inv
  for ops :: "'p ca_ops" and usable :: "tcp_sock \<Rightarrow> bool" and inv :: "bool \<Rightarrow> 'p \<Rightarrow> bool" +
  fixes limit :: int
  assumes limit: "2 \<le> limit" "limit \<le> 32768"
    and measured_usable: "sock_ok tp \<Longrightarrow> 8 \<le> unat (srtt tp) \<Longrightarrow> unat (srtt tp) < 8 * nat limit \<Longrightarrow> usable tp"
    and sample_law: "clock_ok env \<Longrightarrow> sock_ok tp \<Longrightarrow> inv b p \<Longrightarrow>
      \<exists>p'. run_rtt_sample ops env usrtt tp p = Some p' \<and> inv b p'"

definition options_ok :: "options \<Rightarrow> bool" where
  "options_ok opt \<longleftrightarrow> 0 < wnd opt \<and> wnd opt < 2147483648 \<and> 0 < wnd_init opt \<and> wnd_init opt < 2147483648
     \<and> 0 < size_ns opt \<and> size_ns opt < 2147483648 \<and> tcp_max_burst opt \<noteq> 0 \<and> 0 \<le> maxburst opt"

definition measured :: "'p agent \<Rightarrow> bool" where
  "measured A \<longleftrightarrow> t_srtt A \<noteq> 0"

text \<open>
  A good socket, which the module can use as soon as a round trip time has been measured, the module's private
  area, the board, packet numbers that an \<^verbatim>\<open>int\<close> holds, and the estimate in range.
\<close>

definition agent_ok :: "int \<Rightarrow> (tcp_sock \<Rightarrow> bool) \<Rightarrow> (bool \<Rightarrow> 'p \<Rightarrow> bool) \<Rightarrow> 'p agent \<Rightarrow> bool" where
  "agent_ok limit usable priv_ok A \<longleftrightarrow> sock_ok (linux A) \<and> priv_ok (initialized A) (ca_priv A) \<and> board_fits A
     \<and> t_seqno A < 2147483648 \<and> curseq A < 2147483648
     \<and> (measured A \<longrightarrow> srtt_in limit (t_srtt A) \<and> usable (linux A))"

text \<open>
  What the outside sees of an event: the packets sent, which are numbered below the next one, the
  acknowledgment number, from \<open>acks\<close> if it changes, and the packets known to be sacked, new ones from
  \<open>news\<close>.
\<close>

definition effect :: "int set \<Rightarrow> int set \<Rightarrow> 'p agent \<Rightarrow> int list \<Rightarrow> 'p agent \<Rightarrow> bool" where
  "effect acks news A sent A' \<longleftrightarrow> t_seqno A \<le> t_seqno A' \<and> set sent \<subseteq> {0..<t_seqno A'}
     \<and> highest_ack A' \<in> insert (highest_ack A) acks \<and> sacked_packets A' \<subseteq> sacked_packets A \<union> news"

lemma effect_after:
  "effect acks' {} B sent A' \<Longrightarrow> t_seqno B = t_seqno A \<Longrightarrow> highest_ack B \<in> insert (highest_ack A) acks
    \<Longrightarrow> sacked_packets B \<subseteq> sacked_packets A \<union> news \<Longrightarrow> acks' = {} \<Longrightarrow> effect acks news A sent A'"
  by (auto simp: effect_def)

lemma sent_effect:
  assumes "sent_between A sent A'" and "board_fits A"
  shows "effect {} {} A sent A'"
proof -
  have inv: "board_inv (highest_ack A + 1) (t_seqno A) (scb A)" by (rule board_fits_inv [OF assms(2)])
  then have "lost_packets A \<subseteq> {highest_ack A + 1..board_end (highest_ack A + 1) (sb_head (scb A))}"
    by (intro packets_range) (simp add: board_inv_def board_ok_def segment_ok_def)
  then have "lost_packets A \<subseteq> {0..<t_seqno A}" using inv by (force simp: board_inv_def)
  moreover have "0 \<le> t_seqno A" using inv board_inv_ackD [OF inv] by (simp add: board_inv_def)
  ultimately show ?thesis using assms(1) by (force simp: sent_between_def effect_def same_but_sending_def)
qed

text \<open>What calls of the module leave alone.\<close>

definition same_books :: "'p agent \<Rightarrow> 'p agent \<Rightarrow> bool" where
  "same_books A A' \<longleftrightarrow> highest_ack A' = highest_ack A \<and> t_seqno A' = t_seqno A \<and> maxseq A' = maxseq A
     \<and> curseq A' = curseq A \<and> t_srtt A' = t_srtt A \<and> initialized A' = initialized A
     \<and> (board_fits A \<longrightarrow> board_fits A') \<and> sacked_packets A' \<subseteq> sacked_packets A"

lemma same_books_trans [trans]: "same_books A B \<Longrightarrow> same_books B C \<Longrightarrow> same_books A C"
  by (auto simp: same_books_def)

lemma same_books_refl [simp]: "same_books A A"
  by (simp add: same_books_def)

lemma same_books_upd [simp]:
  "same_books A (A\<lparr>linux := tp\<rparr>)" "same_books A (A\<lparr>linux := tp, ca_priv := p\<rparr>)" "same_books A (A\<lparr>ca_priv := p\<rparr>)"
  "same_books A (A\<lparr>recover := i\<rparr>)" "same_books A (A\<lparr>next_pkts_in_flight := i\<rparr>)"
  "same_books A (A\<lparr>ncwndcuts := i\<rparr>)" "same_books A (A\<lparr>necnresponses := i\<rparr>)" "same_books A (A\<lparr>prev_highest_ack := i\<rparr>)"
  "same_books A (A\<lparr>nrexmit := i\<rparr>)"
  by (simp_all add: same_books_def board_fits_def)

lemma small_0_1 [simp]: "small 1" "\<not> (1 :: u32) = 0" "small 2"
  by (simp_all add: small_def)

lemma int_cwnd_small: "small (snd_cwnd tp) \<Longrightarrow> int_cwnd tp = int (unat (snd_cwnd tp))"
  unfolding int_cwnd_def small_def by (subst sint_of_small) (simp_all add: unat_ulong_uint)

lemma unat_ulong: "0 \<le> i \<Longrightarrow> i < 18446744073709551616 \<Longrightarrow> unat (ulong i) = nat i"
  by (simp add: unat_eq_nat_uint uint_word_of_int)

lemma ulong_small: "0 < i \<Longrightarrow> i < 2147483648 \<Longrightarrow> small (ulong i) \<and> ulong i \<noteq> 0"
  by (simp add: small_def unat_ulong flip: unat_zero_iff)
section \<open>One step of the agent\<close>

context agent_module begin

definition working :: "'p agent \<Rightarrow> bool" where
  "working A \<longleftrightarrow> usable (linux A) \<and> inv (initialized A) (ca_priv A)"

text \<open>A step that returns, leaves the module working and the books as they are.\<close>

definition steps_to :: "'p agent \<Rightarrow> 'p agent option \<Rightarrow> bool" where
  "steps_to A r \<longleftrightarrow> (\<exists>A'. r = Some A' \<and> working A' \<and> same_books A A')"

lemma steps_to_Some: "working A' \<Longrightarrow> same_books A A' \<Longrightarrow> steps_to A (Some A')"
  by (simp add: steps_to_def)

lemma steps_to_trans: "same_books A B \<Longrightarrow> steps_to B r \<Longrightarrow> steps_to A r"
  unfolding steps_to_def using same_books_trans by metis

lemma steps_to_bind:
  "steps_to A r \<Longrightarrow> (\<And>B. working B \<Longrightarrow> same_books A B \<Longrightarrow> steps_to B (f B)) \<Longrightarrow> steps_to A (Option.bind r f)"
  unfolding steps_to_def using same_books_trans by fastforce

lemma working_sock: "working A \<Longrightarrow> sock_ok (linux A)"
  using usable_sock by (simp add: working_def)

lemma working_upd:
  "working A \<Longrightarrow> sock_ok tp \<Longrightarrow> srtt tp = srtt (linux A) \<Longrightarrow> working (A\<lparr>linux := tp\<rparr>)"
  using usable_frame [of "linux A" tp] by (simp add: working_def)

lemma working_fields [simp]:
  "working (A\<lparr>recover := i\<rparr>) = working A" "working (A\<lparr>next_pkts_in_flight := i\<rparr>) = working A"
  "working (A\<lparr>ncwndcuts := i\<rparr>) = working A" "working (A\<lparr>necnresponses := i\<rparr>) = working A"
  "working (A\<lparr>prev_highest_ack := i\<rparr>) = working A" "working (A\<lparr>nrexmit := i\<rparr>) = working A" "working (A\<lparr>scb := sb\<rparr>) = working A"
  by (simp_all add: working_def)

lemma touch_working: "working A \<Longrightarrow> working (touch_cwnd env A)"
  unfolding touch_cwnd_def by (rule working_upd) (use working_sock [of A] in \<open>simp_all add: sock_ok_def\<close>)

lemma touch_books [simp]: "same_books A (touch_cwnd env A)"
  by (simp add: touch_cwnd_def)

lemma set_state_steps:
  assumes "clock_ok env" and "working A"
  shows "steps_to A (tcp_set_ca_state ops env st A)"
proof -
  obtain tp p where r: "run_set_state ops env st (linux A) (ca_priv A) = Some (tp, p)" "usable tp" "inv (initialized A) p"
    using set_state_law assms unfolding working_def by metis
  have "usable (tp\<lparr>icsk_ca_state := st\<rparr>)"
    by (rule usable_frame [OF r(2)]) (use usable_sock [OF r(2)] in \<open>simp_all add: sock_ok_def\<close>)
  then show ?thesis using r by (simp add: tcp_set_ca_state_def steps_to_def working_def)
qed

lemma event_steps:
  assumes "clock_ok env" and "working A"
  shows "steps_to A (tcp_ca_event_call ops env ev A)"
proof -
  obtain tp p where "run_cwnd_event ops env ev (linux A) (ca_priv A) = Some (tp, p)" "usable tp" "inv (initialized A) p"
    using cwnd_event_law assms unfolding working_def by metis
  then show ?thesis by (simp add: tcp_ca_event_call_def steps_to_def working_def)
qed

lemma packets_acked_steps:
  assumes "clock_ok env" and "working A" and "initialized A" and "small n" and "past env t"
  shows "steps_to A (packets_acked ops env n t A)"
proof -
  obtain tp p where "run_pkts_acked ops env n t (linux A) (ca_priv A) = Some (tp, p)" "usable tp" "inv True p"
    using pkts_acked_law assms unfolding working_def by metis
  then show ?thesis using assms(3) by (simp add: packets_acked_def steps_to_def working_def)
qed

lemma cong_avoid_steps:
  assumes "clock_ok env" and "working A" and "initialized A"
  shows "steps_to A (cong_avoid_call ops env ack rtt in_flight good A)"
proof -
  obtain tp p where r: "ca_cong_avoid ops env (ack * mss_cache (linux A)) rtt in_flight good (linux A) (ca_priv A)
      = Some (tp, p)" "usable tp" "inv True p"
    using cong_avoid_law assms unfolding working_def by metis
  then have "working (A\<lparr>linux := tp, ca_priv := p\<rparr>)" using assms(3) by (simp add: working_def)
  then have "working (touch_cwnd env (A\<lparr>linux := tp, ca_priv := p\<rparr>))" by (rule touch_working)
  moreover have "same_books A (touch_cwnd env (A\<lparr>linux := tp, ca_priv := p\<rparr>))"
    using same_books_trans touch_books same_books_upd(2) by metis
  ultimately show ?thesis using r(1) by (simp add: cong_avoid_call_def steps_to_def)
qed

lemma init_steps:
  assumes "clock_ok env" and "working A"
  shows "\<exists>A'. init_module ops env A = Some A' \<and> working A' \<and> initialized A' \<and> same_books (A\<lparr>initialized := True\<rparr>) A'
    \<and> scb A' = scb A"
proof (cases "initialized A")
  case True
  then show ?thesis using assms by (simp add: init_module_def same_books_def board_fits_def)
next
  case False
  then obtain tp p where "run_init ops env (linux A) (ca_priv A) = Some (tp, p)" "usable tp" "inv True p"
    using init_law assms unfolding working_def by metis
  then show ?thesis using False by (simp add: init_module_def working_def same_books_def board_fits_def)
qed

lemma moderate_working:
  assumes w: "working A" and "0 \<le> pkts_in_flight A" and "tcp_max_burst opt \<noteq> 0"
  shows "working (tcp_moderate_cwnd env opt A)" "same_books A (tcp_moderate_cwnd env opt A)"
proof -
  have s: "sock_ok (linux A)" by (rule working_sock [OF w])
  define i where "i = min (int_cwnd (linux A)) (pkts_in_flight A + uint (tcp_max_burst opt))"
  have "0 < uint (tcp_max_burst opt)" using assms(3) uint_0_iff [of "tcp_max_burst opt"] by (simp add: less_le)
  moreover have "int_cwnd (linux A) = int (unat (snd_cwnd (linux A)))" "0 < unat (snd_cwnd (linux A))"
    "unat (snd_cwnd (linux A)) < 2147483648"
    using s int_cwnd_small by (simp_all add: sock_ok_def unat_pos_iff small_def)
  ultimately have "0 < i" "i < 2147483648" using assms(2) unfolding i_def by linarith+
  then have "sock_ok ((linux A)\<lparr>snd_cwnd := ulong i\<rparr>)" using s ulong_small [of i] by (simp add: sock_ok_def)
  then have "working (A\<lparr>linux := (linux A)\<lparr>snd_cwnd := ulong i\<rparr>\<rparr>)" by (intro working_upd [OF w]) simp_all
  then show "working (tcp_moderate_cwnd env opt A)" unfolding tcp_moderate_cwnd_def i_def [symmetric] by (rule touch_working)
  show "same_books A (tcp_moderate_cwnd env opt A)"
    unfolding tcp_moderate_cwnd_def using same_books_trans touch_books same_books_upd(1) by metis
qed

lemma clear_fits:
  assumes "board_fits A"
  shows "board_fits (A\<lparr>scb := ClearScoreBoard (scb A)\<rparr>)" "0 \<le> pkts_in_flight (A\<lparr>scb := ClearScoreBoard (scb A)\<rparr>)"
proof -
  have inv: "board_inv (highest_ack A + 1) (t_seqno A) (scb A)" by (rule board_fits_inv [OF assms])
  show "board_fits (A\<lparr>scb := ClearScoreBoard (scb A)\<rparr>)"
    using assms board_reachable.Step [OF _ board_step.Clear] by (simp add: board_fits_def)
  show "0 \<le> pkts_in_flight (A\<lparr>scb := ClearScoreBoard (scb A)\<rparr>)"
    using board_inv_ackD [OF inv] by (simp add: pkts_in_flight_def packets_in_flight_def ClearScoreBoard_def)
qed

lemma close_recovery_steps:
  assumes clk: "clock_ok env" and w: "working A" and fit: "board_fits A" and opt: "options_ok opt"
    and B: "B = A\<lparr>scb := ClearScoreBoard (scb A)\<rparr>"
    and C: "C = (if snd_cwnd (linux B) < snd_ssthresh (linux B)
                 then tcp_moderate_cwnd env opt (B\<lparr>linux := (linux B)\<lparr>snd_cwnd := snd_ssthresh (linux B)\<rparr>\<rparr>) else B)"
  shows "working C" "same_books A C"
proof -
  have b: "working B" "same_books A B" "0 \<le> pkts_in_flight B"
    using w fit clear_fits [OF fit] by (simp_all add: B same_books_def) (simp add: ClearScoreBoard_def)
  show "working C"
  proof (cases "snd_cwnd (linux B) < snd_ssthresh (linux B)")
    case True
    then have "snd_ssthresh (linux B) \<noteq> 0" by auto
    then have "sock_ok ((linux B)\<lparr>snd_cwnd := snd_ssthresh (linux B)\<rparr>)"
      using working_sock [OF b(1)] by (simp add: sock_ok_def)
    then have w2: "working (B\<lparr>linux := (linux B)\<lparr>snd_cwnd := snd_ssthresh (linux B)\<rparr>\<rparr>)"
      by (intro working_upd [OF b(1)]) simp_all
    have fl: "0 \<le> pkts_in_flight (B\<lparr>linux := tp\<rparr>)" for tp using b(3) by (simp add: pkts_in_flight_def)
    show ?thesis using True moderate_working(1) [OF w2 fl] opt by (simp add: C options_ok_def)
  qed (use b in \<open>simp add: C\<close>)
  have "same_books B C"
    by (simp add: C tcp_moderate_cwnd_def touch_cwnd_def same_books_def board_fits_def)
  then show "same_books A C" by (rule same_books_trans [OF b(2)])
qed

lemma reduce_steps:
  assumes clk: "clock_ok env" and w: "working A"
  shows "\<exists>s p. ca_ssthresh ops env (linux A) (ca_priv A) = Some (s, p)
    \<and> working (A\<lparr>linux := (linux A)\<lparr>snd_ssthresh := s, snd_cwnd_cnt := cc, bytes_acked := ba\<rparr>, ca_priv := p\<rparr>)
    \<and> working (A\<lparr>linux := (linux A)\<lparr>snd_ssthresh := s\<rparr>, ca_priv := p\<rparr>) \<and> 2 \<le> unat s"
proof -
  obtain s p where s: "ca_ssthresh ops env (linux A) (ca_priv A) = Some (s, p)" "2 \<le> unat s" "small s"
    "inv (initialized A) p" using ssthresh_law clk w unfolding working_def by metis
  have "usable ((linux A)\<lparr>snd_ssthresh := s, snd_cwnd_cnt := cc, bytes_acked := ba\<rparr>)"
    "usable ((linux A)\<lparr>snd_ssthresh := s\<rparr>)"
    using w working_sock [OF w] s(3) usable_frame [of "linux A"] by (auto simp: working_def sock_ok_def)
  then show ?thesis using s by (auto simp: working_def)
qed

lemma enter_recovery_steps:
  assumes clk: "clock_ok env" and w: "working A"
  shows "steps_to A (do {
          (s, p) \<leftarrow> ca_ssthresh ops env (linux A) (ca_priv A);
          let A = A\<lparr>linux := (linux A)\<lparr>snd_ssthresh := s, snd_cwnd_cnt := 0, bytes_acked := 0\<rparr>, ca_priv := p\<rparr>;
          w \<leftarrow> run_min_cwnd ops (linux A) (ca_priv A);
          let A = A\<lparr>linux := (linux A)\<lparr>snd_cwnd := w\<rparr>, ncwndcuts := ncwndcuts A + 1\<rparr>;
          let A = (if has flag FLAG_ECE then A\<lparr>necnresponses := necnresponses A + 1\<rparr> else A);
          tcp_set_ca_state ops env TCP_CA_Recovery A
        })"
proof -
  obtain s p where s: "ca_ssthresh ops env (linux A) (ca_priv A) = Some (s, p)"
    "working (A\<lparr>linux := (linux A)\<lparr>snd_ssthresh := s, snd_cwnd_cnt := 0, bytes_acked := 0\<rparr>, ca_priv := p\<rparr>)"
    "2 \<le> unat s" using reduce_steps [OF assms, of 0 0] by metis
  define B where "B = A\<lparr>linux := (linux A)\<lparr>snd_ssthresh := s, snd_cwnd_cnt := 0, bytes_acked := 0\<rparr>, ca_priv := p\<rparr>"
  have B: "working B" "same_books A B" "2 \<le> unat (snd_ssthresh (linux B))" using s by (simp_all add: B_def)
  then obtain m where m: "run_min_cwnd ops (linux B) (ca_priv B) = Some m" "m \<noteq> 0" "small m"
    using min_cwnd_law unfolding working_def by metis
  define C where "C = B\<lparr>linux := (linux B)\<lparr>snd_cwnd := m\<rparr>, ncwndcuts := ncwndcuts B + 1\<rparr>"
  define D where "D = (if has flag FLAG_ECE then C\<lparr>necnresponses := necnresponses C + 1\<rparr> else C)"
  have "working (B\<lparr>linux := (linux B)\<lparr>snd_cwnd := m\<rparr>\<rparr>)"
    by (rule working_upd [OF B(1)]) (use working_sock [OF B(1)] m in \<open>simp_all add: sock_ok_def\<close>)
  then have D: "working D" by (simp add: D_def C_def)
  have "same_books B D" by (simp add: D_def C_def same_books_def board_fits_def)
  then have AD: "same_books A D" by (rule same_books_trans [OF B(2)])
  show ?thesis
    unfolding Let_def s(1) bind.bind_lunit prod.case B_def [symmetric] m(1) C_def [symmetric] D_def [symmetric]
    by (rule steps_to_trans [OF AD set_state_steps [OF clk D]])
qed

lemma fastretrans_steps:
  assumes clk: "clock_ok env" and w: "working A" and fit: "board_fits A" and opt: "options_ok opt"
  shows "steps_to A (tcp_fastretrans_alert ops env opt flag A)"
proof -
  define B where "B = A\<lparr>scb := ClearScoreBoard (scb A)\<rparr>"
  define C where "C = (if snd_cwnd (linux B) < snd_ssthresh (linux B)
                 then tcp_moderate_cwnd env opt (B\<lparr>linux := (linux B)\<lparr>snd_cwnd := snd_ssthresh (linux B)\<rparr>\<rparr>) else B)"
  note C = close_recovery_steps [OF assms B_def C_def]
  have close: "steps_to A (do { A \<leftarrow> tcp_set_ca_state ops env TCP_CA_Open C; Some (A\<lparr>next_pkts_in_flight := 0\<rparr>) })"
    by (rule steps_to_bind [OF steps_to_trans [OF C(2) set_state_steps [OF clk C(1)]]])
      (simp add: steps_to_def)
  define D where "D = touch_cwnd env (A\<lparr>recover := maxseq A\<rparr>)"
  have "working D" unfolding D_def by (rule touch_working) (use w in simp)
  moreover have "same_books A D" unfolding D_def using same_books_trans touch_books same_books_upd(4) by metis
  ultimately have E: "working (D\<lparr>next_pkts_in_flight := int_cwnd (linux D)\<rparr>)"
    "same_books A (D\<lparr>next_pkts_in_flight := int_cwnd (linux D)\<rparr>)" using same_books_trans by fastforce+
  note recover = steps_to_trans [OF E(2) enter_recovery_steps [OF clk E(1), of flag]]
  show ?thesis
    using close recover steps_to_Some [OF w same_books_refl]
    unfolding tcp_fastretrans_alert_def Let_def B_def [symmetric] C_def [symmetric] D_def [symmetric]
    by (simp only: if_split simp_thms)
qed

lemma same_books_kept:
  "same_books A A' \<Longrightarrow> highest_ack A' = highest_ack A \<and> t_seqno A' = t_seqno A \<and> sacked_packets A' \<subseteq> sacked_packets A"
  by (simp add: same_books_def)

lemma agent_ok_books:
  assumes "agent_ok limit usable inv A" and "measured A" and "working A'"
    and "same_books (A\<lparr>initialized := b\<rparr>) A'"
  shows "agent_ok limit usable inv A' \<and> measured A'"
  using assms working_sock [OF assms(3)]
  by (auto simp: agent_ok_def same_books_def measured_def working_def board_fits_def)

lemma agent_ok_working: "agent_ok limit usable inv A \<Longrightarrow> measured A \<Longrightarrow> working A"
  by (simp add: agent_ok_def working_def)

lemma agent_ok_save [simp]: "agent_ok limit usable inv (save_from_linux A) = agent_ok limit usable inv A"
  by (simp add: agent_ok_def save_from_linux_def Let_def board_fits_def measured_def)

lemma save_fields: "t_seqno (save_from_linux A) = t_seqno A" "highest_ack (save_from_linux A) = highest_ack A"
  "scb (save_from_linux A) = scb A"
  by (simp_all add: save_from_linux_def Let_def)

lemma measured_save [simp]: "measured (save_from_linux A) = measured A"
  by (simp add: save_from_linux_def Let_def measured_def)

lemma send_much_ok:
  assumes ok: "agent_ok limit usable inv A" and burst: "0 \<le> burst"
  shows "\<exists>sent A'. send_much burst A = Some (sent, A') \<and> agent_ok limit usable inv A'
    \<and> measured A' = measured A \<and> effect {} {} A sent A'"
proof -
  obtain sent A' where r: "send_much burst A = Some (sent, A')" "sent_between A sent A'"
    using send_much_returns [of A burst] ok burst by (auto simp: agent_ok_def)
  have s: "same_but_sending A A'" "board_fits A'" "t_seqno A' \<le> max (t_seqno A) (curseq A)"
    using r(2) by (simp_all add: sent_between_def)
  note l = same_but_sending_linux [OF s(1)]
  have sk: "sock_ok (linux A')" using ok l by (simp add: agent_ok_def sock_ok_def)
  then have "usable (linux A) \<Longrightarrow> usable (linux A')" using usable_frame l(5) by metis
  then have "agent_ok limit usable inv A' \<and> measured A' = measured A"
    using ok s sk by (auto simp: agent_ok_def same_but_sending_def measured_def)
  then show ?thesis using r sent_effect ok by (auto simp: agent_ok_def)
qed

lemma events_steps:
  assumes clk: "clock_ok env" and w: "working A" and n: "small n" and past: "past env 0" "past env (pk_sent pkt)"
  shows "\<exists>A'. ack_events ops env opt pkt flag n A = Some A' \<and> working A' \<and> initialized A'
    \<and> same_books (A\<lparr>initialized := True\<rparr>) A'"
proof -
  obtain B where B: "init_module ops env A = Some B" "working B" "initialized B" "same_books (A\<lparr>initialized := True\<rparr>) B"
    using init_steps [OF clk w] by blast
  define r where "r = (if has flag FLAG_NOT_DUP then packets_acked ops env n
       (if has flag FLAG_UNSURE_TSTAMP \<or> \<not> bugfix_ts opt then 0 else pk_sent pkt) B else Some B)"
  have "steps_to B r"
    using packets_acked_steps [OF clk B(2,3) n] past steps_to_Some [OF B(2)] by (auto simp: r_def)
  then have "steps_to B (Option.bind r (\<lambda>A. tcp_ca_event_call ops env
       (if icsk_ca_state (linux A) = TCP_CA_Open \<and> \<not> has flag FLAG_CA_ALERT \<and> has flag FLAG_NOT_DUP
        then CA_EVENT_FAST_ACK else CA_EVENT_SLOW_ACK) A))"
    by (rule steps_to_bind) (rule event_steps [OF clk])
  then obtain A' where "ack_events ops env opt pkt flag n A = Some A'" "working A'" "same_books B A'"
    by (auto simp: steps_to_def ack_events_def B(1) r_def)
  then show ?thesis using B(3,4) same_books_trans by (metis same_books_def)
qed

lemma control_steps:
  assumes clk: "clock_ok env" and w: "working A" and i: "initialized A" and fit: "board_fits A" and opt: "options_ok opt"
  shows "steps_to A (ack_control ops env opt flag ack seq_rtt prior A)"
proof -
  have ca: "steps_to A (cong_avoid_call ops env ack seq_rtt prior g A)" for g by (rule cong_avoid_steps [OF clk w i])
  have "steps_to A (if has flag FLAG_DATA_ACKED \<and> tcp_may_raise_cwnd flag A
             then cong_avoid_call ops env ack seq_rtt prior 0 A else Some A)"
    using ca steps_to_Some [OF w same_books_refl] by simp
  then have dubious: "steps_to A (do { A \<leftarrow> (if has flag FLAG_DATA_ACKED \<and> tcp_may_raise_cwnd flag A
             then cong_avoid_call ops env ack seq_rtt prior 0 A else Some A);
        tcp_fastretrans_alert ops env opt flag A })"
    by (rule steps_to_bind) (rule fastretrans_steps [OF clk _ _ opt], simp_all add: same_books_def fit)
  have "steps_to A (cong_avoid_call ops env ack seq_rtt prior 1 (A\<lparr>prev_highest_ack := highest_ack A\<rparr>))"
    by (rule steps_to_trans [OF _ cong_avoid_steps [OF clk]]) (simp_all add: w i)
  then show ?thesis using dubious steps_to_Some [OF w same_books_refl] by (simp add: ack_control_def)
qed

end
text \<open>What the simulator guarantees of an acknowledgment it delivers.\<close>

definition ack_ok :: "int \<Rightarrow> env \<Rightarrow> 'p agent \<Rightarrow> ack_packet \<Rightarrow> bool" where
  "ack_ok limit env A pkt \<longleftrightarrow> clock_ok env \<and> past env 0 \<and> past env (pk_sent pkt)
     \<and> - 2147483648 \<le> pk_seqno pkt \<and> pk_seqno pkt < 2147483647
     \<and> sacks_ok (pk_seqno pkt) (pk_sacks pkt) \<and> (\<forall>(l, r)\<in>set (pk_sacks pkt). r \<le> t_seqno A)
     \<and> (case pk_ts pkt of None \<Rightarrow> True | Some (tsval, tsecr) \<Rightarrow> unat tsecr < 2 ^ 53)
     \<and> (case pk_rtt pkt of None \<Rightarrow> measured A | Some (t_rtt, usrtt) \<Rightarrow> sint t_rtt < limit)"

lemma board_fits_flight:
  assumes "board_fits A"
  shows "0 \<le> highest_ack A + 1 \<and> highest_ack A + 1 \<le> t_seqno A"
  using board_inv_ackD [OF board_fits_inv [OF assms]] board_fits_inv [OF assms] by (simp add: board_inv_def)

text \<open>The two tests at the head of \<^verbatim>\<open>recv\<close> accept the acknowledgments of outstanding packets.\<close>

lemma accepted:
  assumes "board_fits A" and "t_seqno A < 2147483648" and "- 2147483648 \<le> s" and "s < 2147483647"
    and "\<not> ulong (t_seqno A) < ulong (s + 1)" and "\<not> ulong (s + 1) < ulong (highest_ack A + 1)"
  shows "highest_ack A \<le> s" "s < t_seqno A"
    "ulong (highest_ack A + 1) < ulong (s + 1) \<longleftrightarrow> highest_ack A < s"
    "small (ulong (s + 1) - ulong (highest_ack A + 1))"
proof -
  have h: "0 \<le> highest_ack A + 1" "highest_ack A + 1 \<le> t_seqno A" using board_fits_flight [OF assms(1)] by simp_all
  have u: "unat (ulong (t_seqno A)) = nat (t_seqno A)" "unat (ulong (highest_ack A + 1)) = nat (highest_ack A + 1)"
    by (rule unat_ulong; use h assms(2) in simp)+
  have s0: "0 \<le> s + 1"
  proof (rule ccontr)
    assume neg: "\<not> 0 \<le> s + 1"
    define i where "i = s + 1"
    have "i mod 18446744073709551616 = (i + 18446744073709551616) mod 18446744073709551616" by (rule mod_add_self2 [symmetric])
    also have "\<dots> = i + 18446744073709551616"
      by (rule mod_pos_pos_trivial) (use neg assms(3) in \<open>simp_all add: i_def\<close>)
    finally have "uint (ulong i) = i + 18446744073709551616"
      unfolding uint_word_of_int by simp
    then have "uint (ulong (s + 1)) = s + 1 + 18446744073709551616" by (simp only: i_def)
    then have "unat (ulong (s + 1)) = nat (s + 1 + 18446744073709551616)" by (simp only: unat_eq_nat_uint)
    then show False using assms(2,3,5) u(1) by (simp add: word_less_nat_alt)
  qed
  then have v: "unat (ulong (s + 1)) = nat (s + 1)" using assms(4) by (intro unat_ulong) simp_all
  show "s < t_seqno A" using assms(5) u v s0 h by (simp add: word_less_nat_alt) linarith
  show le: "highest_ack A \<le> s" using assms(6) u v s0 h by (simp add: word_less_nat_alt) linarith
  show "ulong (highest_ack A + 1) < ulong (s + 1) \<longleftrightarrow> highest_ack A < s" using u v s0 h by (auto simp: word_less_nat_alt)
  have "ulong (highest_ack A + 1) \<le> ulong (s + 1)" using u v s0 h le by (simp add: word_le_nat_alt)
  then have "unat (ulong (s + 1) - ulong (highest_ack A + 1)) = nat (s + 1) - nat (highest_ack A + 1)"
    using u v by (simp only: unat_sub)
  moreover have "nat (s + 1) - nat (highest_ack A + 1) < 2147483648" using s0 h assms(4) by linarith
  ultimately show "small (ulong (s + 1) - ulong (highest_ack A + 1))" unfolding small_def by simp
qed
context agent_module begin
lemma time_steps:
  assumes clk: "clock_ok env" and ok: "agent_ok limit usable inv A"
    and ts: "case pk_ts pkt of None \<Rightarrow> True | Some (tsval, tsecr) \<Rightarrow> unat tsecr < 2 ^ 53"
    and rtt: "case pk_rtt pkt of None \<Rightarrow> measured A | Some (t_rtt, usrtt) \<Rightarrow> sint t_rtt < limit"
  shows "\<exists>A'. time_processing ops env pkt A = Some A' \<and> agent_ok limit usable inv A' \<and> measured A'
    \<and> highest_ack A' = highest_ack A \<and> t_seqno A' = t_seqno A \<and> scb A' = scb A"
proof -
  define opts where "opts = (case pk_ts pkt of
          None \<Rightarrow> (rx_opt (linux A))\<lparr>saw_tstamp := False\<rparr>
        | Some (tsval, tsecr) \<Rightarrow> \<lparr>rcv_tsval = tsval, rcv_tsecr = tsecr, saw_tstamp = True\<rparr>)"
  define B where "B = A\<lparr>linux := (linux A)\<lparr>rx_opt := opts\<rparr>\<rparr>"
  have "unat (rcv_tsecr opts) < 2 ^ 53" using ts ok by (auto simp: opts_def agent_ok_def sock_ok_def split: option.splits)
  then have s: "sock_ok (linux B)" using ok by (simp add: B_def agent_ok_def sock_ok_def)
  have "usable (linux A) \<Longrightarrow> usable (linux B)" using usable_frame [of "linux A" "linux B"] s by (simp add: B_def)
  then have B: "agent_ok limit usable inv B" "measured B = measured A" "highest_ack B = highest_ack A" "t_seqno B = t_seqno A"
    "scb B = scb A" using ok s by (auto simp: agent_ok_def measured_def B_def board_fits_def)
  have t: "time_processing ops env pkt A =
      (case pk_rtt pkt of None \<Rightarrow> Some B | Some (t_rtt, usrtt) \<Rightarrow> rtt_update ops env t_rtt usrtt B)"
    unfolding time_processing_def Let_def opts_def [symmetric] B_def [symmetric] by (rule refl)
  show ?thesis
  proof (cases "pk_rtt pkt")
    case None
    then show ?thesis using t B rtt by simp
  next
    case (Some x)
    obtain t_rtt usrtt where x: "x = (t_rtt, usrtt)" by force
    obtain p where p: "run_rtt_sample ops env usrtt (linux B) (ca_priv B) = Some p" "inv (initialized B) p"
      using sample_law [OF clk s] B(1) unfolding agent_ok_def by metis
    obtain sr rv where sr: "rtt_average t_rtt (t_srtt B) (t_rttvar B) = (sr, rv)" by force
    have "srtt_in limit sr"
      using rtt_average_in [OF limit, of t_rtt "t_srtt B" "t_rttvar B"] rtt Some x sr B(1)
      by (simp add: agent_ok_def measured_def)
    then have in_range: "8 \<le> sint sr" "sint sr < 8 * limit" by (simp_all add: srtt_in_def)
    define C where "C = B\<lparr>ca_priv := p, t_srtt := sr, t_rttvar := rv, linux := (linux B)\<lparr>srtt := scast sr\<rparr>\<rparr>"
    have "unat (scast sr :: u32) = nat (sint sr)" using unat_int_ulong [of sr] in_range by simp
    moreover have "nat (sint sr) < 8 * nat limit" "8 \<le> nat (sint sr)" using in_range limit by linarith+
    ultimately have "usable (linux C)" using s by (intro measured_usable) (simp_all add: C_def sock_ok_def)
    moreover have "sr \<noteq> 0" using in_range by auto
    ultimately have "agent_ok limit usable inv C \<and> measured C"
      using B(1) p(2) in_range usable_sock by (auto simp: C_def agent_ok_def measured_def board_fits_def srtt_in_def)
    then show ?thesis using Some x t p sr B(3-5) by (simp add: rtt_update_def C_def)
  qed
qed

lemma ack_processing_ok:
  assumes ok: "agent_ok limit usable inv A" and s: "highest_ack A \<le> s" "s < t_seqno A"
    and flag: "has flag FLAG_DATA_ACKED \<longleftrightarrow> highest_ack A < s" and B: "ack_processing s flag A = (fl, B)"
  shows "sock_ok (linux B)" "srtt (linux B) = srtt (linux A)" "highest_ack B = s"
    "scb B = scb A \<and> t_seqno B = t_seqno A \<and> maxseq B = maxseq A \<and> curseq B = curseq A
      \<and> t_srtt B = t_srtt A \<and> initialized B = initialized A \<and> ca_priv B = ca_priv A"
proof -
  have m: "max (maxseq A) s = maxseq A" using ok s by (simp add: agent_ok_def board_fits_def)
  have k: "sock_ok (linux A)" using ok by (simp add: agent_ok_def)
  have "sock_ok (linux B) \<and> srtt (linux B) = srtt (linux A) \<and> highest_ack B = s
      \<and> scb B = scb A \<and> t_seqno B = t_seqno A \<and> maxseq B = maxseq A \<and> curseq B = curseq A
      \<and> t_srtt B = t_srtt A \<and> initialized B = initialized A \<and> ca_priv B = ca_priv A"
  proof (cases "highest_ack A < s")
    case True
    then have "B = A\<lparr>highest_ack := s, linux := (linux A)\<lparr>snd_una := ulong (s + 1) * mss_cache (linux A)\<rparr>\<rparr>"
      using B flag s m by (simp add: ack_processing_def Let_def)
    then show ?thesis using k by (simp add: sock_ok_def)
  next
    case False
    then have "B = A" "highest_ack A = s" using B flag s by (simp_all add: ack_processing_def)
    then show ?thesis using k by simp
  qed
  then show "sock_ok (linux B)" "srtt (linux B) = srtt (linux A)" "highest_ack B = s"
    "scb B = scb A \<and> t_seqno B = t_seqno A \<and> maxseq B = maxseq A \<and> curseq B = curseq A
      \<and> t_srtt B = t_srtt A \<and> initialized B = initialized A \<and> ca_priv B = ca_priv A" by simp_all
qed

lemma board_after_ack:
  assumes fit: "board_fits A" and s: "highest_ack A \<le> s" "s < t_seqno A"
    and sacks: "sacks_ok s sacks" "\<forall>(l, r)\<in>set sacks. r \<le> t_seqno A"
  shows "if sacks \<noteq> [] \<or> sb_head (scb A) \<noteq> []
    then \<exists>sb fl. UpdateScoreBoard s sacks 3 (scb A) = Some (sb, fl) \<and> board_reachable (s + 1, t_seqno A, sb)
      \<and> packets SKB_FLAG_SACKED (sb_head sb) \<subseteq> sacked_packets A \<union> reported s sacks
    else board_reachable (s + 1, t_seqno A, scb A)"
proof -
  have reach: "board_reachable (highest_ack A + 1, t_seqno A, scb A)" using fit by (simp add: board_fits_def)
  have le: "highest_ack A + 1 \<le> s + 1" using s by simp
  show ?thesis
  proof (cases "sacks \<noteq> [] \<or> sb_head (scb A) \<noteq> []")
    case True
    obtain sb fl where u: "UpdateScoreBoard s sacks 3 (scb A) = Some (sb, fl)"
      "packets SKB_FLAG_SACKED (sb_head sb) = sacked_packets A \<inter> {s<..} \<union> reported s sacks"
      using update_returns [OF board_fits_inv [OF fit] le s(2) sacks, of 3] by blast
    then show ?thesis using True board_reachable.Step [OF reach board_step.Ack [OF le s(2) sacks u(1)]] by auto
  next
    case False
    then show ?thesis using board_reachable.Step [OF reach board_step.Advance [OF _ le s(2)]] by simp
  qed
qed

lemma if_cases_pair: "(if b then (x, y) else (x', y')) = (if b then x else x', if b then y else y')"
  by simp

lemma sequence_ok:
  assumes ok: "agent_ok limit usable inv A" and s: "highest_ack A \<le> pk_seqno pkt" "pk_seqno pkt < t_seqno A"
    and new: "ulong (highest_ack A + 1) < ulong (pk_seqno pkt + 1) \<longleftrightarrow> highest_ack A < pk_seqno pkt"
    and sacks: "sacks_ok (pk_seqno pkt) (pk_sacks pkt)" "\<forall>(l, r)\<in>set (pk_sacks pkt). r \<le> t_seqno A"
  shows "\<exists>flag B. recv_sequence opt pkt A = Some (flag, B) \<and> agent_ok limit usable inv B
    \<and> highest_ack B = pk_seqno pkt \<and> t_seqno B = t_seqno A \<and> t_srtt B = t_srtt A
    \<and> sacked_packets B \<subseteq> sacked_packets A \<union> reported (pk_seqno pkt) (pk_sacks pkt)"
proof -
  define fl0 where "fl0 = (if pk_ecnecho pkt \<and> ecn opt \<and> 1 < ulong (pk_seqno pkt + 1) then FLAG_ECE else 0)"
  define A1 where "A1 = (if highest_ack A < pk_seqno pkt
     then A\<lparr>linux := (linux A)\<lparr>bytes_acked := bytes_acked (linux A)
                     + (ulong (pk_seqno pkt + 1) - ulong (highest_ack A + 1)) * mss_cache (linux A)\<rparr>\<rparr> else A)"
  define flag where "flag = (if highest_ack A < pk_seqno pkt then fl0 OR FLAG_DATA_ACKED else fl0)"
  obtain fl B where B: "ack_processing (pk_seqno pkt) flag A1 = (fl, B)" by force
  have "fl0 AND FLAG_DATA_ACKED = 0" "(fl0 OR FLAG_DATA_ACKED) AND FLAG_DATA_ACKED = FLAG_DATA_ACKED"
    by (auto simp: fl0_def FLAG_ECE_def FLAG_DATA_ACKED_def intro!: bit_eqI simp: bit_simps)
  then have hf: "has flag FLAG_DATA_ACKED \<longleftrightarrow> highest_ack A < pk_seqno pkt"
    by (simp add: flag_def FLAG_DATA_ACKED_def)
  have k: "sock_ok (linux A)" and u: "measured A \<Longrightarrow> usable (linux A)" using ok by (simp_all add: agent_ok_def)
  have A1: "sock_ok (linux A1)" "srtt (linux A1) = srtt (linux A)" "A1 = A\<lparr>linux := linux A1\<rparr>"
    using k by (simp_all add: A1_def sock_ok_def)
  have a1: "measured A1 = measured A" "scb A1 = scb A" "highest_ack A1 = highest_ack A" "t_seqno A1 = t_seqno A"
    by (simp_all add: A1_def measured_def)
  have "agent_ok limit usable inv A1"
    using ok A1(1) usable_frame [of "linux A" "linux A1"] A1(2)
    by (auto simp: A1_def agent_ok_def measured_def board_fits_def)
  note P = ack_processing_ok [OF this _ _ _ B, unfolded a1, OF s hf]
  have pair: "(if ulong (highest_ack A + 1) < ulong (pk_seqno pkt + 1)
             then (fl0 OR FLAG_DATA_ACKED,
                   A\<lparr>linux := (linux A)\<lparr>bytes_acked := bytes_acked (linux A)
                     + (ulong (pk_seqno pkt + 1) - ulong (highest_ack A + 1)) * mss_cache (linux A)\<rparr>\<rparr>)
             else (fl0, A)) = (flag, A1)"
    unfolding new flag_def A1_def by (rule if_cases_pair)
  have r: "recv_sequence opt pkt A = (if pk_sacks pkt \<noteq> [] \<or> sb_head (scb B) \<noteq> []
      then do { (sb, fl2) \<leftarrow> UpdateScoreBoard (highest_ack B) (pk_sacks pkt) 3 (scb B); Some ((flag OR fl) OR fl2, B\<lparr>scb := sb\<rparr>) }
      else Some (flag OR fl, B))"
    unfolding recv_sequence_def Let_def fl0_def [symmetric] pair prod.case B by (rule refl)
  have b: "scb B = scb A" "t_seqno B = t_seqno A" "maxseq B = maxseq A" "curseq B = curseq A" "t_srtt B = t_srtt A"
    "initialized B = initialized A" "ca_priv B = ca_priv A"
    using P(4) by (simp_all add: A1_def)
  have ub: "measured A \<Longrightarrow> usable (linux B)" using usable_frame [OF u P(1)] P(2) A1(2) by simp
  have ok': "agent_ok limit usable inv (B\<lparr>scb := sb\<rparr>)" if "board_reachable (pk_seqno pkt + 1, t_seqno A, sb)" for sb
    using ok that ub P(1,3) b by (auto simp: agent_ok_def measured_def board_fits_def)
  have "board_fits A" using ok by (simp add: agent_ok_def)
  note board = board_after_ack [OF this s sacks]
  show ?thesis
  proof (cases "pk_sacks pkt \<noteq> [] \<or> sb_head (scb A) \<noteq> []")
    case True
    then obtain sb fl2 where "UpdateScoreBoard (pk_seqno pkt) (pk_sacks pkt) 3 (scb A) = Some (sb, fl2)"
      "board_reachable (pk_seqno pkt + 1, t_seqno A, sb)"
      "packets SKB_FLAG_SACKED (sb_head sb) \<subseteq> sacked_packets A \<union> reported (pk_seqno pkt) (pk_sacks pkt)" using board by auto
    then show ?thesis using r True ok' P(3) b by simp
  next
    case False
    then have "board_reachable (pk_seqno pkt + 1, t_seqno A, scb A)" using board by auto
    from ok' [OF this] have "agent_ok limit usable inv B" using b(1) by (metis agent.surjective agent.update_convs(4))
    then show ?thesis using r False P(3) b by auto
  qed
qed

section \<open>Whole events\<close>

lemma recv_ok:
  assumes ok: "agent_ok limit usable inv A" and pkt: "ack_ok limit env A pkt" and opt: "options_ok opt"
  shows "\<exists>sent A'. recv ops env opt pkt A = Some (sent, A') \<and> agent_ok limit usable inv A'
    \<and> (measured A \<longrightarrow> measured A') \<and> effect {pk_seqno pkt} (reported (pk_seqno pkt) (pk_sacks pkt)) A sent A'"
proof -
  define B where "B = A\<lparr>nackpack := nackpack A + 1\<rparr>"
  have B: "agent_ok limit usable inv B" "measured B = measured A" "highest_ack B = highest_ack A" "t_seqno B = t_seqno A"
    "board_fits B" "pkts_in_flight B = pkts_in_flight A"
    using ok by (simp_all add: B_def agent_ok_def measured_def board_fits_def pkts_in_flight_def)
  show ?thesis
  proof (cases "ulong (t_seqno A) < ulong (pk_seqno pkt + 1) \<or> ulong (pk_seqno pkt + 1) < ulong (highest_ack A + 1)")
    case True
    moreover have "effect {pk_seqno pkt} (reported (pk_seqno pkt) (pk_sacks pkt)) A [] B" by (simp add: effect_def B_def)
    ultimately show ?thesis using B by (auto simp: recv_def Let_def B_def)
  next
    case False
    have clk: "clock_ok env" "past env 0" "past env (pk_sent pkt)" using pkt by (simp_all add: ack_ok_def)
    have "t_seqno B < 2147483648" using ok B(4) by (simp add: agent_ok_def)
    note a = accepted [OF B(5) this, of "pk_seqno pkt", unfolded B(3,4)]
    have s: "highest_ack A \<le> pk_seqno pkt" "pk_seqno pkt < t_seqno A"
      "ulong (highest_ack A + 1) < ulong (pk_seqno pkt + 1) \<longleftrightarrow> highest_ack A < pk_seqno pkt"
      "small (ulong (pk_seqno pkt + 1) - ulong (highest_ack A + 1))"
      using a False pkt unfolding ack_ok_def by blast+
    obtain flag C where C: "recv_sequence opt pkt B = Some (flag, C)" "agent_ok limit usable inv C"
      "t_srtt C = t_srtt B" "t_seqno C = t_seqno B" "highest_ack C = pk_seqno pkt"
      "sacked_packets C \<subseteq> sacked_packets B \<union> reported (pk_seqno pkt) (pk_sacks pkt)"
      using sequence_ok [OF B(1), of pkt opt] s pkt B(3,4) unfolding ack_ok_def by metis
    have "measured C = measured A" using C(3) B(2) by (simp add: measured_def)
    then have mC: "measured C = measured A" .
    have tr: "case pk_ts pkt of None \<Rightarrow> True | Some (tsval, tsecr) \<Rightarrow> unat tsecr < 2 ^ 53"
      "case pk_rtt pkt of None \<Rightarrow> measured C | Some (t_rtt, usrtt) \<Rightarrow> sint t_rtt < limit"
      using pkt unfolding ack_ok_def mC by blast+
    obtain D where D: "time_processing ops env pkt C = Some D" "agent_ok limit usable inv D" "measured D"
      "highest_ack D = highest_ack C" "t_seqno D = t_seqno C" "scb D = scb C"
      using time_steps [OF clk(1) C(2) tr] by blast
    define n where "n = ulong (pk_seqno pkt + 1) - ulong (highest_ack B + 1)"
    have n: "small n" using s(4) B(3) by (simp only: n_def)
    obtain E where E: "ack_events ops env opt pkt flag n D = Some E" "working E" "initialized E"
      "same_books (D\<lparr>initialized := True\<rparr>) E"
      using events_steps [OF clk(1) agent_ok_working [OF D(2,3)] n clk(2,3)] by metis
    have okE: "agent_ok limit usable inv E" "measured E" using agent_ok_books [OF D(2,3) E(2,4)] by simp_all
    then have "board_fits E" by (simp add: agent_ok_def)
    from control_steps [OF clk(1) E(2,3) this opt, of flag "ulong (pk_seqno pkt + 1)" "pk_seq_rtt pkt" "ulong (pkts_in_flight B)"]
    obtain F where F: "ack_control ops env opt flag (ulong (pk_seqno pkt + 1)) (pk_seq_rtt pkt) (ulong (pkts_in_flight B)) E = Some F"
      "working F" "same_books E F" by (auto simp: steps_to_def)
    have "same_books (E\<lparr>initialized := True\<rparr>) F" using F(3) E(3) by (auto simp: same_books_def board_fits_def)
    then have okF: "agent_ok limit usable inv (save_from_linux F)" "measured (save_from_linux F)"
      using agent_ok_books [OF okE F(2)] by simp_all
    have "recv_accepted ops env opt pkt B = Some (save_from_linux F)"
      unfolding recv_accepted_def Let_def C(1) bind.bind_lunit prod.case D(1) n_def [symmetric] E(1) F(1) by (rule refl)
    moreover obtain sent G where G: "send_much (maxburst opt) (save_from_linux F) = Some (sent, G)"
      "agent_ok limit usable inv G" "measured G" "effect {} {} (save_from_linux F) sent G"
      using send_much_ok [OF okF(1), of "maxburst opt"] okF(2) opt by (auto simp: options_ok_def)
    moreover have "effect {pk_seqno pkt} (reported (pk_seqno pkt) (pk_sacks pkt)) A sent G"
    proof (rule effect_after [OF G(4)])
      note k = same_books_kept [OF E(4)] same_books_kept [OF F(3)]
      have "scb B = scb A" by (simp add: B_def)
      then show "t_seqno (save_from_linux F) = t_seqno A" "highest_ack (save_from_linux F) \<in> insert (highest_ack A) {pk_seqno pkt}"
        "sacked_packets (save_from_linux F) \<subseteq> sacked_packets A \<union> reported (pk_seqno pkt) (pk_sacks pkt)"
        using k C(4-6) D(4-6) B(4) by (auto simp: save_fields)
    qed simp
    ultimately show ?thesis using False B(3,4) by (simp add: recv_def Let_def B_def [symmetric])
  qed
qed

lemma recv_measures:
  assumes ok: "agent_ok limit usable inv A" and "recv ops env opt pkt A = Some (sent, A')"
    and "ack_ok limit env A pkt" and "options_ok opt" and "measured A"
  shows "measured A'"
  using recv_ok [OF ok assms(3,4)] assms(2,5) by auto

lemma enter_loss_ok:
  assumes clk: "clock_ok env" and ok: "agent_ok limit usable inv A" and m: "measured A"
  shows "\<exists>A'. enter_loss ops env A = Some A' \<and> agent_ok limit usable inv A' \<and> measured A'
    \<and> highest_ack A' = highest_ack A \<and> t_seqno A' = t_seqno A \<and> sacked_packets A' \<subseteq> sacked_packets A"
proof -
  define B where "B = touch_cwnd env A"
  have B: "working B" "same_books A B"
    unfolding B_def by (rule touch_working [OF agent_ok_working [OF ok m]]) simp
  obtain s p where s: "ca_ssthresh ops env (linux B) (ca_priv B) = Some (s, p)"
    "working (B\<lparr>linux := (linux B)\<lparr>snd_ssthresh := s\<rparr>, ca_priv := p\<rparr>)"
    using reduce_steps [OF clk B(1), of 0 0] by metis
  define C where "C = B\<lparr>linux := (linux B)\<lparr>snd_ssthresh := s\<rparr>, ca_priv := p\<rparr>"
  have C: "working C" "same_books B C" using s(2) by (simp_all add: C_def)
  obtain D where D: "tcp_ca_event_call ops env CA_EVENT_LOSS C = Some D" "working D" "same_books C D"
    using event_steps [OF clk C(1)] by (auto simp: steps_to_def)
  define E where "E = D\<lparr>linux := (linux D)\<lparr>snd_cwnd := 1, snd_cwnd_cnt := 0, bytes_acked := 0\<rparr>,
                  ncwndcuts := ncwndcuts D + 1\<rparr>"
  have "working (D\<lparr>linux := (linux D)\<lparr>snd_cwnd := 1, snd_cwnd_cnt := 0, bytes_acked := 0\<rparr>\<rparr>)"
    by (rule working_upd [OF D(2)]) (use working_sock [OF D(2)] in \<open>simp_all add: sock_ok_def\<close>)
  then have E: "working (E\<lparr>recover := maxseq E\<rparr>)" "same_books D (E\<lparr>recover := maxseq E\<rparr>)"
    by (simp_all add: E_def same_books_def board_fits_def)
  obtain F where F: "tcp_set_ca_state ops env TCP_CA_Loss (E\<lparr>recover := maxseq E\<rparr>) = Some F" "working F"
    "same_books (E\<lparr>recover := maxseq E\<rparr>) F"
    using set_state_steps [OF clk E(1)] by (auto simp: steps_to_def)
  have AF: "same_books A F" using B(2) C(2) D(3) E(2) F(3) same_books_trans by metis
  then have "same_books (A\<lparr>initialized := initialized A\<rparr>) F" by simp
  then have okF: "agent_ok limit usable inv F" "measured F" using agent_ok_books [OF ok m F(2)] by blast+
  then have reach: "board_reachable (highest_ack F + 1, t_seqno F, scb F)" by (simp add: agent_ok_def board_fits_def)
  note inv = reachable_inv [OF this]
  obtain sb where sb: "MarkLoss (highest_ack F + 1) (t_seqno F) (scb F) = Some sb"
    and sacked: "packets SKB_FLAG_SACKED (sb_head sb) = sacked_packets F"
    using loss_returns [OF inv board_inv_ackD [OF inv]] by blast
  note reach' = board_reachable.Step [OF reach board_step.Timeout [OF sb]]
  have "enter_loss ops env A = Some (F\<lparr>scb := sb\<rparr>)"
    unfolding enter_loss_def Let_def B_def [symmetric] s(1) bind.bind_lunit prod.case C_def [symmetric] D(1)
      E_def [symmetric] F(1) sb by (rule refl)
  moreover have "agent_ok limit usable inv (F\<lparr>scb := sb\<rparr>) \<and> measured (F\<lparr>scb := sb\<rparr>)"
    using okF reach' by (auto simp: agent_ok_def board_fits_def measured_def)
  ultimately show ?thesis using same_books_kept [OF AF] sacked by simp
qed

lemma load_to_linux_sock: "linux (load_to_linux opt B) = (linux B)\<lparr>snd_ssthresh := ulong (ssthresh_ns B),
    snd_cwnd := (if int_cwnd (linux B) < next_pkts_in_flight B \<and> int_cwnd (linux B) \<le> cwnd_ns B
      then snd_cwnd (linux B) else ulong (cwnd_ns B)), snd_cwnd_clamp := word_of_int (wnd opt)\<rparr>"
  by (cases "int_cwnd (linux B) < next_pkts_in_flight B \<and> int_cwnd (linux B) \<le> cwnd_ns B")
    (auto simp: load_to_linux_def Let_def int_cwnd_def)

lemma load_to_linux_fields: "t_srtt (load_to_linux opt B) = t_srtt B" "highest_ack (load_to_linux opt B) = highest_ack B"
    "t_seqno (load_to_linux opt B) = t_seqno B" "maxseq (load_to_linux opt B) = maxseq B"
    "curseq (load_to_linux opt B) = curseq B" "scb (load_to_linux opt B) = scb B"
    "initialized (load_to_linux opt B) = initialized B" "ca_priv (load_to_linux opt B) = ca_priv B"
  by (simp_all add: load_to_linux_def Let_def)

lemma restart_ok:
  assumes ok: "agent_ok limit usable inv A" and m: "measured A" and opt: "options_ok opt"
  shows "agent_ok limit usable inv (load_to_linux opt (slowdown_init opt (save_from_linux A)))"
    and "measured (load_to_linux opt (slowdown_init opt (save_from_linux A)))"
proof -
  define B where "B = slowdown_init opt (save_from_linux A)"
  define th where "th = (if uint (snd_ssthresh (linux A)) < 2 then 2 else uint (snd_ssthresh (linux A)))"
  have k: "sock_ok (linux A)" using ok by (simp add: agent_ok_def)
  then have "unat (snd_ssthresh (linux A)) < 2147483648" by (simp add: sock_ok_def small_def)
  then have "int (unat (snd_ssthresh (linux A))) < 2147483648" by linarith
  then have "uint (snd_ssthresh (linux A)) < 2147483648" by simp
  then have "0 < th" "th < 2147483648" by (auto simp: th_def)
  then have th: "small (ulong th)" using ulong_small by simp
  have w: "small (ulong (wnd_init opt))" "ulong (wnd_init opt) \<noteq> 0" using ulong_small [of "wnd_init opt"] opt by (simp_all add: options_ok_def)
  have "unat (word_of_int (wnd opt) :: u16) = nat (wnd opt)"
    using opt by (subst unat_eq_nat_uint, subst uint_word_of_int) (simp add: options_ok_def)
  then have c: "(word_of_int (wnd opt) :: u16) \<noteq> 0" "unat (word_of_int (wnd opt) :: u16) < 2147483648"
    using opt by (auto simp: options_ok_def simp flip: unat_zero_iff)
  have B: "cwnd_ns B = wnd_init opt" "ssthresh_ns B = th" "linux B = linux A" "agent_ok limit usable inv B" "measured B"
    using ok m by (simp_all add: B_def slowdown_init_def save_from_linux_def th_def Let_def agent_ok_def measured_def board_fits_def)
  define C where "C = load_to_linux opt B"
  have C: "sock_ok (linux C)" "srtt (linux C) = srtt (linux A)" "t_srtt C = t_srtt B" "highest_ack C = highest_ack B"
    "t_seqno C = t_seqno B" "maxseq C = maxseq B" "curseq C = curseq B" "scb C = scb B" "initialized C = initialized B"
    "ca_priv C = ca_priv B"
    using k th w c unfolding C_def load_to_linux_sock load_to_linux_fields B(1,2,3) by (simp_all add: sock_ok_def)
  have "usable (linux A)" using ok m by (simp add: agent_ok_def)
  then have "usable (linux C)" using usable_frame C(1,2) by metis
  then show "agent_ok limit usable inv (load_to_linux opt (slowdown_init opt (save_from_linux A)))"
    "measured (load_to_linux opt (slowdown_init opt (save_from_linux A)))"
    using B(4,5) C unfolding B_def [symmetric] C_def [symmetric] by (simp_all add: agent_ok_def measured_def board_fits_def)
qed

lemma timeout_ok:
  assumes clk: "clock_ok env" and ok: "agent_ok limit usable inv A" and m: "measured A" and opt: "options_ok opt"
  shows "\<exists>sent A'. timeout ops env opt A = Some (sent, A') \<and> agent_ok limit usable inv A' \<and> measured A'
    \<and> effect {} {} A sent A'"
proof (cases "highest_ack A = maxseq A \<and> \<not> slow_start_restart opt")
  case True
  then show ?thesis using ok m by (simp add: timeout_def effect_def)
next
  case False
  obtain L where L: "enter_loss ops env A = Some L" "agent_ok limit usable inv L" "measured L"
    "highest_ack L = highest_ack A" "t_seqno L = t_seqno A" "sacked_packets L \<subseteq> sacked_packets A"
    using enter_loss_ok [OF clk ok m] by blast
  define b where "b \<longleftrightarrow> highest_ack A = maxseq A \<and> restart_bugfix opt"
  define B where "B = (if b then load_to_linux opt (slowdown_init opt (save_from_linux A)) else L\<lparr>nrexmit := nrexmit L + 1\<rparr>)"
  have B: "agent_ok limit usable inv B" "measured B"
    using restart_ok [OF ok m opt] L(2,3) by (simp_all add: B_def agent_ok_def measured_def board_fits_def)
  define C where "C = B\<lparr>next_pkts_in_flight := 0, linux := (linux B)\<lparr>bytes_acked := 0\<rparr>\<rparr>"
  have "sock_ok (linux C)" using B(1) by (simp add: C_def agent_ok_def sock_ok_def)
  moreover have "usable (linux B)" using B by (simp add: agent_ok_def)
  ultimately have "usable (linux C)" using usable_frame [of "linux B" "linux C"] by (simp add: C_def)
  then have C: "agent_ok limit usable inv (save_from_linux C)" "measured (save_from_linux C)"
    using B \<open>sock_ok (linux C)\<close> unfolding agent_ok_save measured_save
    by (simp_all add: C_def agent_ok_def measured_def board_fits_def)
  have t: "timeout ops env opt A = send_much 0 (save_from_linux C)"
    unfolding timeout_def if_not_P [OF False] L(1) option.map B_def C_def Let_def b_def [symmetric]
    by (cases b) simp_all
  obtain sent A' where r: "send_much 0 (save_from_linux C) = Some (sent, A')" "agent_ok limit usable inv A'" "measured A'"
    "effect {} {} (save_from_linux C) sent A'" using send_much_ok [OF C(1), of 0] C(2) by auto
  have "effect {} {} A sent A'"
    by (rule effect_after [OF r(4)])
      (use L(4-6) in \<open>auto simp: save_fields C_def B_def load_to_linux_fields slowdown_init_def\<close>)
  then show ?thesis using r by (simp add: t)
qed

lemma application_ok:
  assumes ok: "agent_ok limit usable inv A" and opt: "options_ok opt" and c: "c < 2147483648"
  shows "\<exists>sent A'. send_much (maxburst opt) (A\<lparr>curseq := c\<rparr>) = Some (sent, A') \<and> agent_ok limit usable inv A'
    \<and> measured A' = measured A \<and> effect {} {} A sent A'"
proof -
  have "effect {} {} (A\<lparr>curseq := c\<rparr>) sent A' = effect {} {} A sent A'" for sent A' by (simp add: effect_def)
  moreover have "agent_ok limit usable inv (A\<lparr>curseq := c\<rparr>)" "measured (A\<lparr>curseq := c\<rparr>) = measured A"
    using ok c by (simp_all add: agent_ok_def measured_def board_fits_def)
  ultimately show ?thesis using send_much_ok [of "A\<lparr>curseq := c\<rparr>" "maxburst opt"] opt by (auto simp: options_ok_def)
qed


text \<open>
  \<^verbatim>\<open>reset\<close> makes an agent the module can be initialised on out of a newly constructed one; no
  round trip time has been measured then (with the default \<^verbatim>\<open>srtt_init_\<close> 0).
\<close>

lemma set_initial_window_Some:
  assumes "options_ok opt" and "set_initial_window opt A = Some A'"
  shows "\<exists>w. A' = A\<lparr>cwnd_ns := w\<rparr> \<and> 0 < w \<and> w < 2147483648"
  using assms by (auto simp: set_initial_window_def initial_window_def options_ok_def split: if_splits)

lemma TcpAgent_reset_fields:
  assumes r: "TcpAgent_reset opt B = Some C" and D: "set_initial_window opt ((rtt_init opt B)\<lparr>curseq := 0\<rparr>) = Some D"
    and w: "D = (rtt_init opt B)\<lparr>curseq := 0, cwnd_ns := w\<rparr>"
  shows "cwnd_ns C = w \<and> linux C = linux B \<and> t_srtt C = push_bit 3 (srtt_init_ticks opt) \<and> highest_ack C = - 1
    \<and> t_seqno C = 0 \<and> maxseq C = - 1 \<and> curseq C = 0 \<and> scb C = scb B \<and> initialized C = initialized B
    \<and> ca_priv C = ca_priv B \<and> ssthresh_ns C =
      (if 0 < max_ssthresh opt \<and> max_ssthresh opt < wnd opt then max_ssthresh opt else wnd opt)"
proof -
  define D1 where "D1 = D\<lparr>t_seqno := 0, maxseq := - 1, last_ack := - 1, highest_ack := - 1, ssthresh_ns := wnd opt\<rparr>"
  define D2 where "D2 = (if 0 < max_ssthresh opt \<and> max_ssthresh opt < ssthresh_ns D1
              then D1\<lparr>ssthresh_ns := max_ssthresh opt\<rparr> else D1)"
  have D1: "cwnd_ns D1 = w" "linux D1 = linux B" "t_srtt D1 = push_bit 3 (srtt_init_ticks opt)" "highest_ack D1 = - 1"
    "t_seqno D1 = 0" "maxseq D1 = - 1" "curseq D1 = 0" "scb D1 = scb B" "initialized D1 = initialized B"
    "ca_priv D1 = ca_priv B" "ssthresh_ns D1 = wnd opt"
    by (simp_all add: D1_def w rtt_init_def)
  have "C = (let A = D2\<lparr>recover := 0, nackpack := 0, nrexmit := 0, necnresponses := 0, ncwndcuts := 0\<rparr> in
      if control_increase opt then A\<lparr>prev_highest_ack := highest_ack A\<rparr> else A)"
    using r unfolding TcpAgent_reset_def D bind.bind_lunit Let_def D1_def [symmetric] D2_def [symmetric] by simp
  then show ?thesis using D1 by (cases "control_increase opt") (simp_all add: D2_def Let_def)
qed

lemma reset_ok:
  assumes opt: "options_ok opt" and zero: "srtt_init_ticks opt = 0" and p: "inv False (ca_priv A)"
    and ts: "unat (rcv_tsecr (rx_opt (linux A))) < 2 ^ 53" and new: "scb A = ScoreBoard1" and r: "reset opt A = Some A'"
  shows "agent_ok limit usable inv A' \<and> \<not> measured A'"
proof -
  define B where "B = A\<lparr>scb := ClearScoreBoard (scb A),
                linux := (linux A)\<lparr>icsk_ca_state := TCP_CA_Open, snd_cwnd_stamp := 0, snd_cwnd := 2, bytes_acked := 0\<rparr>,
                initialized := False\<rparr>"
  obtain C where C: "TcpAgent_reset opt B = Some C" "A' = load_to_linux opt (load_to_linux_once opt C)"
    using r by (auto simp: reset_def Let_def B_def bind_Some_iff)
  obtain D where D: "set_initial_window opt ((rtt_init opt B)\<lparr>curseq := 0\<rparr>) = Some D"
    using C(1) by (cases "set_initial_window opt ((rtt_init opt B)\<lparr>curseq := 0\<rparr>)") (simp_all add: TcpAgent_reset_def)
  obtain w where w: "D = (rtt_init opt B)\<lparr>curseq := 0, cwnd_ns := w\<rparr>" "0 < w" "w < 2147483648"
    using set_initial_window_Some [OF opt D] by auto
  define th where "th = (if 0 < max_ssthresh opt \<and> max_ssthresh opt < wnd opt then max_ssthresh opt else wnd opt)"
  have th: "0 < th" "th < 2147483648" using opt by (auto simp: th_def options_ok_def)
  have Cf: "cwnd_ns C = w" "ssthresh_ns C = th" "linux C = linux B" "t_srtt C = 0" "highest_ack C = - 1" "t_seqno C = 0"
    "maxseq C = - 1" "curseq C = 0" "scb C = scb B" "initialized C = False" "ca_priv C = ca_priv A"
    using TcpAgent_reset_fields [OF C(1) D w(1)] zero by (simp_all add: th_def B_def)
  have u: "small (ulong th)" "small (ulong w)" "ulong w \<noteq> 0" "small (ulong (size_ns opt))" "ulong (size_ns opt) \<noteq> 0"
    using ulong_small th w(2,3) opt by (simp_all add: options_ok_def)
  have "unat (word_of_int (wnd opt) :: u16) = nat (wnd opt)"
    using opt by (subst unat_eq_nat_uint, subst uint_word_of_int) (simp add: options_ok_def)
  then have c: "(word_of_int (wnd opt) :: u16) \<noteq> 0" "unat (word_of_int (wnd opt) :: u16) < 2147483648"
    using opt by (auto simp: options_ok_def simp flip: unat_zero_iff)
  have k: "sock_ok (linux A')"
    using u c ts by (simp add: C(2) load_to_linux_sock load_to_linux_once_def Let_def Cf B_def sock_ok_def)
  have "board_fits A'"
    using board_reachable.Start new
    by (simp add: board_fits_def C(2) load_to_linux_fields load_to_linux_once_def Let_def Cf B_def ScoreBoard1_def
      ClearScoreBoard_def)
  then show ?thesis
    using k p by (simp add: agent_ok_def measured_def C(2) load_to_linux_fields load_to_linux_once_def Let_def Cf)
qed

end

section \<open>The life of a connection\<close>

lemma reset_books:
  "reset opt A = Some A' \<Longrightarrow> highest_ack A' = - 1 \<and> scb A' = ClearScoreBoard (scb A)"
  by (auto simp: reset_def TcpAgent_reset_def set_initial_window_def load_to_linux_def load_to_linux_once_def rtt_init_def Let_def
    bind_eq_Some_conv split: if_splits)

text \<open>
  The states of an agent from \<^verbatim>\<open>reset\<close> on: it processes the acknowledgments the simulator delivers,
  its retransmission timer expires once a round trip time has been measured, and the
  application asks it to send.
\<close>

inductive connection :: "'p ca_ops \<Rightarrow> int \<Rightarrow> options \<Rightarrow> 'p \<Rightarrow> 'p agent \<Rightarrow> bool"
  for ca :: "'p ca_ops" and limit :: int and opt :: options and p :: 'p where
  Start: "ca_priv A = p \<Longrightarrow> scb A = ScoreBoard1 \<Longrightarrow> unat (rcv_tsecr (rx_opt (linux A))) < 2 ^ 53 \<Longrightarrow> reset opt A = Some A' \<Longrightarrow>
    connection ca limit opt p A'"
| Ack: "connection ca limit opt p A \<Longrightarrow> ack_ok limit env A pkt \<Longrightarrow> recv ca env opt pkt A = Some (sent, A') \<Longrightarrow>
    connection ca limit opt p A'"
| Timeout: "connection ca limit opt p A \<Longrightarrow> clock_ok env \<Longrightarrow> measured A \<Longrightarrow> timeout ca env opt A = Some (sent, A') \<Longrightarrow>
    connection ca limit opt p A'"
| Send: "connection ca limit opt p A \<Longrightarrow> curseq A + data_packets nbytes (size_ns opt) < 2147483648 \<Longrightarrow>
    sendmsg opt nbytes A = Some (sent, A') \<Longrightarrow> connection ca limit opt p A'"

lemma sendmsg_curseq:
  assumes "options_ok opt" and "curseq A + data_packets nbytes (size_ns opt) < 2147483648"
  shows "\<exists>c. c < 2147483648 \<and> sendmsg opt nbytes A = send_much (maxburst opt) (A\<lparr>curseq := c\<rparr>)"
proof (cases "nbytes = - 1 \<and> curseq A \<le> TCP_MAXSEQ")
  case True
  then show ?thesis by (intro exI [of _ TCP_MAXSEQ]) (simp add: sendmsg_def TCP_MAXSEQ_def)
next
  case False
  then show ?thesis using assms
    by (intro exI [of _ "curseq A + data_packets nbytes (size_ns opt)"]) (auto simp: sendmsg_def options_ok_def)
qed

context agent_module begin

text \<open>The invariant holds in every state of a connection, and every event is processed.\<close>

lemma connection_ok:
  assumes "connection ops limit opt p A" and "options_ok opt" and "srtt_init_ticks opt = 0" and "inv False p"
  shows "agent_ok limit usable inv A"
  using assms(1)
proof induction
  case (Start A A')
  then show ?case using reset_ok [OF assms(2,3)] assms(4) by blast
next
  case (Ack A env pkt sent A')
  then show ?case using recv_ok [OF Ack.IH Ack.hyps(2) assms(2)] by auto
next
  case (Timeout A env sent A')
  then show ?case using timeout_ok [OF Timeout.hyps(2) Timeout.IH Timeout.hyps(3) assms(2)] by auto
next
  case (Send A nbytes sent A')
  then show ?case using application_ok [OF Send.IH assms(2)] sendmsg_curseq [OF assms(2) Send.hyps(2)] by fastforce
qed

lemma connection_proceeds:
  assumes c: "connection ops limit opt p A" and opt: "options_ok opt" and "srtt_init_ticks opt = 0" and "inv False p"
  shows "ack_ok limit env A pkt \<Longrightarrow> recv ops env opt pkt A \<noteq> None"
    and "clock_ok env \<Longrightarrow> measured A \<Longrightarrow> timeout ops env opt A \<noteq> None"
    and "curseq A + data_packets nbytes (size_ns opt) < 2147483648 \<Longrightarrow> sendmsg opt nbytes A \<noteq> None"
proof -
  note ok = connection_ok [OF assms]
  show "ack_ok limit env A pkt \<Longrightarrow> recv ops env opt pkt A \<noteq> None" using recv_ok [OF ok _ opt] by fastforce
  show "clock_ok env \<Longrightarrow> measured A \<Longrightarrow> timeout ops env opt A \<noteq> None" using timeout_ok [OF _ ok _ opt] by fastforce
  show "curseq A + data_packets nbytes (size_ns opt) < 2147483648 \<Longrightarrow> sendmsg opt nbytes A \<noteq> None"
    using application_ok [OF ok opt] sendmsg_curseq [OF opt] by fastforce
qed

end

lemma agent_okD:
  assumes "agent_ok limit usable priv_ok A"
  shows "1 \<le> window A" "window A = int (unat (snd_cwnd (linux A)))" "board_fits A"
proof -
  have k: "sock_ok (linux A)" "board_fits A" using assms by (simp_all add: agent_ok_def)
  then show "window A = int (unat (snd_cwnd (linux A)))" "board_fits A"
    by (simp_all add: sock_ok_def window_def int_cwnd_small)
  moreover have "0 < unat (snd_cwnd (linux A))" using k by (simp add: sock_ok_def unat_pos_iff)
  ultimately show "1 \<le> window A" by linarith
qed
end
