(* ===== verification/Connections.thy ===== *)
theory Connections
  imports Agent_Safety Bic Cubic Scalable Highspeed Hybla Htcp Veno Vegas Lp
begin

text \<open>
  The agent with each of its modules: every module whose contract is proved in its own theory is
  one the agent of \<^theory_text>\<open>Agent\<close> can drive, and the agent's lemmas give the properties of whole
  connections. Samples of round trip times are below \<open>2 ^ 15\<close> ticks (the agent keeps their difference to
  the average in a \<^verbatim>\<open>short\<close>), and below 800 ticks with Hybla.
\<close>

section \<open>The modules\<close>












section \<open>What holds of every connection\<close>




section \<open>Example data\<close>

definition example_options :: options where
  "example_options = \<lparr>ecn = False, bugfix_ts = True, tcp_max_burst = 3, slow_start_restart = True, maxburst = 0,
     restart_bugfix = True, wnd = 20, wnd_init = 2, size_ns = 1000, wnd_init_option = 1, syn = False,
     delay_growth = False, max_ssthresh = 0, srtt_init_ticks = 0, rttvar_init_ticks = 12, control_increase = False\<rparr>"

definition example_agent :: "'p \<Rightarrow> 'p agent" where
  "example_agent p = \<lparr>linux = example_sock 2 20, ca_priv = p, initialized = False, scb = ScoreBoard1, highest_ack = 0,
     t_seqno = 0, maxseq = 0, curseq = 0, recover = 0, next_pkts_in_flight = 0, prev_highest_ack = 0, last_ack = 0,
     cwnd_ns = 0, ssthresh_ns = 0, t_srtt = 0, t_rttvar = 0, nackpack = 0, ncwndcuts = 0, necnresponses = 0, nrexmit = 0\<rparr>"

lemma example_options_ok [simp]: "options_ok example_options" "srtt_init_ticks example_options = 0"
  by (simp_all add: options_ok_def example_options_def)


section \<open>Properties\<close>






text \<open>
  C11: the fast retransmit of Reno. When an acknowledgment reports a loss or congestion to an agent in the
  open state, or in loss before recovery has ended, the threshold becomes half the window, but at
  least two, recovery lasts until everything sent so far is acknowledged, and the packets in
  flight are allowed to go down from the old window instead of being cut at once.
\<close>

theorem reno_fast_retransmit:
  assumes "icsk_ca_state (linux A) = TCP_CA_Open \<or> icsk_ca_state (linux A) = TCP_CA_Loss \<and> highest_ack A < recover A"
    and "has flag (FLAG_DATA_LOST OR FLAG_ECE)"
  shows "\<exists>A'. tcp_fastretrans_alert tcp_reno env opt flag A = Some A'
    \<and> icsk_ca_state (linux A') = TCP_CA_Recovery \<and> recover A' = maxseq A \<and> next_pkts_in_flight A' = window A
    \<and> unat (snd_ssthresh (linux A')) = max (unat (snd_cwnd (linux A)) div 2) 2
    \<and> unat (snd_cwnd (linux A')) = unat (snd_ssthresh (linux A')) div 2
    \<and> snd_cwnd_cnt (linux A') = 0 \<and> scb A' = scb A \<and> ncwndcuts A' = ncwndcuts A + 1"
proof -
  have c: "\<not> (icsk_ca_state (linux A) \<noteq> TCP_CA_Open \<and> recover A \<le> highest_ack A)"
    "icsk_ca_state (linux A) \<noteq> TCP_CA_Recovery"
    using assms(1) by (auto simp: tcp_ca_states)
  show ?thesis
    unfolding tcp_fastretrans_alert_def if_not_P [OF c(1)] if_not_P [OF c(2)] if_P [OF assms(2)]
    by (simp add: Let_def touch_cwnd_def tcp_reno_def tcp_set_ca_state_def run_defs
      tcp_reno_min_cwnd_def tcp_reno_ssthresh_def unat_div_distrib unat_max unat_drop_bit_div window_def int_cwnd_def)
qed

theorem reno_fast_retransmit_witness:
  "\<exists>A'. tcp_fastretrans_alert tcp_reno example_env example_options FLAG_DATA_LOST
      ((example_agent ())\<lparr>linux := example_sock 30 100\<rparr>) = Some A'
    \<and> unat (snd_ssthresh (linux A')) = 15 \<and> next_pkts_in_flight A' = 30"
  using reno_fast_retransmit [of "(example_agent ())\<lparr>linux := example_sock 30 100\<rparr>" FLAG_DATA_LOST example_env example_options]
  by (simp add: example_agent_def example_sock_def FLAG_DATA_LOST_def FLAG_ECE_def window_def int_cwnd_def TCP_CA_Open_def) blast

text \<open>
  The smoothed round trip time, kept as eight times the average, never underflows and never leaves the
  range of the samples: for samples below \<open>limit\<close> ticks, at most \<open>2 ^ 15\<close>, it stays between one
  tick and the limit, although the differences are kept in a \<^verbatim>\<open>short\<close>.
\<close>

theorem smoothed_rtt_in_range:
  assumes "2 \<le> limit" and "limit \<le> 32768" and "sint rtt < limit" and "sr \<noteq> 0 \<longrightarrow> 8 \<le> sint sr \<and> sint sr < 8 * limit"
  shows "8 \<le> sint (fst (rtt_average rtt sr rv)) \<and> sint (fst (rtt_average rtt sr rv)) < 8 * limit"
  using rtt_average_in [of limit rtt sr rv] assms by (simp add: srtt_in_def)

theorem smoothed_rtt_in_range_witness:
  "8 \<le> sint (fst (rtt_average 500 800 20)) \<and> sint (fst (rtt_average 500 800 20)) < 262144"
  using smoothed_rtt_in_range [of 32768 500 800 20] by simp
end
