(* ===== verification/Sink.thy ===== *)
theory Sink
  imports Scoreboard
begin

text \<open>
  \<^verbatim>\<open>tcp/tcp-sink.cc\<close>: the receiver. \<open>acker\<close> keeps the packets received in a ring buffer that grows
  with the window, \<open>sacker\<close> adds the history of the blocks reported, and the sinks, with and
  without delayed acknowledgments, make an acknowledgment of every packet. Packet numbers and
  byte counts are integers; time stamps, which are only compared and copied, are integers too.
  An index outside an array is \<^term>\<open>None\<close>.
\<close>

section \<open>The ring buffer of packets seen\<close>

record acker =
  next_pkt :: int
  maxseen :: int
  wndmask :: int
  seen :: "int list"
  is_dup :: bool
  ecn_unacked :: int
  ts_to_echo :: int
  last_ack_sent :: int

definition MWS :: int where "MWS = 64"
definition MWM :: int where "MWM = MWS - 1"

definition Seqno :: "'a acker_scheme \<Rightarrow> int" where
  "Seqno A = next_pkt A - 1"

definition ring_get :: "int list \<Rightarrow> int \<Rightarrow> int \<Rightarrow> int option" where
  "ring_get xs msk i = (if nat (i AND msk) < length xs then Some (xs ! nat (i AND msk)) else None)"

definition ring_put :: "int list \<Rightarrow> int \<Rightarrow> int \<Rightarrow> int \<Rightarrow> int list option" where
  "ring_put xs msk i v = (if nat (i AND msk) < length xs then Some (xs[nat (i AND msk) := v]) else None)"

definition seen_at :: "'a acker_scheme \<Rightarrow> int \<Rightarrow> int option" where
  "seen_at A i = ring_get (seen A) (wndmask A) i"

definition set_seen :: "int \<Rightarrow> int \<Rightarrow> 'a acker_scheme \<Rightarrow> 'a acker_scheme option" where
  "set_seen i v A = map_option (\<lambda>xs. A\<lparr>seen := xs\<rparr>) (ring_put (seen A) (wndmask A) i v)"

definition Acker :: acker where
  "Acker = \<lparr>next_pkt = 0, maxseen = 0, wndmask = MWM, seen = replicate (nat MWS) 0, is_dup = False,
     ecn_unacked = 0, ts_to_echo = 0, last_ack_sent = 0\<rparr>"

definition Acker_reset :: "'a acker_scheme \<Rightarrow> 'a acker_scheme" where
  "Acker_reset A = A\<lparr>next_pkt := 0, maxseen := 0, seen := replicate (nat (wndmask A + 1)) 0\<rparr>"

text \<open>The buffer is doubled until the packet fits; the window is copied to its places in the new one.
  A size that overflows an \<^verbatim>\<open>int\<close> is undefined.\<close>

fun copy_window :: "'a acker_scheme \<Rightarrow> int \<Rightarrow> int list \<Rightarrow> int list \<Rightarrow> int list option" where
  "copy_window A new_wndmask [] new_seen = Some new_seen"
| "copy_window A new_wndmask (i # is) new_seen = do {
     v \<leftarrow> seen_at A i;
     new_seen \<leftarrow> ring_put new_seen new_wndmask i v;
     copy_window A new_wndmask is new_seen
   }"

definition resize_buffers :: "int \<Rightarrow> 'a acker_scheme \<Rightarrow> 'a acker_scheme option" where
  "resize_buffers sz A = do {
     new_seen \<leftarrow> copy_window A (sz - 1) [next_pkt A..maxseen A + 1] (replicate (nat sz) 0);
     Some (A\<lparr>seen := new_seen, wndmask := sz - 1\<rparr>)
   }"

partial_function (option) make_room :: "int \<Rightarrow> 'a acker_scheme \<Rightarrow> 'a acker_scheme option" where
  "make_room seq A =
     (if wndmask A \<le> seq + 1 - next_pkt A then
        if 2147483648 \<le> (wndmask A + 1) * 2 then None
        else do {
        A \<leftarrow> resize_buffers ((wndmask A + 1) * 2) A;
        make_room seq A
      } else Some A)"

definition update_ts :: "int \<Rightarrow> int \<Rightarrow> bool \<Rightarrow> 'a acker_scheme \<Rightarrow> 'a acker_scheme" where
  "update_ts seqno ts rfc1323 A =
     (if rfc1323 \<and> seqno = last_ack_sent A + 1 then A\<lparr>ts_to_echo := ts\<rparr>
      else if ts_to_echo A \<le> ts \<and> seqno \<le> last_ack_sent A + 1 then A\<lparr>ts_to_echo := ts\<rparr>
      else A)"

definition update_ecn_unacked :: "int \<Rightarrow> 'a acker_scheme \<Rightarrow> 'a acker_scheme" where
  "update_ecn_unacked v A = A\<lparr>ecn_unacked := v\<rparr>"

fun mark_unseen :: "int list \<Rightarrow> 'a acker_scheme \<Rightarrow> 'a acker_scheme option" where
  "mark_unseen [] A = Some A"
| "mark_unseen (i # is) A = do { A \<leftarrow> set_seen i 0 A; mark_unseen is A }"

text \<open>A packet beyond the highest one seen: those in between are not seen, nor is the next one.\<close>

definition extend_window :: "int \<Rightarrow> int \<Rightarrow> 'a acker_scheme \<Rightarrow> 'a acker_scheme option" where
  "extend_window seq numBytes A = do {
     A \<leftarrow> mark_unseen [maxseen A + 1..seq - 1] A;
     A \<leftarrow> set_seen seq numBytes (A\<lparr>maxseen := seq\<rparr>);
     set_seen (seq + 1) 0 A
   }"

partial_function (option) deliver :: "'a acker_scheme \<Rightarrow> int \<Rightarrow> int \<Rightarrow> (int \<times> int) option" where
  "deliver A nxt numToDeliver = do {
     v \<leftarrow> seen_at A nxt;
     if v \<noteq> 0 then deliver A (nxt + 1) (numToDeliver + v) else Some (nxt, numToDeliver)
   }"

text \<open>The number of bytes to deliver, and the new state.\<close>

definition update :: "int \<Rightarrow> int \<Rightarrow> 'a acker_scheme \<Rightarrow> (int \<times> 'a acker_scheme) option" where
  "update seq numBytes A = do {
     A \<leftarrow> make_room seq (A\<lparr>is_dup := False\<rparr>);
     let just_marked_as_seen = maxseen A < seq;
     A \<leftarrow> (if just_marked_as_seen then extend_window seq numBytes A else Some A);
     let A = (if seq < next_pkt A then A\<lparr>is_dup := True\<rparr> else A);
     if next_pkt A \<le> seq \<and> seq \<le> maxseen A then do {
       v \<leftarrow> seen_at A seq;
       let A = (if v \<noteq> 0 \<and> \<not> just_marked_as_seen then A\<lparr>is_dup := True\<rparr> else A);
       A \<leftarrow> set_seen seq numBytes A;
       (nxt, numToDeliver) \<leftarrow> deliver A (next_pkt A) 0;
       Some (numToDeliver, A\<lparr>next_pkt := nxt\<rparr>)
     } else Some (0, A)
   }"

section \<open>The history of blocks\<close>

record sack_stack =
  ss_size :: int
  ss_cnt :: int
  SFE :: "(int \<times> int) list"

definition SackStack :: "int \<Rightarrow> sack_stack" where
  "SackStack sz = \<lparr>ss_size = sz, ss_cnt = 0, SFE = replicate (nat sz) (- 1, - 1)\<rparr>"

definition head_block :: "int \<Rightarrow> sack_stack \<Rightarrow> (int \<times> int) option" where
  "head_block k st = (if 0 \<le> k \<and> nat k < length (SFE st) then Some (SFE st ! nat k) else None)"

definition stack_reset :: "sack_stack \<Rightarrow> sack_stack" where
  "stack_reset st = st\<lparr>SFE := replicate (nat (ss_cnt st)) (- 1, - 1) @ drop (nat (ss_cnt st)) (SFE st), ss_cnt := 0\<rparr>"

text \<open>
  \<^verbatim>\<open>push\<close> moves the entries down by one and makes no new one at the head; a full stack loses its
  last entry.
\<close>

definition push :: "sack_stack \<Rightarrow> sack_stack" where
  "push st =
     (let cnt = (if ss_size st \<le> ss_cnt st then ss_size st - 1 else ss_cnt st);
          n = nat cnt in
      st\<lparr>SFE := take 1 (SFE st) @ take n (SFE st) @ drop (n + 1) (SFE st), ss_cnt := cnt + 1\<rparr>)"

definition pop :: "int \<Rightarrow> sack_stack \<Rightarrow> sack_stack" where
  "pop k st =
     (let n = nat k; last = max n (nat (ss_cnt st - 1)) in
      st\<lparr>SFE := take n (SFE st) @ drop (n + 1) (take (last + 1) (SFE st)) @ (- 1, - 1) # drop (last + 1) (SFE st),
         ss_cnt := ss_cnt st - 1\<rparr>)"

definition set_head :: "int \<times> int \<Rightarrow> sack_stack \<Rightarrow> sack_stack option" where
  "set_head b st = (if SFE st = [] then None else Some (st\<lparr>SFE := (SFE st)[0 := b]\<rparr>))"

section \<open>Selective acknowledgments\<close>

record sacker = acker +
  base_nblocks :: int
  sf :: sack_stack

definition Sacker_reset :: "sacker \<Rightarrow> sacker" where
  "Sacker_reset S = Acker_reset (S\<lparr>sf := stack_reset (sf S)\<rparr>)"

text \<open>\<^verbatim>\<open>configure\<close>, at the creation of the sink, with \<^verbatim>\<open>maxSackBlocks_\<close>; \<^verbatim>\<open>trace\<close> does the same when it changes.\<close>

definition configure :: "int \<Rightarrow> sacker \<Rightarrow> sacker" where
  "configure nblocks S = (let n = (if int NSA < nblocks then int NSA else nblocks) in S\<lparr>sf := SackStack n, base_nblocks := n\<rparr>)"

definition Sacker :: "int \<Rightarrow> sacker" where
  "Sacker nblocks = configure nblocks (acker.extend Acker \<lparr>base_nblocks = - 1, sf = SackStack 0\<rparr>)"

text \<open>The first packet not seen from \<open>i\<close> on, up to the highest one seen.\<close>

fun first_hole :: "'a acker_scheme \<Rightarrow> int list \<Rightarrow> int option option" where
  "first_hole A [] = Some None"
| "first_hole A (i # is) = do { v \<leftarrow> seen_at A i; if v = 0 then Some (Some i) else first_hole A is }"

text \<open>The earlier blocks, as long as there is room; those the most recent one covers are dropped.\<close>

partial_function (option) more_blocks ::
    "sacker \<Rightarrow> int \<Rightarrow> int \<Rightarrow> int \<Rightarrow> sack_stack \<Rightarrow> (int \<times> int) list \<Rightarrow> (sack_stack \<times> (int \<times> int) list) option" where
  "more_blocks S recent_left recent_right k st blocks =
     (if int (length blocks) < base_nblocks S then do {
        (sack_left, sack_right) \<leftarrow> head_block k st;
        if sack_left < 0 \<or> sack_right < 0 \<or> maxseen S + 1 < sack_right then Some (st, blocks)
        else if recent_left \<le> sack_left \<and> sack_right \<le> recent_right
        then more_blocks S recent_left recent_right k (pop k st) blocks
        else more_blocks S recent_left recent_right (k + 1) st (blocks @ [(sack_left, sack_right)])
      } else Some (st, blocks))"

declare make_room.simps [code] deliver.simps [code] more_blocks.simps [code]

text \<open>The blocks of an acknowledgment made on the arrival of packet \<open>old_seqno\<close>, in their order.\<close>

definition append_ack :: "bool \<Rightarrow> int \<Rightarrow> sacker \<Rightarrow> ((int \<times> int) list \<times> sacker) option" where
  "append_ack dsacks old_seqno S =
     (let seqno = Seqno S in
      if old_seqno < 0 then Some ([], S)
      else if maxseen S \<le> seqno \<and> ss_cnt (sf S) \<noteq> 0 then Some ([], S\<lparr>sf := stack_reset (sf S)\<rparr>)
      else if (seqno < maxseen S \<or> is_dup S) \<and> 0 < base_nblocks S then
        let blocks = (if dsacks \<and> is_dup S then [(old_seqno, old_seqno + 1)] else []) in
        if base_nblocks S \<le> int (length blocks) then Some (blocks, S)
        else do {
          hole \<leftarrow> first_hole S [old_seqno..maxseen S];
          let sack_right = (case hole of None \<Rightarrow> maxseen S + 1 | Some i \<Rightarrow> i);
          (sack_left, blocks) \<leftarrow>
            (if old_seqno \<le> seqno then Some (0, blocks)
             else do {
               hole \<leftarrow> first_hole S (rev [seqno + 1..sack_right - 1]);
               let sack_left = (case hole of None \<Rightarrow> - 1 | Some i \<Rightarrow> i + 1);
               Some (sack_left, blocks @ [(sack_left, sack_right)])
             });
          (st, blocks) \<leftarrow> more_blocks S sack_left sack_right 0 (sf S) blocks;
          st \<leftarrow> (if seqno < old_seqno then set_head (sack_left, sack_right) (push st) else Some st);
          Some (blocks, S\<lparr>sf := st\<rparr>)
        }
      else Some ([], S))"

section \<open>The sinks\<close>

text \<open>
  A data packet and an acknowledgment, with the flags of \<^verbatim>\<open>hdr_flags\<close> they use. Quick-Start
  (\<^verbatim>\<open>qs_enabled_\<close>) is off. A sink holds its acker, the delayed packet, the byte count, the
  time of the last reset, and whether the timer of delayed acknowledgments is pending.
\<close>

record data_packet =
  pd_seqno :: int
  pd_size :: int
  pd_ts :: int
  pd_ect :: bool
  pd_ce :: bool
  pd_cong_action :: bool
  pd_ecnecho :: bool

record ack_header =
  ah_seqno :: int
  ah_sacks :: "(int \<times> int) list"
  ah_ts_echo :: int
  ah_ecnecho :: bool
  ah_ect :: bool

record sink_options =
  ts_echo_bugfix :: bool
  ts_echo_rfc1323 :: bool
  generate_dsacks :: bool
  RFC2581_immediate_ack :: bool
  SYN_immediate_ack :: bool
  ecn_syn :: bool

record 'k sink =
  acker_of :: 'k
  sink_save :: "data_packet option"
  sink_bytes :: int
  lastreset :: int
  timer_pending :: bool

text \<open>\<^verbatim>\<open>append_ack\<close> is virtual: that of \<^verbatim>\<open>Acker\<close> adds nothing.\<close>

definition Acker_append_ack :: "int \<Rightarrow> acker \<Rightarrow> ((int \<times> int) list \<times> acker) option" where
  "Acker_append_ack old_seqno A = Some ([], A)"

definition saved :: "(data_packet \<Rightarrow> bool) \<Rightarrow> 'k sink \<Rightarrow> bool" where
  "saved f S = (case sink_save S of None \<Rightarrow> False | Some p \<Rightarrow> f p)"

definition TcpSink_ack ::
    "(int \<Rightarrow> 'a acker_scheme \<Rightarrow> ((int \<times> int) list \<times> 'a acker_scheme) option) \<Rightarrow> sink_options \<Rightarrow> data_packet
      \<Rightarrow> 'a acker_scheme sink \<Rightarrow> (ack_header \<times> 'a acker_scheme sink) option" where
  "TcpSink_ack append_blocks opt opkt S =
     (let A = acker_of S;
          seqno = Seqno A;
          echo = (if ts_echo_bugfix opt then ts_to_echo A else pd_ts opkt);
          A = (if saved pd_cong_action S \<or> pd_cong_action opkt then update_ecn_unacked 0 A else A);
          A = (if saved (\<lambda>p. pd_ect p \<and> pd_ce p) S \<or> pd_ect opkt \<and> pd_ce opkt then update_ecn_unacked 1 A else A);
          ecnecho = ((saved pd_ect S \<or> pd_ect opkt) \<and> ecn_unacked A \<noteq> 0);
          negotiate = (\<not> pd_ect opkt \<and> pd_ecnecho opkt \<or> saved (\<lambda>p. \<not> pd_ect p \<and> pd_ecnecho p) S) in do {
        (blocks, A) \<leftarrow> append_blocks (pd_seqno opkt) A;
        Some (\<lparr>ah_seqno = seqno, ah_sacks = blocks, ah_ts_echo = echo,
               ah_ecnecho = (ecnecho \<or> negotiate), ah_ect = (negotiate \<and> ecn_syn opt)\<rparr>,
              S\<lparr>acker_of := A\<lparr>last_ack_sent := seqno\<rparr>\<rparr>)
      })"

text \<open>What both sinks do first with a packet; one from before the last reset is dropped.\<close>

definition sink_update :: "sink_options \<Rightarrow> data_packet \<Rightarrow> 'a acker_scheme sink \<Rightarrow> 'a acker_scheme sink option" where
  "sink_update opt pkt S = do {
     (numToDeliver, A) \<leftarrow> update (pd_seqno pkt) (pd_size pkt)
        (update_ts (pd_seqno pkt) (pd_ts pkt) (ts_echo_rfc1323 opt) (acker_of S));
     Some (S\<lparr>acker_of := A, sink_bytes := sink_bytes S + numToDeliver\<rparr>)
   }"

definition TcpSink_recv ::
    "(int \<Rightarrow> 'a acker_scheme \<Rightarrow> ((int \<times> int) list \<times> 'a acker_scheme) option) \<Rightarrow> sink_options \<Rightarrow> data_packet
      \<Rightarrow> 'a acker_scheme sink \<Rightarrow> (ack_header list \<times> 'a acker_scheme sink) option" where
  "TcpSink_recv append_blocks opt pkt S =
     (if pd_ts pkt < lastreset S then Some ([], S)
      else do {
        S \<leftarrow> sink_update opt pkt S;
        (h, S) \<leftarrow> TcpSink_ack append_blocks opt pkt S;
        Some ([h], S)
      })"

definition DelAckSink_recv ::
    "(int \<Rightarrow> 'a acker_scheme \<Rightarrow> ((int \<times> int) list \<times> 'a acker_scheme) option) \<Rightarrow> sink_options \<Rightarrow> data_packet
      \<Rightarrow> 'a acker_scheme sink \<Rightarrow> (ack_header list \<times> 'a acker_scheme sink) option" where
  "DelAckSink_recv append_blocks opt pkt S =
     (if pd_ts pkt < lastreset S then Some ([], S)
      else do {
        S \<leftarrow> sink_update opt pkt S;
        if \<not> timer_pending S \<and> pd_seqno pkt = Seqno (acker_of S)
           \<and> \<not> (RFC2581_immediate_ack opt \<and> pd_seqno pkt < maxseen (acker_of S))
           \<and> \<not> (SYN_immediate_ack opt \<and> pd_seqno pkt = 0)
        then Some ([], S\<lparr>sink_save := Some pkt, timer_pending := True\<rparr>)
        else do {
          (h, S) \<leftarrow> TcpSink_ack append_blocks opt pkt (S\<lparr>timer_pending := False\<rparr>);
          Some ([h], S\<lparr>sink_save := None\<rparr>)
        }
      })"

text \<open>The timer of delayed acknowledgments expires; it is not pending any more then.\<close>

definition DelAckSink_timeout ::
    "(int \<Rightarrow> 'a acker_scheme \<Rightarrow> ((int \<times> int) list \<times> 'a acker_scheme) option) \<Rightarrow> sink_options
      \<Rightarrow> 'a acker_scheme sink \<Rightarrow> (ack_header list \<times> 'a acker_scheme sink) option" where
  "DelAckSink_timeout append_blocks opt S =
     (let S = S\<lparr>timer_pending := False\<rparr> in
      case sink_save S of
        None \<Rightarrow> Some ([], S)
      | Some pkt \<Rightarrow> do {
          (h, S) \<leftarrow> TcpSink_ack append_blocks opt pkt S;
          Some ([h], S\<lparr>sink_save := None\<rparr>)
        })"

text \<open>A sink when it is made.\<close>

definition TcpSink :: "'a acker_scheme \<Rightarrow> 'a acker_scheme sink" where
  "TcpSink A = \<lparr>acker_of = A, sink_save = None, sink_bytes = 0, lastreset = 0, timer_pending = False\<rparr>"

text \<open>
  \<^verbatim>\<open>reset\<close> of the two sinks at the time \<open>now\<close>. The \<^verbatim>\<open>reset\<close> of \<^verbatim>\<open>Acker\<close> is not virtual, so that of \<^verbatim>\<open>Sacker\<close> is
  never called by a sink.
\<close>

definition TcpSink_reset :: "int \<Rightarrow> 'a acker_scheme sink \<Rightarrow> 'a acker_scheme sink" where
  "TcpSink_reset now S = S\<lparr>acker_of := Acker_reset (acker_of S), sink_save := None, lastreset := now\<rparr>"

definition DelAckSink_reset :: "int \<Rightarrow> 'a acker_scheme sink \<Rightarrow> 'a acker_scheme sink" where
  "DelAckSink_reset now S = TcpSink_reset now (S\<lparr>timer_pending := False\<rparr>)"

end
