(* ===== verification/Sink_Safety.thy ===== *)
theory Sink_Safety
  imports Sink
begin

text \<open>
  The receiver against its specification: the ring buffer of \<^theory_text>\<open>Sink\<close> represents the function that
  gives the bytes received of every packet, and the blocks of an acknowledgment are runs of
  packets received.
\<close>

section \<open>The ring\<close>

definition ring :: "nat \<Rightarrow> int list \<Rightarrow> int \<Rightarrow> bool" where
  "ring k xs msk \<longleftrightarrow> msk = 2 ^ k - 1 \<and> length xs = 2 ^ k"

definition cell :: "nat \<Rightarrow> int list \<Rightarrow> int \<Rightarrow> int" where
  "cell k xs i = xs ! nat (i mod 2 ^ k)"

lemma and_ring: "i AND (2 ^ k - 1) = i mod 2 ^ k" for i :: int
  by (simp add: take_bit_eq_mask mask_eq_exp_minus_1 flip: take_bit_eq_mod)

lemma nat_mod_less: "nat (i mod 2 ^ k) < 2 ^ k" for i :: int
  by (simp add: nat_less_iff)

lemma ring_get: "ring k xs msk \<Longrightarrow> ring_get xs msk i = Some (cell k xs i)"
  by (simp add: ring_def ring_get_def cell_def and_ring nat_mod_less)

lemma ring_put:
  assumes "ring k xs msk"
  shows "\<exists>ys. ring_put xs msk i v = Some ys \<and> ring k ys msk
    \<and> (\<forall>j. cell k ys j = (if j mod 2 ^ k = i mod 2 ^ k then v else cell k xs j))"
  using assms by (auto simp: ring_def ring_put_def cell_def and_ring nat_mod_less nth_list_update nat_eq_iff)

lemma mod_inj:
  assumes "i mod 2 ^ k = j mod 2 ^ k" and "lo \<le> i" "i \<le> hi" "lo \<le> j" "j \<le> hi" and "hi - lo < 2 ^ k"
  shows "i = (j :: int)"
proof -
  have "2 ^ k dvd (i - j)" using assms(1) by (simp add: mod_eq_dvd_iff)
  then obtain q where q: "i - j = 2 ^ k * q" by (auto elim: dvdE)
  have "\<bar>i - j\<bar> < 2 ^ k" using assms(2-6) by linarith
  then have "\<bar>q\<bar> < 1" using q by (simp add: abs_mult)
  then show ?thesis using q by simp
qed

section \<open>A window of the ring\<close>

definition ring_window :: "nat \<Rightarrow> (int \<Rightarrow> int) \<Rightarrow> int \<Rightarrow> int \<Rightarrow> 'a acker_scheme \<Rightarrow> bool" where
  "ring_window k f lo hi A \<longleftrightarrow> ring k (seen A) (wndmask A) \<and> hi - lo < 2 ^ k \<and> (\<forall>i\<in>{lo..hi}. cell k (seen A) i = f i)"

lemma ring_window_get: "ring_window k f lo hi A \<Longrightarrow> lo \<le> i \<Longrightarrow> i \<le> hi \<Longrightarrow> seen_at A i = Some (f i)"
  by (auto simp: ring_window_def seen_at_def ring_get)

lemma ring_window_put:
  assumes "ring k xs msk" and "hi - lo < 2 ^ k" and "lo \<le> i" "i \<le> hi"
  shows "\<exists>ys. ring_put xs msk i v = Some ys \<and> ring k ys msk
    \<and> (\<forall>j\<in>{lo..hi}. cell k ys j = (if j = i then v else cell k xs j))"
proof -
  obtain ys where ys: "ring_put xs msk i v = Some ys" "ring k ys msk"
    "\<forall>j. cell k ys j = (if j mod 2 ^ k = i mod 2 ^ k then v else cell k xs j)"
    using ring_put [OF assms(1)] by blast
  have "j mod 2 ^ k = i mod 2 ^ k \<longleftrightarrow> j = i" if "j \<in> {lo..hi}" for j
    using mod_inj [of j k i lo hi] that assms by auto
  then show ?thesis using ys by auto
qed

lemma ring_window_set:
  assumes "ring_window k f lo hi A" and "lo \<le> i" "i \<le> hi"
  shows "\<exists>xs. set_seen i v A = Some (A\<lparr>seen := xs\<rparr>) \<and> ring_window k (f(i := v)) lo hi (A\<lparr>seen := xs\<rparr>)"
proof -
  obtain ys where "ring_put (seen A) (wndmask A) i v = Some ys" "ring k ys (wndmask A)"
    "\<forall>j\<in>{lo..hi}. cell k ys j = (if j = i then v else cell k (seen A) j)"
    using ring_window_put [of k "seen A" "wndmask A" hi lo i v] assms by (auto simp: ring_window_def)
  then show ?thesis using assms(1) by (intro exI [of _ ys]) (auto simp: ring_window_def set_seen_def)
qed

lemma ring_window_cong:
  "ring_window k f lo hi A \<Longrightarrow> hi' \<le> hi \<Longrightarrow> (\<And>i. lo \<le> i \<Longrightarrow> i \<le> hi' \<Longrightarrow> f i = g i) \<Longrightarrow> seen A' = seen A \<Longrightarrow> wndmask A' = wndmask A
    \<Longrightarrow> ring_window k g lo hi' A'"
  by (auto simp: ring_window_def)

lemma ring_window_mark:
  assumes "ring_window k f lo hi A" and "lo \<le> i" "j \<le> hi"
  shows "\<exists>xs. mark_unseen [i..j] A = Some (A\<lparr>seen := xs\<rparr>)
    \<and> ring_window k (\<lambda>l. if l \<in> {i..j} then 0 else f l) lo hi (A\<lparr>seen := xs\<rparr>)"
  using assms
proof (induction i j arbitrary: A f rule: upto.induct)
  case (1 i j)
  show ?case
  proof (cases "i \<le> j")
    case False
    then have "ring_window k (\<lambda>l. if l \<in> {i..j} then 0 else f l) lo hi (A\<lparr>seen := seen A\<rparr>)"
      using 1(2) by (auto simp: ring_window_def)
    then show ?thesis using False by (intro exI [of _ "seen A"]) simp
  next
    case True
    obtain xs where xs: "set_seen i 0 A = Some (A\<lparr>seen := xs\<rparr>)" "ring_window k (f(i := 0)) lo hi (A\<lparr>seen := xs\<rparr>)"
      using ring_window_set [OF 1(2,3), of 0] 1(4) True by auto
    obtain ys where ys: "mark_unseen [i + 1..j] (A\<lparr>seen := xs\<rparr>) = Some (A\<lparr>seen := xs, seen := ys\<rparr>)"
      "ring_window k (\<lambda>l. if l \<in> {i + 1..j} then 0 else (f(i := 0)) l) lo hi (A\<lparr>seen := xs, seen := ys\<rparr>)"
      using 1(1) [OF True xs(2)] 1(3,4) by auto
    have "ring_window k (\<lambda>l. if l \<in> {i..j} then 0 else f l) lo hi (A\<lparr>seen := ys\<rparr>)"
      by (rule ring_window_cong [OF ys(2)]) (use True in auto)
    then show ?thesis using True xs(1) ys(1) by (intro exI [of _ ys]) (simp add: upto_rec1)
  qed
qed

text \<open>The copy into another ring.\<close>

lemma ring_window_copy:
  assumes "ring_window k f lo hi A" and "ring k' ns msk'" and "hi - lo < 2 ^ k'" and "lo \<le> i"
  shows "\<exists>ys. copy_window A msk' [i..hi] ns = Some ys \<and> ring k' ys msk'
    \<and> (\<forall>j\<in>{lo..hi}. cell k' ys j = (if i \<le> j then f j else cell k' ns j))"
  using assms
proof (induction i hi arbitrary: ns rule: upto.induct)
  case (1 i hi)
  show ?case
  proof (cases "i \<le> hi")
    case False
    then show ?thesis using 1(3) by (intro exI [of _ ns]) auto
  next
    case True
    obtain xs where xs: "ring_put ns msk' i (f i) = Some xs" "ring k' xs msk'"
      "\<forall>j\<in>{lo..hi}. cell k' xs j = (if j = i then f i else cell k' ns j)"
      using ring_window_put [OF 1(3,4,5) True] by blast
    obtain ys where ys: "copy_window A msk' [i + 1..hi] xs = Some ys" "ring k' ys msk'"
      "\<forall>j\<in>{lo..hi}. cell k' ys j = (if i + 1 \<le> j then f j else cell k' xs j)"
      using 1(1) [OF True 1(2) xs(2) 1(4)] 1(5) by auto
    have "i + 1 \<le> j \<longleftrightarrow> i \<le> j \<and> j \<noteq> i" for j by auto
    then show ?thesis using True xs ys ring_window_get [OF 1(2,5) True]
      by (intro exI [of _ ys]) (auto simp: upto_rec1)
  qed
qed

lemma resize_window:
  assumes "ring_window k f (next_pkt A) (maxseen A + 1) A"
  shows "\<exists>A'. resize_buffers ((wndmask A + 1) * 2) A = Some A'
    \<and> A' = A\<lparr>seen := seen A', wndmask := wndmask A'\<rparr> \<and> ring_window (Suc k) f (next_pkt A) (maxseen A + 1) A'"
proof -
  let ?ns = "replicate (2 ^ Suc k) 0 :: int list"
  have sz: "(wndmask A + 1) * 2 = 2 ^ Suc k" and "maxseen A + 1 - next_pkt A < 2 ^ k"
    using assms by (auto simp: ring_window_def ring_def)
  moreover have "(2 :: int) ^ k < 2 ^ Suc k" by simp
  ultimately have w: "maxseen A + 1 - next_pkt A < 2 ^ Suc k" by linarith
  have r: "ring (Suc k) ?ns (2 ^ Suc k - 1)" by (simp add: ring_def)
  obtain ys where ys: "copy_window A (2 ^ Suc k - 1) [next_pkt A..maxseen A + 1] ?ns = Some ys" "ring (Suc k) ys (2 ^ Suc k - 1)"
    "\<forall>j\<in>{next_pkt A..maxseen A + 1}. cell (Suc k) ys j = (if next_pkt A \<le> j then f j else cell (Suc k) ?ns j)"
    using ring_window_copy [OF assms r w order_refl] by blast
  show ?thesis unfolding resize_buffers_def sz using w ys
    by (intro exI [of _ "A\<lparr>seen := ys, wndmask := 2 ^ Suc k - 1\<rparr>"])
      (simp add: ring_window_def nat_power_eq del: power_Suc)
qed

lemma make_room_window:
  assumes "ring_window k f (next_pkt A) (maxseen A + 1) A" and "seq + 1 - next_pkt A < 2 ^ 30 - 1"
  shows "\<exists>k' A'. make_room seq A = Some A' \<and> A' = A\<lparr>seen := seen A', wndmask := wndmask A'\<rparr> \<and> k \<le> k'
    \<and> ring_window k' f (next_pkt A) (maxseen A + 1) A' \<and> seq + 1 - next_pkt A < wndmask A'"
  using assms
proof (induction "30 - k" arbitrary: k A)
  case 0
  have "2 ^ 30 \<le> (2 :: int) ^ k" using 0(1) by (intro power_increasing) auto
  then have "\<not> wndmask A \<le> seq + 1 - next_pkt A" using 0(2,3) by (auto simp: ring_window_def ring_def)
  then show ?case using 0(2) by (intro exI [of _ k] exI [of _ A]) (simp add: make_room.simps)
next
  case (Suc d)
  show ?case
  proof (cases "wndmask A \<le> seq + 1 - next_pkt A")
    case False
    then show ?thesis using Suc(3) by (intro exI [of _ k] exI [of _ A]) (simp add: make_room.simps)
  next
    case True
    obtain A' where A': "resize_buffers ((wndmask A + 1) * 2) A = Some A'" "A' = A\<lparr>seen := seen A', wndmask := wndmask A'\<rparr>"
      "ring_window (Suc k) f (next_pkt A) (maxseen A + 1) A'" using resize_window [OF Suc(3)] by blast
    have d: "d = 30 - Suc k" using Suc(2) by simp
    have same: "next_pkt A' = next_pkt A" "maxseen A' = maxseen A" by (subst A'(2), simp)+
    have "(2 :: int) ^ Suc k \<le> 2 ^ 30" using Suc(2) by (intro power_increasing) auto
    moreover have "(wndmask A + 1) * 2 = 2 ^ Suc k" using Suc(3) by (auto simp: ring_window_def ring_def)
    ultimately have fits: "(wndmask A + 1) * 2 < 2147483648" by simp
    obtain k' A'' where A'': "make_room seq A' = Some A''" "A'' = A'\<lparr>seen := seen A'', wndmask := wndmask A''\<rparr>" "Suc k \<le> k'"
      "ring_window k' f (next_pkt A) (maxseen A + 1) A''" "seq + 1 - next_pkt A < wndmask A''"
      using Suc(1) [OF d, of A'] Suc(4) A'(3) same by auto
    have "A'' = A\<lparr>seen := seen A'', wndmask := wndmask A''\<rparr>"
      by (subst A''(2), subst A'(2)) simp
    then show ?thesis using True fits A' A''
      by (intro exI [of _ k'] exI [of _ A'']) (auto simp: make_room.simps [of seq A])
  qed
qed

section \<open>What the receiver has received\<close>

text \<open>
  The function \<open>f\<close> gives the bytes received of every packet, 0 of the others. The window of the ring agrees with it
  from the next packet expected, which is the first one missing, to one beyond the highest
  packet seen.
\<close>

definition received_by :: "(int \<Rightarrow> int) \<Rightarrow> 'a acker_scheme \<Rightarrow> bool" where
  "received_by f A \<longleftrightarrow> (\<exists>k\<ge>1. ring_window k f (next_pkt A) (maxseen A + 1) A)
     \<and> 0 \<le> next_pkt A \<and> next_pkt A \<le> maxseen A + 1 \<and> f (next_pkt A) = 0
     \<and> (\<forall>i\<in>{0..<next_pkt A}. 0 < f i) \<and> (\<forall>i>maxseen A. f i = 0) \<and> (\<forall>i<0. f i = 0) \<and> (\<forall>i. 0 \<le> f i)"

lemma received_seen:
  "received_by f A \<Longrightarrow> next_pkt A \<le> i \<Longrightarrow> i \<le> maxseen A + 1 \<Longrightarrow> seen_at A i = Some (f i)"
  by (auto simp: received_by_def ring_window_get)

lemma received_cong:
  "received_by f A \<Longrightarrow> seen A' = seen A \<Longrightarrow> wndmask A' = wndmask A \<Longrightarrow> next_pkt A' = next_pkt A \<Longrightarrow> maxseen A' = maxseen A
    \<Longrightarrow> received_by f A'"
  by (simp add: received_by_def ring_window_def)

lemma Acker_received: "received_by (\<lambda>_. 0) Acker"
proof -
  have "ring_window 6 (\<lambda>_. 0) 0 1 Acker"
    by (auto simp: ring_window_def ring_def cell_def Acker_def MWM_def MWS_def)
  then have "\<exists>k\<ge>1. ring_window k (\<lambda>_. 0) (next_pkt Acker) (maxseen Acker + 1) Acker"
    by (intro exI [of _ 6]) (simp add: Acker_def)
  then show ?thesis by (simp add: received_by_def Acker_def)
qed

lemma reset_received:
  assumes "received_by f A"
  shows "received_by (\<lambda>_. 0) (Acker_reset A)"
proof -
  obtain k where k: "ring k (seen A) (wndmask A)" "1 \<le> k" using assms by (auto simp: received_by_def ring_window_def)
  moreover have "(1 :: int) < 2 ^ k" using k(2) by (simp add: one_less_power)
  ultimately have "ring_window k (\<lambda>_. 0) 0 1 (Acker_reset A)"
    using nat_mod_less [of _ k] by (simp add: ring_window_def ring_def cell_def Acker_reset_def nat_power_eq)
  then show ?thesis using k(2) by (auto simp: received_by_def Acker_reset_def)
qed

section \<open>The arrival of a packet\<close>

definition first_missing :: "(int \<Rightarrow> int) \<Rightarrow> int \<Rightarrow> int \<Rightarrow> bool" where
  "first_missing f lo m \<longleftrightarrow> lo \<le> m \<and> f m = 0 \<and> (\<forall>i\<in>{lo..<m}. f i \<noteq> 0)"

lemma first_missing_unique: "first_missing f lo m \<Longrightarrow> first_missing f lo m' \<Longrightarrow> m' = m"
  unfolding first_missing_def by (metis atLeastLessThan_iff linorder_neqE)

lemma deliver_window:
  assumes "ring_window k f lo (hi + 1) A" and "f (hi + 1) = 0" and "lo \<le> nxt" "nxt \<le> hi + 1"
  shows "\<exists>m. deliver A nxt acc = Some (m, acc + sum f {nxt..<m}) \<and> first_missing f nxt m \<and> m \<le> hi + 1"
  using assms(3,4)
proof (induction "nat (hi + 1 - nxt)" arbitrary: nxt acc)
  case 0
  then have "nxt = hi + 1" by simp
  then show ?case using ring_window_get [OF assms(1), of nxt] assms(2) 0(2)
    by (simp add: deliver.simps first_missing_def)
next
  case (Suc n)
  have le: "nxt + 1 \<le> hi + 1" "n = nat (hi + 1 - (nxt + 1))" using Suc(2) by simp_all
  have get: "seen_at A nxt = Some (f nxt)" using ring_window_get [OF assms(1)] Suc(3,4) by simp
  show ?case
  proof (cases "f nxt = 0")
    case True
    then show ?thesis using get Suc(3,4) by (simp add: deliver.simps first_missing_def)
  next
    case False
    obtain m where m: "deliver A (nxt + 1) (acc + f nxt) = Some (m, acc + f nxt + sum f {nxt + 1..<m})"
      "first_missing f (nxt + 1) m" "m \<le> hi + 1"
      using Suc(1) [OF le(2) _ le(1), of "acc + f nxt"] Suc(3) by auto
    have "{nxt..<m} = insert nxt {nxt + 1..<m}" using m(2) by (auto simp: first_missing_def)
    then show ?thesis using m get False by (auto simp: deliver.simps [of A nxt] first_missing_def)
  qed
qed

lemma extend_window_ok:
  assumes "ring_window k f lo (maxseen A + 1) A" and "\<And>i. maxseen A < i \<Longrightarrow> f i = 0"
    and "maxseen A < seq" and "seq + 1 - lo < 2 ^ k" and "lo \<le> maxseen A + 1"
  shows "\<exists>xs. extend_window seq n A = Some (A\<lparr>seen := xs, maxseen := seq\<rparr>)
    \<and> ring_window k (f(seq := n)) lo (seq + 1) (A\<lparr>seen := xs, maxseen := seq\<rparr>)"
proof -
  let ?g = "cell k (seen A)"
  let ?g' = "\<lambda>l. if l \<in> {maxseen A + 1..seq - 1} then 0 else ?g l"
  have "ring_window k ?g lo (seq + 1) A" using assms(1,4) by (simp add: ring_window_def)
  from ring_window_mark [OF this, of "maxseen A + 1" "seq - 1"] assms(3,5)
  obtain xs where xs: "mark_unseen [maxseen A + 1..seq - 1] A = Some (A\<lparr>seen := xs\<rparr>)"
    "ring_window k ?g' lo (seq + 1) (A\<lparr>seen := xs\<rparr>)" by auto
  let ?A1 = "A\<lparr>seen := xs, maxseen := seq\<rparr>"
  have "ring_window k ?g' lo (seq + 1) ?A1" by (rule ring_window_cong [OF xs(2)]) auto
  from ring_window_set [OF this, of seq n] assms(3,5)
  obtain ys where ys: "set_seen seq n ?A1 = Some (?A1\<lparr>seen := ys\<rparr>)"
    "ring_window k (?g'(seq := n)) lo (seq + 1) (?A1\<lparr>seen := ys\<rparr>)" by auto
  from ring_window_set [OF ys(2), of "seq + 1" 0] assms(3,5)
  obtain zs where zs: "set_seen (seq + 1) 0 (?A1\<lparr>seen := ys\<rparr>) = Some (?A1\<lparr>seen := ys, seen := zs\<rparr>)"
    "ring_window k (?g'(seq := n, seq + 1 := 0)) lo (seq + 1) (?A1\<lparr>seen := ys, seen := zs\<rparr>)" by auto
  have "ring_window k (f(seq := n)) lo (seq + 1) (A\<lparr>seen := zs, maxseen := seq\<rparr>)"
    by (rule ring_window_cong [OF zs(2)]) (use assms(1,2,3) in \<open>auto simp: ring_window_def\<close>)
  then show ?thesis using xs(1) ys(1) zs(1) by (intro exI [of _ zs]) (simp add: extend_window_def)
qed

text \<open>What was received after packet \<open>seq\<close> of \<open>n\<close> bytes.\<close>

definition arrived :: "'a acker_scheme \<Rightarrow> (int \<Rightarrow> int) \<Rightarrow> int \<Rightarrow> int \<Rightarrow> int \<Rightarrow> int" where
  "arrived A f seq n = (if seq < next_pkt A then f else f(seq := n))"

text \<open>How \<open>update\<close> leaves the receiver and how many bytes it delivers.\<close>

definition updated :: "(int \<Rightarrow> int) \<Rightarrow> int \<Rightarrow> int \<Rightarrow> 'a acker_scheme \<Rightarrow> int \<Rightarrow> 'a acker_scheme \<Rightarrow> bool" where
  "updated f seq n A d A' \<longleftrightarrow> received_by (arrived A f seq n) A' \<and> first_missing (arrived A f seq n) 0 (next_pkt A')
     \<and> maxseen A' = max (maxseen A) seq \<and> (is_dup A' \<longleftrightarrow> 0 < f seq) \<and> next_pkt A \<le> next_pkt A'
     \<and> (\<exists>k. ring_window k (arrived A f seq n) (next_pkt A) (maxseen A' + 1) A')
     \<and> d = sum (arrived A f seq n) {next_pkt A..<next_pkt A'}
     \<and> A' = A\<lparr>next_pkt := next_pkt A', maxseen := maxseen A', wndmask := wndmask A', seen := seen A', is_dup := is_dup A'\<rparr>"

lemma update_ok:
  assumes f: "received_by f A" and seq: "0 \<le> seq" "seq < 1073741822" and n: "0 < n"
  shows "\<exists>d A'. update seq n A = Some (d, A') \<and> updated f seq n A d A'"
proof -
  let ?A0 = "A\<lparr>is_dup := False\<rparr>" and ?nx = "next_pkt A"
  let ?M = "max (maxseen A) seq"
  note F = f [unfolded received_by_def]
  have nx: "0 \<le> ?nx" "?nx \<le> maxseen A + 1" and pos: "\<And>i. 0 \<le> i \<Longrightarrow> i < ?nx \<Longrightarrow> 0 < f i"
    and z: "\<And>i. maxseen A < i \<Longrightarrow> f i = 0" "\<And>i. i < 0 \<Longrightarrow> f i = 0" "\<And>i. 0 \<le> f i" "f ?nx = 0" using F by auto
  obtain k where k: "1 \<le> k" "ring_window k f ?nx (maxseen A + 1) A" using F by blast
  have "ring_window k f (next_pkt ?A0) (maxseen ?A0 + 1) ?A0" by (simp, rule ring_window_cong [OF k(2)]) auto
  from make_room_window [OF this, of seq] seq nx
  obtain k1 A1 where A1: "make_room seq ?A0 = Some A1" "A1 = ?A0\<lparr>seen := seen A1, wndmask := wndmask A1\<rparr>" "k \<le> k1"
    "ring_window k1 f ?nx (maxseen A + 1) A1" "seq + 1 - ?nx < wndmask A1" by auto
  have same: "next_pkt A1 = ?nx" "maxseen A1 = maxseen A" "is_dup A1 = False" by (subst A1(2), simp)+
  have wide: "seq + 1 - ?nx < 2 ^ k1" using A1(4,5) by (auto simp: ring_window_def ring_def)
  let ?f' = "arrived A f seq n"
  have "\<exists>A2. (if maxseen A < seq then extend_window seq n A1 else Some A1) = Some A2
      \<and> ring_window k1 (if maxseen A < seq then f(seq := n) else f) ?nx (?M + 1) A2
      \<and> A2 = A1\<lparr>seen := seen A2, maxseen := ?M\<rparr>"
  proof (cases "maxseen A < seq")
    case False
    then show ?thesis using A1(4) same by (auto simp: max_def)
  next
    case True
    then show ?thesis using extend_window_ok [of k1 f ?nx A1 seq n] A1(4) same z(1) wide nx
      by (auto simp: max_def)
  qed
  then obtain A2 where A2: "(if maxseen A < seq then extend_window seq n A1 else Some A1) = Some A2"
    "ring_window k1 (if maxseen A < seq then f(seq := n) else f) ?nx (?M + 1) A2"
    "A2 = A1\<lparr>seen := seen A2, maxseen := ?M\<rparr>" by blast
  have same2: "next_pkt A2 = ?nx" "maxseen A2 = ?M" "is_dup A2 = False" by (subst A2(3), simp add: same)+
  have A2': "A2 = A\<lparr>is_dup := False, seen := seen A2, wndmask := wndmask A2, maxseen := ?M\<rparr>"
    by (subst A2(3), subst A1(2), subst A2(3)) simp
  have base: "0 \<le> ?f' i" "?M < i \<Longrightarrow> ?f' i = 0" "i < 0 \<Longrightarrow> ?f' i = 0" "0 \<le> i \<Longrightarrow> i < ?nx \<Longrightarrow> 0 < ?f' i" for i
    using z pos nx n seq by (auto simp: arrived_def)
  show ?thesis
  proof (cases "seq < ?nx")
    case True
    then have notnew: "\<not> maxseen A < seq" "?f' = f" using nx by (auto simp: arrived_def)
    let ?A' = "A2\<lparr>is_dup := True\<rparr>"
    have "ring_window k1 f ?nx (?M + 1) ?A'" using A2(2) notnew by (auto simp: ring_window_def)
    then have rec: "received_by f ?A'" using base notnew(2) nx z(4) k(1) A1(3)
      by (auto simp: received_by_def same2 intro!: exI [of _ k1])
    moreover have "first_missing f 0 ?nx" using pos z(4) nx by (auto simp: first_missing_def less_le)
    moreover have "?A' = A\<lparr>next_pkt := next_pkt ?A', maxseen := maxseen ?A', wndmask := wndmask ?A', seen := seen ?A', is_dup := True\<rparr>"
      using arg_cong [OF A2', of "is_dup_update (\<lambda>_. True)"] by (simp add: same2)
    ultimately have "updated f seq n A 0 ?A'" using True notnew pos [of seq] seq
      unfolding updated_def using \<open>ring_window k1 f ?nx (?M + 1) ?A'\<close> by (auto simp: same2)
    then show ?thesis using True notnew A1(1) A2(1) same same2 by (auto simp: update_def Let_def)
  next
    case False
    let ?dup = "maxseen A \<ge> seq \<and> f seq \<noteq> 0"
    let ?A3 = "if ?dup then A2\<lparr>is_dup := True\<rparr> else A2"
    have A3: "?A3 = A2\<lparr>is_dup := ?dup\<rparr>" by (rule acker.equality) (simp_all add: same2)
    have w3: "ring_window k1 (if maxseen A < seq then f(seq := n) else f) ?nx (?M + 1) ?A3"
      using A2(2) by (auto simp: ring_window_def)
    have "?nx \<le> seq" "seq \<le> ?M + 1" using False by simp_all
    from ring_window_set [OF w3 this, of n]
    obtain xs where xs: "set_seen seq n ?A3 = Some (?A3\<lparr>seen := xs\<rparr>)"
      "ring_window k1 ((if maxseen A < seq then f(seq := n) else f)(seq := n)) ?nx (?M + 1) (?A3\<lparr>seen := xs\<rparr>)" by auto
    have w: "ring_window k1 ?f' ?nx (?M + 1) (?A3\<lparr>seen := xs\<rparr>)"
      by (rule ring_window_cong [OF xs(2)]) (use False in \<open>auto simp: arrived_def\<close>)
    have "?nx \<le> ?M + 1" using nx by simp
    from deliver_window [OF w base(2) order_refl this, of 0]
    obtain m where m: "deliver (?A3\<lparr>seen := xs\<rparr>) ?nx 0 = Some (m, sum ?f' {?nx..<m})" "first_missing ?f' ?nx m" "m \<le> ?M + 1"
      by (auto simp del: le_max_iff_disj)
    let ?A' = "?A3\<lparr>seen := xs, next_pkt := m\<rparr>"
    have miss: "first_missing ?f' 0 m" using m(2) nx base(4) unfolding first_missing_def by fastforce
    have w': "ring_window k1 ?f' ?nx (?M + 1) ?A'" using w by (auto simp: ring_window_def)
    have "ring_window k1 ?f' m (?M + 1) ?A'" using w m(2) by (auto simp: ring_window_def first_missing_def)
    then have rec: "received_by ?f' ?A'" using miss base m(3) k(1) A1(3)
      by (auto simp: received_by_def same2 first_missing_def less_le intro!: exI [of _ k1])
    have dup: "?dup \<longleftrightarrow> 0 < f seq" using z(1) [of seq] z(3) [of seq] by fastforce
    have eq: "?A' = A\<lparr>next_pkt := next_pkt ?A', maxseen := maxseen ?A', wndmask := wndmask ?A', seen := seen ?A', is_dup := is_dup ?A'\<rparr>"
      unfolding A3 using arg_cong [OF A2', of "\<lambda>B. B\<lparr>is_dup := ?dup, seen := xs, next_pkt := m\<rparr>"] by (simp add: same2)
    have A': "next_pkt ?A' = m" "maxseen ?A' = ?M" "is_dup ?A' \<longleftrightarrow> 0 < f seq" "?nx \<le> m" using same2 m(2) dup by (auto simp: first_missing_def)
    have upd: "updated f seq n A (sum ?f' {?nx..<m}) ?A'"
      unfolding updated_def by (intro conjI exI [of _ k1]; (rule rec eq | simp only: A' miss w'))
    let ?v = "(if maxseen A < seq then f(seq := n) else f) seq"
    have get: "seen_at A2 seq = Some ?v" using ring_window_get [OF A2(2)] False by simp
    have "update seq n A = Some (sum ?f' {?nx..<m}, ?A')"
      using False A1(1) A2(1) same same2 xs(1) m(1) get
      by (cases "maxseen A < seq"; cases "f seq = 0"; simp add: update_def Let_def)
    then show ?thesis using upd by blast
  qed
qed

section \<open>The stack of blocks\<close>

definition stack_of :: "nat \<Rightarrow> (int \<times> int) list \<Rightarrow> sack_stack" where
  "stack_of n es = \<lparr>ss_size = int n, ss_cnt = int (length es), SFE = es @ replicate (n - length es) (- 1, - 1)\<rparr>"

lemma SackStack_empty: "SackStack (int n) = stack_of n []"
  by (simp add: SackStack_def stack_of_def)

lemma stack_cnt [simp]: "ss_cnt (stack_of n es) = int (length es)"
  by (simp add: stack_of_def)

lemma stack_reset_empty: "length es \<le> n \<Longrightarrow> stack_reset (stack_of n es) = stack_of n []"
  by (simp add: stack_reset_def stack_of_def flip: replicate_add)

lemma pop_stack:
  assumes "length (pre @ e # suf) \<le> n"
  shows "pop (int (length pre)) (stack_of n (pre @ e # suf)) = stack_of n (pre @ suf)"
proof -
  have "n - (length pre + length suf) = Suc (n - (length pre + Suc (length suf)))" using assms by simp
  then show ?thesis using assms by (simp add: pop_def stack_of_def Let_def max_def nat_int_add Suc_diff_le)
qed

lemma push_stack:
  assumes "length es \<le> n" "0 < n"
  shows "set_head b (push (stack_of n es)) = Some (stack_of n (take n (b # es)))"
proof -
  have "\<exists>m. n = Suc m" using assms(2) by (intro exI [of _ "n - 1"]) simp
  then show ?thesis using assms
    by (cases "length es = n"; cases es; auto simp: set_head_def push_def stack_of_def Let_def Suc_diff_le take_Cons' drop_Cons'
      nat_diff_distrib)
qed

lemma head_stack:
  "k < n \<Longrightarrow> length es \<le> n \<Longrightarrow> head_block (int k) (stack_of n es) = Some (if k < length es then es ! k else (- 1, - 1))"
  by (simp add: head_block_def stack_of_def nth_append)

text \<open>The loop over the earlier blocks: those the recent block covers leave the stack.\<close>

definition covered_block :: "int \<Rightarrow> int \<Rightarrow> int \<times> int \<Rightarrow> bool" where
  "covered_block left right e \<longleftrightarrow> left \<le> fst e \<and> snd e \<le> right"

lemma more_blocks_stack:
  assumes "base_nblocks S = int n" and "\<forall>(l, r)\<in>set suf. 0 \<le> l \<and> 0 \<le> r \<and> r \<le> maxseen S + 1"
    and "length (pre @ suf) \<le> n" and "length pre \<le> length B"
  shows "\<exists>rest. more_blocks S left right (int (length pre)) (stack_of n (pre @ suf)) B
      = Some (stack_of n (pre @ take (n - length B) (filter (Not \<circ> covered_block left right) suf) @ rest),
              B @ take (n - length B) (filter (Not \<circ> covered_block left right) suf))
    \<and> (length (filter (Not \<circ> covered_block left right) suf) < n - length B \<longrightarrow> rest = [])
    \<and> length (pre @ take (n - length B) (filter (Not \<circ> covered_block left right) suf) @ rest) \<le> n"
  using assms(2-)
proof (induction suf arbitrary: pre B)
  case Nil
  then have "int (length B) < int n \<longrightarrow> head_block (int (length pre)) (stack_of n pre) = Some (- 1, - 1)"
    by (simp add: head_stack)
  then show ?case using assms(1) Nil by (intro exI [of _ "[]"]) (auto simp: more_blocks.simps)
next
  case (Cons e suf)
  show ?case
  proof (cases "length B < n")
    case False
    then show ?thesis using assms(1) Cons(3,4) by (auto simp: more_blocks.simps)
  next
    case True
    obtain l r where e: "e = (l, r)" by (cases e)
    have head: "head_block (int (length pre)) (stack_of n (pre @ e # suf)) = Some (l, r)"
      using Cons(3,4) e True by (simp add: head_stack nth_append)
    have "0 \<le> l" "0 \<le> r" "r \<le> maxseen S + 1" using Cons(2) e by auto
    then have step: "more_blocks S left right (int (length pre)) (stack_of n (pre @ e # suf)) B =
      (if covered_block left right e then more_blocks S left right (int (length pre)) (stack_of n (pre @ suf)) B
       else more_blocks S left right (int (length (pre @ [e]))) (stack_of n ((pre @ [e]) @ suf)) (B @ [e]))"
      using assms(1) head Cons(3) True e
      by (subst more_blocks.simps) (simp add: covered_block_def pop_stack add.commute)
    show ?thesis
    proof (cases "covered_block left right e")
      case True
      then show ?thesis unfolding step using Cons(1) [of pre B] Cons(2-) by simp
    next
      case False
      have "n - length B = Suc (n - length (B @ [e]))" using True by simp
      then show ?thesis unfolding step using False Cons(1) [of "pre @ [e]" "B @ [e]"] Cons(2-) by auto
    qed
  qed
qed

section \<open>The blocks of an acknowledgment\<close>

text \<open>The first hole, and the last one, of a range of the window.\<close>

definition first_zero :: "(int \<Rightarrow> int) \<Rightarrow> int list \<Rightarrow> int option" where
  "first_zero g is = find (\<lambda>i. g i = 0) is"

lemma first_hole_find:
  "(\<And>i. i \<in> set is \<Longrightarrow> seen_at A i = Some (g i)) \<Longrightarrow> first_hole A is = Some (first_zero g is)"
  by (induction "is") (auto simp: first_zero_def)

lemma first_zero_up:
  assumes "first_missing g i m" and "g (j + 1) = 0" and "i \<le> j + 1"
  shows "(case first_zero g [i..j] of None \<Rightarrow> j + 1 | Some h \<Rightarrow> h) = m"
  using assms
proof (induction i j rule: upto.induct)
  case (1 i j)
  show ?case
  proof (cases "i \<le> j \<and> g i \<noteq> 0")
    case True
    then have "first_missing g (i + 1) m" using 1(2) by (auto simp: first_missing_def order_le_less)
    then show ?thesis using True 1 by (simp add: first_zero_def upto_rec1)
  next
    case False
    then show ?thesis using 1(2-4) by (auto simp: first_zero_def upto_rec1 first_missing_def order_le_less)
  qed
qed

lemma first_zero_down:
  assumes "a \<le> b" and "g a = 0"
  shows "\<exists>h. first_zero g (rev [a..b]) = Some h \<and> a \<le> h \<and> h \<le> b \<and> g h = 0 \<and> (\<forall>i. h < i \<and> i \<le> b \<longrightarrow> g i \<noteq> 0)"
  using assms(1)
proof (induction rule: int_ge_induct)
  case base
  then show ?case using assms(2) by (intro exI [of _ a]) (simp add: first_zero_def)
next
  case (step b)
  then obtain h where h: "first_zero g (rev [a..b]) = Some h" "a \<le> h" "h \<le> b" "g h = 0" "\<forall>i. h < i \<and> i \<le> b \<longrightarrow> g i \<noteq> 0" by blast
  have up: "rev [a..b + 1] = (b + 1) # rev [a..b]" using step(1) upto_rec2 [of a "b + 1"] by simp
  show ?case
  proof (cases "g (b + 1) = 0")
    case True
    then show ?thesis using step(1) by (intro exI [of _ "b + 1"]) (simp add: up first_zero_def)
  next
    case False
    then have "\<forall>i. h < i \<and> i \<le> b + 1 \<longrightarrow> g i \<noteq> 0" using h(5) by (metis order_le_less zle_add1_eq_le)
    then show ?thesis using False h by (intro exI [of _ h]) (simp add: up first_zero_def)
  qed
qed

text \<open>
  A block of packets received above \<open>lo\<close>, maximal except that it may end at packet \<open>p\<close>, which
  arrived after the block was made.
\<close>

definition block :: "int \<Rightarrow> int \<Rightarrow> (int \<Rightarrow> int) \<Rightarrow> int \<Rightarrow> int \<times> int \<Rightarrow> bool" where
  "block lo p f hi = (\<lambda>(l, r). lo < l \<and> l < r \<and> r \<le> hi \<and> (\<forall>i\<in>{l..<r}. 0 < f i)
     \<and> (f (l - 1) = 0 \<or> l - 1 = p) \<and> (f r = 0 \<or> r = p))"

definition apart :: "int \<times> int \<Rightarrow> int \<times> int \<Rightarrow> bool" where
  "apart = (\<lambda>(l, r) (l', r'). r < l' \<or> r' < l)"

definition blocks_of :: "int \<Rightarrow> int \<Rightarrow> (int \<Rightarrow> int) \<Rightarrow> int \<Rightarrow> (int \<times> int) list \<Rightarrow> bool" where
  "blocks_of lo p f hi es \<longleftrightarrow> (\<forall>e\<in>set es. block lo p f hi e) \<and> sorted_wrt apart es"

lemma blocks_of_Nil [simp]: "blocks_of lo p f hi []"
  by (simp add: blocks_of_def)

lemma blocks_of_mono:
  "blocks_of lo p f hi es \<Longrightarrow> (\<And>e. e \<in> set es \<Longrightarrow> block lo p f hi e \<Longrightarrow> block lo' p' f' hi' e) \<Longrightarrow> blocks_of lo' p' f' hi' es"
  by (simp add: blocks_of_def)

lemma blocks_of_filter:
  "blocks_of lo p f hi es \<Longrightarrow> (\<And>e. e \<in> set es \<Longrightarrow> P e \<Longrightarrow> block lo p f hi e \<Longrightarrow> block lo' p' f hi e) \<Longrightarrow> blocks_of lo' p' f hi (filter P es)"
  by (auto simp: blocks_of_def sorted_wrt_filter)

lemma blocks_of_take: "blocks_of lo p f hi es \<Longrightarrow> blocks_of lo p f hi (take n es)"
  by (auto simp: blocks_of_def sorted_wrt_take dest: in_set_takeD)

lemma block_settle:
  assumes "block lo p f hi e" and "nx \<le> lo + 1" "p < nx" "f nx = 0" "0 \<le> nx"
  shows "block nx (- 1) f hi e"
proof -
  obtain l r where e: "e = (l, r)" by (cases e)
  then have "0 < f l" "nx \<le> l" using assms(1,2) by (simp_all add: block_def)
  then have "nx < l" using assms(4) by (cases "nx = l") auto
  then show ?thesis using assms e by (auto simp: block_def)
qed

lemma block_arrive:
  assumes "block lo (- 1) f hi e" and "0 \<le> lo" "hi \<le> hi'" "0 < m"
  shows "block lo seq (f(seq := m)) hi' e" and "block lo seq f hi' e"
proof -
  obtain l r where e: "e = (l, r)" by (cases e)
  show "block lo seq (f(seq := m)) hi' e" "block lo seq f hi' e" using assms by (auto simp: e block_def)
qed

text \<open>A run that touches a maximal one is part of it.\<close>

lemma touching_covered:
  assumes "block lo p f hi (l, r)" and "f (L - 1) = 0" "f R = 0" and "l \<le> R" "L \<le> r"
  shows "covered_block L R (l, r)"
proof -
  have "0 < f i" if "l \<le> i" "i < r" for i using assms(1) that by (auto simp: block_def)
  from this [of "L - 1"] this [of R] show ?thesis using assms(2-) by (force simp: covered_block_def)
qed

section \<open>The stack after an acknowledgment\<close>

definition history :: "nat \<Rightarrow> int \<Rightarrow> int \<Rightarrow> (int \<Rightarrow> int) \<Rightarrow> sacker \<Rightarrow> bool" where
  "history n lo p f S \<longleftrightarrow> base_nblocks S = int n \<and> 0 \<le> lo \<and> lo \<le> next_pkt S \<and> (\<exists>k. ring_window k f lo (maxseen S + 1) S)
     \<and> (\<exists>es. sf S = stack_of n es \<and> length es \<le> n \<and> blocks_of lo p f (maxseen S + 1) es)"

lemma history_weaken: "history n lo (- 1) f S \<Longrightarrow> history n lo p f S"
  unfolding history_def
  by (elim conjE exE, intro conjI) (auto 5 5 elim!: blocks_of_mono simp: block_def)

text \<open>A packet at the left edge of the window can be forgotten when it closes no earlier block.\<close>

lemma history_settle:
  assumes "history n lo p f S" and "received_by f S" and "next_pkt S \<le> lo + 1" "p < next_pkt S"
  shows "history n (next_pkt S) (- 1) f S"
proof -
  obtain es where es: "sf S = stack_of n es" "length es \<le> n" "blocks_of lo p f (maxseen S + 1) es"
    using assms(1) by (auto simp: history_def)
  have "f (next_pkt S) = 0" using assms(2) by (simp add: received_by_def)
  then have "blocks_of (next_pkt S) (- 1) f (maxseen S + 1) es"
    using es(3) assms(2-4) by (elim blocks_of_mono) (auto simp: received_by_def elim!: block_settle)
  then show ?thesis using es assms(1,2) by (auto simp: history_def received_by_def)
qed

lemma history_arrive:
  assumes "history n (next_pkt S) (- 1) f S" and "received_by f S" and "updated f seq m S d S'" and "0 < m"
  shows "history n (next_pkt S) seq (arrived S f seq m) S'"
proof -
  obtain es where es: "sf S = stack_of n es" "length es \<le> n" "blocks_of (next_pkt S) (- 1) f (maxseen S + 1) es"
    using assms(1) by (auto simp: history_def)
  let ?f' = "arrived S f seq m"
  have S': "S' = S\<lparr>next_pkt := next_pkt S', maxseen := maxseen S', wndmask := wndmask S', seen := seen S', is_dup := is_dup S'\<rparr>"
    and hi: "maxseen S + 1 \<le> maxseen S' + 1" and le: "next_pkt S \<le> next_pkt S'"
    and w: "\<exists>k. ring_window k ?f' (next_pkt S) (maxseen S' + 1) S'"
    using assms(3) unfolding updated_def by (blast, auto)
  have keep: "sf S' = sf S" "base_nblocks S' = base_nblocks S" using arg_cong [OF S', of sf] arg_cong [OF S', of base_nblocks] by simp_all
  have "0 \<le> next_pkt S" using assms(2) by (simp add: received_by_def)
  then have "blocks_of (next_pkt S) seq ?f' (maxseen S' + 1) es"
    using es(3) hi assms(4) by (elim blocks_of_mono) (simp add: arrived_def block_arrive)
  then have "sf S' = stack_of n es \<and> length es \<le> n \<and> blocks_of (next_pkt S) seq ?f' (maxseen S' + 1) es"
    using es(1,2) keep(1) by simp
  moreover have "base_nblocks S' = int n" using assms(1) keep(2) by (simp add: history_def)
  ultimately show ?thesis using le w \<open>0 \<le> next_pkt S\<close> unfolding history_def by blast
qed

lemma first_missing_ex:
  assumes "f j = 0" and "i \<le> j"
  shows "\<exists>m. first_missing f i m \<and> m \<le> j"
  using assms(2)
proof (induction rule: int_le_induct)
  case base
  then show ?case using assms(1) by (intro exI [of _ j]) (simp add: first_missing_def)
next
  case (step i)
  then obtain m where m: "first_missing f i m" "m \<le> j" by blast
  show ?case
  proof (cases "f (i - 1) = 0")
    case True
    then show ?thesis using step(1) by (intro exI [of _ "i - 1"]) (simp add: first_missing_def)
  next
    case False
    have "f k \<noteq> 0" if "i - 1 \<le> k" "k < m" for k
      using m(1) False that by (cases "k = i - 1") (auto simp: first_missing_def)
    then have "first_missing f (i - 1) m" using m(1) by (auto simp: first_missing_def)
    then show ?thesis using m by blast
  qed
qed

text \<open>The block of a packet that arrived above the left edge.\<close>

lemma recent_block:
  assumes "received_by f S" and "next_pkt S < old" "old \<le> maxseen S" "0 < f old"
  shows "\<exists>L R. first_missing f old R \<and> R \<le> maxseen S + 1 \<and> L \<le> old \<and> old < R
    \<and> first_hole S (rev [next_pkt S..R - 1]) = Some (Some (L - 1)) \<and> block (next_pkt S) (- 1) f (maxseen S + 1) (L, R)
    \<and> f (L - 1) = 0 \<and> f R = 0"
proof -
  let ?nx = "next_pkt S"
  have f: "f ?nx = 0" "f (maxseen S + 1) = 0" "0 \<le> f i" for i using assms(1) by (auto simp: received_by_def)
  from first_missing_ex [of f, OF f(2), of old] assms(3)
  obtain R where R: "first_missing f old R" "R \<le> maxseen S + 1" by auto
  have "old < R" using R(1) assms(4) by (auto simp: first_missing_def order_le_less)
  have "?nx \<le> R - 1" using assms(2) \<open>old < R\<close> by simp
  from first_zero_down [of _ _ f, OF this f(1)]
  obtain h where h: "first_zero f (rev [?nx..R - 1]) = Some h" "?nx \<le> h" "h \<le> R - 1" "f h = 0"
    "\<forall>i. h < i \<and> i \<le> R - 1 \<longrightarrow> f i \<noteq> 0" by blast
  have "first_hole S (rev [?nx..R - 1]) = Some (first_zero f (rev [?nx..R - 1]))"
    using received_seen [OF assms(1)] R(2) by (intro first_hole_find) auto
  moreover have "h < old"
    using R(1) h(3,4) assms(4) by (force simp: first_missing_def)
  moreover have "block ?nx (- 1) f (maxseen S + 1) (h + 1, R)"
    using h R f(3) \<open>h < old\<close> \<open>old < R\<close> by (auto simp: block_def first_missing_def less_le)
  ultimately show ?thesis using h(1,4) R \<open>old < R\<close>
    by (intro exI [of _ "h + 1"] exI [of _ R]) (simp add: first_missing_def)
qed

lemma kept_apart:
  assumes "block lo p f hi e" and "\<not> covered_block L R e" and "f (L - 1) = 0" "f R = 0"
  shows "apart (L, R) e"
proof -
  obtain l r where e: "e = (l, r)" by (cases e)
  have "\<not> (l \<le> R \<and> L \<le> r)" using touching_covered [OF assms(1) [unfolded e] assms(3,4)] assms(2) by (auto simp: e)
  then show ?thesis by (auto simp: apart_def e)
qed

lemma kept_block:
  assumes "block lo p f hi e" and "apart (L, R) e" and "L \<le> p" "p < R"
  shows "block lo (- 1) f hi e"
  using assms by (auto simp: block_def apart_def)

lemma take_reported:
  assumes "length (take m xs @ rest) \<le> Suc m" and "length xs < m \<longrightarrow> rest = []"
  shows "take (Suc m) (b # take m xs @ rest) = b # take m xs"
  using assms by (cases "length xs < m") (auto simp: min_def)

text \<open>What \<open>append_ack\<close> does when it makes blocks and the packet is not above the left edge.\<close>

lemma append_below:
  assumes f: "received_by f S" and h: "history n lo old f S" and old: "0 \<le> old" "old < next_pkt S"
    and lo: "lo \<le> old \<or> lo = next_pkt S" and es: "sf S = stack_of n es" "length es \<le> n" "blocks_of lo old f (maxseen S + 1) es"
    and n: "0 < n" and act: "next_pkt S \<le> maxseen S \<or> is_dup S" "\<not> (maxseen S < next_pkt S \<and> es \<noteq> [])"
  shows "\<exists>blocks. append_ack False old S = Some (blocks, S\<lparr>sf := stack_of n blocks\<rparr>) \<and> length blocks \<le> n
    \<and> blocks_of (next_pkt S) (- 1) f (maxseen S + 1) blocks"
proof -
  let ?nx = "next_pkt S"
  obtain k where k: "ring_window k f lo (maxseen S + 1) S" and hist: "base_nblocks S = int n" "0 \<le> lo" "lo \<le> ?nx"
    using h by (auto simp: history_def)
  let ?g = "cell k (seen S)"
  have at: "seen_at S i = Some (?g i)" for i using k by (simp add: ring_window_def seen_at_def ring_get)
  have g: "?g i = f i" if "lo \<le> i" "i \<le> maxseen S + 1" for i using k that by (simp add: ring_window_def)
  have edge: "f ?nx = 0" "f (maxseen S + 1) = 0" "?nx \<le> maxseen S + 1" and below: "\<And>i. 0 \<le> i \<Longrightarrow> i < ?nx \<Longrightarrow> 0 < f i"
    using f by (auto simp: received_by_def)
  have "?g ?nx = 0" "?g (maxseen S + 1) = 0" using g edge hist(3) by auto
  then obtain m where m: "first_missing ?g old m" "m \<le> ?nx" using first_missing_ex [of ?g ?nx old] old by auto
  have hole: "first_hole S [old..maxseen S] = Some (first_zero ?g [old..maxseen S])" by (rule first_hole_find) (rule at)
  have right: "(case first_zero ?g [old..maxseen S] of None \<Rightarrow> maxseen S + 1 | Some i \<Rightarrow> i) = m"
    by (rule first_zero_up [OF m(1)]) (use \<open>?g (maxseen S + 1) = 0\<close> old edge in auto)
  have "m = ?nx" if "lo \<le> old"
  proof -
    have "?g i \<noteq> 0" if "old \<le> i" "i < ?nx" for i using g [of i] below [of i] that \<open>lo \<le> old\<close> old edge(3) by simp
    then have "first_missing ?g old ?nx" using old \<open>?g ?nx = 0\<close> by (simp add: first_missing_def)
    then show ?thesis using first_missing_unique m(1) by blast
  qed
  then have keep: "block ?nx (- 1) f (maxseen S + 1) e" if "block lo old f (maxseen S + 1) e" "\<not> covered_block 0 m e" for e
  proof -
    obtain l r where e: "e = (l, r)" by (cases e)
    have b: "lo < l" "l < r" "\<And>i. l \<le> i \<Longrightarrow> i < r \<Longrightarrow> 0 < f i" "f (l - 1) = 0 \<or> l - 1 = old" "f r = 0 \<or> r = old" "r \<le> maxseen S + 1"
      using that(1) by (auto simp: block_def e)
    have "m < r" using that(2) b(1) hist(2) by (auto simp: covered_block_def e)
    then have "?nx < l" using b(1,2) b(3) [of ?nx] edge(1) lo \<open>lo \<le> old \<Longrightarrow> m = ?nx\<close> by fastforce
    then show ?thesis using b old(2) by (auto simp: block_def e)
  qed
  have bounds: "\<forall>(l, r)\<in>set es. 0 \<le> l \<and> 0 \<le> r \<and> r \<le> maxseen S + 1"
    using es(3) hist(2) by (fastforce simp: blocks_of_def block_def)
  let ?kept = "filter (Not \<circ> covered_block 0 m) es"
  from more_blocks_stack [OF hist(1) bounds, of "[]" "[]" 0 m] es(2)
  obtain rest where rest: "more_blocks S 0 m 0 (stack_of n es) [] = Some (stack_of n (take n ?kept @ rest), take n ?kept)"
    "length ?kept < n \<longrightarrow> rest = []" "length (take n ?kept @ rest) \<le> n" by auto
  have "length ?kept \<le> n" using es(2) le_trans length_filter_le by blast
  then have kept: "take n ?kept @ rest = ?kept" "take n ?kept = ?kept" using rest(2,3) by (auto simp: order_le_less)
  have "append_ack False old S = Some (?kept, S\<lparr>sf := stack_of n ?kept\<rparr>)"
    using act old es(1) n hist(1) hole right rest(1) kept by (auto simp: append_ack_def Seqno_def Let_def)
  moreover have "blocks_of ?nx (- 1) f (maxseen S + 1) ?kept"
    by (rule blocks_of_filter [OF es(3)]) (simp add: keep)
  ultimately show ?thesis using \<open>length ?kept \<le> n\<close> by blast
qed

text \<open>A packet above the left edge: its block comes first, and the stack holds what was reported.\<close>

lemma append_above:
  assumes f: "received_by f S" and h: "history n (next_pkt S) old f S" and old: "next_pkt S < old" "old \<le> maxseen S" "0 < f old"
    and n: "0 < n"
  shows "\<exists>b blocks. append_ack False old S = Some (b # blocks, S\<lparr>sf := stack_of n (b # blocks)\<rparr>) \<and> length (b # blocks) \<le> n
    \<and> blocks_of (next_pkt S) (- 1) f (maxseen S + 1) (b # blocks) \<and> fst b \<le> old \<and> old < snd b"
proof -
  let ?nx = "next_pkt S" and ?hi = "maxseen S + 1"
  obtain L R where LR: "first_missing f old R" "R \<le> ?hi" "L \<le> old" "old < R"
    "first_hole S (rev [?nx..R - 1]) = Some (Some (L - 1))" "block ?nx (- 1) f ?hi (L, R)" "f (L - 1) = 0" "f R = 0"
    using recent_block [OF f old] by blast
  have "0 \<le> ?nx" and hi: "f ?hi = 0" using f by (auto simp: received_by_def)
  obtain es where hist: "base_nblocks S = int n" "sf S = stack_of n es" "length es \<le> n" "blocks_of ?nx old f ?hi es"
    using h by (auto simp: history_def)
  obtain m where m: "n = Suc m" using n by (cases n) auto
  have hole: "first_hole S [old..maxseen S] = Some (first_zero f [old..maxseen S])"
    using received_seen [OF f] old by (intro first_hole_find) auto
  have right: "(case first_zero f [old..maxseen S] of None \<Rightarrow> ?hi | Some i \<Rightarrow> i) = R"
    by (rule first_zero_up [OF LR(1) hi]) (use old in simp)
  have bounds: "\<forall>(l, r)\<in>set es. 0 \<le> l \<and> 0 \<le> r \<and> r \<le> ?hi"
    using hist(4) \<open>0 \<le> ?nx\<close> by (fastforce simp: blocks_of_def block_def)
  let ?kept = "filter (Not \<circ> covered_block L R) es"
  from more_blocks_stack [OF hist(1) bounds, of "[]" "[(L, R)]" L R] hist(3) m
  obtain rest where rest: "more_blocks S L R 0 (stack_of n es) [(L, R)] = Some (stack_of n (take m ?kept @ rest), (L, R) # take m ?kept)"
    "length ?kept < m \<longrightarrow> rest = []" "length (take m ?kept @ rest) \<le> Suc m" by auto
  have push: "set_head (L, R) (push (stack_of n (take m ?kept @ rest))) = Some (stack_of n ((L, R) # take m ?kept))"
    using push_stack [of "take m ?kept @ rest" "Suc m" "(L, R)"] rest(3) unfolding m take_reported [OF rest(3,2)] by blast
  have "append_ack False old S = Some ((L, R) # take m ?kept, S\<lparr>sf := stack_of n ((L, R) # take m ?kept)\<rparr>)"
    using old \<open>0 \<le> ?nx\<close> hist(1,2) m hole right LR(5) rest(1) push by (auto simp: append_ack_def Seqno_def Let_def)
  moreover have sep: "apart (L, R) e" if "block ?nx old f ?hi e" "(Not \<circ> covered_block L R) e" for e
    using kept_apart [OF that(1) _ LR(7,8)] that(2) by simp
  moreover have "blocks_of ?nx (- 1) f ?hi (take m ?kept)"
    by (rule blocks_of_take, rule blocks_of_filter [OF hist(4)]) (rule kept_block [OF _ sep LR(3,4)])
  moreover have "apart (L, R) e" if "e \<in> set ?kept" for e
    using that hist(4) sep by (simp add: blocks_of_def)
  ultimately show ?thesis using LR(3,4,6) m
    by (intro exI [of _ "(L, R)"] exI [of _ "take m ?kept"]) (auto simp: blocks_of_def dest: in_set_takeD)
qed

lemma append_ok:
  assumes f: "received_by f S" and h: "history n lo old f S" and old: "0 \<le> old" "old \<le> maxseen S" "0 < f old"
    and lo: "lo \<le> old \<and> old < next_pkt S \<or> lo = next_pkt S"
  shows "\<exists>blocks. append_ack False old S = Some (blocks, S\<lparr>sf := stack_of n blocks\<rparr>) \<and> length blocks \<le> n
    \<and> blocks_of (next_pkt S) (- 1) f (maxseen S + 1) blocks
    \<and> (next_pkt S < old \<and> 0 < n \<longrightarrow> blocks \<noteq> [] \<and> fst (hd blocks) \<le> old \<and> old < snd (hd blocks))"
proof -
  obtain es where es: "sf S = stack_of n es" "length es \<le> n" "blocks_of lo old f (maxseen S + 1) es" and bn: "base_nblocks S = int n"
    using h by (auto simp: history_def)
  have neq: "old \<noteq> next_pkt S" using f old(3) by (auto simp: received_by_def)
  consider "maxseen S < next_pkt S \<and> es \<noteq> []" | "maxseen S < next_pkt S" "es = []" "\<not> is_dup S" | "n = 0"
    | "\<not> (maxseen S < next_pkt S \<and> es \<noteq> [])" "next_pkt S \<le> maxseen S \<or> is_dup S" "0 < n"
    using linorder_not_le neq0_conv by blast
  then show ?thesis
  proof cases
    case 1
    then show ?thesis using old es stack_reset_empty [OF es(2)] by (simp add: append_ack_def Let_def Seqno_def)
  next
    case 2
    then have "append_ack False old S = Some ([], S)" using old es(1) by (simp add: append_ack_def Let_def Seqno_def)
    moreover have "S\<lparr>sf := stack_of n []\<rparr> = S" using es(1) 2(2) by (intro sacker.equality) simp_all
    ultimately show ?thesis using old 2(1) by (intro exI [of _ "[]"]) simp
  next
    case 3
    then have "append_ack False old S = Some ([], S)" using old es bn by (simp add: append_ack_def Let_def Seqno_def)
    moreover have "S\<lparr>sf := stack_of n []\<rparr> = S" using es(1,2) 3 by (intro sacker.equality) simp_all
    ultimately show ?thesis using 3 by (intro exI [of _ "[]"]) simp
  next
    case 4
    then show ?thesis
    proof (cases "old < next_pkt S")
      case True
      then have "lo \<le> old \<or> lo = next_pkt S" "\<not> next_pkt S < old" using lo by auto
      then show ?thesis using append_below [OF f h old(1) True _ es 4(3,2,1)] by blast
    next
      case False
      then have lt: "next_pkt S < old" "lo = next_pkt S" using neq lo by auto
      obtain b blocks where "append_ack False old S = Some (b # blocks, S\<lparr>sf := stack_of n (b # blocks)\<rparr>)" "length (b # blocks) \<le> n"
        "blocks_of (next_pkt S) (- 1) f (maxseen S + 1) (b # blocks)" "fst b \<le> old" "old < snd b"
        using append_above [OF f h [unfolded lt(2)] lt(1) old(2,3) 4(3)] by blast
      then show ?thesis by (intro exI [of _ "b # blocks"]) simp
    qed
  qed
qed

end
