(* ===== verification/Receiver.thy ===== *)
theory Receiver
  imports Sink_Safety
begin

text \<open>
  The sinks over their acker. What a sink needs of the (virtual) \<^verbatim>\<open>append_ack\<close> is a locale, which the plain
  acker and the selective one both satisfy; the sinks, with and without delayed acknowledgments, are
  proved correct once inside it.
\<close>

section \<open>The contract of append_ack\<close>

definition same_window :: "'a acker_scheme \<Rightarrow> 'a acker_scheme \<Rightarrow> bool" where
  "same_window A A' \<longleftrightarrow> seen A' = seen A \<and> wndmask A' = wndmask A \<and> next_pkt A' = next_pkt A \<and> maxseen A' = maxseen A"

text \<open>The blocks of an acknowledgment of packet \<open>old\<close> when \<open>f\<close> has been received, up to \<open>hi\<close>.\<close>

definition good_blocks :: "nat \<Rightarrow> (int \<Rightarrow> int) \<Rightarrow> int \<Rightarrow> int \<Rightarrow> int \<Rightarrow> (int \<times> int) list \<Rightarrow> bool" where
  "good_blocks n f nx hi old blocks \<longleftrightarrow> length blocks \<le> n \<and> blocks_of nx (- 1) f hi blocks
     \<and> (nx < old \<and> 0 < n \<longrightarrow> blocks \<noteq> [] \<and> fst (hd blocks) \<le> old \<and> old < snd (hd blocks))"

locale block_reporter =
  fixes append_blocks :: "int \<Rightarrow> 'a acker_scheme \<Rightarrow> ((int \<times> int) list \<times> 'a acker_scheme) option"
    and past :: "int \<Rightarrow> int \<Rightarrow> (int \<Rightarrow> int) \<Rightarrow> 'a acker_scheme \<Rightarrow> bool"
    and limit :: nat
  assumes arrive: "past (next_pkt A) (- 1) f A \<Longrightarrow> received_by f A \<Longrightarrow> updated f seq m A d A' \<Longrightarrow> 0 < m
      \<Longrightarrow> past (next_pkt A) seq (arrived A f seq m) A'"
    and settle: "past lo p f A \<Longrightarrow> received_by f A \<Longrightarrow> next_pkt A \<le> lo + 1 \<Longrightarrow> p < next_pkt A \<Longrightarrow> past (next_pkt A) (- 1) f A"
    and weaken: "past lo (- 1) f A \<Longrightarrow> past lo p f A"
    and frame: "past lo p f A \<Longrightarrow> past lo p f (A\<lparr>ts_to_echo := t\<rparr>)" "past lo p f A \<Longrightarrow> past lo p f (A\<lparr>ecn_unacked := v\<rparr>)"
      "past lo p f A \<Longrightarrow> past lo p f (A\<lparr>last_ack_sent := a\<rparr>)"
    and report: "received_by f A \<Longrightarrow> past lo old f A \<Longrightarrow> 0 \<le> old \<Longrightarrow> old \<le> maxseen A \<Longrightarrow> 0 < f old
      \<Longrightarrow> lo \<le> old \<and> old < next_pkt A \<or> lo = next_pkt A
      \<Longrightarrow> \<exists>blocks A'. append_blocks old A = Some (blocks, A') \<and> same_window A A' \<and> past (next_pkt A) (- 1) f A'
          \<and> good_blocks limit f (next_pkt A) (maxseen A + 1) old blocks"

text \<open>What an acknowledgment says: everything below is there, the next packet is not, and the blocks are
  above.\<close>

definition good_ack :: "nat \<Rightarrow> (int \<Rightarrow> int) \<Rightarrow> int \<Rightarrow> int \<Rightarrow> ack_header \<Rightarrow> bool" where
  "good_ack n f hi old h \<longleftrightarrow> first_missing f 0 (ah_seqno h + 1) \<and> good_blocks n f (ah_seqno h + 1) hi old (ah_sacks h)"

lemma received_first_missing: "received_by f A \<Longrightarrow> first_missing f 0 (next_pkt A)"
  by (force simp: received_by_def first_missing_def)

lemma received_frame [simp]:
  "received_by f (A\<lparr>ts_to_echo := t\<rparr>) = received_by f A" "received_by f (A\<lparr>ecn_unacked := v\<rparr>) = received_by f A"
  "received_by f (A\<lparr>last_ack_sent := a\<rparr>) = received_by f A"
  by (simp_all add: received_by_def ring_window_def)

lemma received_same: "received_by f A \<Longrightarrow> same_window A A' \<Longrightarrow> received_by f A'"
  by (simp add: same_window_def received_cong)

context block_reporter
begin

text \<open>The sink between two events: what it saved has been received.\<close>

definition sink_ok :: "(int \<Rightarrow> int) \<Rightarrow> 'a acker_scheme sink \<Rightarrow> bool" where
  "sink_ok f S \<longleftrightarrow> received_by f (acker_of S) \<and> past (next_pkt (acker_of S)) (- 1) f (acker_of S)
     \<and> (\<forall>p. sink_save S = Some p \<longrightarrow> 0 \<le> pd_seqno p \<and> pd_seqno p \<le> maxseen (acker_of S) \<and> 0 < f (pd_seqno p))"

lemma ecn_frame: "past lo p f A \<Longrightarrow> past lo p f (update_ecn_unacked v A)" "received_by f A \<Longrightarrow> received_by f (update_ecn_unacked v A)"
  by (simp_all add: update_ecn_unacked_def frame)

lemma ts_frame: "past lo p f A \<Longrightarrow> past lo p f (update_ts q t b A)" "received_by f A \<Longrightarrow> received_by f (update_ts q t b A)"
  by (simp_all add: update_ts_def frame)

lemma TcpSink_ack_ok:
  assumes "received_by f (acker_of S)" and "past lo (pd_seqno p) f (acker_of S)"
    and "0 \<le> pd_seqno p" "pd_seqno p \<le> maxseen (acker_of S)" "0 < f (pd_seqno p)"
    and "lo \<le> pd_seqno p \<and> pd_seqno p < next_pkt (acker_of S) \<or> lo = next_pkt (acker_of S)"
  shows "\<exists>h S'. TcpSink_ack append_blocks opt p S = Some (h, S') \<and> good_ack limit f (maxseen (acker_of S) + 1) (pd_seqno p) h
    \<and> S' = S\<lparr>acker_of := acker_of S'\<rparr> \<and> next_pkt (acker_of S') = next_pkt (acker_of S) \<and> maxseen (acker_of S') = maxseen (acker_of S)
    \<and> received_by f (acker_of S') \<and> past (next_pkt (acker_of S)) (- 1) f (acker_of S')"
proof -
  define A1 where "A1 = (if saved pd_cong_action S \<or> pd_cong_action p then update_ecn_unacked 0 (acker_of S) else acker_of S)"
  define A2 where "A2 = (if saved (\<lambda>p. pd_ect p \<and> pd_ce p) S \<or> pd_ect p \<and> pd_ce p then update_ecn_unacked 1 A1 else A1)"
  have r: "received_by f A2" "past lo (pd_seqno p) f A2" using assms(1,2) by (simp_all add: A1_def A2_def ecn_frame)
  have same: "next_pkt A2 = next_pkt (acker_of S)" "maxseen A2 = maxseen (acker_of S)"
    by (simp_all add: A1_def A2_def update_ecn_unacked_def)
  obtain blocks A' where A': "append_blocks (pd_seqno p) A2 = Some (blocks, A')" "same_window A2 A'"
    "past (next_pkt A2) (- 1) f A'" "good_blocks limit f (next_pkt A2) (maxseen A2 + 1) (pd_seqno p) blocks"
    using report [OF r assms(3) _ assms(5)] assms(4,6) same by auto
  let ?S' = "S\<lparr>acker_of := A'\<lparr>last_ack_sent := Seqno (acker_of S)\<rparr>\<rparr>"
  have "received_by f (acker_of ?S')" using received_same [OF r(1) A'(2)] by simp
  moreover have "\<exists>h. TcpSink_ack append_blocks opt p S = Some (h, ?S') \<and> ah_seqno h = Seqno (acker_of S) \<and> ah_sacks h = blocks"
    using A'(1) unfolding TcpSink_ack_def Let_def A2_def A1_def by simp
  moreover have "next_pkt (acker_of ?S') = next_pkt (acker_of S)" "maxseen (acker_of ?S') = maxseen (acker_of S)"
    using A'(2) same by (simp_all add: same_window_def)
  moreover have "past (next_pkt (acker_of S)) (- 1) f (acker_of ?S')" using A'(3) same by (simp add: frame)
  ultimately show ?thesis using A'(4) same received_first_missing [OF assms(1)]
    by (auto simp: good_ack_def Seqno_def)
qed

text \<open>What the arrival of a packet does before the acknowledgment.\<close>

lemma sink_update_ok:
  assumes "sink_ok f S" and "0 \<le> pd_seqno p" "pd_seqno p < 1073741822" "0 < pd_size p"
  defines "f' \<equiv> arrived (acker_of S) f (pd_seqno p) (pd_size p)"
  shows "\<exists>S'. sink_update opt p S = Some S' \<and> received_by f' (acker_of S') \<and> past (next_pkt (acker_of S)) (pd_seqno p) f' (acker_of S')
    \<and> maxseen (acker_of S') = max (maxseen (acker_of S)) (pd_seqno p) \<and> next_pkt (acker_of S) \<le> next_pkt (acker_of S')
    \<and> (pd_seqno p \<noteq> next_pkt (acker_of S) \<longrightarrow> next_pkt (acker_of S') = next_pkt (acker_of S)) \<and> 0 < f' (pd_seqno p)
    \<and> S' = S\<lparr>acker_of := acker_of S', sink_bytes := sink_bytes S + sum f' {next_pkt (acker_of S)..<next_pkt (acker_of S')}\<rparr>"
proof -
  let ?A = "update_ts (pd_seqno p) (pd_ts p) (ts_echo_rfc1323 opt) (acker_of S)"
  have same: "next_pkt ?A = next_pkt (acker_of S)" "maxseen ?A = maxseen (acker_of S)" by (simp_all add: update_ts_def)
  have A: "received_by f ?A" "past (next_pkt ?A) (- 1) f ?A" unfolding same using assms(1) by (simp_all add: sink_ok_def ts_frame)
  have f': "arrived ?A f (pd_seqno p) (pd_size p) = f'" by (simp add: f'_def arrived_def same)
  obtain d A' where A': "update (pd_seqno p) (pd_size p) ?A = Some (d, A')" "updated f (pd_seqno p) (pd_size p) ?A d A'"
    using update_ok [OF A(1) assms(2,3,4)] by blast
  note U = A'(2) [unfolded updated_def f' same]
  have f: "f (next_pkt (acker_of S)) = 0" "0 \<le> next_pkt (acker_of S)" "\<And>i. 0 \<le> i \<Longrightarrow> i < next_pkt (acker_of S) \<Longrightarrow> 0 < f i"
    using assms(1) by (auto simp: sink_ok_def received_by_def)
  have "next_pkt A' = next_pkt (acker_of S)" if "pd_seqno p \<noteq> next_pkt (acker_of S)"
  proof -
    have "f' (next_pkt (acker_of S)) = 0" using that f(1) by (simp add: f'_def arrived_def)
    moreover have "f' i \<noteq> 0" if "0 \<le> i" "i < next_pkt A'" for i using U that by (auto simp: first_missing_def)
    ultimately have "\<not> next_pkt (acker_of S) < next_pkt A'" using f(2) by blast
    then show ?thesis using U by linarith
  qed
  moreover have "0 < f' (pd_seqno p)" using f(3) assms(2,4) by (auto simp: f'_def arrived_def)
  ultimately show ?thesis using arrive [OF A(2,1) A'(2) assms(4)] A'(1) U
    by (intro exI [of _ "S\<lparr>acker_of := A', sink_bytes := sink_bytes S + d\<rparr>"]) (simp add: sink_update_def f' same)
qed

end


definition valid_arrival :: "data_packet \<Rightarrow> bool" where
  "valid_arrival p \<longleftrightarrow> 0 \<le> pd_seqno p \<and> pd_seqno p < 1073741822 \<and> 0 < pd_size p"

text \<open>The events of a sink with delayed acknowledgments: a packet, or its timer.\<close>

datatype sink_event = Arrival data_packet | Expiry

definition DelAckSink_step ::
    "(int \<Rightarrow> 'a acker_scheme \<Rightarrow> ((int \<times> int) list \<times> 'a acker_scheme) option) \<Rightarrow> sink_options \<Rightarrow> sink_event
      \<Rightarrow> 'a acker_scheme sink \<Rightarrow> (ack_header list \<times> 'a acker_scheme sink) option" where
  "DelAckSink_step append_blocks opt e S =
     (case e of Arrival p \<Rightarrow> DelAckSink_recv append_blocks opt p S | Expiry \<Rightarrow> DelAckSink_timeout append_blocks opt S)"

definition valid_event :: "sink_event \<Rightarrow> bool" where
  "valid_event e \<longleftrightarrow> (case e of Arrival p \<Rightarrow> valid_arrival p | Expiry \<Rightarrow> True)"

text \<open>The packets that count: one from before the last reset does not.\<close>

definition event_packets :: "int \<Rightarrow> sink_event \<Rightarrow> int set" where
  "event_packets reset e = (case e of Arrival p \<Rightarrow> if pd_ts p < reset then {} else {pd_seqno p} | Expiry \<Rightarrow> {})"

text \<open>The acknowledgment \<open>h\<close> after the packets \<open>R\<close> arrived, with at most \<open>n\<close> blocks.\<close>

definition correct_ack :: "nat \<Rightarrow> int set \<Rightarrow> ack_header \<Rightarrow> bool" where
  "correct_ack n R h \<longleftrightarrow> - 1 \<le> ah_seqno h \<and> {0..ah_seqno h} \<subseteq> R \<and> ah_seqno h + 1 \<notin> R \<and> length (ah_sacks h) \<le> n \<and> sorted_wrt apart (ah_sacks h)
     \<and> (\<forall>(l, r)\<in>set (ah_sacks h). ah_seqno h + 1 < l \<and> l < r \<and> {l..<r} \<subseteq> R \<and> l - 1 \<notin> R \<and> r \<notin> R)"

lemma good_ack_correct:
  assumes "good_ack n f hi old h" and "R = {i. 0 < f i}" and "\<And>i. 0 \<le> f i"
  shows "correct_ack n R h"
proof -
  have pos: "0 < f i \<longleftrightarrow> f i \<noteq> 0" for i using assms(3) [of i] by linarith
  have m: "first_missing f 0 (ah_seqno h + 1)" and b: "length (ah_sacks h) \<le> n" "blocks_of (ah_seqno h + 1) (- 1) f hi (ah_sacks h)"
    using assms(1) by (auto simp: good_ack_def good_blocks_def)
  have "ah_seqno h + 1 < l \<and> l < r \<and> {l..<r} \<subseteq> R \<and> l - 1 \<notin> R \<and> r \<notin> R" if "(l, r) \<in> set (ah_sacks h)" for l r
  proof -
    have "block (ah_seqno h + 1) (- 1) f hi (l, r)" using b(2) that by (auto simp: blocks_of_def)
    moreover have "0 \<le> ah_seqno h + 1" using m by (simp add: first_missing_def)
    ultimately show ?thesis by (auto simp: block_def assms(2) pos)
  qed
  then show ?thesis using m b by (auto simp: correct_ack_def first_missing_def blocks_of_def assms(2) pos)
qed

context block_reporter
begin

lemma sink_ok_pos: "sink_ok f S \<Longrightarrow> 0 \<le> f i"
  by (simp add: sink_ok_def received_by_def)

lemma arrived_packets:
  assumes "received_by f A" and "0 \<le> seq" "0 < n"
  shows "{i. 0 < arrived A f seq n i} = {i. 0 < f i} \<union> {seq}"
  using assms by (auto simp: arrived_def received_by_def)

text \<open>After the arrival of \<open>p\<close> and its acknowledgment, the sink is between two events again.\<close>

lemma arrival_ok:
  assumes ok: "sink_ok f S" and p: "valid_arrival p"
  defines "f' \<equiv> arrived (acker_of S) f (pd_seqno p) (pd_size p)"
  shows "\<exists>S'. sink_update opt p S = Some S' \<and> lastreset S' = lastreset S \<and> sink_save S' = sink_save S \<and> timer_pending S' = timer_pending S
    \<and> sink_bytes S' = sink_bytes S + sum f' {next_pkt (acker_of S)..<next_pkt (acker_of S')} \<and> next_pkt (acker_of S) \<le> next_pkt (acker_of S')
    \<and> (pd_seqno p = Seqno (acker_of S') \<longrightarrow> sink_ok f' S')
    \<and> (\<forall>b. \<exists>h S''. TcpSink_ack append_blocks opt p (S'\<lparr>timer_pending := b\<rparr>) = Some (h, S'')
         \<and> good_ack limit f' (maxseen (acker_of S'') + 1) (pd_seqno p) h \<and> sink_ok f' S'' \<and> next_pkt (acker_of S'') = next_pkt (acker_of S')
         \<and> S'' = S'\<lparr>timer_pending := b, acker_of := acker_of S''\<rparr>)"
proof -
  let ?nx = "next_pkt (acker_of S)"
  have v: "0 \<le> pd_seqno p" "pd_seqno p < 1073741822" "0 < pd_size p" using p by (auto simp: valid_arrival_def)
  obtain S' where S': "sink_update opt p S = Some S'" and r: "received_by f' (acker_of S')" and h: "past ?nx (pd_seqno p) f' (acker_of S')"
    and mx: "maxseen (acker_of S') = max (maxseen (acker_of S)) (pd_seqno p)" and le: "?nx \<le> next_pkt (acker_of S')"
    and still: "pd_seqno p \<noteq> ?nx \<longrightarrow> next_pkt (acker_of S') = ?nx" and pos: "0 < f' (pd_seqno p)"
    and eq: "S' = S\<lparr>acker_of := acker_of S', sink_bytes := sink_bytes S + sum f' {?nx..<next_pkt (acker_of S')}\<rparr>"
    using sink_update_ok [OF ok v] unfolding f'_def by blast
  have keep: "sink_save S' = sink_save S" "lastreset S' = lastreset S" "timer_pending S' = timer_pending S"
    "sink_bytes S' = sink_bytes S + sum f' {?nx..<next_pkt (acker_of S')}"
    by (subst eq, simp)+
  have grow: "0 < f' i" if "0 < f i" for i using that v by (simp add: f'_def arrived_def)
  have save: "0 \<le> pd_seqno q \<and> pd_seqno q \<le> maxseen (acker_of S') \<and> 0 < f' (pd_seqno q)" if "sink_save S' = Some q" for q
    using ok that grow by (fastforce simp: sink_ok_def keep mx)
  have miss: "f' (next_pkt (acker_of S')) = 0" using r by (simp add: received_by_def)
  have "sink_ok f' S'" if "pd_seqno p = Seqno (acker_of S')"
  proof -
    have seq: "pd_seqno p = next_pkt (acker_of S') - 1" using that by (simp add: Seqno_def)
    then have "next_pkt (acker_of S') \<le> ?nx + 1" using still by (cases "pd_seqno p = ?nx") auto
    then have "past (next_pkt (acker_of S')) (- 1) f' (acker_of S')" using settle [OF h r] seq by simp
    then show ?thesis using r save by (simp add: sink_ok_def)
  qed
  moreover have "\<exists>h S''. TcpSink_ack append_blocks opt p (S'\<lparr>timer_pending := b\<rparr>) = Some (h, S'')
      \<and> good_ack limit f' (maxseen (acker_of S'') + 1) (pd_seqno p) h \<and> sink_ok f' S'' \<and> next_pkt (acker_of S'') = next_pkt (acker_of S')
      \<and> S'' = S'\<lparr>timer_pending := b, acker_of := acker_of S''\<rparr>" for b
  proof -
    let ?T = "S'\<lparr>timer_pending := b\<rparr>"
    have lo: "?nx \<le> pd_seqno p \<and> pd_seqno p < next_pkt (acker_of S') \<or> ?nx = next_pkt (acker_of S')"
    proof (cases "pd_seqno p = ?nx")
      case True
      then have "next_pkt (acker_of S') \<noteq> ?nx" using miss pos by auto
      then show ?thesis using True le by simp
    qed (use still in simp)
    have "received_by f' (acker_of ?T)" "past ?nx (pd_seqno p) f' (acker_of ?T)" "pd_seqno p \<le> maxseen (acker_of ?T)"
      "?nx \<le> pd_seqno p \<and> pd_seqno p < next_pkt (acker_of ?T) \<or> ?nx = next_pkt (acker_of ?T)"
      using r h mx lo by simp_all
    from TcpSink_ack_ok [OF this(1,2) v(1) this(3) pos this(4), of opt]
    obtain h S'' where S'': "TcpSink_ack append_blocks opt p ?T = Some (h, S'')" "good_ack limit f' (maxseen (acker_of S') + 1) (pd_seqno p) h"
      "S'' = ?T\<lparr>acker_of := acker_of S''\<rparr>" "next_pkt (acker_of S'') = next_pkt (acker_of S')" "maxseen (acker_of S'') = maxseen (acker_of S')"
      "received_by f' (acker_of S'')" "past (next_pkt (acker_of S')) (- 1) f' (acker_of S'')"
      by auto
    have "sink_save S'' = sink_save S'" by (subst S''(3)) simp
    then have "sink_ok f' S''" using S''(4-7) save by (simp add: sink_ok_def)
    then show ?thesis using S'' by (intro exI [of _ h] exI [of _ S'']) simp
  qed
  ultimately show ?thesis using S' keep le by blast
qed

end

context block_reporter
begin

text \<open>A packet at a sink that acknowledges every packet.\<close>

lemma TcpSink_recv_ok:
  assumes ok: "sink_ok f S" and p: "valid_arrival p" and new: "lastreset S \<le> pd_ts p"
  defines "f' \<equiv> arrived (acker_of S) f (pd_seqno p) (pd_size p)"
  shows "\<exists>h S'. TcpSink_recv append_blocks opt p S = Some ([h], S') \<and> sink_ok f' S' \<and> lastreset S' = lastreset S
    \<and> good_ack limit f' (maxseen (acker_of S') + 1) (pd_seqno p) h \<and> next_pkt (acker_of S) \<le> next_pkt (acker_of S')
    \<and> sink_bytes S' = sink_bytes S + sum f' {next_pkt (acker_of S)..<next_pkt (acker_of S')}"
proof -
  obtain S1 where S1: "sink_update opt p S = Some S1" "lastreset S1 = lastreset S"
    "sink_bytes S1 = sink_bytes S + sum f' {next_pkt (acker_of S)..<next_pkt (acker_of S1)}" "next_pkt (acker_of S) \<le> next_pkt (acker_of S1)"
    and ack: "\<exists>h S''. TcpSink_ack append_blocks opt p (S1\<lparr>timer_pending := timer_pending S1\<rparr>) = Some (h, S'')
         \<and> good_ack limit f' (maxseen (acker_of S'') + 1) (pd_seqno p) h \<and> sink_ok f' S'' \<and> next_pkt (acker_of S'') = next_pkt (acker_of S1)
         \<and> S'' = S1\<lparr>timer_pending := timer_pending S1, acker_of := acker_of S''\<rparr>"
    using arrival_ok [OF ok p, of opt] unfolding f'_def by blast
  from ack obtain h S'' where S'': "TcpSink_ack append_blocks opt p S1 = Some (h, S'')" "good_ack limit f' (maxseen (acker_of S'') + 1) (pd_seqno p) h"
    "sink_ok f' S''" "next_pkt (acker_of S'') = next_pkt (acker_of S1)" and eq: "S'' = S1\<lparr>timer_pending := timer_pending S1, acker_of := acker_of S''\<rparr>"
    by auto
  have "sink_bytes S'' = sink_bytes S1" "lastreset S'' = lastreset S1" by (subst eq, simp)+
  moreover have "\<not> pd_ts p < lastreset S" using new by simp
  ultimately show ?thesis using S1 S'' by (intro exI [of _ h] exI [of _ S'']) (simp add: TcpSink_recv_def)
qed

lemma sink_ok_unsaved: "sink_ok f S \<Longrightarrow> sink_ok f (S\<lparr>sink_save := None\<rparr>)"
  by (simp add: sink_ok_def)

lemma sink_ok_timer [simp]: "sink_ok f (S\<lparr>timer_pending := b\<rparr>) = sink_ok f S"
  by (simp add: sink_ok_def)

text \<open>A packet at a sink with delayed acknowledgments: it is acknowledged, or saved.\<close>

lemma DelAckSink_recv_ok:
  assumes ok: "sink_ok f S" and p: "valid_arrival p" and new: "lastreset S \<le> pd_ts p"
  defines "f' \<equiv> arrived (acker_of S) f (pd_seqno p) (pd_size p)"
  shows "\<exists>acks S'. DelAckSink_recv append_blocks opt p S = Some (acks, S') \<and> sink_ok f' S' \<and> lastreset S' = lastreset S
    \<and> (\<forall>h\<in>set acks. good_ack limit f' (maxseen (acker_of S') + 1) (pd_seqno p) h) \<and> next_pkt (acker_of S) \<le> next_pkt (acker_of S')
    \<and> sink_bytes S' = sink_bytes S + sum f' {next_pkt (acker_of S)..<next_pkt (acker_of S')}
    \<and> (acks = [] \<longrightarrow> \<not> timer_pending S \<and> timer_pending S' \<and> sink_save S' = Some p \<and> pd_seqno p + 1 = next_pkt (acker_of S'))
    \<and> (acks \<noteq> [] \<longrightarrow> \<not> timer_pending S' \<and> sink_save S' = None)"
proof -
  obtain S1 where S1: "sink_update opt p S = Some S1" "lastreset S1 = lastreset S" "timer_pending S1 = timer_pending S"
    "sink_bytes S1 = sink_bytes S + sum f' {next_pkt (acker_of S)..<next_pkt (acker_of S1)}" "next_pkt (acker_of S) \<le> next_pkt (acker_of S1)"
    and hold: "pd_seqno p = Seqno (acker_of S1) \<longrightarrow> sink_ok f' S1"
    and ack: "\<exists>h S''. TcpSink_ack append_blocks opt p (S1\<lparr>timer_pending := False\<rparr>) = Some (h, S'')
         \<and> good_ack limit f' (maxseen (acker_of S'') + 1) (pd_seqno p) h \<and> sink_ok f' S'' \<and> next_pkt (acker_of S'') = next_pkt (acker_of S1)
         \<and> S'' = S1\<lparr>timer_pending := False, acker_of := acker_of S''\<rparr>"
    using arrival_ok [OF ok p, of opt] unfolding f'_def by blast
  let ?wait = "\<not> timer_pending S1 \<and> pd_seqno p = Seqno (acker_of S1)
    \<and> \<not> (RFC2581_immediate_ack opt \<and> pd_seqno p < maxseen (acker_of S1)) \<and> \<not> (SYN_immediate_ack opt \<and> pd_seqno p = 0)"
  have old: "\<not> pd_ts p < lastreset S" using new by simp
  show ?thesis
  proof (cases ?wait)
    case True
    let ?S' = "S1\<lparr>sink_save := Some p, timer_pending := True\<rparr>"
    have "DelAckSink_recv append_blocks opt p S = Some ([], ?S')" using old S1(1) True by (auto simp: DelAckSink_recv_def)
    moreover have ok': "sink_ok f' S1" using hold True by blast
    moreover have "0 \<le> pd_seqno p" "pd_seqno p \<le> maxseen (acker_of S1)" "0 < f' (pd_seqno p)"
      using p ok' True by (auto simp: valid_arrival_def sink_ok_def received_by_def Seqno_def)
    then have "sink_ok f' ?S'" using ok' by (simp add: sink_ok_def)
    ultimately show ?thesis using S1 True by (intro exI [of _ "[]"] exI [of _ ?S']) (simp add: Seqno_def)
  next
    case False
    from ack obtain h S'' where S'': "TcpSink_ack append_blocks opt p (S1\<lparr>timer_pending := False\<rparr>) = Some (h, S'')"
      "good_ack limit f' (maxseen (acker_of S'') + 1) (pd_seqno p) h"
      "sink_ok f' S''" "next_pkt (acker_of S'') = next_pkt (acker_of S1)" and eq: "S'' = S1\<lparr>timer_pending := False, acker_of := acker_of S''\<rparr>"
      by auto
    have "sink_bytes S'' = sink_bytes S1" "lastreset S'' = lastreset S1" "\<not> timer_pending S''" by (subst eq, simp)+
    moreover have "DelAckSink_recv append_blocks opt p S = Some ([h], S''\<lparr>sink_save := None\<rparr>)"
      using old S1(1) False S''(1) by (auto simp: DelAckSink_recv_def)
    ultimately show ?thesis using S1 S'' by (intro exI [of _ "[h]"] exI [of _ "S''\<lparr>sink_save := None\<rparr>"]) (simp add: sink_ok_unsaved)
  qed
qed

lemma DelAckSink_timeout_ok:
  assumes ok: "sink_ok f S"
  shows "\<exists>acks S'. DelAckSink_timeout append_blocks opt S = Some (acks, S') \<and> sink_ok f S' \<and> lastreset S' = lastreset S
    \<and> (\<forall>h\<in>set acks. \<exists>old. good_ack limit f (maxseen (acker_of S') + 1) old h) \<and> next_pkt (acker_of S') = next_pkt (acker_of S)
    \<and> sink_bytes S' = sink_bytes S \<and> (acks = [] \<longleftrightarrow> sink_save S = None) \<and> \<not> timer_pending S' \<and> sink_save S' = None"
proof (cases "sink_save S")
  case None
  then show ?thesis using ok by (simp add: DelAckSink_timeout_def)
next
  case (Some p)
  let ?T = "S\<lparr>timer_pending := False\<rparr>"
  have r: "received_by f (acker_of ?T)" "past (next_pkt (acker_of ?T)) (pd_seqno p) f (acker_of ?T)"
    "0 \<le> pd_seqno p" "pd_seqno p \<le> maxseen (acker_of ?T)" "0 < f (pd_seqno p)"
    using ok Some by (auto simp: sink_ok_def weaken)
  from TcpSink_ack_ok [OF r disjI2 [OF refl], of opt]
  obtain h S'' where S'': "TcpSink_ack append_blocks opt p ?T = Some (h, S'')" "good_ack limit f (maxseen (acker_of S) + 1) (pd_seqno p) h"
    "next_pkt (acker_of S'') = next_pkt (acker_of S)" "maxseen (acker_of S'') = maxseen (acker_of S)"
    "received_by f (acker_of S'')" "past (next_pkt (acker_of S)) (- 1) f (acker_of S'')" and eq: "S'' = ?T\<lparr>acker_of := acker_of S''\<rparr>"
    by auto
  have "sink_bytes S'' = sink_bytes S" "lastreset S'' = lastreset S" "\<not> timer_pending S''" by (subst eq, simp)+
  moreover have "sink_ok f (S''\<lparr>sink_save := None\<rparr>)" using S''(3,5,6) by (simp add: sink_ok_def)
  ultimately show ?thesis using Some S''
    by (intro exI [of _ "[h]"] exI [of _ "S''\<lparr>sink_save := None\<rparr>"]) (auto simp: DelAckSink_timeout_def)
qed

end

section \<open>Runs of events\<close>

text \<open>A sink without delayed acknowledgments has no timer.\<close>

definition TcpSink_step ::
    "(int \<Rightarrow> 'a acker_scheme \<Rightarrow> ((int \<times> int) list \<times> 'a acker_scheme) option) \<Rightarrow> sink_options \<Rightarrow> sink_event
      \<Rightarrow> 'a acker_scheme sink \<Rightarrow> (ack_header list \<times> 'a acker_scheme sink) option" where
  "TcpSink_step append_blocks opt e S = (case e of Arrival p \<Rightarrow> TcpSink_recv append_blocks opt p S | Expiry \<Rightarrow> Some ([], S))"

fun sink_run :: "('e \<Rightarrow> 's \<Rightarrow> ('o list \<times> 's) option) \<Rightarrow> 'e list \<Rightarrow> 's \<Rightarrow> ('o list \<times> 's) option" where
  "sink_run step [] S = Some ([], S)"
| "sink_run step (e # es) S = do {
     (out, S) \<leftarrow> step e S;
     (rest, S) \<leftarrow> sink_run step es S;
     Some (out @ rest, S)
   }"

definition run_packets :: "int \<Rightarrow> sink_event list \<Rightarrow> int set" where
  "run_packets reset es = \<Union> (event_packets reset ` set es)"

definition sized :: "(int \<Rightarrow> int) \<Rightarrow> sink_event \<Rightarrow> bool" where
  "sized sz e \<longleftrightarrow> (case e of Arrival p \<Rightarrow> pd_size p = sz (pd_seqno p) | Expiry \<Rightarrow> True)"

lemma run_packets_simps [simp]:
  "run_packets t [] = {}" "run_packets t (e # es) = event_packets t e \<union> run_packets t es"
  "run_packets t (es @ es') = run_packets t es \<union> run_packets t es'"
  by (auto simp: run_packets_def)

context block_reporter
begin

text \<open>The packets \<open>R\<close> have been received, and those before the first one missing were delivered.\<close>

definition tracks :: "int \<Rightarrow> (int \<Rightarrow> int) \<Rightarrow> int set \<Rightarrow> 'a acker_scheme sink \<Rightarrow> bool" where
  "tracks b f R S \<longleftrightarrow> sink_ok f S \<and> {i. 0 < f i} = R \<and> sink_bytes S = b + sum f {0..<next_pkt (acker_of S)}"

definition sized_by :: "(int \<Rightarrow> int) \<Rightarrow> (int \<Rightarrow> int) \<Rightarrow> int set \<Rightarrow> bool" where
  "sized_by f sz R \<longleftrightarrow> (\<forall>i\<in>R. f i = sz i)"

definition step_ok :: "(sink_event \<Rightarrow> 'a acker_scheme sink \<Rightarrow> (ack_header list \<times> 'a acker_scheme sink) option) \<Rightarrow> bool" where
  "step_ok step \<longleftrightarrow> (\<forall>b f R S e. tracks b f R S \<longrightarrow> valid_event e \<longrightarrow>
     (\<exists>out S' f'. step e S = Some (out, S') \<and> tracks b f' (R \<union> event_packets (lastreset S) e) S' \<and> lastreset S' = lastreset S
        \<and> (\<forall>h\<in>set out. correct_ack limit (R \<union> event_packets (lastreset S) e) h)
        \<and> (\<forall>sz. sized sz e \<longrightarrow> sized_by f sz R \<longrightarrow> sized_by f' sz (R \<union> event_packets (lastreset S) e))))"

lemma tracks_arrived:
  assumes "tracks b f R S" and p: "valid_arrival p"
  defines "f' \<equiv> arrived (acker_of S) f (pd_seqno p) (pd_size p)"
  assumes "sink_ok f' S'" and "next_pkt (acker_of S) \<le> next_pkt (acker_of S')"
    and "sink_bytes S' = sink_bytes S + sum f' {next_pkt (acker_of S)..<next_pkt (acker_of S')}"
  shows "tracks b f' (R \<union> {pd_seqno p}) S'"
    and "pd_size p = sz (pd_seqno p) \<Longrightarrow> sized_by f sz R \<Longrightarrow> sized_by f' sz (R \<union> {pd_seqno p})"
    and "good_ack limit f' hi old h \<Longrightarrow> correct_ack limit (R \<union> {pd_seqno p}) h"
proof -
  have r: "received_by f (acker_of S)" and R: "{i. 0 < f i} = R" and bytes: "sink_bytes S = b + sum f {0..<next_pkt (acker_of S)}"
    using assms(1) by (auto simp: tracks_def sink_ok_def)
  have v: "0 \<le> pd_seqno p" "0 < pd_size p" using p by (auto simp: valid_arrival_def)
  have R': "{i. 0 < f' i} = R \<union> {pd_seqno p}" using arrived_packets [OF r v] R by (simp add: f'_def)
  have "sum f {0..<next_pkt (acker_of S)} = sum f' {0..<next_pkt (acker_of S)}" by (rule sum.cong) (auto simp: f'_def arrived_def)
  moreover have "{0..<next_pkt (acker_of S')} = {0..<next_pkt (acker_of S)} \<union> {next_pkt (acker_of S)..<next_pkt (acker_of S')}"
    using assms(5) r by (auto simp: received_by_def)
  ultimately have "sink_bytes S' = b + sum f' {0..<next_pkt (acker_of S')}" using assms(6) bytes by (simp add: sum.union_disjoint)
  then show "tracks b f' (R \<union> {pd_seqno p}) S'" using assms(4) R' by (simp add: tracks_def)
  show "sized_by f' sz (R \<union> {pd_seqno p})" if "pd_size p = sz (pd_seqno p)" "sized_by f sz R"
  proof -
    have "pd_seqno p \<in> R" if "pd_seqno p < next_pkt (acker_of S)" using that R r v(1) by (auto simp: received_by_def)
    then show ?thesis using that by (auto simp: sized_by_def f'_def arrived_def)
  qed
  show "correct_ack limit (R \<union> {pd_seqno p}) h" if "good_ack limit f' hi old h"
    using good_ack_correct [OF that R' [symmetric]] sink_ok_pos [OF assms(4)] by blast
qed

lemma TcpSink_step_ok: "step_ok (TcpSink_step append_blocks opt)"
  unfolding step_ok_def
proof (intro allI impI)
  fix b f R S e
  assume t: "tracks b f R S" and e: "valid_event e"
  show "\<exists>out S' f'. TcpSink_step append_blocks opt e S = Some (out, S') \<and> tracks b f' (R \<union> event_packets (lastreset S) e) S' \<and> lastreset S' = lastreset S
      \<and> (\<forall>h\<in>set out. correct_ack limit (R \<union> event_packets (lastreset S) e) h)
      \<and> (\<forall>sz. sized sz e \<longrightarrow> sized_by f sz R \<longrightarrow> sized_by f' sz (R \<union> event_packets (lastreset S) e))"
  proof (cases e)
    case Expiry
    then show ?thesis using t by (auto simp: TcpSink_step_def event_packets_def)
  next
    case (Arrival p)
    show ?thesis
    proof (cases "pd_ts p < lastreset S")
      case True
      then show ?thesis using t Arrival by (auto simp: TcpSink_step_def DelAckSink_step_def TcpSink_recv_def DelAckSink_recv_def event_packets_def sized_def)
    next
      case False
      then have new: "lastreset S \<le> pd_ts p" by simp
      have p: "valid_arrival p" and ok: "sink_ok f S" using Arrival e t by (auto simp: valid_event_def tracks_def)
      obtain h S' where S': "TcpSink_recv append_blocks opt p S = Some ([h], S')"
        "sink_ok (arrived (acker_of S) f (pd_seqno p) (pd_size p)) S'" "lastreset S' = lastreset S"
        "good_ack limit (arrived (acker_of S) f (pd_seqno p) (pd_size p)) (maxseen (acker_of S') + 1) (pd_seqno p) h"
        "next_pkt (acker_of S) \<le> next_pkt (acker_of S')" "sink_bytes S' = sink_bytes S
           + sum (arrived (acker_of S) f (pd_seqno p) (pd_size p)) {next_pkt (acker_of S)..<next_pkt (acker_of S')}"
        using TcpSink_recv_ok [OF ok p new] by blast
      note T = tracks_arrived [OF t p S'(2,5,6)]
      show ?thesis using Arrival new S'(1,3) T(1,2) T(3) [OF S'(4)]
        by (auto simp: TcpSink_step_def event_packets_def sized_def)
    qed
  qed
qed

lemma DelAckSink_step_ok: "step_ok (DelAckSink_step append_blocks opt)"
  unfolding step_ok_def
proof (intro allI impI)
  fix b f R S e
  assume t: "tracks b f R S" and e: "valid_event e"
  then have ok: "sink_ok f S" by (simp add: tracks_def)
  show "\<exists>out S' f'. DelAckSink_step append_blocks opt e S = Some (out, S') \<and> tracks b f' (R \<union> event_packets (lastreset S) e) S' \<and> lastreset S' = lastreset S
      \<and> (\<forall>h\<in>set out. correct_ack limit (R \<union> event_packets (lastreset S) e) h)
      \<and> (\<forall>sz. sized sz e \<longrightarrow> sized_by f sz R \<longrightarrow> sized_by f' sz (R \<union> event_packets (lastreset S) e))"
  proof (cases e)
    case Expiry
    obtain acks S' where S': "DelAckSink_timeout append_blocks opt S = Some (acks, S')" "sink_ok f S'" "lastreset S' = lastreset S"
      "\<forall>h\<in>set acks. \<exists>old. good_ack limit f (maxseen (acker_of S') + 1) old h" "next_pkt (acker_of S') = next_pkt (acker_of S)"
      "sink_bytes S' = sink_bytes S" using DelAckSink_timeout_ok [OF ok] by blast
    moreover have "tracks b f R S'" using t S'(2,5,6) by (simp add: tracks_def)
    moreover have "\<forall>h\<in>set acks. correct_ack limit R h"
      using S'(4) good_ack_correct t sink_ok_pos [OF ok] unfolding tracks_def by metis
    ultimately show ?thesis using Expiry by (auto simp: DelAckSink_step_def event_packets_def)
  next
    case (Arrival p)
    show ?thesis
    proof (cases "pd_ts p < lastreset S")
      case True
      then show ?thesis using t Arrival by (auto simp: TcpSink_step_def DelAckSink_step_def TcpSink_recv_def DelAckSink_recv_def event_packets_def sized_def)
    next
      case False
      then have new: "lastreset S \<le> pd_ts p" by simp
      have p: "valid_arrival p" using Arrival e by (auto simp: valid_event_def)
      obtain acks S' where S': "DelAckSink_recv append_blocks opt p S = Some (acks, S')"
        "sink_ok (arrived (acker_of S) f (pd_seqno p) (pd_size p)) S'" "lastreset S' = lastreset S"
        "\<forall>h\<in>set acks. good_ack limit (arrived (acker_of S) f (pd_seqno p) (pd_size p)) (maxseen (acker_of S') + 1) (pd_seqno p) h"
        "next_pkt (acker_of S) \<le> next_pkt (acker_of S')" "sink_bytes S' = sink_bytes S
           + sum (arrived (acker_of S) f (pd_seqno p) (pd_size p)) {next_pkt (acker_of S)..<next_pkt (acker_of S')}"
        using DelAckSink_recv_ok [OF ok p new] by blast
      note T = tracks_arrived [OF t p S'(2,5,6)]
      have "\<forall>h\<in>set acks. correct_ack limit (R \<union> {pd_seqno p}) h" using S'(4) T(3) by blast
      then show ?thesis using Arrival new S'(1,3) T(1,2)
        by (intro exI [of _ acks] exI [of _ S'] exI [of _ "arrived (acker_of S) f (pd_seqno p) (pd_size p)"])
          (simp add: DelAckSink_step_def event_packets_def sized_def)
    qed
  qed
qed

lemma run_ok:
  assumes "step_ok step" and "tracks b f R S" and "\<forall>e\<in>set es. valid_event e"
  shows "\<exists>acks S' f'. sink_run step es S = Some (acks, S') \<and> tracks b f' (R \<union> run_packets (lastreset S) es) S' \<and> lastreset S' = lastreset S
    \<and> (\<forall>sz. (\<forall>e\<in>set es. sized sz e) \<longrightarrow> sized_by f sz R \<longrightarrow> sized_by f' sz (R \<union> run_packets (lastreset S) es))"
  using assms(2,3)
proof (induction es arbitrary: f R S)
  case Nil
  then show ?case by auto
next
  case (Cons e es)
  obtain out S1 f1 where S1: "step e S = Some (out, S1)" "tracks b f1 (R \<union> event_packets (lastreset S) e) S1" "lastreset S1 = lastreset S"
    "\<forall>sz. sized sz e \<longrightarrow> sized_by f sz R \<longrightarrow> sized_by f1 sz (R \<union> event_packets (lastreset S) e)"
    using assms(1) Cons(2,3) unfolding step_ok_def by (meson list.set_intros(1))
  obtain acks S' f' where S': "sink_run step es S1 = Some (acks, S')" "tracks b f' (R \<union> event_packets (lastreset S) e \<union> run_packets (lastreset S) es) S'" "lastreset S' = lastreset S1"
    "\<forall>sz. (\<forall>e\<in>set es. sized sz e) \<longrightarrow> sized_by f1 sz (R \<union> event_packets (lastreset S) e) \<longrightarrow> sized_by f' sz (R \<union> event_packets (lastreset S) e \<union> run_packets (lastreset S) es)"
    using Cons(1) [OF S1(2)] Cons(3) S1(3) by auto
  show ?case using S1 S' by (auto simp: Un_assoc)
qed

text \<open>Whatever came before, an event is processed and every acknowledgment it makes is correct.\<close>

lemma run_step:
  assumes "step_ok step" and "tracks b f R S" and "\<forall>e\<in>set (es @ [e]). valid_event e"
  shows "\<exists>acks S1 out S'. sink_run step es S = Some (acks, S1) \<and> step e S1 = Some (out, S')
    \<and> (\<forall>h\<in>set out. correct_ack limit (R \<union> run_packets (lastreset S) (es @ [e])) h)"
proof -
  obtain acks S1 f1 where S1: "sink_run step es S = Some (acks, S1)" "tracks b f1 (R \<union> run_packets (lastreset S) es) S1" "lastreset S1 = lastreset S"
    using run_ok [OF assms(1,2), of es] assms(3) by auto
  have "valid_event e" using assms(3) S1(3) by simp
  then obtain out S' where "step e S1 = Some (out, S')" "\<forall>h\<in>set out. correct_ack limit (R \<union> run_packets (lastreset S) es \<union> event_packets (lastreset S) e) h"
    using assms(1) S1(2) unfolding step_ok_def S1(3) [symmetric] by blast
  then show ?thesis using S1(1) by (auto simp: Un_assoc)
qed

text \<open>The bytes delivered are those of the packets before the first one missing.\<close>

lemma run_bytes:
  assumes "step_ok step" and "tracks b (\<lambda>_. 0) {} S" and "\<forall>e\<in>set es. valid_event e \<and> sized sz e"
  shows "\<exists>acks S'. sink_run step es S = Some (acks, S') \<and> sink_bytes S' = b + sum sz {0..Seqno (acker_of S')}
    \<and> {0..Seqno (acker_of S')} \<subseteq> run_packets (lastreset S) es \<and> Seqno (acker_of S') + 1 \<notin> run_packets (lastreset S) es
    \<and> 0 \<le> Seqno (acker_of S') + 1"
proof -
  have "\<forall>e\<in>set es. valid_event e" using assms(3) by blast
  from run_ok [OF assms(1,2) this]
  obtain acks S' f' where S': "sink_run step es S = Some (acks, S')" "tracks b f' (run_packets (lastreset S) es) S'"
    "(\<forall>e\<in>set es. sized sz e) \<longrightarrow> sized_by (\<lambda>_. 0) sz {} \<longrightarrow> sized_by f' sz (run_packets (lastreset S) es)" by auto
  have f': "sized_by f' sz (run_packets (lastreset S) es)" using S'(3) assms(3) by (auto simp: sized_by_def)
  have up: "{0..Seqno (acker_of S')} = {0..<next_pkt (acker_of S')}" by (auto simp: Seqno_def)
  have r: "received_by f' (acker_of S')" and R: "run_packets (lastreset S) es = {i. 0 < f' i}" using S'(2) by (auto simp: tracks_def sink_ok_def)
  have below: "{0..Seqno (acker_of S')} \<subseteq> run_packets (lastreset S) es" using r by (auto simp: R up received_by_def)
  moreover have "Seqno (acker_of S') + 1 \<notin> run_packets (lastreset S) es" using r by (auto simp: R Seqno_def received_by_def)
  moreover have "sum f' {0..<next_pkt (acker_of S')} = sum sz {0..Seqno (acker_of S')}"
    unfolding up by (rule sum.cong) (use below f' up in \<open>auto simp: sized_by_def\<close>)
  moreover have "0 \<le> Seqno (acker_of S') + 1" using r by (simp add: Seqno_def received_by_def)
  ultimately show ?thesis using S' by (simp add: tracks_def)
qed

end

section \<open>The two ackers\<close>

interpretation plain: block_reporter Acker_append_ack "\<lambda>_ _ _ _. True" 0
  by unfold_locales (auto simp: Acker_append_ack_def same_window_def good_blocks_def)

lemma history_frame:
  "history n lo p f (A\<lparr>ts_to_echo := t\<rparr>) = history n lo p f A" "history n lo p f (A\<lparr>ecn_unacked := v\<rparr>) = history n lo p f A"
  "history n lo p f (A\<lparr>last_ack_sent := a\<rparr>) = history n lo p f A"
  by (simp_all add: history_def ring_window_def)

interpretation selective: block_reporter "append_ack False" "history n" n for n
proof
  show "\<exists>blocks A'. append_ack False old A = Some (blocks, A') \<and> same_window A A' \<and> history n (next_pkt A) (- 1) f A'
      \<and> good_blocks n f (next_pkt A) (maxseen A + 1) old blocks"
    if r: "received_by f A" and h: "history n lo old f A" and old: "0 \<le> old" "old \<le> maxseen A" "0 < f old"
      and lo: "lo \<le> old \<and> old < next_pkt A \<or> lo = next_pkt A" for f A lo old
  proof -
    obtain blocks where blocks: "append_ack False old A = Some (blocks, A\<lparr>sf := stack_of n blocks\<rparr>)" "length blocks \<le> n"
      "blocks_of (next_pkt A) (- 1) f (maxseen A + 1) blocks"
      "next_pkt A < old \<and> 0 < n \<longrightarrow> blocks \<noteq> [] \<and> fst (hd blocks) \<le> old \<and> old < snd (hd blocks)"
      using append_ok [OF r h old lo] by blast
    obtain k where "ring_window k f (next_pkt A) (maxseen A + 1) A" using r by (auto simp: received_by_def)
    then have "history n (next_pkt A) (- 1) f (A\<lparr>sf := stack_of n blocks\<rparr>)"
      using h r blocks(2,3) by (auto simp: history_def ring_window_def received_by_def)
    then show ?thesis using blocks by (intro exI [of _ blocks] exI [of _ "A\<lparr>sf := stack_of n blocks\<rparr>"])
      (simp add: same_window_def good_blocks_def)
  qed
qed (simp_all add: history_frame history_arrive history_settle history_weaken)

lemma Sacker_history: "int n \<le> int NSA \<Longrightarrow> history n 0 (- 1) (\<lambda>_. 0) (Sacker (int n)) \<and> received_by (\<lambda>_. 0) (Sacker (int n))"
proof -
  assume n: "int n \<le> int NSA"
  have S: "next_pkt (Sacker (int n)) = 0" "maxseen (Sacker (int n)) = 0" "seen (Sacker (int n)) = seen Acker"
    "wndmask (Sacker (int n)) = wndmask Acker" "base_nblocks (Sacker (int n)) = int n" "sf (Sacker (int n)) = stack_of n []"
    using n by (simp_all add: Sacker_def configure_def Let_def acker.defs Acker_def SackStack_empty)
  then have r: "received_by (\<lambda>_. 0) (Sacker (int n))"
    using Acker_received by (simp add: received_by_def ring_window_def) (simp add: Acker_def)
  then show ?thesis using S by (auto simp: history_def received_by_def)
qed

lemma TcpSink_tracks: "plain.tracks 0 (\<lambda>_. 0) {} (TcpSink Acker)"
  using Acker_received by (simp add: plain.tracks_def plain.sink_ok_def TcpSink_def)

lemma Sack1_tracks: "int n \<le> int NSA \<Longrightarrow> selective.tracks n 0 (\<lambda>_. 0) {} (TcpSink (Sacker (int n)))"
  using Sacker_history [of n]
  by (simp add: selective.tracks_def selective.sink_ok_def TcpSink_def) (simp add: Sacker_def configure_def Let_def acker.defs Acker_def)

section \<open>The receivers are correct\<close>

text \<open>The four receivers: with and without selective, and delayed, acknowledgments.\<close>

lemma steps_ok:
  assumes "step \<in> {TcpSink_step Acker_append_ack opt, DelAckSink_step Acker_append_ack opt}"
  shows "plain.step_ok step"
  using assms plain.TcpSink_step_ok plain.DelAckSink_step_ok by blast

lemma sack_steps_ok:
  assumes "step \<in> {TcpSink_step (append_ack False) opt, DelAckSink_step (append_ack False) opt}"
  shows "selective.step_ok n step"
  using assms selective.TcpSink_step_ok selective.DelAckSink_step_ok by blast

lemma TcpSink_lastreset [simp]: "lastreset (TcpSink A) = 0"
  by (simp add: TcpSink_def)

text \<open>A reset of a plain sink forgets what was received, and nothing else the specification talks about.\<close>

lemma plain_reset:
  assumes "plain.tracks b f R S" and "reset \<in> {TcpSink_reset, DelAckSink_reset}"
  shows "plain.tracks (sink_bytes S) (\<lambda>_. 0) {} (reset now S)" and "lastreset (reset now S) = now"
  using assms reset_received
  by (auto simp: plain.tracks_def plain.sink_ok_def TcpSink_reset_def DelAckSink_reset_def Acker_reset_def)

text \<open>\<^verbatim>\<open>Sacker::reset\<close> would restore the invariant of the selective acker.\<close>

lemma Sacker_reset_ok:
  assumes "received_by f S" and "history n lo p f S"
  shows "received_by (\<lambda>_. 0) (Sacker_reset S)" and "history n 0 (- 1) (\<lambda>_. 0) (Sacker_reset S)"
proof -
  let ?T = "S\<lparr>sf := stack_reset (sf S)\<rparr>"
  have T: "received_by f ?T" using assms(1) by (rule received_cong) simp_all
  from reset_received [OF T] show r: "received_by (\<lambda>_. 0) (Sacker_reset S)" by (simp add: Sacker_reset_def)
  obtain es where es: "sf S = stack_of n es" "length es \<le> n" "base_nblocks S = int n" using assms(2) by (auto simp: history_def)
  have "sf (Sacker_reset S) = stack_of n []" "base_nblocks (Sacker_reset S) = int n" "next_pkt (Sacker_reset S) = 0"
    using es stack_reset_empty by (simp_all add: Sacker_reset_def Acker_reset_def)
  then show "history n 0 (- 1) (\<lambda>_. 0) (Sacker_reset S)" using r by (auto simp: history_def received_by_def)
qed

lemma first_missing_seqno:
  "{0..i} \<subseteq> R \<Longrightarrow> i + 1 \<notin> R \<Longrightarrow> 0 \<le> i + 1 \<Longrightarrow> {0..j} \<subseteq> R \<Longrightarrow> j + 1 \<notin> R \<Longrightarrow> 0 \<le> j + 1 \<Longrightarrow> j = i" for i j :: int
  by (smt (verit) atLeastAtMost_iff subsetD)

section \<open>Properties\<close>


definition packet_no :: "int \<Rightarrow> data_packet" where
  "packet_no i = \<lparr>pd_seqno = i, pd_size = 1000, pd_ts = i, pd_ect = False, pd_ce = False, pd_cong_action = False, pd_ecnecho = False\<rparr>"

definition plain_options :: sink_options where
  "plain_options = \<lparr>ts_echo_bugfix = True, ts_echo_rfc1323 = False, generate_dsacks = False, RFC2581_immediate_ack = True,
     SYN_immediate_ack = False, ecn_syn = False\<rparr>"

lemma valid_packet_no [simp]: "valid_event (Arrival (packet_no i)) \<longleftrightarrow> 0 \<le> i \<and> i < 1073741822" "sized (\<lambda>_. 1000) (Arrival (packet_no i))" "valid_event Expiry" "sized sz Expiry"
  by (simp_all add: valid_event_def valid_arrival_def packet_no_def sized_def)


text \<open>
  A receiver without selective acknowledgments after a reset at time \<open>now\<close>: only the packets sent since then
  count, those from before are dropped without an acknowledgment.
\<close>

theorem reset_forgets:
  assumes "step \<in> {TcpSink_step Acker_append_ack opt, DelAckSink_step Acker_append_ack opt}"
    and "reset \<in> {TcpSink_reset, DelAckSink_reset}" and "\<forall>e\<in>set (before @ es @ [e]). valid_event e"
  shows "\<exists>acks S acks' S' out S''. sink_run step before (TcpSink Acker) = Some (acks, S)
    \<and> sink_run step es (reset now S) = Some (acks', S') \<and> step e S' = Some (out, S'')
    \<and> (\<forall>h\<in>set out. correct_ack 0 (run_packets now (es @ [e])) h)"
proof -
  obtain acks S f where S: "sink_run step before (TcpSink Acker) = Some (acks, S)" "plain.tracks 0 f (run_packets 0 before) S"
    using plain.run_ok [OF steps_ok [OF assms(1)] TcpSink_tracks, of before] assms(3) by auto
  show ?thesis
    using plain.run_step [OF steps_ok [OF assms(1)] plain_reset(1) [OF S(2) assms(2)], of es e now] assms(3) S(1)
      plain_reset(2) [OF S(2) assms(2)] by simp
qed

theorem reset_forgets_witness:
  "\<exists>acks S acks' S' out S''. sink_run (DelAckSink_step Acker_append_ack plain_options) [Arrival (packet_no 0), Arrival (packet_no 2)] (TcpSink Acker) = Some (acks, S)
    \<and> sink_run (DelAckSink_step Acker_append_ack plain_options) [Arrival (packet_no 7), Arrival (packet_no 2)] (DelAckSink_reset 5 S) = Some (acks', S')
    \<and> DelAckSink_step Acker_append_ack plain_options Expiry S' = Some (out, S'')
    \<and> (\<forall>h\<in>set out. correct_ack 0 (run_packets 5 ([Arrival (packet_no 7), Arrival (packet_no 2)] @ [Expiry])) h)"
  by (rule reset_forgets) auto


text \<open>
  C9: in all four receivers the bytes handed to the application are those of the packets before the first one
  that is missing, each counted once.
\<close>

theorem delivered_in_order:
  assumes "step \<in> {TcpSink_step Acker_append_ack opt, DelAckSink_step Acker_append_ack opt}"
    and "step' \<in> {TcpSink_step (append_ack False) opt, DelAckSink_step (append_ack False) opt}" and "n \<le> NSA"
    and "\<forall>e\<in>set es. valid_event e \<and> sized sz e"
  shows "\<exists>acks S acks' S'. sink_run step es (TcpSink Acker) = Some (acks, S) \<and> sink_run step' es (TcpSink (Sacker (int n))) = Some (acks', S')
    \<and> (\<exists>m\<ge>0. {0..<m} \<subseteq> run_packets 0 es \<and> m \<notin> run_packets 0 es \<and> Seqno (acker_of S) = m - 1 \<and> Seqno (acker_of S') = m - 1
       \<and> sink_bytes S = sum sz {0..<m} \<and> sink_bytes S' = sum sz {0..<m})"
proof -
  obtain acks S where S: "sink_run step es (TcpSink Acker) = Some (acks, S)" "sink_bytes S = sum sz {0..Seqno (acker_of S)}"
    "{0..Seqno (acker_of S)} \<subseteq> run_packets 0 es" "Seqno (acker_of S) + 1 \<notin> run_packets 0 es" "0 \<le> Seqno (acker_of S) + 1"
    using plain.run_bytes [OF steps_ok [OF assms(1)] TcpSink_tracks assms(4)] by auto
  obtain acks' S' where S': "sink_run step' es (TcpSink (Sacker (int n))) = Some (acks', S')" "sink_bytes S' = sum sz {0..Seqno (acker_of S')}"
    "{0..Seqno (acker_of S')} \<subseteq> run_packets 0 es" "Seqno (acker_of S') + 1 \<notin> run_packets 0 es" "0 \<le> Seqno (acker_of S') + 1"
    using selective.run_bytes [OF sack_steps_ok [OF assms(2)] Sack1_tracks [of n] assms(4)] assms(3) by auto
  have "Seqno (acker_of S') = Seqno (acker_of S)" by (rule first_missing_seqno [OF S(3-5) S'(3-5)])
  then show ?thesis using S S' by (intro exI conjI exI [of _ "Seqno (acker_of S) + 1"]) (simp_all add: atLeastLessThanPlusOne_atLeastAtMost_int)
qed

theorem delivered_in_order_witness:
  "\<exists>acks S acks' S'. sink_run (TcpSink_step Acker_append_ack plain_options) [Arrival (packet_no 0), Arrival (packet_no 2), Arrival (packet_no 1)] (TcpSink Acker) = Some (acks, S)
    \<and> sink_run (DelAckSink_step (append_ack False) plain_options) [Arrival (packet_no 0), Arrival (packet_no 2), Arrival (packet_no 1)] (TcpSink (Sacker (int 3))) = Some (acks', S')
    \<and> (\<exists>m\<ge>0. {0..<m} \<subseteq> run_packets 0 [Arrival (packet_no 0), Arrival (packet_no 2), Arrival (packet_no 1)] \<and> m \<notin> run_packets 0 [Arrival (packet_no 0), Arrival (packet_no 2), Arrival (packet_no 1)]
       \<and> Seqno (acker_of S) = m - 1 \<and> Seqno (acker_of S') = m - 1
       \<and> sink_bytes S = sum (\<lambda>_. 1000) {0..<m} \<and> sink_bytes S' = sum (\<lambda>_. 1000) {0..<m})"
  by (rule delivered_in_order) (auto simp: NSA_def)

text \<open>
  C24: the block reported first is the one of the packet that caused the acknowledgment, when that packet is above the first
  missing one.
\<close>

theorem first_block_recent:
  assumes "n \<le> NSA" and "0 < n" and "\<forall>e\<in>set (es @ [Arrival p]). valid_event e" and "0 \<le> pd_ts p"
  shows "\<exists>acks S out S'. sink_run (DelAckSink_step (append_ack False) opt) es (TcpSink (Sacker (int n))) = Some (acks, S)
    \<and> DelAckSink_recv (append_ack False) opt p S = Some (out, S')
    \<and> (\<forall>h\<in>set out. ah_seqno h + 1 < pd_seqno p \<longrightarrow> (\<exists>l r. take 1 (ah_sacks h) = [(l, r)] \<and> l \<le> pd_seqno p \<and> pd_seqno p < r))"
proof -
  obtain acks S f where S: "sink_run (DelAckSink_step (append_ack False) opt) es (TcpSink (Sacker (int n))) = Some (acks, S)"
    "selective.tracks n 0 f (run_packets 0 es) S" "lastreset S = 0"
    using selective.run_ok [OF sack_steps_ok Sack1_tracks [of n], of "DelAckSink_step (append_ack False) opt" opt es] assms(1,3) by auto
  have ok: "selective.sink_ok n f S" "valid_arrival p" using S(2) assms(3) by (auto simp: selective.tracks_def valid_event_def)
  from selective.DelAckSink_recv_ok [OF ok, of opt] assms(4) S(3)
  obtain out S' f' hi where out: "DelAckSink_recv (append_ack False) opt p S = Some (out, S')" "\<forall>h\<in>set out. good_ack n f' hi (pd_seqno p) h"
    by auto
  have "\<exists>l r. take 1 (ah_sacks h) = [(l, r)] \<and> l \<le> pd_seqno p \<and> pd_seqno p < r" if "h \<in> set out" "ah_seqno h + 1 < pd_seqno p" for h
    using out(2) that assms(2) by (cases "ah_sacks h") (auto simp: good_ack_def good_blocks_def)
  then show ?thesis using S(1) out(1) by blast
qed

theorem first_block_recent_witness:
  "\<exists>acks S out S'. sink_run (DelAckSink_step (append_ack False) plain_options) [Arrival (packet_no 0), Arrival (packet_no 2)] (TcpSink (Sacker (int 3))) = Some (acks, S)
    \<and> DelAckSink_recv (append_ack False) plain_options (packet_no 4) S = Some (out, S')
    \<and> (\<forall>h\<in>set out. ah_seqno h + 1 < pd_seqno (packet_no 4) \<longrightarrow> (\<exists>l r. take 1 (ah_sacks h) = [(l, r)] \<and> l \<le> pd_seqno (packet_no 4) \<and> pd_seqno (packet_no 4) < r))"
  by (rule first_block_recent) (auto simp: NSA_def packet_no_def valid_event_def valid_arrival_def)

text \<open>
  C25: delayed acknowledgments: of two packets in a row at least one is acknowledged, and a packet that is not the
  last in order is acknowledged at once.
\<close>

theorem acknowledges_every_second:
  assumes "n \<le> NSA" and "\<forall>e\<in>set (es @ [Arrival p, Arrival q]). valid_event e" and "0 \<le> pd_ts p" "0 \<le> pd_ts q"
  shows "\<exists>acks S out S1 out' S2. sink_run (DelAckSink_step (append_ack False) opt) es (TcpSink (Sacker (int n))) = Some (acks, S)
    \<and> DelAckSink_recv (append_ack False) opt p S = Some (out, S1) \<and> DelAckSink_recv (append_ack False) opt q S1 = Some (out', S2)
    \<and> out @ out' \<noteq> [] \<and> (pd_seqno p \<noteq> Seqno (acker_of S1) \<longrightarrow> out \<noteq> [])"
proof -
  obtain acks S f where S: "sink_run (DelAckSink_step (append_ack False) opt) es (TcpSink (Sacker (int n))) = Some (acks, S)"
    "selective.tracks n 0 f (run_packets 0 es) S" "lastreset S = 0"
    using selective.run_ok [OF sack_steps_ok Sack1_tracks [of n], of "DelAckSink_step (append_ack False) opt" opt es] assms(1,2) by auto
  have ok: "selective.sink_ok n f S" "valid_arrival p" "valid_arrival q" using S(2) assms(2) by (auto simp: selective.tracks_def valid_event_def)
  obtain out S1 f1 where S1: "DelAckSink_recv (append_ack False) opt p S = Some (out, S1)" "selective.sink_ok n f1 S1" "lastreset S1 = 0"
    "out = [] \<longrightarrow> timer_pending S1 \<and> pd_seqno p + 1 = next_pkt (acker_of S1)"
    using selective.DelAckSink_recv_ok [OF ok(1,2), of opt] assms(3) S(3) by auto
  obtain out' S2 where "DelAckSink_recv (append_ack False) opt q S1 = Some (out', S2)" "out' = [] \<longrightarrow> \<not> timer_pending S1"
    using selective.DelAckSink_recv_ok [OF S1(2) ok(3), of opt] assms(4) S1(3) by auto
  then show ?thesis using S(1) S1 by (auto simp: Seqno_def)
qed

theorem acknowledges_every_second_witness:
  "\<exists>acks S out S1 out' S2. sink_run (DelAckSink_step (append_ack False) plain_options) [Arrival (packet_no 0), Expiry] (TcpSink (Sacker (int 2))) = Some (acks, S)
    \<and> DelAckSink_recv (append_ack False) plain_options (packet_no 1) S = Some (out, S1) \<and> DelAckSink_recv (append_ack False) plain_options (packet_no 2) S1 = Some (out', S2)
    \<and> out @ out' \<noteq> [] \<and> (pd_seqno (packet_no 1) \<noteq> Seqno (acker_of S1) \<longrightarrow> out \<noteq> [])"
  by (rule acknowledges_every_second) (auto simp: NSA_def packet_no_def valid_event_def valid_arrival_def)

end
