(* ===== verification/Network.thy ===== *)
theory Network
  imports Connections Receiver
begin

text \<open>
  The TCP-Linux agent of \<^theory_text>\<open>Agent\<close> and the receiver of \<^theory_text>\<open>Sink\<close> over a network that loses, duplicates, delays
  and reorders packets in both directions: every data packet and every acknowledgment ever sent may
  arrive at any time, any number of times, or never.
\<close>

section \<open>States and steps\<close>

text \<open>\<open>got\<close> records the packets that arrived at the receiver; no step depends on it.\<close>

record 'p net_state =
  sender :: "'p agent"
  receiver :: "sacker sink"
  data_sent :: "int set"
  acks_sent :: "ack_header set"
  got :: "int set"

text \<open>
  The acknowledgment that arrives is one the receiver made; the times in it are what the simulator
  guarantees of them.
\<close>

definition carries :: "ack_header \<Rightarrow> ack_packet \<Rightarrow> bool" where
  "carries h pkt \<longleftrightarrow> pk_seqno pkt = ah_seqno h \<and> pk_sacks pkt = ah_sacks h \<and> pk_ecnecho pkt = ah_ecnecho h"

definition timing_ok :: "int \<Rightarrow> env \<Rightarrow> 'p agent \<Rightarrow> ack_packet \<Rightarrow> bool" where
  "timing_ok limit env A pkt \<longleftrightarrow> clock_ok env \<and> past env 0 \<and> past env (pk_sent pkt)
     \<and> (case pk_ts pkt of None \<Rightarrow> True | Some (tsval, tsecr) \<Rightarrow> unat tsecr < 2 ^ 53)
     \<and> (case pk_rtt pkt of None \<Rightarrow> measured A | Some (t_rtt, usrtt) \<Rightarrow> sint t_rtt < limit)"

definition sack_receiver :: "(sink_event \<Rightarrow> sacker sink \<Rightarrow> (ack_header list \<times> sacker sink) option) \<Rightarrow> bool" where
  "sack_receiver step \<longleftrightarrow> (\<exists>sopt. step \<in> {TcpSink_step (append_ack False) sopt, DelAckSink_step (append_ack False) sopt})"

inductive network ::
    "'p ca_ops \<Rightarrow> int \<Rightarrow> options \<Rightarrow> 'p \<Rightarrow> (sink_event \<Rightarrow> sacker sink \<Rightarrow> (ack_header list \<times> sacker sink) option) \<Rightarrow> nat
      \<Rightarrow> 'p net_state \<Rightarrow> bool"
  for ca :: "'p ca_ops" and limit :: int and opt :: options and p :: 'p and step n where
  Start: "ca_priv A = p \<Longrightarrow> scb A = ScoreBoard1 \<Longrightarrow> unat (rcv_tsecr (rx_opt (linux A))) < 2 ^ 53 \<Longrightarrow> reset opt A = Some A' \<Longrightarrow>
    network ca limit opt p step n
      \<lparr>sender = A', receiver = TcpSink (Sacker (int n)), data_sent = {}, acks_sent = {}, got = {}\<rparr>"
| Ack_arrives: "network ca limit opt p step n N \<Longrightarrow> h \<in> acks_sent N \<Longrightarrow> carries h pkt \<Longrightarrow> timing_ok limit env (sender N) pkt \<Longrightarrow>
    recv ca env opt pkt (sender N) = Some (sent, A') \<Longrightarrow>
    network ca limit opt p step n (N\<lparr>sender := A', data_sent := data_sent N \<union> set sent\<rparr>)"
| Timeout: "network ca limit opt p step n N \<Longrightarrow> clock_ok env \<Longrightarrow> measured (sender N) \<Longrightarrow>
    timeout ca env opt (sender N) = Some (sent, A') \<Longrightarrow>
    network ca limit opt p step n (N\<lparr>sender := A', data_sent := data_sent N \<union> set sent\<rparr>)"
| Application: "network ca limit opt p step n N \<Longrightarrow> curseq (sender N) + data_packets nbytes (size_ns opt) < 2147483648 \<Longrightarrow>
    sendmsg opt nbytes (sender N) = Some (sent, A') \<Longrightarrow>
    network ca limit opt p step n (N\<lparr>sender := A', data_sent := data_sent N \<union> set sent\<rparr>)"
| Data_arrives: "network ca limit opt p step n N \<Longrightarrow> pd_seqno q \<in> data_sent N \<Longrightarrow> valid_arrival q \<Longrightarrow> 0 \<le> pd_ts q \<Longrightarrow>
    step (Arrival q) (receiver N) = Some (out, S') \<Longrightarrow>
    network ca limit opt p step n (N\<lparr>receiver := S', acks_sent := acks_sent N \<union> set out, got := insert (pd_seqno q) (got N)\<rparr>)"
| Expires: "network ca limit opt p step n N \<Longrightarrow> step Expiry (receiver N) = Some (out, S') \<Longrightarrow>
    network ca limit opt p step n (N\<lparr>receiver := S', acks_sent := acks_sent N \<union> set out\<rparr>)"

section \<open>Correct acknowledgments are acceptable\<close>

lemma apart_cases: "sorted_wrt apart xs \<Longrightarrow> x \<in> set xs \<Longrightarrow> y \<in> set xs \<Longrightarrow> x = y \<or> apart x y"
  by (induction xs) (auto simp: apart_def)

lemma correct_ack_sacks:
  assumes h: "correct_ack n R h" and n: "n \<le> NSA" and R: "R \<subseteq> {0..<t}"
  shows "sacks_ok (ah_seqno h) (ah_sacks h)" "\<forall>(l, r)\<in>set (ah_sacks h). r \<le> t" "reported (ah_seqno h) (ah_sacks h) \<subseteq> R"
    "- 1 \<le> ah_seqno h" "ah_seqno h < t \<or> ah_seqno h = - 1"
proof -
  have b: "ah_seqno h + 1 < l \<and> l < r \<and> {l..<r} \<subseteq> R" if "(l, r) \<in> set (ah_sacks h)" for l r
    using h that by (auto simp: correct_ack_def)
  have mono: "r \<le> r'" if "(l, r) \<in> set (ah_sacks h)" "(l', r') \<in> set (ah_sacks h)" "l \<le> l'" for l r l' r'
  proof -
    have "(l, r) = (l', r') \<or> apart (l, r) (l', r')"
      using apart_cases [OF _ that(1,2)] h by (simp add: correct_ack_def)
    then show ?thesis using b [OF that(1)] b [OF that(2)] that(3) by (auto simp: apart_def)
  qed
  have "length (ah_sacks h) \<le> NSA + 1" using h n by (simp add: correct_ack_def)
  moreover have "ah_seqno h < l \<and> l < r" if "(l, r) \<in> set (ah_sacks h)" for l r using b [OF that] by simp
  ultimately show "sacks_ok (ah_seqno h) (ah_sacks h)" using mono unfolding sacks_ok_def by blast
  have "r \<le> t" if "(l, r) \<in> set (ah_sacks h)" for l r
  proof -
    have "r - 1 \<in> R" using b [OF that] by auto
    then show ?thesis using R by auto
  qed
  then show "\<forall>(l, r)\<in>set (ah_sacks h). r \<le> t" by blast
  show "reported (ah_seqno h) (ah_sacks h) \<subseteq> R" using b by (force simp: reported_def)
  show low: "- 1 \<le> ah_seqno h" using h by (simp add: correct_ack_def)
  show "ah_seqno h < t \<or> ah_seqno h = - 1"
  proof (cases "ah_seqno h = - 1")
    case False
    then have "ah_seqno h \<in> R" using h low by (auto simp: correct_ack_def)
    then show ?thesis using R by auto
  qed simp
qed

lemma delivered_ack_ok:
  assumes "correct_ack n R h" and "n \<le> NSA" and "R \<subseteq> {0..<t_seqno A}" and "t_seqno A < 2147483648"
    and "carries h pkt" and "timing_ok limit env A pkt"
  shows "ack_ok limit env A pkt"
  using correct_ack_sacks [OF assms(1-3)] assms(4-6) by (auto simp: ack_ok_def timing_ok_def carries_def)

section \<open>The invariant of the network\<close>

definition network_ok :: "nat \<Rightarrow> 'p net_state \<Rightarrow> bool" where
  "network_ok n N \<longleftrightarrow> (\<exists>f. selective.tracks n 0 f (got N) (receiver N)) \<and> lastreset (receiver N) = 0
     \<and> got N \<subseteq> data_sent N \<and> data_sent N \<subseteq> {0..<t_seqno (sender N)}
     \<and> (\<forall>h\<in>acks_sent N. \<exists>R\<subseteq>got N. correct_ack n R h)
     \<and> {0..highest_ack (sender N)} \<subseteq> got N \<and> sacked_packets (sender N) \<subseteq> got N"

lemma network_sends:
  assumes "network_ok n N" and "effect acks news (sender N) sent A'"
    and "\<And>a. a \<in> acks \<Longrightarrow> {0..a} \<subseteq> got N" and "news \<subseteq> got N"
  shows "network_ok n (N\<lparr>sender := A', data_sent := data_sent N \<union> set sent\<rparr>)"
proof -
  have e: "t_seqno (sender N) \<le> t_seqno A'" "set sent \<subseteq> {0..<t_seqno A'}" "highest_ack A' \<in> insert (highest_ack (sender N)) acks"
    "sacked_packets A' \<subseteq> sacked_packets (sender N) \<union> news" using assms(2) by (simp_all add: effect_def)
  have n: "got N \<subseteq> data_sent N" "data_sent N \<subseteq> {0..<t_seqno (sender N)}" "{0..highest_ack (sender N)} \<subseteq> got N"
    "sacked_packets (sender N) \<subseteq> got N" using assms(1) by (simp_all add: network_ok_def)
  have "{0..<t_seqno (sender N)} \<subseteq> {0..<t_seqno A'}" using e(1) by auto
  then have "data_sent N \<union> set sent \<subseteq> {0..<t_seqno A'}" using n(2) e(2) by blast
  moreover have "{0..highest_ack A'} \<subseteq> got N" using e(3) n(3) assms(3) by (metis insertE)
  moreover have "sacked_packets A' \<subseteq> got N" "got N \<subseteq> data_sent N \<union> set sent" using e(4) n(1,4) assms(4) by blast+
  ultimately show ?thesis using assms(1) by (simp add: network_ok_def)
qed

lemma receiver_step:
  assumes ok: "network_ok n N" and step: "sack_receiver step" and e: "valid_event e" "event_packets 0 e \<subseteq> data_sent N"
  shows "\<exists>out S'. step e (receiver N) = Some (out, S')
    \<and> network_ok n (N\<lparr>receiver := S', acks_sent := acks_sent N \<union> set out, got := got N \<union> event_packets 0 e\<rparr>)"
proof -
  obtain f where f: "selective.tracks n 0 f (got N) (receiver N)" and l: "lastreset (receiver N) = 0"
    using ok by (auto simp: network_ok_def)
  have "selective.step_ok n step" using step sack_steps_ok by (auto simp: sack_receiver_def)
  from this [unfolded selective.step_ok_def, rule_format, OF f e(1), unfolded l]
  obtain out S' f' where r: "step e (receiver N) = Some (out, S')" "selective.tracks n 0 f' (got N \<union> event_packets 0 e) S'"
    "lastreset S' = 0" "\<forall>h\<in>set out. correct_ack n (got N \<union> event_packets 0 e) h"
    by (elim exE conjE) (rule that)
  let ?G = "got N \<union> event_packets 0 e"
  have acks: "\<forall>h\<in>acks_sent N. \<exists>R\<subseteq>got N. correct_ack n R h" "got N \<subseteq> data_sent N" "data_sent N \<subseteq> {0..<t_seqno (sender N)}"
    "{0..highest_ack (sender N)} \<subseteq> got N" "sacked_packets (sender N) \<subseteq> got N" using ok by (simp_all add: network_ok_def)
  have "\<exists>R\<subseteq>?G. correct_ack n R h" if "h \<in> acks_sent N \<union> set out" for h
  proof (cases "h \<in> set out")
    case True
    then show ?thesis using r(4) by (intro exI [of _ ?G]) simp
  next
    case False
    then have "h \<in> acks_sent N" using that by simp
    then obtain R where "R \<subseteq> got N" "correct_ack n R h" using acks(1) by blast
    then show ?thesis by (intro exI [of _ R]) auto
  qed
  moreover have "?G \<subseteq> data_sent N" using e(2) acks(2) by simp
  moreover have "{0..highest_ack (sender N)} \<subseteq> ?G" "sacked_packets (sender N) \<subseteq> ?G" using acks(4,5) by (simp_all add: le_supI1)
  ultimately have "network_ok n (N\<lparr>receiver := S', acks_sent := acks_sent N \<union> set out, got := ?G\<rparr>)"
    using acks(3) r(2,3) unfolding network_ok_def by (intro conjI exI [of _ f'] ballI) simp_all
  then show ?thesis using r(1) by blast
qed

context agent_module begin

lemma network_invariant:
  assumes "network ops limit opt p step n N" and opt: "options_ok opt" "srtt_init_ticks opt = 0" and p: "inv False p"
    and step: "sack_receiver step" and n: "n \<le> NSA"
  shows "agent_ok limit usable inv (sender N) \<and> network_ok n N"
  using assms(1)
proof induction
  case (Start A A')
  have "agent_ok limit usable inv A'" using reset_ok [OF opt, of A A'] Start p by blast
  moreover have "highest_ack A' = - 1 \<and> scb A' = ClearScoreBoard (scb A)" using Start(4) by (rule reset_books)
  moreover have "selective.tracks n 0 (\<lambda>_. 0) {} (TcpSink (Sacker (int n)))" using Sack1_tracks n by simp
  ultimately show ?case by (auto simp: network_ok_def ClearScoreBoard_def)
next
  case (Ack_arrives N h pkt env sent A')
  have ok: "agent_ok limit usable inv (sender N)" and net: "network_ok n N" using Ack_arrives.IH by auto
  obtain R where R: "R \<subseteq> got N" "correct_ack n R h" using net Ack_arrives(2) by (auto simp: network_ok_def)
  then have Rt: "R \<subseteq> {0..<t_seqno (sender N)}" using net by (auto simp: network_ok_def)
  have "t_seqno (sender N) < 2147483648" using ok by (simp add: agent_ok_def)
  note r = recv_ok [OF ok delivered_ack_ok [OF R(2) n Rt this Ack_arrives(3,4)] opt(1)]
  then have A': "agent_ok limit usable inv A'"
    and e: "effect {pk_seqno pkt} (reported (pk_seqno pkt) (pk_sacks pkt)) (sender N) sent A'"
    using Ack_arrives(5) by auto
  have "{0..pk_seqno pkt} \<subseteq> got N" "reported (pk_seqno pkt) (pk_sacks pkt) \<subseteq> got N"
    using correct_ack_sacks(3) [OF R(2) n Rt] R Ack_arrives(3) by (auto simp: carries_def correct_ack_def)
  then have "network_ok n (N\<lparr>sender := A', data_sent := data_sent N \<union> set sent\<rparr>)"
    by (intro network_sends [OF net e]) auto
  then show ?case using A' by simp
next
  case (Timeout N env sent A')
  then show ?case using timeout_ok [OF Timeout(2) _ Timeout(3) opt(1)] network_sends [of n N "{}" "{}" sent A'] by auto
next
  case (Application N nbytes sent A')
  have ok: "agent_ok limit usable inv (sender N)" and net: "network_ok n N" using Application.IH by auto
  obtain c where c: "c < 2147483648" "sendmsg opt nbytes (sender N) = send_much (maxburst opt) (sender N\<lparr>curseq := c\<rparr>)"
    using sendmsg_curseq [OF opt(1) Application(2)] by blast
  then have "agent_ok limit usable inv A' \<and> effect {} {} (sender N) sent A'"
    using application_ok [OF ok opt(1) c(1)] Application(3) by auto
  then show ?case using network_sends [OF net, of "{}" "{}" sent A'] by auto
next
  case (Data_arrives N q out S')
  have "valid_event (Arrival q)" "event_packets 0 (Arrival q) = {pd_seqno q}"
    using Data_arrives(3,4) by (simp_all add: valid_event_def event_packets_def)
  then show ?case using receiver_step [OF _ step, of n N "Arrival q"] Data_arrives by auto
next
  case (Expires N out S')
  then show ?case using receiver_step [OF _ step, of n N Expiry] by (auto simp: event_packets_def valid_event_def)
qed

lemma sender_proceeds:
  assumes "agent_ok limit usable inv (sender N)" and net: "network_ok n N" and "options_ok opt" and n: "n \<le> NSA"
    and "h \<in> acks_sent N" and "carries h pkt" and "timing_ok limit env (sender N) pkt"
  shows "recv ops env opt pkt (sender N) \<noteq> None"
proof -
  obtain R where R: "R \<subseteq> got N" "correct_ack n R h" using net assms(5) unfolding network_ok_def by blast
  then have "R \<subseteq> {0..<t_seqno (sender N)}" using net unfolding network_ok_def by blast
  moreover have "t_seqno (sender N) < 2147483648" using assms(1) by (simp add: agent_ok_def)
  ultimately show ?thesis using recv_ok [OF assms(1) delivered_ack_ok [OF R(2) n _ _ assms(6,7)] assms(3)] by fastforce
qed

end

lemma network_receiver:
  assumes "network_ok n N"
  shows "{0..Seqno (acker_of (receiver N))} \<subseteq> got N" "Seqno (acker_of (receiver N)) + 1 \<notin> got N"
    "highest_ack (sender N) \<le> Seqno (acker_of (receiver N))"
proof -
  obtain f where r: "received_by f (acker_of (receiver N))" "{i. 0 < f i} = got N"
    using assms by (auto simp: network_ok_def selective.tracks_def selective.sink_ok_def)
  show s: "{0..Seqno (acker_of (receiver N))} \<subseteq> got N" "Seqno (acker_of (receiver N)) + 1 \<notin> got N"
    using r(1) unfolding r(2) [symmetric] by (auto simp: received_by_def Seqno_def)
  have "0 \<le> Seqno (acker_of (receiver N)) + 1" using r by (simp add: received_by_def Seqno_def)
  moreover have "{0..highest_ack (sender N)} \<subseteq> got N" using assms by (simp add: network_ok_def)
  then have "Seqno (acker_of (receiver N)) + 1 \<notin> {0..highest_ack (sender N)}" using s(2) by blast
  ultimately show "highest_ack (sender N) \<le> Seqno (acker_of (receiver N))" by simp
qed

section \<open>Properties\<close>

text \<open>What holds in every state of the network, whatever it did with the packets.\<close>

definition end_to_end :: "'p ca_ops \<Rightarrow> int \<Rightarrow> 'p \<Rightarrow> bool" where
  "end_to_end ca limit p \<longleftrightarrow> (\<forall>opt step n N. options_ok opt \<and> srtt_init_ticks opt = 0 \<and> sack_receiver step \<and> n \<le> NSA
       \<and> network ca limit opt p step n N \<longrightarrow>
     highest_ack (sender N) \<le> Seqno (acker_of (receiver N)) \<and> {0..Seqno (acker_of (receiver N))} \<subseteq> got N
     \<and> sacked_packets (sender N) \<subseteq> got N \<and> got N \<subseteq> data_sent N \<and> data_sent N \<subseteq> {0..<t_seqno (sender N)}
     \<and> (\<forall>h env pkt. h \<in> acks_sent N \<and> carries h pkt \<and> timing_ok limit env (sender N) pkt \<longrightarrow> recv ca env opt pkt (sender N) \<noteq> None)
     \<and> (\<forall>q. pd_seqno q \<in> data_sent N \<and> valid_arrival q \<and> 0 \<le> pd_ts q \<longrightarrow> step (Arrival q) (receiver N) \<noteq> None)
     \<and> step Expiry (receiver N) \<noteq> None)"

context agent_module begin

lemma end_to_end_ok:
  assumes p: "inv False p"
  shows "end_to_end ops limit p"
  unfolding end_to_end_def
proof (intro allI impI, elim conjE)
  fix opt step n and N :: "'p net_state"
  assume a: "options_ok opt" "srtt_init_ticks opt = 0" "sack_receiver step" "n \<le> NSA" "network ops limit opt p step n N"
  have ok: "agent_ok limit usable inv (sender N)" and net: "network_ok n N"
    using network_invariant [OF a(5,1,2) p a(3,4)] by simp_all
  have "recv ops env opt pkt (sender N) \<noteq> None"
    if "h \<in> acks_sent N" "carries h pkt" "timing_ok limit env (sender N) pkt" for h env pkt
    by (rule sender_proceeds [OF ok net a(1,4) that])
  moreover have "step (Arrival q) (receiver N) \<noteq> None" if "pd_seqno q \<in> data_sent N" "valid_arrival q" "0 \<le> pd_ts q" for q
    using receiver_step [OF net a(3), of "Arrival q"] that by (auto simp: valid_event_def event_packets_def)
  moreover have "step Expiry (receiver N) \<noteq> None"
    using receiver_step [OF net a(3), of Expiry] by (auto simp: valid_event_def event_packets_def)
  ultimately show "highest_ack (sender N) \<le> Seqno (acker_of (receiver N)) \<and> {0..Seqno (acker_of (receiver N))} \<subseteq> got N
     \<and> sacked_packets (sender N) \<subseteq> got N \<and> got N \<subseteq> data_sent N \<and> data_sent N \<subseteq> {0..<t_seqno (sender N)}
     \<and> (\<forall>h env pkt. h \<in> acks_sent N \<and> carries h pkt \<and> timing_ok limit env (sender N) pkt \<longrightarrow> recv ops env opt pkt (sender N) \<noteq> None)
     \<and> (\<forall>q. pd_seqno q \<in> data_sent N \<and> valid_arrival q \<and> 0 \<le> pd_ts q \<longrightarrow> step (Arrival q) (receiver N) \<noteq> None)
     \<and> step Expiry (receiver N) \<noteq> None"
    using network_receiver [OF net] net unfolding network_ok_def by (intro conjI) blast+
qed

end





end
