(* ===== verification/Event_Queue.thy ===== *)
theory Event_Queue
  imports Prelude "HOL-Library.Product_Lexorder"
begin

text \<open>
  The pending events of the simulator (\<^verbatim>\<open>common/scheduler.h\<close>): the objects of class \<^verbatim>\<open>Event\<close>, the virtual
  functions by which class \<^verbatim>\<open>Scheduler\<close> uses its queue, the contract they fulfil, and the queue of
  \<^verbatim>\<open>ListScheduler\<close> (\<^verbatim>\<open>common/scheduler.cc\<close>), which fulfils it.

  A pointer to an event is an address; the objects themselves are in a store. Times are \<^verbatim>\<open>double\<close>. The queues
  only compare them, so they are of any linearly ordered type here: the values of \<^verbatim>\<open>double\<close> without NaN are one.
\<close>

section \<open>Events\<close>

type_synonym eptr = nat

record 't event =
  ev_handler :: "nat option"
  ev_time :: 't
  ev_uid :: int

type_synonym 't store = "eptr \<Rightarrow> 't event"

text \<open>The order in which events are meant to be dispatched: by time, and among events of one time by the
  order in which they were scheduled.\<close>

definition event_key :: "'t store \<Rightarrow> eptr \<Rightarrow> 't \<times> int" where
  "event_key m a = (ev_time (m a), ev_uid (m a))"

lemma event_key_less: "event_key m a < event_key m b
    \<longleftrightarrow> ev_time (m a) < ev_time (m b) \<or> ev_time (m a) = ev_time (m b) \<and> ev_uid (m a) < ev_uid (m b)"
  for m :: "'t::linorder store"
  by (auto simp: event_key_def less_prod_def)

lemma event_key_upd [simp]: "b \<noteq> a \<Longrightarrow> event_key (m(a := e)) b = event_key m b"
  by (simp add: event_key_def)

text \<open>An event that leaves the queue has its unique number negated.\<close>

definition negate_uid :: "eptr \<Rightarrow> 't store \<Rightarrow> 't store" where
  "negate_uid a m = m(a := m a\<lparr>ev_uid := - ev_uid (m a)\<rparr>)"

lemma negate_uid_same [simp]: "negate_uid a m a = m a\<lparr>ev_uid := - ev_uid (m a)\<rparr>"
  by (simp add: negate_uid_def)

lemma negate_uid_other [simp]: "b \<noteq> a \<Longrightarrow> negate_uid a m b = m b"
  by (simp add: negate_uid_def)

section \<open>The virtual functions of a queue and their contract\<close>

text \<open>
  \<^verbatim>\<open>insert\<close> and \<^verbatim>\<open>cancel\<close> may abort; \<^verbatim>\<open>cancel\<close> writes the event; \<^verbatim>\<open>lookup\<close> and \<^verbatim>\<open>deque\<close> return a null pointer, which is
  \<^term>\<open>None\<close>, when there is no such event.
\<close>

record ('t, 'q) queue_ops =
  q_insert :: "'t store \<Rightarrow> eptr \<Rightarrow> 'q \<Rightarrow> 'q option"
  q_cancel :: "'t store \<Rightarrow> eptr \<Rightarrow> 'q \<Rightarrow> ('t store \<times> 'q) option"
  q_lookup :: "'t store \<Rightarrow> int \<Rightarrow> 'q \<Rightarrow> eptr option \<times> 'q"
  q_deque :: "'t store \<Rightarrow> 'q \<Rightarrow> eptr option \<times> 'q"
  q_head :: "'t store \<Rightarrow> 'q \<Rightarrow> eptr option"

text \<open>
  The contract: \<open>elems\<close> is the set of events in the queue, and \<open>ready n m\<close> is the well-formedness of a queue that
  still takes \<open>n\<close> insertions. An insertion is of an event whose number is above those in the queue. What \<^verbatim>\<open>deque\<close>
  returns is before every other event in the order \<^const>\<open>event_key\<close>.
\<close>

locale event_queue =
  fixes Q :: "('t::linorder, 'q) queue_ops"
    and fresh :: 'q
    and capacity :: nat
    and elems :: "'q \<Rightarrow> eptr set"
    and ready :: "nat \<Rightarrow> 't store \<Rightarrow> 'q \<Rightarrow> bool"
  assumes elems_fresh: "elems fresh = {}"
    and finite_elems: "finite (elems q)"
    and ready_fresh: "n \<le> capacity \<Longrightarrow> ready n m fresh"
    and ready_cong: "ready n m q \<Longrightarrow> (\<And>a. a \<in> elems q \<Longrightarrow> m' a = m a) \<Longrightarrow> ready n m' q"
    and ready_mono: "ready n m q \<Longrightarrow> k \<le> n \<Longrightarrow> ready k m q"
    and insert_law: "ready (Suc n) m q \<Longrightarrow> (\<And>b. b \<in> elems q \<Longrightarrow> ev_uid (m b) < ev_uid (m a)) \<Longrightarrow>
      \<exists>q'. q_insert Q m a q = Some q' \<and> elems q' = insert a (elems q) \<and> ready n m q'"
    and cancel_idle: "ev_uid (m a) \<le> 0 \<Longrightarrow> q_cancel Q m a q = Some (m, q)"
    and cancel_law: "ready n m q \<Longrightarrow> a \<in> elems q \<Longrightarrow> 0 < ev_uid (m a) \<Longrightarrow>
      \<exists>q'. q_cancel Q m a q = Some (negate_uid a m, q') \<and> elems q' = elems q - {a} \<and> ready n m q'"
    and lookup_law: "ready n m q \<Longrightarrow> q_lookup Q m u q = (r, q') \<Longrightarrow> elems q' = elems q \<and> ready n m q' \<and>
      (case r of None \<Rightarrow> \<forall>a\<in>elems q. ev_uid (m a) \<noteq> u | Some a \<Rightarrow> a \<in> elems q \<and> ev_uid (m a) = u)"
    and deque_empty: "ready n m q \<Longrightarrow> elems q = {} \<Longrightarrow> \<exists>q'. q_deque Q m q = (None, q') \<and> elems q' = {} \<and> ready n m q'"
    and deque_law: "ready n m q \<Longrightarrow> elems q \<noteq> {} \<Longrightarrow>
      \<exists>a q'. q_deque Q m q = (Some a, q') \<and> a \<in> elems q \<and> (\<forall>b\<in>elems q - {a}. event_key m a < event_key m b) \<and>
        elems q' = elems q - {a} \<and> ready n m q'"
    and head_law: "ready n m q \<Longrightarrow> q_head Q m q = fst (q_deque Q m q)"

section \<open>ListScheduler\<close>

text \<open>The queue is the list that starts at \<^verbatim>\<open>queue_\<close> and is linked by \<^verbatim>\<open>next_\<close>.\<close>

fun ListScheduler_insert :: "'t::linorder store \<Rightarrow> eptr \<Rightarrow> eptr list \<Rightarrow> eptr list" where
  "ListScheduler_insert m e [] = [e]"
| "ListScheduler_insert m e (p # ps) =
    (if ev_time (m e) < ev_time (m p) then e # p # ps else p # ListScheduler_insert m e ps)"

text \<open>The loop of \<^verbatim>\<open>cancel\<close> aborts at the end of the list.\<close>

fun unlink_event :: "eptr \<Rightarrow> eptr list \<Rightarrow> eptr list option" where
  "unlink_event e [] = None"
| "unlink_event e (p # ps) = (if p = e then Some ps else map_option ((#) p) (unlink_event e ps))"

definition ListScheduler_cancel :: "'t store \<Rightarrow> eptr \<Rightarrow> eptr list \<Rightarrow> ('t store \<times> eptr list) option" where
  "ListScheduler_cancel m e q =
    (if ev_uid (m e) \<le> 0 then Some (m, q)
     else do { q' \<leftarrow> unlink_event e q; Some (negate_uid e m, q') })"

fun ListScheduler_lookup :: "'t store \<Rightarrow> int \<Rightarrow> eptr list \<Rightarrow> eptr option" where
  "ListScheduler_lookup m u [] = None"
| "ListScheduler_lookup m u (e # es) = (if ev_uid (m e) = u then Some e else ListScheduler_lookup m u es)"

fun ListScheduler_deque :: "eptr list \<Rightarrow> eptr option \<times> eptr list" where
  "ListScheduler_deque [] = (None, [])"
| "ListScheduler_deque (e # es) = (Some e, es)"

definition ListScheduler_head :: "eptr list \<Rightarrow> eptr option" where
  "ListScheduler_head q = (case q of [] \<Rightarrow> None | e # es \<Rightarrow> Some e)"

definition ListScheduler :: "('t::linorder, eptr list) queue_ops" where
  "ListScheduler = \<lparr>q_insert = (\<lambda>m e q. Some (ListScheduler_insert m e q)), q_cancel = ListScheduler_cancel,
    q_lookup = (\<lambda>m u q. (ListScheduler_lookup m u q, q)), q_deque = (\<lambda>m. ListScheduler_deque),
    q_head = (\<lambda>m. ListScheduler_head)\<rparr>"

lemma ListScheduler_simps [simp]:
  "q_insert ListScheduler m e q = Some (ListScheduler_insert m e q)"
  "q_cancel ListScheduler = ListScheduler_cancel"
  "q_lookup ListScheduler m u q = (ListScheduler_lookup m u q, q)"
  "q_deque ListScheduler m = ListScheduler_deque"
  "q_head ListScheduler m = ListScheduler_head"
  by (simp_all add: ListScheduler_def)

text \<open>The list is sorted by \<^const>\<open>event_key\<close>.\<close>

definition in_order :: "'t::linorder store \<Rightarrow> eptr list \<Rightarrow> bool" where
  "in_order m q = sorted_wrt (\<lambda>a b. event_key m a < event_key m b) q"

lemma in_order_simps [simp]:
  "in_order m []"
  "in_order m (a # q) \<longleftrightarrow> (\<forall>b\<in>set q. event_key m a < event_key m b) \<and> in_order m q"
  by (simp_all add: in_order_def)

lemma in_order_append [simp]: "in_order m (p @ q)
    \<longleftrightarrow> in_order m p \<and> in_order m q \<and> (\<forall>a\<in>set p. \<forall>b\<in>set q. event_key m a < event_key m b)"
  by (auto simp: in_order_def sorted_wrt_append)

lemma in_order_cong: "in_order m q \<Longrightarrow> (\<And>a. a \<in> set q \<Longrightarrow> m' a = m a) \<Longrightarrow> in_order m' q"
  by (induction q) (auto simp: event_key_def)

lemma in_order_distinct: "in_order m q \<Longrightarrow> distinct q"
  by (induction q) auto

lemma ListScheduler_insert_split: "ListScheduler_insert m e q =
    takeWhile (\<lambda>p. ev_time (m p) \<le> ev_time (m e)) q @ e # dropWhile (\<lambda>p. ev_time (m p) \<le> ev_time (m e)) q"
  by (induction q) (auto simp: not_less)

lemma set_ListScheduler_insert [simp]: "set (ListScheduler_insert m e q) = insert e (set q)"
  by (induction q) auto

lemma in_order_insert: "in_order m q \<Longrightarrow> (\<And>b. b \<in> set q \<Longrightarrow> ev_uid (m b) < ev_uid (m a)) \<Longrightarrow>
    in_order m (ListScheduler_insert m a q)"
proof (induction q)
  case (Cons p ps)
  have "event_key m p < event_key m a" if "\<not> ev_time (m a) < ev_time (m p)"
    using that Cons.prems(2) [of p] by (auto simp: event_key_less)
  moreover have "event_key m a < event_key m p" if "ev_time (m a) < ev_time (m p)"
    using that by (simp add: event_key_less)
  ultimately show ?case using Cons by (auto intro: less_trans)
qed simp

lemma unlink_event_eq: "in_order m q \<Longrightarrow> a \<in> set q \<Longrightarrow> unlink_event a q = Some (filter (\<lambda>b. b \<noteq> a) q)"
  by (induction q) (auto intro!: filter_True [symmetric])

lemma unlink_event_absent: "a \<notin> set q \<Longrightarrow> unlink_event a q = None"
  by (induction q) auto

lemma in_order_filter: "in_order m q \<Longrightarrow> in_order m (filter P q)"
  by (induction q) auto

lemma ListScheduler_lookup_law: "case ListScheduler_lookup m u q of None \<Rightarrow> \<forall>a\<in>set q. ev_uid (m a) \<noteq> u
    | Some a \<Rightarrow> a \<in> set q \<and> ev_uid (m a) = u"
  by (induction q) (auto split: option.splits)

interpretation list_queue: event_queue ListScheduler "[]" "2 ^ 31 - 1" set "\<lambda>n. in_order"
proof (unfold_locales, goal_cases)
  case (4 n m q m') then show ?case by (rule in_order_cong)
next
  case (6 n m q a) then show ?case by (simp add: in_order_insert)
next
  case (7 m a q) then show ?case by (simp add: ListScheduler_cancel_def)
next
  case (8 n m q a) then show ?case
    by (auto simp: ListScheduler_cancel_def unlink_event_eq in_order_filter)
next
  case (9 n m q u r q1) then show ?case
    using ListScheduler_lookup_law [of q1 m u] by auto
next
  case (11 n m q) then show ?case by (cases q) auto
next
  case (12 n m q) then show ?case by (cases q) (auto simp: ListScheduler_head_def)
qed auto

end
