(* ===== verification/Event_Heap.thy ===== *)
theory Event_Heap
  imports Event_Queue "HOL-Library.Multiset"
begin

text \<open>
  \<^verbatim>\<open>HeapScheduler\<close> (\<^verbatim>\<open>common/scheduler.cc\<close>) and its array heap, class \<^verbatim>\<open>Heap\<close> (\<^verbatim>\<open>common/heap.h\<close>). An element has the time of
  its event as key and, to break ties, a number that the heap counts up. \<^verbatim>\<open>h_elems\<close> here is the part of the
  array in use, so that \<^verbatim>\<open>h_size\<close> is its length; indices are natural numbers: with fewer than \<open>2 ^ 31\<close> elements,
  which \<open>heap_ready\<close> bounds, no index computation leaves \<^verbatim>\<open>unsigned int\<close>. The counter \<^verbatim>\<open>h_s_key\<close> and \<^verbatim>\<open>h_maxsize\<close>
  have the 32 bits of \<^verbatim>\<open>unsigned int\<close>, since these can wrap around.
\<close>

section \<open>The heap\<close>

record 't heap_elem =
  he_key :: 't
  he_s_key :: u32
  he_elem :: eptr

record 't heap =
  h_elems :: "'t heap_elem list"
  h_s_key :: u16
  h_maxsize :: u16
  h_iter :: nat

definition HEAP_DEFAULT_SIZE :: u16 where
  "HEAP_DEFAULT_SIZE = 32"

definition new_heap :: "'t heap" where
  "new_heap = \<lparr>h_elems = [], h_s_key = 0, h_maxsize = HEAP_DEFAULT_SIZE, h_iter = 0\<rparr>"

definition heap_parent :: "nat \<Rightarrow> nat" where "heap_parent i = (i - 1) div 2"
definition heap_left :: "nat \<Rightarrow> nat" where "heap_left i = i * 2 + 1"
definition heap_right :: "nat \<Rightarrow> nat" where "heap_right i = (i + 1) * 2"

definition heap_swap :: "'a list \<Rightarrow> nat \<Rightarrow> nat \<Rightarrow> 'a list" where
  "heap_swap xs i j = xs[i := xs ! j, j := xs ! i]"

definition KEY_LESS_THAN :: "'t::linorder \<Rightarrow> u32 \<Rightarrow> 't \<Rightarrow> u32 \<Rightarrow> bool" where
  "KEY_LESS_THAN k1 ks1 k2 ks2 \<longleftrightarrow> k1 < k2 \<or> k1 = k2 \<and> ks1 < ks2"

lemma heap_parent_less [simp]: "0 < i \<Longrightarrow> heap_parent i < i"
  by (simp add: heap_parent_def)

lemma heap_parent_le [simp]: "heap_parent i \<le> i"
  by (simp add: heap_parent_def)

lemma heap_parent_length [simp]: "i < n \<Longrightarrow> heap_parent i < n"
  by (rule le_less_trans [OF heap_parent_le])

lemma heap_parent_neq [simp]: "0 < i \<Longrightarrow> heap_parent i \<noteq> i" "0 < i \<Longrightarrow> i \<noteq> heap_parent i"
  by (metis heap_parent_less less_irrefl)+

lemma heap_parent_eq_iff: "0 < j \<Longrightarrow> heap_parent j = i \<longleftrightarrow> j = heap_left i \<or> j = heap_right i"
  by (auto simp: heap_parent_def heap_left_def heap_right_def)

lemma heap_child_gt [simp]: "i < heap_left i" "i < heap_right i"
  by (simp_all add: heap_left_def heap_right_def)

lemma heap_child_neq [simp]: "heap_left i \<noteq> i" "heap_right i \<noteq> i"
  by (simp_all add: heap_left_def heap_right_def)

text \<open>The loop of \<^verbatim>\<open>heap_member\<close>, which returns the index plus one, or zero.\<close>

fun heap_member_from :: "eptr \<Rightarrow> nat \<Rightarrow> 't heap_elem list \<Rightarrow> nat" where
  "heap_member_from e i [] = 0"
| "heap_member_from e i (c # cs) = (if he_elem c = e then Suc i else heap_member_from e (Suc i) cs)"

definition heap_member :: "eptr \<Rightarrow> 't heap \<Rightarrow> nat" where
  "heap_member e h = heap_member_from e 0 (h_elems h)"

text \<open>The loop of \<^verbatim>\<open>heap_insert\<close> moves elements down and leaves a hole, whose index it returns.\<close>

function sift_up :: "'t::linorder \<Rightarrow> u32 \<Rightarrow> nat \<Rightarrow> 't heap_elem list \<Rightarrow> nat \<times> 't heap_elem list" where
  "sift_up key skey i xs =
    (let par = heap_parent i in
     if 0 < i \<and> KEY_LESS_THAN key skey (he_key (xs ! par)) (he_s_key (xs ! par))
     then sift_up key skey par (xs[i := xs ! par])
     else (i, xs))"
  by pat_completeness auto
termination by (relation "measure (\<lambda>(_, _, i, _). i)") auto

declare sift_up.simps [simp del]

text \<open>The array is doubled when it is full; a write past its end is \<^term>\<open>None\<close>.\<close>

definition heap_insert :: "'t::linorder \<Rightarrow> eptr \<Rightarrow> 't heap \<Rightarrow> 't heap option" where
  "heap_insert key e h =
    (let maxsize = (if h_maxsize h = of_nat (length (h_elems h)) then h_maxsize h * 2 else h_maxsize h);
         new = \<lparr>he_key = key, he_s_key = uint_ulong (h_s_key h), he_elem = e\<rparr>
     in if length (h_elems h) < unat maxsize
        then (case sift_up key (uint_ulong (h_s_key h)) (length (h_elems h)) (h_elems h @ [new]) of
           (i, xs) \<Rightarrow> Some (h\<lparr>h_elems := xs[i := new], h_s_key := h_s_key h + 1, h_maxsize := maxsize\<rparr>))
        else None)"

text \<open>The loop of \<^verbatim>\<open>heap_extract_min\<close>.\<close>

definition sift_child :: "nat \<Rightarrow> 't::linorder heap_elem list \<Rightarrow> nat" where
  "sift_child i xs =
    (let l = heap_left i; r = heap_right i in
     if r < length xs
     then (if KEY_LESS_THAN (he_key (xs ! l)) (he_s_key (xs ! l)) (he_key (xs ! r)) (he_s_key (xs ! r)) then l else r)
     else (if l < length xs then l else i))"

lemma sift_child_cases: "sift_child i xs = i \<or> i < sift_child i xs \<and> sift_child i xs < length xs"
  using heap_child_gt [of i] by (auto simp: sift_child_def Let_def heap_left_def heap_right_def)

function sift_down :: "nat \<Rightarrow> 't::linorder heap_elem list \<Rightarrow> 't heap_elem list" where
  "sift_down i xs =
    (if i < length xs then
       (let x = sift_child i xs in
        if x \<noteq> i \<and> KEY_LESS_THAN (he_key (xs ! x)) (he_s_key (xs ! x)) (he_key (xs ! i)) (he_s_key (xs ! i))
        then sift_down x (heap_swap xs i x)
        else xs)
     else xs)"
  by pat_completeness auto
termination
proof (relation "measure (\<lambda>(i, xs). length xs - i)", goal_cases)
  case (2 i xs x)
  then show ?case using sift_child_cases [of i xs] by (auto simp: heap_swap_def)
qed simp

declare sift_down.simps [simp del]

definition heap_extract_min :: "'t::linorder heap \<Rightarrow> eptr option \<times> 't heap" where
  "heap_extract_min h =
    (if h_elems h = [] then (None, h)
     else (Some (he_elem (h_elems h ! 0)),
       h\<lparr>h_elems := sift_down 0 (butlast ((h_elems h)[0 := last (h_elems h)]))\<rparr>))"

text \<open>\<^verbatim>\<open>heap_delete\<close> swaps the element up to the root without comparisons.\<close>

function to_root :: "nat \<Rightarrow> 'a list \<Rightarrow> 'a list" where
  "to_root i xs = (if i = 0 then xs else to_root (heap_parent i) (heap_swap xs i (heap_parent i)))"
  by pat_completeness auto
termination by (relation "measure fst") auto

declare to_root.simps [simp del]

definition heap_delete :: "eptr \<Rightarrow> 't::linorder heap \<Rightarrow> bool \<times> 't heap" where
  "heap_delete e h =
    (let i = heap_member e h in
     if i = 0 then (False, h)
     else (True, snd (heap_extract_min (h\<lparr>h_elems := to_root (i - 1) (h_elems h)\<rparr>))))"

definition heap_min :: "'t heap \<Rightarrow> eptr option" where
  "heap_min h = (if 0 < length (h_elems h) then Some (he_elem (h_elems h ! 0)) else None)"

definition heap_iter_init :: "'t heap \<Rightarrow> eptr option \<times> 't heap" where
  "heap_iter_init h = (heap_min h, h\<lparr>h_iter := 1\<rparr>)"

definition heap_iter :: "'t heap \<Rightarrow> eptr option \<times> 't heap" where
  "heap_iter h =
    (if length (h_elems h) \<le> h_iter h then (None, h\<lparr>h_iter := 0\<rparr>)
     else (Some (he_elem (h_elems h ! h_iter h)), h\<lparr>h_iter := h_iter h + 1\<rparr>))"

section \<open>HeapScheduler\<close>

function HeapScheduler_lookup_loop :: "'t store \<Rightarrow> int \<Rightarrow> eptr option \<Rightarrow> 't heap \<Rightarrow> eptr option \<times> 't heap" where
  "HeapScheduler_lookup_loop m u None h = (None, h)"
| "HeapScheduler_lookup_loop m u (Some e) h =
    (if ev_uid (m e) = u then (Some e, h)
     else HeapScheduler_lookup_loop m u (fst (heap_iter h)) (snd (heap_iter h)))"
  by pat_completeness auto
termination
  by (relation "measure (\<lambda>(m, u, e, h). if e = None then 0 else Suc (length (h_elems h) - h_iter h))")
    (auto simp: heap_iter_def split: if_splits)

definition HeapScheduler_lookup :: "'t store \<Rightarrow> int \<Rightarrow> 't heap \<Rightarrow> eptr option \<times> 't heap" where
  "HeapScheduler_lookup m u h =
    HeapScheduler_lookup_loop m u (fst (heap_iter_init h)) (snd (heap_iter_init h))"

definition HeapScheduler_cancel :: "'t::linorder store \<Rightarrow> eptr \<Rightarrow> 't heap \<Rightarrow> ('t store \<times> 't heap) option" where
  "HeapScheduler_cancel m e h =
    (if ev_uid (m e) \<le> 0 then Some (m, h) else Some (negate_uid e m, snd (heap_delete e h)))"

definition HeapScheduler_insert :: "'t::linorder store \<Rightarrow> eptr \<Rightarrow> 't heap \<Rightarrow> 't heap option" where
  "HeapScheduler_insert m e h = heap_insert (ev_time (m e)) e h"

definition HeapScheduler :: "('t::linorder, 't heap) queue_ops" where
  "HeapScheduler = \<lparr>q_insert = HeapScheduler_insert, q_cancel = HeapScheduler_cancel,
    q_lookup = HeapScheduler_lookup, q_deque = (\<lambda>m. heap_extract_min), q_head = (\<lambda>m. heap_min)\<rparr>"

lemma HeapScheduler_simps [simp]:
  "q_insert HeapScheduler = HeapScheduler_insert"
  "q_cancel HeapScheduler = HeapScheduler_cancel"
  "q_lookup HeapScheduler = HeapScheduler_lookup"
  "q_deque HeapScheduler m = heap_extract_min"
  "q_head HeapScheduler m = heap_min"
  by (simp_all add: HeapScheduler_def)

section \<open>The heap property\<close>

definition he_order :: "'t heap_elem \<Rightarrow> 't \<times> u32" where
  "he_order c = (he_key c, he_s_key c)"

lemma KEY_LESS_THAN_order: "KEY_LESS_THAN (he_key c) (he_s_key c) (he_key d) (he_s_key d) \<longleftrightarrow> he_order c < he_order d"
  by (auto simp: KEY_LESS_THAN_def he_order_def less_prod_def)

definition is_heap :: "'t::linorder heap_elem list \<Rightarrow> bool" where
  "is_heap xs \<longleftrightarrow> (\<forall>j. 0 < j \<longrightarrow> j < length xs \<longrightarrow> he_order (xs ! heap_parent j) \<le> he_order (xs ! j))"

text \<open>The heap property where it does not concern the element at one index: nothing about its parent
  (\<open>heap_above\<close>), its children (\<open>heap_below\<close>), or either (\<open>heap_around\<close>); its children are not below its parent.\<close>

definition bridged :: "nat \<Rightarrow> 't::linorder heap_elem list \<Rightarrow> bool" where
  "bridged i xs \<longleftrightarrow> (\<forall>j. 0 < j \<longrightarrow> j < length xs \<longrightarrow> heap_parent j = i \<longrightarrow> 0 < i \<longrightarrow>
     he_order (xs ! heap_parent i) \<le> he_order (xs ! j))"

definition heap_above :: "nat \<Rightarrow> 't::linorder heap_elem list \<Rightarrow> bool" where
  "heap_above i xs \<longleftrightarrow> bridged i xs \<and>
    (\<forall>j. 0 < j \<longrightarrow> j < length xs \<longrightarrow> j \<noteq> i \<longrightarrow> he_order (xs ! heap_parent j) \<le> he_order (xs ! j))"

definition heap_below :: "nat \<Rightarrow> 't::linorder heap_elem list \<Rightarrow> bool" where
  "heap_below i xs \<longleftrightarrow> bridged i xs \<and>
    (\<forall>j. 0 < j \<longrightarrow> j < length xs \<longrightarrow> heap_parent j \<noteq> i \<longrightarrow> he_order (xs ! heap_parent j) \<le> he_order (xs ! j))"

definition heap_around :: "nat \<Rightarrow> 't::linorder heap_elem list \<Rightarrow> bool" where
  "heap_around i xs \<longleftrightarrow> bridged i xs \<and>
    (\<forall>j. 0 < j \<longrightarrow> j < length xs \<longrightarrow> j \<noteq> i \<longrightarrow> heap_parent j \<noteq> i \<longrightarrow>
      he_order (xs ! heap_parent j) \<le> he_order (xs ! j))"

named_theorems heap_defs
lemmas [heap_defs] = is_heap_def bridged_def heap_above_def heap_below_def heap_around_def

lemma heap_swap_nth: "i < length xs \<Longrightarrow> j < length xs \<Longrightarrow>
    heap_swap xs i j ! k = (if k = i then xs ! j else if k = j then xs ! i else xs ! k)"
  by (cases "k < length xs") (auto simp: heap_swap_def nth_list_update nth_list_update_neq)

lemma length_heap_swap [simp]: "length (heap_swap xs i j) = length xs"
  by (simp add: heap_swap_def)

lemma mset_heap_swap [simp]: "i < length xs \<Longrightarrow> j < length xs \<Longrightarrow> mset (heap_swap xs i j) = mset xs"
  using mset_swap [of j xs i] by (simp add: heap_swap_def)

lemma is_heap_bridged: "is_heap xs \<Longrightarrow> bridged i xs"
proof -
  assume *: "is_heap xs"
  show ?thesis unfolding bridged_def
  proof (intro allI impI)
    fix j assume j: "0 < j" "j < length xs" "heap_parent j = i" "0 < i"
    then have "i < length xs" using heap_parent_less [of j] by simp
    then have "he_order (xs ! heap_parent i) \<le> he_order (xs ! i)" "he_order (xs ! i) \<le> he_order (xs ! j)"
      using * j unfolding is_heap_def by blast+
    then show "he_order (xs ! heap_parent i) \<le> he_order (xs ! j)" by (rule order_trans)
  qed
qed

lemma is_heap_around: "is_heap xs \<Longrightarrow> heap_around i xs"
  using is_heap_bridged [of xs i] by (auto simp: is_heap_def heap_around_def)

lemma is_heap_least: "is_heap xs \<Longrightarrow> j < length xs \<Longrightarrow> he_order (xs ! 0) \<le> he_order (xs ! j)"
proof (induction j rule: less_induct)
  case (less j)
  show ?case
  proof (cases "j = 0")
    case False
    then have "heap_parent j < j" by simp
    then have "he_order (xs ! 0) \<le> he_order (xs ! heap_parent j)" using less by simp
    also have "\<dots> \<le> he_order (xs ! j)" using less.prems False by (simp add: is_heap_def)
    finally show ?thesis .
  qed simp
qed

text \<open>One step of each loop.\<close>

lemma heap_above_step:
  assumes "heap_above i xs" "0 < i" "i < length xs" "he_order (xs ! i) < he_order (xs ! heap_parent i)"
  shows "heap_above (heap_parent i) (heap_swap xs i (heap_parent i))" (is "heap_above ?p ?ys")
proof -
  have p: "?p < i" "?p < length xs" using assms heap_parent_less [of i] by simp_all
  note nth = heap_swap_nth [OF assms(3) p(2)]
  have above: "he_order (xs ! heap_parent j) \<le> he_order (xs ! j)" if "0 < j" "j < length xs" "j \<noteq> i" for j
    using assms(1) that by (simp add: heap_above_def)
  have bridge: "he_order (xs ! ?p) \<le> he_order (xs ! j)" if "0 < j" "j < length xs" "heap_parent j = i" for j
    using assms(1,2) that by (simp add: heap_above_def bridged_def)
  have "bridged ?p ?ys" unfolding bridged_def
  proof (intro allI impI)
    fix j assume j: "0 < j" "j < length ?ys" "heap_parent j = ?p" "0 < ?p"
    then have *: "he_order (xs ! heap_parent ?p) \<le> he_order (xs ! ?p)" using above [of ?p] p by simp
    moreover have "he_order (xs ! ?p) \<le> he_order (xs ! j)" if "j \<noteq> i" using above [of j] j that by simp
    moreover have "heap_parent ?p < ?p" "j \<noteq> ?p" using j heap_parent_less [of j] by auto
    ultimately show "he_order (?ys ! heap_parent ?p) \<le> he_order (?ys ! j)"
      using p by (simp add: nth order_trans [OF *])
  qed
  moreover have "he_order (?ys ! heap_parent j) \<le> he_order (?ys ! j)"
    if j: "0 < j" "j < length ?ys" "j \<noteq> ?p" for j
  proof -
    have "heap_parent j \<noteq> j" using heap_parent_less [OF j(1)] by simp
    consider "j = i" | "j \<noteq> i" "heap_parent j = i" | "j \<noteq> i" "heap_parent j = ?p"
      | "j \<noteq> i" "heap_parent j \<noteq> i" "heap_parent j \<noteq> ?p" by blast
    then show ?thesis
    proof cases
      case 3
      then have "he_order (xs ! ?p) \<le> he_order (xs ! j)" using above [of j] j by simp
      then have "he_order (xs ! i) \<le> he_order (xs ! j)" using assms(4) by simp
      then show ?thesis using 3 j p by (simp add: nth)
    qed (use j p assms(4) bridge [of j] above [of j] in \<open>simp_all add: nth\<close>)
  qed
  ultimately show ?thesis by (simp add: heap_above_def)
qed

lemma heap_above_stop:
  "heap_above i xs \<Longrightarrow> i = 0 \<or> he_order (xs ! heap_parent i) \<le> he_order (xs ! i) \<Longrightarrow> is_heap xs"
  by (auto simp: heap_above_def is_heap_def)

lemma heap_around_step:
  assumes "heap_around i xs" "0 < i" "i < length xs"
  shows "heap_around (heap_parent i) (heap_swap xs i (heap_parent i))" (is "heap_around ?p ?ys")
proof -
  have p: "?p < i" "?p < length xs" using assms heap_parent_less [of i] by simp_all
  note nth = heap_swap_nth [OF assms(3) p(2)]
  have around: "he_order (xs ! heap_parent j) \<le> he_order (xs ! j)"
    if "0 < j" "j < length xs" "j \<noteq> i" "heap_parent j \<noteq> i" for j
    using assms(1) that by (simp add: heap_around_def)
  have bridge: "he_order (xs ! ?p) \<le> he_order (xs ! j)" if "0 < j" "j < length xs" "heap_parent j = i" for j
    using assms(1,2) that by (simp add: heap_around_def bridged_def)
  have "bridged ?p ?ys" unfolding bridged_def
  proof (intro allI impI)
    fix j assume j: "0 < j" "j < length ?ys" "heap_parent j = ?p" "0 < ?p"
    have up: "heap_parent ?p < ?p" "j \<noteq> ?p" using j heap_parent_less [of j] by auto
    then have "heap_parent ?p \<noteq> i" using p by linarith
    then have *: "he_order (xs ! heap_parent ?p) \<le> he_order (xs ! ?p)" using around [of ?p] p j by simp
    moreover have "he_order (xs ! ?p) \<le> he_order (xs ! j)" if "j \<noteq> i" using around [of j] j that p by simp
    ultimately show "he_order (?ys ! heap_parent ?p) \<le> he_order (?ys ! j)"
      using p up by (simp add: nth order_trans [OF *])
  qed
  moreover have "he_order (?ys ! heap_parent j) \<le> he_order (?ys ! j)"
    if j: "0 < j" "j < length ?ys" "j \<noteq> ?p" "heap_parent j \<noteq> ?p" for j
  proof -
    have "j \<noteq> i" using j by auto
    then show ?thesis using j p bridge [of j] around [of j] by (cases "heap_parent j = i") (simp_all add: nth)
  qed
  ultimately show ?thesis by (simp add: heap_around_def)
qed

lemma heap_below_step:
  assumes "heap_below i xs" "x < length xs" "0 < x" "heap_parent x = i" "he_order (xs ! x) < he_order (xs ! i)"
    and least: "\<And>j. 0 < j \<Longrightarrow> j < length xs \<Longrightarrow> heap_parent j = i \<Longrightarrow> he_order (xs ! x) \<le> he_order (xs ! j)"
  shows "heap_below x (heap_swap xs i x)" (is "heap_below x ?ys")
proof -
  have ix: "i < x" "i < length xs" using assms heap_parent_less [of x] by simp_all
  note nth = heap_swap_nth [OF ix(2) assms(2)]
  have below: "he_order (xs ! heap_parent j) \<le> he_order (xs ! j)" if "0 < j" "j < length xs" "heap_parent j \<noteq> i" for j
    using assms(1) that by (simp add: heap_below_def)
  have "bridged x ?ys" unfolding bridged_def
  proof (intro allI impI)
    fix j assume j: "0 < j" "j < length ?ys" "heap_parent j = x" "0 < x"
    then have "x < j" using heap_parent_less [of j] by simp
    then show "he_order (?ys ! heap_parent x) \<le> he_order (?ys ! j)"
      using j ix below [of j] assms(4) by (simp add: nth)
  qed
  moreover have "he_order (?ys ! heap_parent j) \<le> he_order (?ys ! j)"
    if j: "0 < j" "j < length ?ys" "heap_parent j \<noteq> x" for j
  proof -
    have "he_order (xs ! heap_parent i) \<le> he_order (xs ! x)" if "0 < i"
      using assms(1-4) that by (simp add: heap_below_def bridged_def)
    moreover have "heap_parent i \<noteq> i" if "0 < i" using heap_parent_less [OF that] by simp
    moreover have "heap_parent i \<noteq> x" using heap_parent_le [of i] ix by linarith
    ultimately show ?thesis
      using j ix least [of j] below [of j] assms(4,5) heap_parent_less [of j]
      by (cases "heap_parent j = i"; cases "j = i"; cases "j = x") (simp_all add: nth)
  qed
  ultimately show ?thesis by (simp add: heap_below_def)
qed

lemma heap_below_stop:
  "heap_below i xs \<Longrightarrow> (\<And>j. 0 < j \<Longrightarrow> j < length xs \<Longrightarrow> heap_parent j = i \<Longrightarrow> he_order (xs ! i) \<le> he_order (xs ! j))
    \<Longrightarrow> is_heap xs"
  by (auto simp: heap_below_def is_heap_def)

text \<open>The loops.\<close>

lemma sift_up_result:
  "sift_up (he_key c) (he_s_key c) i xs = (i', xs') \<Longrightarrow> i < length xs \<Longrightarrow> heap_above i (xs[i := c]) \<Longrightarrow>
    is_heap (xs'[i' := c]) \<and> mset (xs'[i' := c]) = mset (xs[i := c])"
proof (induction i arbitrary: xs rule: less_induct)
  case (less i)
  let ?p = "heap_parent i"
  show ?case
  proof (cases "0 < i \<and> he_order c < he_order (xs ! ?p)")
    case True
    then have p: "?p < i" "?p < length xs" using less.prems(2) heap_parent_less [of i] by simp_all
    have step: "(xs[i := xs ! ?p])[?p := c] = heap_swap (xs[i := c]) i ?p"
      using p less.prems(2) by (simp add: heap_swap_def list_update_swap)
    have "sift_up (he_key c) (he_s_key c) ?p (xs[i := xs ! ?p]) = (i', xs')"
      using less.prems(1) True by (simp add: sift_up.simps [of _ _ i] KEY_LESS_THAN_order Let_def)
    moreover have "heap_above ?p (xs[i := xs ! ?p, ?p := c])"
      unfolding step by (rule heap_above_step) (use less.prems True p in simp_all)
    ultimately have "is_heap (xs'[i' := c]) \<and> mset (xs'[i' := c]) = mset (xs[i := xs ! ?p, ?p := c])"
      using less.IH [OF p(1)] p by simp
    then show ?thesis unfolding step using p less.prems(2) by simp
  next
    case False
    then have [simp]: "i' = i" "xs' = xs"
      using less.prems(1) by (auto simp: sift_up.simps [of _ _ i] KEY_LESS_THAN_order Let_def split: if_splits)
    have "i = 0 \<or> he_order (xs[i := c] ! ?p) \<le> he_order (xs[i := c] ! i)"
      using False less.prems(2) heap_parent_less [of i] by (cases "i = 0") (auto simp: not_less)
    then show ?thesis using heap_above_stop [OF less.prems(3)] by simp
  qed
qed

lemma sift_child_least:
  assumes "sift_child i xs = x" "0 < j" "j < length xs" "heap_parent j = i"
  shows "he_order (xs ! x) \<le> he_order (xs ! j) \<and> x \<noteq> i \<and> x < length xs \<and> heap_parent x = i"
proof -
  have [simp]: "heap_parent (heap_left i) = i" "heap_parent (heap_right i) = i"
    by (simp_all add: heap_parent_def heap_left_def heap_right_def)
  have "heap_left i < heap_right i" by (simp add: heap_left_def heap_right_def)
  moreover have "j = heap_left i \<or> j = heap_right i" using assms(2,4) heap_parent_eq_iff by blast
  ultimately show ?thesis
    using assms(1,3) heap_child_gt [of i] unfolding sift_child_def Let_def KEY_LESS_THAN_order
    by (auto split: if_splits)
qed

lemma sift_down_result:
  "heap_below i xs \<Longrightarrow> is_heap (sift_down i xs) \<and> mset (sift_down i xs) = mset xs"
proof (induction i xs rule: sift_down.induct)
  case (1 i xs)
  define x where "x = sift_child i xs"
  show ?case
  proof (cases "i < length xs \<and> x \<noteq> i \<and> he_order (xs ! x) < he_order (xs ! i)")
    case True
    then have x: "x < length xs" "0 < x" using sift_child_cases [of i xs] by (auto simp: x_def)
    have "x = heap_left i \<or> x = heap_right i"
      using True unfolding x_def sift_child_def Let_def by (auto split: if_splits)
    then have "heap_parent x = i" using heap_parent_eq_iff [OF x(2)] by simp
    then have "heap_below x (heap_swap xs i x)"
      using heap_below_step [OF 1(2) x _ _] sift_child_least [OF x_def [symmetric]] True by blast
    then show ?thesis
      using 1(1) [OF _ x_def] True x by (simp add: sift_down.simps [of i] KEY_LESS_THAN_order flip: x_def)
  next
    case False
    have "is_heap xs"
    proof (rule heap_below_stop [OF 1(2)])
      fix j assume j: "0 < j" "j < length xs" "heap_parent j = i"
      then have "i < length xs" using heap_parent_less [of j] by simp
      then show "he_order (xs ! i) \<le> he_order (xs ! j)"
        using sift_child_least [OF x_def [symmetric] j] False by auto
    qed
    then show ?thesis
      using False by (auto simp: sift_down.simps [of i] KEY_LESS_THAN_order Let_def simp flip: x_def)
  qed
qed

lemma to_root_result:
  "heap_around i xs \<Longrightarrow> i < length xs \<Longrightarrow>
    heap_around 0 (to_root i xs) \<and> mset (to_root i xs) = mset xs \<and> to_root i xs ! 0 = xs ! i"
proof (induction i arbitrary: xs rule: less_induct)
  case (less i)
  let ?p = "heap_parent i"
  show ?case
  proof (cases "i = 0")
    case False
    then have p: "?p < i" "?p < length xs" using less.prems(2) heap_parent_less [of i] by simp_all
    let ?ys = "heap_swap xs i ?p"
    have "heap_around ?p ?ys" using heap_around_step [of i xs] less.prems False by simp
    then have "heap_around 0 (to_root ?p ?ys) \<and> mset (to_root ?p ?ys) = mset ?ys \<and> to_root ?p ?ys ! 0 = ?ys ! ?p"
      using less.IH [OF p(1)] p by simp
    moreover have "to_root i xs = to_root ?p ?ys" using False by (simp add: to_root.simps [of i])
    ultimately show ?thesis using p less.prems(2) by (simp add: heap_swap_nth)
  next
    case True
    then have "to_root i xs = xs" by (subst to_root.simps) simp
    then show ?thesis using less.prems True by simp
  qed
qed

text \<open>Taking the root out, which need not be the least element.\<close>

lemma heap_extract_min_result:
  assumes "heap_around 0 (h_elems h)" "h_elems h \<noteq> []"
  shows "\<exists>xs. heap_extract_min h = (Some (he_elem (h_elems h ! 0)), h\<lparr>h_elems := xs\<rparr>) \<and> is_heap xs \<and>
    add_mset (h_elems h ! 0) (mset xs) = mset (h_elems h)"
proof -
  obtain ys c where split: "h_elems h = ys @ [c]" using assms(2) by (cases "h_elems h" rule: rev_cases) auto
  let ?zs = "butlast ((h_elems h)[0 := last (h_elems h)])"
  have zs: "?zs = (case ys of [] \<Rightarrow> [] | y # ys' \<Rightarrow> c # ys')"
    by (cases ys) (simp_all add: split butlast_append)
  have "heap_below 0 ?zs"
  proof -
    have "he_order (?zs ! heap_parent j) \<le> he_order (?zs ! j)"
      if j: "0 < j" "j < length ?zs" "heap_parent j \<noteq> 0" for j
    proof -
      have "he_order (h_elems h ! heap_parent j) \<le> he_order (h_elems h ! j)"
        using assms(1) j by (simp add: heap_around_def)
      moreover have "?zs ! k = h_elems h ! k" if "0 < k" "k < length ?zs" for k
        using that by (simp add: nth_butlast)
      moreover have "heap_parent j < length ?zs" using heap_parent_less [OF j(1)] j(2) by linarith
      ultimately show ?thesis using j by simp
    qed
    then show ?thesis by (simp add: heap_below_def bridged_def)
  qed
  then have "is_heap (sift_down 0 ?zs) \<and> mset (sift_down 0 ?zs) = mset ?zs" by (rule sift_down_result)
  moreover have "add_mset (h_elems h ! 0) (mset ?zs) = mset (h_elems h)"
    unfolding zs by (cases ys) (simp_all add: split)
  ultimately show ?thesis using assms(2) unfolding heap_extract_min_def by auto
qed

section \<open>The contract\<close>

text \<open>
  The elements of a heap against the events: keys are times, and the numbers of elements are in the order of the
  unique numbers of their events. There is room for \<open>n\<close> more insertions before the counter \<^verbatim>\<open>h_s_key\<close> wraps
  around, and before indices leave \<^verbatim>\<open>unsigned int\<close>.
\<close>

definition numbered :: "'t::linorder store \<Rightarrow> 't heap_elem list \<Rightarrow> bool" where
  "numbered m xs \<longleftrightarrow> distinct xs \<and> (\<forall>c\<in>set xs. he_key c = ev_time (m (he_elem c))) \<and>
    (\<forall>c\<in>set xs. \<forall>d\<in>set xs. c \<noteq> d \<longrightarrow>
       he_s_key c < he_s_key d \<and> ev_uid (m (he_elem c)) < ev_uid (m (he_elem d)) \<or>
       he_s_key d < he_s_key c \<and> ev_uid (m (he_elem d)) < ev_uid (m (he_elem c)))"

definition heap_ready :: "nat \<Rightarrow> 't::linorder store \<Rightarrow> 't heap \<Rightarrow> bool" where
  "heap_ready n m h \<longleftrightarrow> is_heap (h_elems h) \<and> numbered m (h_elems h) \<and>
    (\<forall>c\<in>set (h_elems h). unat (he_s_key c) < unat (h_s_key h)) \<and> unat (h_s_key h) + n < 2 ^ 32 \<and>
    0 < h_maxsize h \<and> length (h_elems h) \<le> unat (h_maxsize h) \<and> length (h_elems h) + n < 2 ^ 31"

definition heap_events :: "'t heap \<Rightarrow> eptr set" where
  "heap_events h = he_elem ` set (h_elems h)"

lemma heap_events_nth: "a \<in> heap_events h \<longleftrightarrow> (\<exists>j<length (h_elems h). he_elem (h_elems h ! j) = a)"
  by (auto simp: heap_events_def set_conv_nth)

lemma numbered_mset: "numbered m xs \<Longrightarrow> mset ys = mset xs \<Longrightarrow> numbered m ys"
  using mset_eq_setD [of ys xs] mset_eq_imp_distinct_iff [of ys xs] by (simp add: numbered_def)

lemma numbered_order: "numbered m xs \<Longrightarrow> c \<in> set xs \<Longrightarrow> d \<in> set xs \<Longrightarrow>
    he_order c < he_order d \<longleftrightarrow> event_key m (he_elem c) < event_key m (he_elem d)"
proof (cases "c = d")
  case False
  assume *: "numbered m xs" "c \<in> set xs" "d \<in> set xs"
  then have "he_key c = ev_time (m (he_elem c))" "he_key d = ev_time (m (he_elem d))"
    by (simp_all add: numbered_def)
  moreover have "he_s_key c < he_s_key d \<longleftrightarrow> ev_uid (m (he_elem c)) < ev_uid (m (he_elem d))"
    using * False unfolding numbered_def by (metis less_asym)
  ultimately show ?thesis by (auto simp: he_order_def event_key_less)
qed simp

lemma numbered_inj: "numbered m xs \<Longrightarrow> inj_on he_elem (set xs)"
  unfolding numbered_def inj_on_def by (metis less_irrefl)

lemma numbered_neq: "numbered m xs \<Longrightarrow> c \<in> set xs \<Longrightarrow> d \<in> set xs \<Longrightarrow> c \<noteq> d \<Longrightarrow> he_order c \<noteq> he_order d"
  unfolding numbered_def he_order_def by (metis less_irrefl prod.inject)

text \<open>Taking one element out.\<close>

lemma heap_ready_remove:
  assumes "heap_ready n m h" "is_heap ys" "add_mset c (mset ys) = mset (h_elems h)"
  shows "heap_ready n m (h\<lparr>h_elems := ys\<rparr>)" "heap_events (h\<lparr>h_elems := ys\<rparr>) = heap_events h - {he_elem c}"
proof -
  have num: "numbered m (c # ys)"
    using assms(1,3) numbered_mset [of m "h_elems h" "c # ys"] by (simp add: heap_ready_def)
  then have ys: "numbered m ys" by (auto simp: numbered_def)
  have sets: "set (h_elems h) = insert c (set ys)" using mset_eq_setD [of "h_elems h" "c # ys"] assms(3) by simp
  have len: "length (h_elems h) = Suc (length ys)" using mset_eq_length [of "h_elems h" "c # ys"] assms(3) by simp
  show "heap_ready n m (h\<lparr>h_elems := ys\<rparr>)"
    using assms(1,2) ys sets len by (simp add: heap_ready_def)
  have "c \<notin> set ys" using num by (simp add: numbered_def)
  then have "he_elem c \<notin> he_elem ` set ys" using numbered_inj [OF num] by (auto simp: inj_on_def)
  then show "heap_events (h\<lparr>h_elems := ys\<rparr>) = heap_events h - {he_elem c}"
    using sets by (auto simp: heap_events_def)
qed

lemma heap_member_law: "he_elem (xs ! k) = e \<Longrightarrow> k < length xs \<Longrightarrow>
    \<exists>j. heap_member_from e i xs = Suc (i + j) \<and> j < length xs \<and> he_elem (xs ! j) = e"
proof (induction xs arbitrary: i k)
  case (Cons c cs)
  show ?case
  proof (cases "he_elem c = e")
    case False
    then obtain k' where "k = Suc k'" using Cons.prems(1) by (cases k) auto
    then obtain j where "heap_member_from e (Suc i) cs = Suc (Suc i + j)" "j < length cs" "he_elem (cs ! j) = e"
      using Cons.IH [of k' "Suc i"] Cons.prems by auto
    then show ?thesis using False by (intro exI [of _ "Suc j"]) simp
  qed auto
qed simp

lemma heap_delete_law:
  assumes "heap_ready n m h" "e \<in> heap_events h"
  shows "\<exists>h'. heap_delete e h = (True, h') \<and> heap_ready n m h' \<and> heap_events h' = heap_events h - {e}"
proof -
  obtain k where "k < length (h_elems h)" "he_elem (h_elems h ! k) = e"
    using assms(2) unfolding heap_events_nth by blast
  then obtain i where i: "heap_member e h = Suc i" "i < length (h_elems h)" "he_elem (h_elems h ! i) = e"
    using heap_member_law [of "h_elems h" k e 0] by (auto simp: heap_member_def)
  let ?g = "h\<lparr>h_elems := to_root i (h_elems h)\<rparr>"
  have root: "heap_around 0 (h_elems ?g)" "mset (h_elems ?g) = mset (h_elems h)" "h_elems ?g ! 0 = h_elems h ! i"
    using to_root_result [OF is_heap_around i(2)] assms(1) by (simp_all add: heap_ready_def)
  moreover have "h_elems ?g \<noteq> []" using root(2) i(2) by (metis mset_zero_iff list.size(3) not_less_zero)
  ultimately obtain xs where xs: "heap_extract_min ?g = (Some (he_elem (h_elems ?g ! 0)), ?g\<lparr>h_elems := xs\<rparr>)"
    "is_heap xs" "add_mset (h_elems h ! i) (mset xs) = mset (h_elems h)"
    using heap_extract_min_result [of ?g] by auto
  then have "heap_delete e h = (True, h\<lparr>h_elems := xs\<rparr>)" using i(1) by (simp add: heap_delete_def)
  then show ?thesis using heap_ready_remove [OF assms(1) xs(2,3)] i(3) by simp
qed

lemma heap_extract_min_law:
  assumes "heap_ready n m h" "heap_events h \<noteq> {}"
  shows "\<exists>a h'. heap_extract_min h = (Some a, h') \<and> a \<in> heap_events h \<and>
    (\<forall>b\<in>heap_events h - {a}. event_key m a < event_key m b) \<and> heap_events h' = heap_events h - {a} \<and> heap_ready n m h'"
proof -
  have h: "is_heap (h_elems h)" "numbered m (h_elems h)" "h_elems h \<noteq> []"
    using assms by (auto simp: heap_ready_def heap_events_def)
  let ?c = "h_elems h ! 0"
  obtain xs where xs: "heap_extract_min h = (Some (he_elem ?c), h\<lparr>h_elems := xs\<rparr>)" "is_heap xs"
    "add_mset ?c (mset xs) = mset (h_elems h)"
    using heap_extract_min_result [OF is_heap_around [OF h(1)] h(3)] by blast
  have c: "?c \<in> set (h_elems h)" using h(3) by simp
  have "event_key m (he_elem ?c) < event_key m b" if b: "b \<in> heap_events h" "b \<noteq> he_elem ?c" for b
  proof -
    obtain j where j: "j < length (h_elems h)" "b = he_elem (h_elems h ! j)"
      using b(1) unfolding heap_events_nth by blast
    then have "?c \<noteq> h_elems h ! j" "h_elems h ! j \<in> set (h_elems h)" using b(2) by auto
    then have "he_order ?c \<noteq> he_order (h_elems h ! j)" using numbered_neq [OF h(2) c] by blast
    then have "he_order ?c < he_order (h_elems h ! j)"
      using is_heap_least [OF h(1) j(1)] by simp
    then show ?thesis using numbered_order [OF h(2) c, of "h_elems h ! j"] j by simp
  qed
  moreover have "he_elem ?c \<in> heap_events h" using c by (simp add: heap_events_def)
  ultimately show ?thesis using xs(1) heap_ready_remove [OF assms(1) xs(2,3)] by blast
qed

lemma unat_Suc_word32: "unat w + 1 < 2 ^ 32 \<Longrightarrow> unat (w + 1) = Suc (unat w)" for w :: "32 word"
  by (subst unat_plus_if') simp

lemma unat_double_word32: "unat w < 2 ^ 31 \<Longrightarrow> unat (w * 2) = 2 * unat w" for w :: "32 word"
  by (simp add: unat_word_ariths)

lemma heap_insert_law:
  assumes "heap_ready (Suc n) m h" "\<And>b. b \<in> heap_events h \<Longrightarrow> ev_uid (m b) < ev_uid (m a)"
  shows "\<exists>h'. HeapScheduler_insert m a h = Some h' \<and> heap_events h' = insert a (heap_events h) \<and> heap_ready n m h'"
proof -
  let ?n = "length (h_elems h)"
  define new where "new = \<lparr>he_key = ev_time (m a), he_s_key = uint_ulong (h_s_key h), he_elem = a\<rparr>"
  define maxsize where "maxsize = (if h_maxsize h = of_nat ?n then h_maxsize h * 2 else h_maxsize h)"
  have len: "?n < 2 ^ 31" using assms(1) by (simp add: heap_ready_def)
  then have "unat (of_nat ?n :: 32 word) = ?n" by (simp add: unat_of_nat)
  then have "h_maxsize h = of_nat ?n \<longleftrightarrow> unat (h_maxsize h) = ?n" by (auto simp: word_unat_eq_iff)
  then have max: "?n < unat maxsize \<and> 0 < maxsize"
    using assms(1) len unat_double_word32 [of "h_maxsize h"]
    by (auto simp: maxsize_def heap_ready_def word_less_nat_alt)
  obtain i xs where up: "sift_up (he_key new) (he_s_key new) ?n (h_elems h @ [new]) = (i, xs)" by fastforce
  have heap: "is_heap (h_elems h)" using assms(1) by (simp add: heap_ready_def)
  have "heap_above ?n (h_elems h @ [new])"
  proof -
    have "he_order ((h_elems h @ [new]) ! heap_parent j) \<le> he_order ((h_elems h @ [new]) ! j)"
      if "0 < j" "j < length (h_elems h @ [new])" "j \<noteq> ?n" for j
      using that heap by (simp add: nth_append is_heap_def)
    moreover have "bridged ?n (h_elems h @ [new])" unfolding bridged_def
      using heap_parent_less by (metis length_append_singleton less_antisym not_less_iff_gr_or_eq)
    ultimately show ?thesis by (simp add: heap_above_def)
  qed
  then have new: "is_heap (xs[i := new])" "mset (xs[i := new]) = add_mset new (mset (h_elems h))"
    using sift_up_result [OF up] by (simp_all add: list_update_append)
  let ?h = "h\<lparr>h_elems := xs[i := new], h_s_key := h_s_key h + 1, h_maxsize := maxsize\<rparr>"
  have sets: "set (xs[i := new]) = insert new (set (h_elems h))"
    using mset_eq_setD [of "xs[i := new]" "new # h_elems h"] new(2) by simp
  have key: "unat (h_s_key h + 1) = Suc (unat (h_s_key h))"
    using assms(1) by (simp add: heap_ready_def unat_Suc_word32)
  have num: "numbered m (new # h_elems h)"
  proof -
    have "he_s_key c < he_s_key new \<and> ev_uid (m (he_elem c)) < ev_uid (m (he_elem new)) \<and> c \<noteq> new"
      if "c \<in> set (h_elems h)" for c
      using that assms unfolding heap_ready_def heap_events_def
      by (auto simp: new_def word_less_nat_alt)
    then show ?thesis using assms(1) by (auto simp: numbered_def heap_ready_def new_def)
  qed
  have "numbered m (xs[i := new])" using numbered_mset [OF num] new(2) by simp
  moreover have "length (xs[i := new]) = Suc ?n"
    using mset_eq_length [of "xs[i := new]" "new # h_elems h"] new(2) by simp
  moreover have "\<forall>c\<in>set (xs[i := new]). unat (he_s_key c) < unat (h_s_key h + 1)"
    using assms(1) sets key by (auto simp: heap_ready_def new_def less_SucI)
  ultimately have "heap_ready n m ?h"
    using assms(1) new(1) max key by (simp add: heap_ready_def)
  moreover have "heap_events ?h = insert a (heap_events h)"
    using sets by (simp add: heap_events_def new_def)
  moreover have "HeapScheduler_insert m a h = Some ?h"
    using up max by (simp add: HeapScheduler_insert_def heap_insert_def new_def maxsize_def Let_def)
  ultimately show ?thesis by blast
qed

lemma HeapScheduler_lookup_loop_law:
  assumes "HeapScheduler_lookup_loop m u r h = (r', h')" "set_option r \<subseteq> heap_events h"
  shows "(\<exists>i. h' = h\<lparr>h_iter := i\<rparr>) \<and> (case r' of
      None \<Rightarrow> r \<noteq> None \<longrightarrow> (\<forall>k. h_iter h \<le> k \<longrightarrow> k < length (h_elems h) \<longrightarrow> ev_uid (m (he_elem (h_elems h ! k))) \<noteq> u) \<and> ev_uid (m (the r)) \<noteq> u
    | Some a \<Rightarrow> a \<in> heap_events h \<and> ev_uid (m a) = u)"
  using assms
proof (induction m u r h rule: HeapScheduler_lookup_loop.induct)
  case (1 m u h)
  then show ?case by (auto intro: exI [of _ "h_iter h"])
next
  case (2 m u e h)
  show ?case
  proof (cases "ev_uid (m e) = u")
    case True
    then show ?thesis using 2(2,3) by (auto intro: exI [of _ "h_iter h"])
  next
    case False
    then have loop: "HeapScheduler_lookup_loop m u (fst (heap_iter h)) (snd (heap_iter h)) = (r', h')"
      using 2(2) by simp
    show ?thesis
    proof (cases "length (h_elems h) \<le> h_iter h")
      case True
      then show ?thesis using loop False by (auto simp: heap_iter_def)
    next
      case more: False
      then have *: "(\<exists>i. h' = snd (heap_iter h)\<lparr>h_iter := i\<rparr>) \<and> (case r' of
          None \<Rightarrow> (\<forall>k. Suc (h_iter h) \<le> k \<longrightarrow> k < length (h_elems h) \<longrightarrow> ev_uid (m (he_elem (h_elems h ! k))) \<noteq> u)
            \<and> ev_uid (m (he_elem (h_elems h ! h_iter h))) \<noteq> u
        | Some a \<Rightarrow> a \<in> heap_events h \<and> ev_uid (m a) = u)"
      proof -
        let ?g = "snd (heap_iter h)"
        have "fst (heap_iter h) = Some (he_elem (h_elems h ! h_iter h))" "h_elems ?g = h_elems h"
          "h_iter ?g = Suc (h_iter h)" "heap_events ?g = heap_events h"
          "he_elem (h_elems h ! h_iter h) \<in> heap_events h"
          using more by (simp_all add: heap_iter_def heap_events_def)
        then show ?thesis using 2(1) [OF False loop] by (cases r') simp_all
      qed
      have "ev_uid (m (he_elem (h_elems h ! k))) \<noteq> u"
        if "r' = None" "h_iter h \<le> k" "k < length (h_elems h)" for k
        using * that by (cases "k = h_iter h") simp_all
      then have "case r' of
          None \<Rightarrow> Some e \<noteq> None \<longrightarrow> (\<forall>k. h_iter h \<le> k \<longrightarrow> k < length (h_elems h) \<longrightarrow> ev_uid (m (he_elem (h_elems h ! k))) \<noteq> u)
            \<and> ev_uid (m (the (Some e))) \<noteq> u
        | Some a \<Rightarrow> a \<in> heap_events h \<and> ev_uid (m a) = u"
        using * [THEN conjunct2] False by (cases r') simp_all
      moreover have "\<exists>i. h' = h\<lparr>h_iter := i\<rparr>" using * more by (auto simp: heap_iter_def)
      ultimately show ?thesis by blast
    qed
  qed
qed

lemma HeapScheduler_lookup_law:
  assumes "HeapScheduler_lookup m u h = (r, h')"
  shows "(\<exists>i. h' = h\<lparr>h_iter := i\<rparr>) \<and> (case r of None \<Rightarrow> \<forall>a\<in>heap_events h. ev_uid (m a) \<noteq> u
    | Some a \<Rightarrow> a \<in> heap_events h \<and> ev_uid (m a) = u)"
proof (cases "h_elems h")
  case Nil
  then show ?thesis
    using assms by (auto simp: HeapScheduler_lookup_def heap_iter_init_def heap_min_def heap_events_def)
next
  case (Cons c cs)
  have "HeapScheduler_lookup_loop m u (Some (he_elem c)) (h\<lparr>h_iter := 1\<rparr>) = (r, h')"
    using assms Cons by (simp add: HeapScheduler_lookup_def heap_iter_init_def heap_min_def)
  from HeapScheduler_lookup_loop_law [OF this]
  have *: "(\<exists>i. h' = h\<lparr>h_iter := i\<rparr>) \<and> (case r of
      None \<Rightarrow> (\<forall>k. 1 \<le> k \<longrightarrow> k < length (h_elems h) \<longrightarrow> ev_uid (m (he_elem (h_elems h ! k))) \<noteq> u)
        \<and> ev_uid (m (he_elem c)) \<noteq> u
    | Some a \<Rightarrow> a \<in> heap_events h \<and> ev_uid (m a) = u)"
    using Cons by (cases r) (simp_all add: heap_events_def)
  show ?thesis
  proof (cases r)
    case None
    have "ev_uid (m (he_elem (h_elems h ! k))) \<noteq> u" if "k < length (h_elems h)" for k
      using * None that Cons by (cases k) auto
    then have "\<forall>a\<in>heap_events h. ev_uid (m a) \<noteq> u" by (metis heap_events_nth)
    then show ?thesis using * None by simp
  qed (use * in simp)
qed

interpretation heap_queue: event_queue HeapScheduler new_heap "2 ^ 31 - 1" heap_events heap_ready
proof (unfold_locales, goal_cases)
  case (3 n m) then show ?case
    by (simp add: heap_ready_def new_heap_def is_heap_def numbered_def HEAP_DEFAULT_SIZE_def)
next
  case (4 n m q m') then show ?case
    by (simp add: heap_ready_def numbered_def heap_events_def)
next
  case (6 n m q a) then show ?case by (simp add: heap_insert_law)
next
  case (7 m a q) then show ?case by (simp add: HeapScheduler_cancel_def)
next
  case (8 n m q a) then show ?case
    using heap_delete_law [of n m q a] unfolding HeapScheduler_simps HeapScheduler_cancel_def by force
next
  case (9 n m q u r q1) then show ?case
    using HeapScheduler_lookup_law [of m u q r q1] by (auto simp: heap_ready_def heap_events_def)
next
  case (10 n m q) then show ?case by (simp add: heap_events_def heap_extract_min_def)
next
  case (11 n m q) then show ?case using heap_extract_min_law [of n m q] by simp
next
  case (12 n m q) then show ?case by (simp add: heap_min_def heap_extract_min_def)
qed (simp_all add: heap_ready_def new_heap_def heap_events_def)

section \<open>The operations keep a heap\<close>

lemma heap_member_absent: "e \<notin> he_elem ` set xs \<Longrightarrow> heap_member_from e i xs = 0"
  by (induction xs arbitrary: i) auto

text \<open>
  C20: The heap stays well formed: in the heap order, with keys and numbers as the events have them, and within its array.
  An insertion adds its event and needs room, taking out the minimum or any event removes just that one, and an event
  that is not there is not removed.
\<close>

theorem heap_operations:
  assumes "heap_ready (Suc n) m h" "\<forall>b\<in>heap_events h. ev_uid (m b) < ev_uid (m a)"
  shows "(\<exists>h'. HeapScheduler_insert m a h = Some h' \<and> heap_ready n m h' \<and> heap_events h' = insert a (heap_events h)) \<and>
    heap_ready (Suc n) m (snd (heap_extract_min h)) \<and>
    heap_events (snd (heap_extract_min h)) = heap_events h - set_option (fst (heap_extract_min h)) \<and>
    heap_ready (Suc n) m (snd (heap_delete e h)) \<and> heap_events (snd (heap_delete e h)) = heap_events h - {e} \<and>
    (fst (heap_delete e h) \<longleftrightarrow> e \<in> heap_events h)"
proof (intro conjI)
  show "\<exists>h'. HeapScheduler_insert m a h = Some h' \<and> heap_ready n m h' \<and> heap_events h' = insert a (heap_events h)"
    using heap_insert_law [OF assms(1)] assms(2) by blast
  have "heap_ready (Suc n) m (snd (heap_extract_min h)) \<and>
    heap_events (snd (heap_extract_min h)) = heap_events h - set_option (fst (heap_extract_min h))"
  proof (cases "heap_events h = {}")
    case True
    then have "heap_extract_min h = (None, h)" by (simp add: heap_extract_min_def heap_events_def)
    then show ?thesis using assms(1) by simp
  next
    case False
    from heap_extract_min_law [OF assms(1) this] obtain b h' where "heap_extract_min h = (Some b, h')"
      "heap_events h' = heap_events h - {b}" "heap_ready (Suc n) m h'" by blast
    then show ?thesis by simp
  qed
  then show "heap_ready (Suc n) m (snd (heap_extract_min h))"
    "heap_events (snd (heap_extract_min h)) = heap_events h - set_option (fst (heap_extract_min h))" by blast+
  have absent: "heap_delete e h = (False, h)" if "e \<notin> heap_events h"
    using heap_member_absent [of e "h_elems h" 0] that
    by (simp add: heap_delete_def heap_member_def heap_events_def)
  show "heap_ready (Suc n) m (snd (heap_delete e h))" "heap_events (snd (heap_delete e h)) = heap_events h - {e}"
    "fst (heap_delete e h) \<longleftrightarrow> e \<in> heap_events h"
  proof -
    have "heap_ready (Suc n) m (snd (heap_delete e h)) \<and> heap_events (snd (heap_delete e h)) = heap_events h - {e} \<and>
      (fst (heap_delete e h) \<longleftrightarrow> e \<in> heap_events h)"
    proof (cases "e \<in> heap_events h")
      case True
      from heap_delete_law [OF assms(1) this] obtain h' where "heap_delete e h = (True, h')"
        "heap_ready (Suc n) m h'" "heap_events h' = heap_events h - {e}" by blast
      then show ?thesis using True by simp
    next
      case False
      then show ?thesis using absent assms(1) by simp
    qed
    then show "heap_ready (Suc n) m (snd (heap_delete e h))" "heap_events (snd (heap_delete e h)) = heap_events h - {e}"
      "fst (heap_delete e h) \<longleftrightarrow> e \<in> heap_events h" by blast+
  qed
qed

definition heap_example :: "int heap" where
  "heap_example = new_heap\<lparr>h_elems := [\<lparr>he_key = 3, he_s_key = 1, he_elem = 8\<rparr>, \<lparr>he_key = 7, he_s_key = 0, he_elem = 5\<rparr>],
    h_s_key := 2\<rparr>"

definition example_events :: "int store" where
  "example_events = (\<lambda>e. \<lparr>ev_handler = Some 0, ev_time = (if e = 5 then 7 else 3),
    ev_uid = (if e = 5 then 1 else if e = 8 then 2 else 3)\<rparr>)"

lemma heap_example_ready: "heap_ready (Suc 9) example_events heap_example"
  by (auto simp: heap_ready_def heap_example_def new_heap_def HEAP_DEFAULT_SIZE_def is_heap_def numbered_def
      example_events_def heap_parent_def he_order_def less_Suc_eq)

lemma heap_operations_witness:
  "(\<exists>h'. HeapScheduler_insert example_events 6 heap_example = Some h' \<and> heap_events h' = {5, 6, 8}) \<and>
    heap_events (snd (heap_delete 5 heap_example)) = {8}"
proof -
  have events: "heap_events heap_example = {8, 5}" by (simp add: heap_events_def heap_example_def)
  then have "\<forall>b\<in>heap_events heap_example. ev_uid (example_events b) < ev_uid (example_events 6)"
    by (simp add: example_events_def)
  note ops = heap_operations [OF heap_example_ready this, of 5]
  have "\<exists>h'. HeapScheduler_insert example_events 6 heap_example = Some h' \<and> heap_events h' = {5, 6, 8}"
    using ops [THEN conjunct1] unfolding events by (metis insert_commute)
  moreover have "heap_events (snd (heap_delete 5 heap_example)) = {8}" using ops unfolding events by auto
  ultimately show ?thesis ..
qed

end
