(* ===== verification/Event_Splay.thy ===== *)
theory Event_Splay
  imports Event_Queue "HOL-Library.Tree"
begin

text \<open>
  \<^verbatim>\<open>SplayScheduler\<close> (\<^verbatim>\<open>common/splay-scheduler.cc\<close>): the pending events in a binary search tree that \<^verbatim>\<open>insert\<close> and
  \<^verbatim>\<open>deque\<close> reshape top down. The tree is linked by the fields \<^verbatim>\<open>prev_\<close> (left) and \<^verbatim>\<open>next_\<close> (right) of the events.
  Its in-order sequence is the sequence of \<^theory_text>\<open>Event_Queue\<close>'s list scheduler, and every operation has the effect on it
  that the list scheduler's has.
\<close>

record splay =
  root :: "eptr tree"
  qsize :: cint
  lookup_uid :: int

definition new_splay :: splay where
  "new_splay = \<lparr>root = Leaf, qsize = 0, lookup_uid = 0\<rparr>"

section \<open>Operations\<close>

text \<open>
  The left tree that \<^verbatim>\<open>insert\<close> builds is a chain of nodes with their left subtrees and a hole at its right end
  (the pointer \<^verbatim>\<open>l\<close>), the right tree the mirror image (\<^verbatim>\<open>r\<close>). Both are lists with the node next to the hole first.
\<close>

fun hang_right :: "(eptr tree \<times> eptr) list \<Rightarrow> eptr tree \<Rightarrow> eptr tree" where
  "hang_right [] t = t"
| "hang_right ((a, x) # l) t = hang_right l (Node a x t)"

fun hang_left :: "(eptr \<times> eptr tree) list \<Rightarrow> eptr tree \<Rightarrow> eptr tree" where
  "hang_left [] t = t"
| "hang_left ((x, b) # r) t = hang_left r (Node t x b)"

fun splay_insert_loop :: "'t::linorder store \<Rightarrow> 't \<Rightarrow> eptr tree \<Rightarrow> (eptr tree \<times> eptr) list \<Rightarrow>
    (eptr \<times> eptr tree) list \<Rightarrow> eptr tree \<times> eptr tree" where
  "splay_insert_loop m tm Leaf l r = (hang_right l Leaf, hang_left r Leaf)"
| "splay_insert_loop m tm (Node a t b) l r =
    (if tm < ev_time (m t)
     then (case a of
         Leaf \<Rightarrow> (hang_right l Leaf, hang_left r (Node Leaf t b))
       | Node xa x xb \<Rightarrow>
           if tm < ev_time (m x) then splay_insert_loop m tm xa l ((x, Node xb t b) # r)
           else splay_insert_loop m tm a l ((t, b) # r))
     else (case b of
         Leaf \<Rightarrow> (hang_right l (Node a t Leaf), hang_left r Leaf)
       | Node xa x xb \<Rightarrow>
           if ev_time (m x) \<le> tm then splay_insert_loop m tm xb ((Node a t xa, x) # l) r
           else splay_insert_loop m tm b ((a, t) # l) r))"

definition SplayScheduler_insert :: "'t::linorder store \<Rightarrow> eptr \<Rightarrow> splay \<Rightarrow> splay" where
  "SplayScheduler_insert m n s = s\<lparr>qsize := qsize s + 1, root :=
    (case splay_insert_loop m (ev_time (m n)) (root s) [] [] of (a, b) \<Rightarrow> Node a n b)\<rparr>"

fun splay_head :: "eptr tree \<Rightarrow> eptr option" where
  "splay_head Leaf = None"
| "splay_head (Node l t r) = (if l = Leaf then Some t else splay_head l)"

definition SplayScheduler_head :: "splay \<Rightarrow> eptr option" where
  "SplayScheduler_head s = splay_head (root s)"

text \<open>The loop of \<^verbatim>\<open>deque\<close> below a node whose left child exists: the event taken out and the tree below.\<close>

function splay_deque_loop :: "eptr tree \<Rightarrow> eptr \<times> eptr tree" where
  "splay_deque_loop (Node (Node Leaf l lr) t r) = (l, Node lr t r)"
| "splay_deque_loop (Node (Node (Node Leaf ll llr) l lr) t r) = (ll, Node (Node llr l lr) t r)"
| "splay_deque_loop (Node (Node (Node (Node a lll b) ll llr) l lr) t r) =
    (case splay_deque_loop (Node (Node a lll b) ll (Node llr l lr)) of (e, s) \<Rightarrow> (e, Node s t r))"
| "splay_deque_loop Leaf = (0, Leaf)"
| "splay_deque_loop (Node Leaf t r) = (t, r)"
  by pat_completeness auto
termination by (relation "measure size") auto

definition SplayScheduler_deque :: "splay \<Rightarrow> eptr option \<times> splay" where
  "SplayScheduler_deque s =
    (case root s of
       Leaf \<Rightarrow> (None, s)
     | Node l t r \<Rightarrow>
         if l = Leaf then (Some t, s\<lparr>qsize := qsize s - 1, root := r\<rparr>)
         else (case splay_deque_loop (root s) of (e, u) \<Rightarrow> (Some e, s\<lparr>qsize := qsize s - 1, root := u\<rparr>)))"

text \<open>
  \<^verbatim>\<open>cancel\<close> walks down by time and number, and aborts when it leaves the tree; the place of the event is taken by its
  only subtree, or by its successor, the leftmost event of its right subtree.
\<close>

fun take_successor :: "eptr tree \<Rightarrow> eptr \<times> eptr tree" where
  "take_successor Leaf = (0, Leaf)"
| "take_successor (Node Leaf q qr) = (q, qr)"
| "take_successor (Node (Node a x b) p pr) = (case take_successor (Node a x b) of (q, l) \<Rightarrow> (q, Node l p pr))"

definition splay_unlink :: "eptr tree \<Rightarrow> eptr tree \<Rightarrow> eptr tree" where
  "splay_unlink l r =
    (if r = Leaf then l else if l = Leaf then r
     else (case take_successor r of (q, r') \<Rightarrow> Node l q r'))"

fun splay_remove :: "'t::linorder store \<Rightarrow> eptr \<Rightarrow> eptr tree \<Rightarrow> eptr tree option" where
  "splay_remove m e Leaf = None"
| "splay_remove m e (Node l t r) =
    (if t = e then Some (splay_unlink l r)
     else if ev_time (m t) < ev_time (m e) \<or> ev_time (m e) = ev_time (m t) \<and> ev_uid (m t) < ev_uid (m e)
     then map_option (\<lambda>r'. Node l t r') (splay_remove m e r)
     else map_option (\<lambda>l'. Node l' t r) (splay_remove m e l))"

definition SplayScheduler_cancel :: "'t::linorder store \<Rightarrow> eptr \<Rightarrow> splay \<Rightarrow> ('t store \<times> splay) option" where
  "SplayScheduler_cancel m e s =
    (if ev_uid (m e) \<le> 0 then Some (m, s)
     else do {
       t \<leftarrow> splay_remove m e (root s);
       Some (negate_uid e m, s\<lparr>qsize := qsize s - 1, root := t\<rparr>)
     })"

fun uid_lookup :: "'t store \<Rightarrow> int \<Rightarrow> eptr tree \<Rightarrow> eptr option" where
  "uid_lookup m u Leaf = None"
| "uid_lookup m u (Node l t r) =
    (if ev_uid (m t) = u then Some t
     else (case uid_lookup m u l of Some e \<Rightarrow> Some e | None \<Rightarrow> uid_lookup m u r))"

definition SplayScheduler_lookup :: "'t store \<Rightarrow> int \<Rightarrow> splay \<Rightarrow> eptr option \<times> splay" where
  "SplayScheduler_lookup m u s = (uid_lookup m u (root s), s\<lparr>lookup_uid := u\<rparr>)"

definition SplayScheduler :: "('t::linorder, splay) queue_ops" where
  "SplayScheduler = \<lparr>q_insert = (\<lambda>m e s. Some (SplayScheduler_insert m e s)), q_cancel = SplayScheduler_cancel,
    q_lookup = SplayScheduler_lookup, q_deque = (\<lambda>m. SplayScheduler_deque), q_head = (\<lambda>m. SplayScheduler_head)\<rparr>"

lemma SplayScheduler_simps [simp]:
  "q_insert SplayScheduler m e s = Some (SplayScheduler_insert m e s)"
  "q_cancel SplayScheduler = SplayScheduler_cancel"
  "q_lookup SplayScheduler = SplayScheduler_lookup"
  "q_deque SplayScheduler m = SplayScheduler_deque"
  "q_head SplayScheduler m = SplayScheduler_head"
  by (simp_all add: SplayScheduler_def)

section \<open>The in-order sequence\<close>

definition left_part :: "(eptr tree \<times> eptr) list \<Rightarrow> eptr list" where
  "left_part l = concat (map (\<lambda>(a, x). inorder a @ [x]) (rev l))"

definition right_part :: "(eptr \<times> eptr tree) list \<Rightarrow> eptr list" where
  "right_part r = concat (map (\<lambda>(x, b). x # inorder b) r)"

lemma part_simps [simp]:
  "left_part [] = []" "left_part ((a, x) # l) = left_part l @ inorder a @ [x]"
  "right_part [] = []" "right_part ((x, b) # r) = x # inorder b @ right_part r"
  by (simp_all add: left_part_def right_part_def)

lemma inorder_hang [simp]:
  "inorder (hang_right l t) = left_part l @ inorder t"
  "inorder (hang_left r t) = inorder t @ right_part r"
  subgoal by (induction l t rule: hang_right.induct) simp_all
  subgoal by (induction r t rule: hang_left.induct) simp_all
  done

lemma set_tree_hang [simp]:
  "set_tree (hang_right l t) = set (left_part l) \<union> set_tree t"
  "set_tree (hang_left r t) = set_tree t \<union> set (right_part r)"
  by (simp_all flip: set_inorder)

text \<open>The loop splits the sequence at the time of the new event: what it puts left is not later, what it puts
  right is later.\<close>

lemma splay_insert_loop_inorder: "splay_insert_loop m tm t l r = (a, b) \<Longrightarrow>
    inorder a @ inorder b = left_part l @ inorder t @ right_part r"
proof (induction m tm t l r rule: splay_insert_loop.induct)
  case (2 m tm x t y l r)
  show ?case
  proof (cases "tm < ev_time (m t)")
    case True
    then show ?thesis using 2 by (cases x) (auto split: if_split_asm)
  next
    case False
    then show ?thesis using 2 by (cases y) (auto split: if_split_asm)
  qed
qed auto

definition times_sorted :: "'t::linorder store \<Rightarrow> eptr list \<Rightarrow> bool" where
  "times_sorted m q = sorted (map (\<lambda>a. ev_time (m a)) q)"

lemma in_order_times_sorted: "in_order m q \<Longrightarrow> times_sorted m q"
  by (induction q) (auto simp: times_sorted_def event_key_less intro: less_imp_le)

lemma times_sorted_simps [simp]:
  "times_sorted m []"
  "times_sorted m (a # q) \<longleftrightarrow> (\<forall>b\<in>set q. ev_time (m a) \<le> ev_time (m b)) \<and> times_sorted m q"
  "times_sorted m (p @ q) \<longleftrightarrow>
    times_sorted m p \<and> times_sorted m q \<and> (\<forall>a\<in>set p. \<forall>b\<in>set q. ev_time (m a) \<le> ev_time (m b))"
  by (auto simp: times_sorted_def sorted_append)

lemma splay_insert_loop_split: "splay_insert_loop m tm t l r = (a, b) \<Longrightarrow> times_sorted m (inorder t) \<Longrightarrow>
    (\<forall>x\<in>set (left_part l). ev_time (m x) \<le> tm) \<Longrightarrow> (\<forall>x\<in>set (right_part r). tm < ev_time (m x)) \<Longrightarrow>
    (\<forall>x\<in>set (inorder a). ev_time (m x) \<le> tm) \<and> (\<forall>x\<in>set (inorder b). tm < ev_time (m x))"
proof (induction m tm t l r rule: splay_insert_loop.induct)
  case (2 m tm x t y l r)
  show ?case
  proof (cases "tm < ev_time (m t)")
    case True
    have *: "\<forall>z\<in>set (inorder y). tm < ev_time (m z)"
      using True 2(6) by (auto intro: less_le_trans)
    show ?thesis
    proof (cases x)
      case Leaf
      then show ?thesis using True * 2(5-) by auto
    next
      case (Node xa x' xb)
      have xb: "\<forall>z\<in>set (inorder xb). tm < ev_time (m z)" if "tm < ev_time (m x')"
        using that 2(6) Node by (auto intro: less_le_trans)
      show ?thesis
      proof (cases "tm < ev_time (m x')")
        case inner: True
        show ?thesis
          by (rule 2(1) [OF True Node inner]) (use True * Node inner xb 2(5-) in \<open>simp_all add: ball_Un\<close>)
      next
        case inner: False
        show ?thesis
          by (rule 2(2) [OF True Node inner]) (use True * Node inner 2(5-) in \<open>simp_all add: ball_Un\<close>)
      qed
    qed
  next
    case False
    have *: "\<forall>z\<in>set (inorder x). ev_time (m z) \<le> tm"
      using False 2(6) by (auto simp: not_less intro: order_trans)
    show ?thesis
    proof (cases y)
      case Leaf
      then show ?thesis using False * 2(5-) by auto
    next
      case (Node xa x' xb)
      have xa: "\<forall>z\<in>set (inorder xa). ev_time (m z) \<le> tm" if "ev_time (m x') \<le> tm"
        using that 2(6) Node by (auto intro: order_trans)
      show ?thesis
      proof (cases "ev_time (m x') \<le> tm")
        case inner: True
        show ?thesis
          by (rule 2(3) [OF False Node inner]) (use False * Node inner xa 2(5-) in \<open>simp_all add: ball_Un flip: not_less\<close>)
      next
        case inner: False
        show ?thesis
          by (rule 2(4) [OF False Node inner]) (use False * Node inner 2(5-) in \<open>simp_all add: ball_Un flip: not_less\<close>)
      qed
    qed
  qed
qed auto

lemma SplayScheduler_insert_inorder:
  assumes "in_order m (inorder (root s))"
  shows "inorder (root (SplayScheduler_insert m n s)) = ListScheduler_insert m n (inorder (root s))"
proof -
  obtain a b where ab: "splay_insert_loop m (ev_time (m n)) (root s) [] [] = (a, b)" by fastforce
  have "inorder a @ inorder b = inorder (root s)"
    using splay_insert_loop_inorder [OF ab] by simp
  moreover have "\<forall>x\<in>set (inorder a). ev_time (m x) \<le> ev_time (m n)"
    and "\<forall>x\<in>set (inorder b). ev_time (m n) < ev_time (m x)"
    using splay_insert_loop_split [OF ab in_order_times_sorted [OF assms]] by simp_all
  moreover have "takeWhile P (p @ q) = p \<and> dropWhile P (p @ q) = q"
    if "\<forall>x\<in>set p. P x" "\<forall>x\<in>set q. \<not> P x" for P and p q :: "eptr list"
    using that by (cases q) (auto simp: takeWhile_append dropWhile_append)
  ultimately have "ListScheduler_insert m n (inorder (root s)) = inorder a @ n # inorder b"
    unfolding ListScheduler_insert_split by (metis (mono_tags, lifting) not_less)
  then show ?thesis by (simp add: SplayScheduler_insert_def ab)
qed

text \<open>\<^verbatim>\<open>deque\<close> takes the first event, \<^verbatim>\<open>head\<close> finds it.\<close>

lemma splay_deque_loop_inorder:
  "splay_deque_loop t = (e, s) \<Longrightarrow> t \<noteq> Leaf \<Longrightarrow> e # inorder s = inorder t"
proof (induction t arbitrary: e s rule: splay_deque_loop.induct)
  case (3 a lll b ll llr l lr t r)
  then show ?case by (auto split: prod.splits)
qed auto

lemma SplayScheduler_deque_inorder:
  "SplayScheduler_deque s = (fst (ListScheduler_deque (inorder (root s))), s') \<and>
     inorder (root s') = snd (ListScheduler_deque (inorder (root s)))"
  if "s' = snd (SplayScheduler_deque s)"
proof (cases "root s")
  case Leaf
  then show ?thesis using that by (simp add: SplayScheduler_deque_def)
next
  case (Node l t r)
  obtain e u where eu: "splay_deque_loop (Node l t r) = (e, u)" by fastforce
  show ?thesis
  proof (cases "l = Leaf")
    case False
    have "ListScheduler_deque (inorder (Node l t r)) = (Some e, inorder u)"
      using splay_deque_loop_inorder [OF eu] by (metis ListScheduler_deque.simps(2) tree.distinct(1))
    then show ?thesis using that Node False eu by (simp add: SplayScheduler_deque_def)
  qed (use that Node in \<open>simp add: SplayScheduler_deque_def\<close>)
qed

lemma splay_head_inorder: "splay_head t = ListScheduler_head (inorder t)"
  by (induction t) (auto simp: ListScheduler_head_def neq_Leaf_iff split: list.splits)

text \<open>\<^verbatim>\<open>cancel\<close> takes one event out of the sequence.\<close>

lemma take_successor_inorder: "take_successor t = (q, r) \<Longrightarrow> t \<noteq> Leaf \<Longrightarrow> q # inorder r = inorder t"
  by (induction t arbitrary: q r rule: take_successor.induct) (auto split: prod.splits)

lemma splay_unlink_inorder [simp]: "inorder (splay_unlink l r) = inorder l @ inorder r"
  using take_successor_inorder [of r] by (auto simp: splay_unlink_def split: prod.splits)

lemma splay_remove_inorder: "in_order m (inorder t) \<Longrightarrow> e \<in> set_tree t \<Longrightarrow>
    \<exists>t'. splay_remove m e t = Some t' \<and> inorder t' = filter (\<lambda>b. b \<noteq> e) (inorder t)"
proof (induction t)
  case (Node l t r)
  have dist: "distinct (inorder l @ t # inorder r)"
    using in_order_distinct [OF Node.prems(1)] by simp
  then have rest: "filter (\<lambda>b. b \<noteq> e) (inorder r) = inorder r" if "e \<in> insert t (set_tree l)"
    using that by (auto simp: filter_id_conv)
  from dist have rest': "filter (\<lambda>b. b \<noteq> e) (inorder l) = inorder l" if "e \<in> insert t (set_tree r)"
    using that by (auto simp: filter_id_conv)
  consider (here) "e = t" | (left) "e \<in> set_tree l" "event_key m e < event_key m t" "e \<noteq> t"
    | (right) "e \<in> set_tree r" "event_key m t < event_key m e" "e \<noteq> t"
    using Node.prems by auto
  then show ?case
  proof cases
    case here
    then show ?thesis using rest rest' by simp
  next
    case left
    then obtain l' where l': "splay_remove m e l = Some l'" "inorder l' = filter (\<lambda>b. b \<noteq> e) (inorder l)"
      using Node by auto
    have "\<not> event_key m t < event_key m e" using left(2) by simp
    then have "\<not> (ev_time (m t) < ev_time (m e) \<or> ev_time (m e) = ev_time (m t) \<and> ev_uid (m t) < ev_uid (m e))"
      by (auto simp: event_key_less)
    then show ?thesis using left(1,3) l' rest by (simp only: splay_remove.simps if_False) simp
  next
    case right
    then obtain r' where r': "splay_remove m e r = Some r'" "inorder r' = filter (\<lambda>b. b \<noteq> e) (inorder r)"
      using Node by auto
    have "ev_time (m t) < ev_time (m e) \<or> ev_time (m e) = ev_time (m t) \<and> ev_uid (m t) < ev_uid (m e)"
      using right(2) by (auto simp: event_key_less)
    then show ?thesis using right(1,3) r' rest' by (simp only: splay_remove.simps if_True) simp
  qed
qed simp

lemma uid_lookup_law: "case uid_lookup m u t of None \<Rightarrow> \<forall>a\<in>set_tree t. ev_uid (m a) \<noteq> u
    | Some a \<Rightarrow> a \<in> set_tree t \<and> ev_uid (m a) = u"
  by (induction t) (auto split: option.splits)

definition splay_ready :: "'t::linorder store \<Rightarrow> splay \<Rightarrow> bool" where
  "splay_ready m s = in_order m (inorder (root s))"

interpretation splay_queue: event_queue SplayScheduler new_splay "2 ^ 31 - 1" "\<lambda>s. set_tree (root s)" "\<lambda>n. splay_ready"
proof (unfold_locales, goal_cases)
  case (4 n m q m') then show ?case unfolding splay_ready_def by (rule in_order_cong) simp
next
  case (6 n m q a)
  then have "in_order m (inorder (root (SplayScheduler_insert m a q)))"
    by (auto simp: splay_ready_def SplayScheduler_insert_inorder intro!: in_order_insert)
  moreover have "set_tree (root (SplayScheduler_insert m a q)) = insert a (set_tree (root q))"
    using SplayScheduler_insert_inorder [of m q a] 6(1) set_ListScheduler_insert
    by (metis set_inorder splay_ready_def)
  ultimately show ?case by (simp add: splay_ready_def)
next
  case (7 m a q) then show ?case by (simp add: SplayScheduler_cancel_def)
next
  case (8 n m q a)
  then obtain t where "splay_remove m a (root q) = Some t" "inorder t = filter (\<lambda>b. b \<noteq> a) (inorder (root q))"
    using splay_remove_inorder unfolding splay_ready_def by blast
  moreover from this(2) have "set_tree t = set_tree (root q) - {a}"
    by (auto simp flip: set_inorder)
  ultimately show ?case using 8
    by (simp add: SplayScheduler_cancel_def splay_ready_def in_order_filter)
next
  case (9 n m q u r q1) then show ?case
    using uid_lookup_law [where m = m and u = u and t = "root q"]
    by (auto simp: SplayScheduler_lookup_def splay_ready_def)
next
  case (10 n m q) then show ?case by (simp add: SplayScheduler_deque_def)
next
  case (11 n m q)
  then have "set (inorder (root q)) \<noteq> {}" by simp
  then obtain a xs where axs: "inorder (root q) = a # xs" by (cases "inorder (root q)") auto
  then have order: "in_order m (a # xs)" using 11(1) by (simp add: splay_ready_def)
  obtain s where "SplayScheduler_deque q = (Some a, s)" "inorder (root s) = xs"
    using SplayScheduler_deque_inorder [OF refl, of q] axs by auto
  moreover have "set_tree (root q) = insert a (set xs)" using axs by (metis list.simps(15) set_inorder)
  moreover have "set_tree (root s) = set xs" using calculation(2) by (metis set_inorder)
  ultimately show ?case using order in_order_distinct [OF order] by (auto simp: splay_ready_def)
next
  case (12 n m q) then show ?case
    using SplayScheduler_deque_inorder [OF refl, of q] list_queue.head_law
    by (metis ListScheduler_head_def ListScheduler_deque.simps SplayScheduler_head_def SplayScheduler_simps(4,5)
        fst_conv list.exhaust list.simps(4,5) splay_head_inorder)
qed (auto simp: new_splay_def splay_ready_def)

section \<open>The tree as a list\<close>







end
