(* ===== verification/Event_Loop.thy ===== *)
theory Event_Loop
  imports Event_Queue
begin

text \<open>
  Class \<^verbatim>\<open>Scheduler\<close> (\<^verbatim>\<open>common/scheduler.cc\<close>): scheduling, cancelling and dispatching events over any queue. What a handler
  computes is a parameter: a function of the event, the time, the event objects and a state of its own, which
  yields the new state and the calls it makes to the scheduler. The theory relates the scheduler over any
  queue that fulfils the contract to the one over a plain set of events.
\<close>

section \<open>The scheduler\<close>

record ('t, 'q) sched =
  clock :: 't
  halted :: bool
  uid_next :: int
  events :: "'t store"
  queue :: 'q

text \<open>\<^verbatim>\<open>Event()\<close>, and a scheduler without events. The counter \<^verbatim>\<open>Scheduler::uid_\<close> starts at 1; it has 64 bits.\<close>

definition new_event :: "'t::zero event" where
  "new_event = \<lparr>ev_handler = None, ev_time = 0, ev_uid = 0\<rparr>"

definition new_sched :: "'q \<Rightarrow> ('t::zero, 'q) sched" where
  "new_sched q = \<lparr>clock = 0, halted = False, uid_next = 1, events = (\<lambda>_. new_event), queue = q\<rparr>"

definition uid_max :: int where
  "uid_max = 2 ^ 63 - 1"

text \<open>
  \<^verbatim>\<open>schedule\<close> aborts without a handler, when the event is in the queue already, and when numbers are used up; the
  increment of the largest number is an overflow. A negative delay is only warned about.
\<close>

definition schedule :: "('t::{linorder,plus}, 'q) queue_ops \<Rightarrow> nat option \<Rightarrow> eptr \<Rightarrow> 't \<Rightarrow> ('t, 'q) sched \<Rightarrow>
    ('t, 'q) sched option" where
  "schedule Q h e delay s =
    (if h = None then None
     else if 0 < ev_uid (events s e) then None
     else if uid_next s < 0 then None
     else if uid_next s = uid_max then None
     else
       let m = (events s)(e := (events s e)\<lparr>ev_uid := uid_next s, ev_handler := h, ev_time := clock s + delay\<rparr>)
       in do {
         q \<leftarrow> q_insert Q m e (queue s);
         Some (s\<lparr>uid_next := uid_next s + 1, events := m, queue := q\<rparr>)
       })"

definition cancel :: "('t, 'q) queue_ops \<Rightarrow> eptr \<Rightarrow> ('t, 'q) sched \<Rightarrow> ('t, 'q) sched option" where
  "cancel Q e s = do {
     (m, q) \<leftarrow> q_cancel Q (events s) e (queue s);
     Some (s\<lparr>events := m, queue := q\<rparr>)
   }"

text \<open>
  The command \<^verbatim>\<open>at\<close>: the time is absolute, or relative when it is negative; the event is a new object, so that its
  address is not that of an event in the queue. The result says whether the command succeeded.
\<close>

definition at_command :: "('t::{linorder,plus,minus,uminus,zero}, 'q) queue_ops \<Rightarrow> nat option \<Rightarrow> eptr \<Rightarrow> 't \<Rightarrow>
    ('t, 'q) sched \<Rightarrow> (bool \<times> ('t, 'q) sched) option" where
  "at_command Q h e t s =
    (if 0 < ev_uid (events s e) then None
     else
       let delay = (if t < 0 then - t else t - clock s) in
       if delay < 0 then Some (False, s)
       else do {
         s' \<leftarrow> schedule Q h e delay (s\<lparr>events := (events s)(e := new_event)\<rparr>);
         Some (True, s')
       })"

text \<open>The command \<^verbatim>\<open>cancel\<close> names the event by its number.\<close>

definition cancel_command :: "('t, 'q) queue_ops \<Rightarrow> int \<Rightarrow> ('t, 'q) sched \<Rightarrow> (eptr option \<times> ('t, 'q) sched) option" where
  "cancel_command Q u s =
    (case q_lookup Q (events s) u (queue s) of
       (None, q) \<Rightarrow> Some (None, s\<lparr>queue := q\<rparr>)
     | (Some e, q) \<Rightarrow> do { s' \<leftarrow> cancel Q e (s\<lparr>queue := q\<rparr>); Some (Some e, s') })"

section \<open>Calls and the log\<close>

text \<open>The calls a handler or a script makes, and what happens to events: an entry names the event, its time and its
  number.\<close>

datatype 't call =
    Schedule "nat option" eptr 't
  | Cancel eptr
  | At "nat option" eptr 't
  | Cancel_uid int
  | Halt

datatype 't action =
    Scheduled eptr 't int
  | Cancelled eptr 't int
  | Dispatched eptr 't int

definition scheduled_entry :: "eptr \<Rightarrow> 't store \<Rightarrow> 't action" where
  "scheduled_entry e m = Scheduled e (ev_time (m e)) (ev_uid (m e))"

definition cancelled_entries :: "eptr \<Rightarrow> 't store \<Rightarrow> 't action list" where
  "cancelled_entries e m = (if 0 < ev_uid (m e) then [Cancelled e (ev_time (m e)) (ev_uid (m e))] else [])"

fun do_call :: "('t::{linorder,plus,minus,uminus,zero}, 'q) queue_ops \<Rightarrow> 't call \<Rightarrow> ('t, 'q) sched \<Rightarrow>
    (('t, 'q) sched \<times> 't action list) option" where
  "do_call Q (Schedule h e d) s = do { s' \<leftarrow> schedule Q h e d s; Some (s', [scheduled_entry e (events s')]) }"
| "do_call Q (Cancel e) s = do { s' \<leftarrow> cancel Q e s; Some (s', cancelled_entries e (events s)) }"
| "do_call Q (At h e t) s = do {
     (ok, s') \<leftarrow> at_command Q h e t s;
     Some (s', if ok then [scheduled_entry e (events s')] else [])
   }"
| "do_call Q (Cancel_uid u) s = do {
     (e, s') \<leftarrow> cancel_command Q u s;
     Some (s', case e of None \<Rightarrow> [] | Some e \<Rightarrow> cancelled_entries e (events s))
   }"
| "do_call Q Halt s = Some (s\<lparr>halted := True\<rparr>, [])"

fun do_calls :: "('t::{linorder,plus,minus,uminus,zero}, 'q) queue_ops \<Rightarrow> 't call list \<Rightarrow> ('t, 'q) sched \<Rightarrow>
    (('t, 'q) sched \<times> 't action list) option" where
  "do_calls Q [] s = Some (s, [])"
| "do_calls Q (c # cs) s = do {
     (s1, l1) \<leftarrow> do_call Q c s;
     (s2, l2) \<leftarrow> do_calls Q cs s1;
     Some (s2, l1 @ l2)
   }"

section \<open>Dispatching\<close>

type_synonym ('t, 'w) handlers = "nat \<Rightarrow> eptr \<Rightarrow> 't \<Rightarrow> 't store \<Rightarrow> 'w \<Rightarrow> 'w \<times> 't call list"

definition dispatch :: "('t::{linorder,plus,minus,uminus,zero}, 'q) queue_ops \<Rightarrow> ('t, 'w) handlers \<Rightarrow> eptr \<Rightarrow>
    ('t, 'q) sched \<Rightarrow> 'w \<Rightarrow> (('t, 'q) sched \<times> 'w \<times> 't action list) option" where
  "dispatch Q handle p s w =
    (let t = ev_time (events s p) in
     if t < clock s then None
     else
       let s1 = s\<lparr>clock := t, events := negate_uid p (events s)\<rparr> in
       case ev_handler (events s p) of
         None \<Rightarrow> None
       | Some h \<Rightarrow> (case handle h p t (events s1) w of (w', cs) \<Rightarrow> do {
           (s2, l) \<leftarrow> do_calls Q cs s1;
           Some (s2, w', Dispatched p t (ev_uid (events s p)) # l)
         }))"

text \<open>The loop of \<^verbatim>\<open>run\<close>, for at most \<open>n\<close> events.\<close>

fun run :: "('t::{linorder,plus,minus,uminus,zero}, 'q) queue_ops \<Rightarrow> ('t, 'w) handlers \<Rightarrow> nat \<Rightarrow>
    ('t, 'q) sched \<Rightarrow> 'w \<Rightarrow> (('t, 'q) sched \<times> 'w \<times> 't action list) option" where
  "run Q handle 0 s w = Some (s, w, [])"
| "run Q handle (Suc n) s w =
    (if halted s then Some (s, w, [])
     else (case q_deque Q (events s) (queue s) of
         (None, q) \<Rightarrow> Some (s\<lparr>queue := q\<rparr>, w, [])
       | (Some p, q) \<Rightarrow> do {
           (s1, w1, l1) \<leftarrow> dispatch Q handle p (s\<lparr>queue := q\<rparr>) w;
           (s2, w2, l2) \<leftarrow> run Q handle n s1 w1;
           Some (s2, w2, l1 @ l2)
         }))"

text \<open>The commands \<^verbatim>\<open>run\<close>, which sets the clock to zero, and \<^verbatim>\<open>resume\<close>.\<close>

definition run_command :: "('t::{linorder,plus,minus,uminus,zero}, 'q) queue_ops \<Rightarrow> ('t, 'w) handlers \<Rightarrow> nat \<Rightarrow>
    ('t, 'q) sched \<Rightarrow> 'w \<Rightarrow> (('t, 'q) sched \<times> 'w \<times> 't action list) option" where
  "run_command Q handle n s w = run Q handle n (s\<lparr>clock := 0\<rparr>) w"

definition resume_command :: "('t::{linorder,plus,minus,uminus,zero}, 'q) queue_ops \<Rightarrow> ('t, 'w) handlers \<Rightarrow> nat \<Rightarrow>
    ('t, 'q) sched \<Rightarrow> 'w \<Rightarrow> (('t, 'q) sched \<times> 'w \<times> 't action list) option" where
  "resume_command Q handle n s w = run Q handle n (s\<lparr>halted := False\<rparr>) w"

text \<open>A script makes some calls and then runs the simulation.\<close>

definition simulate :: "('t::{linorder,plus,minus,uminus,zero}, 'q) queue_ops \<Rightarrow> 'q \<Rightarrow> ('t, 'w) handlers \<Rightarrow> 't call list \<Rightarrow>
    nat \<Rightarrow> 'w \<Rightarrow> (('t, 'q) sched \<times> 'w \<times> 't action list) option" where
  "simulate Q q handle script n w = do {
     (s1, l1) \<leftarrow> do_calls Q script (new_sched q);
     (s2, w2, l2) \<leftarrow> run_command Q handle n s1 w;
     Some (s2, w2, l1 @ l2)
   }"

section \<open>The queue as a set\<close>

text \<open>The specification: the pending events as a set, from which \<^verbatim>\<open>deque\<close> takes the first in the order
  \<^const>\<open>event_key\<close>.\<close>

definition first_pending :: "'t::linorder store \<Rightarrow> eptr set \<Rightarrow> eptr" where
  "first_pending m A = (THE a. a \<in> A \<and> (\<forall>b\<in>A - {a}. event_key m a < event_key m b))"

definition Set_queue :: "('t::linorder, eptr set) queue_ops" where
  "Set_queue = \<lparr>q_insert = (\<lambda>m e A. Some (insert e A)),
    q_cancel = (\<lambda>m e A. Some (if ev_uid (m e) \<le> 0 then (m, A) else (negate_uid e m, A - {e}))),
    q_lookup = (\<lambda>m u A. (if \<exists>a\<in>A. ev_uid (m a) = u then Some (THE a. a \<in> A \<and> ev_uid (m a) = u) else None, A)),
    q_deque = (\<lambda>m A. if A = {} then (None, A) else (Some (first_pending m A), A - {first_pending m A})),
    q_head = (\<lambda>m A. if A = {} then None else Some (first_pending m A))\<rparr>"

lemma first_pending_eq: "a \<in> A \<Longrightarrow> (\<And>b. b \<in> A \<Longrightarrow> b \<noteq> a \<Longrightarrow> event_key m a < event_key m b) \<Longrightarrow> first_pending m A = a"
  unfolding first_pending_def by (rule the_equality) (auto dest: less_asym)

text \<open>What a scheduler does, apart from the representation of its queue.\<close>

definition abs_sched :: "('q \<Rightarrow> eptr set) \<Rightarrow> ('t, 'q) sched \<Rightarrow> ('t, eptr set) sched" where
  "abs_sched elems s = \<lparr>clock = clock s, halted = halted s, uid_next = uid_next s, events = events s,
    queue = elems (queue s)\<rparr>"

lemma abs_sched_simps [simp]:
  "clock (abs_sched f s) = clock s" "halted (abs_sched f s) = halted s" "uid_next (abs_sched f s) = uid_next s"
  "events (abs_sched f s) = events s" "queue (abs_sched f s) = f (queue s)"
  "abs_sched f (s\<lparr>clock := t\<rparr>) = (abs_sched f s)\<lparr>clock := t\<rparr>"
  "abs_sched f (s\<lparr>halted := b\<rparr>) = (abs_sched f s)\<lparr>halted := b\<rparr>"
  "abs_sched f (s\<lparr>uid_next := u\<rparr>) = (abs_sched f s)\<lparr>uid_next := u\<rparr>"
  "abs_sched f (s\<lparr>events := m\<rparr>) = (abs_sched f s)\<lparr>events := m\<rparr>"
  "abs_sched f (s\<lparr>queue := q\<rparr>) = (abs_sched f s)\<lparr>queue := f q\<rparr>"
  by (simp_all add: abs_sched_def)

section \<open>Refinement of the set\<close>

definition sched_ok :: "('q \<Rightarrow> eptr set) \<Rightarrow> (nat \<Rightarrow> 't store \<Rightarrow> 'q \<Rightarrow> bool) \<Rightarrow> nat \<Rightarrow> ('t, 'q) sched \<Rightarrow> bool" where
  "sched_ok elems ready n s \<longleftrightarrow> ready n (events s) (queue s) \<and> 0 < uid_next s \<and> uid_next s + int n \<le> uid_max \<and>
    (\<forall>a. 0 < ev_uid (events s a) \<longleftrightarrow> a \<in> elems (queue s)) \<and>
    (\<forall>a\<in>elems (queue s). ev_uid (events s a) < uid_next s \<and> ev_handler (events s a) \<noteq> None) \<and>
    inj_on (\<lambda>a. ev_uid (events s a)) (elems (queue s))"

text \<open>The two results of an operation: the abstract one is the image of the concrete one, and the invariant holds with
  room for \<open>n\<close> more insertions.\<close>

definition refines :: "('q \<Rightarrow> eptr set) \<Rightarrow> (nat \<Rightarrow> 't store \<Rightarrow> 'q \<Rightarrow> bool) \<Rightarrow> nat \<Rightarrow> (('t, 'q) sched \<times> 'x) option \<Rightarrow>
    (('t, eptr set) sched \<times> 'x) option \<Rightarrow> bool" where
  "refines elems ready n r r' \<longleftrightarrow> r' = map_option (map_prod (abs_sched elems) id) r \<and>
    (\<forall>s x. r = Some (s, x) \<longrightarrow> sched_ok elems ready n s)"

lemma refines_None [simp]: "refines elems ready n None r' \<longleftrightarrow> r' = None"
  by (simp add: refines_def)

lemma refines_Some [simp]: "refines elems ready n (Some (s, x)) r' \<longleftrightarrow>
    r' = Some (abs_sched elems s, x) \<and> sched_ok elems ready n s"
  by (auto simp: refines_def)

lemma refines_cases:
  assumes "refines elems ready n r r'"
  obtains "r = None" "r' = None"
  | s x where "r = Some (s, x)" "r' = Some (abs_sched elems s, x)" "sched_ok elems ready n s"
  using assms by (cases r) (auto simp: refines_def)

definition with_unit :: "'a option \<Rightarrow> ('a \<times> unit) option" where
  "with_unit r = map_option (\<lambda>s. (s, ())) r"

lemma with_unit_simps [simp]: "with_unit None = None" "with_unit (Some s) = Some (s, ())"
  by (simp_all add: with_unit_def)

locale scheduler = event_queue Q fresh capacity elems ready
  for Q :: "('t::{linorder,plus,minus,uminus,zero}, 'q) queue_ops"
    and fresh :: 'q
    and capacity :: nat
    and elems :: "'q \<Rightarrow> eptr set"
    and ready :: "nat \<Rightarrow> 't store \<Rightarrow> 'q \<Rightarrow> bool" +
  assumes capacity_bound: "int capacity < uid_max"
begin

abbreviation "ok \<equiv> sched_ok elems ready"
abbreviation "sim \<equiv> refines elems ready"
abbreviation "view \<equiv> abs_sched elems"

lemma ok_new: "n \<le> capacity \<Longrightarrow> ok n (new_sched fresh)"
  using capacity_bound by (simp add: sched_ok_def new_sched_def elems_fresh ready_fresh new_event_def)

lemma ok_mono: "ok n s \<Longrightarrow> k \<le> n \<Longrightarrow> ok k s"
  using ready_mono by (auto simp: sched_ok_def)

lemma ok_pending: "ok n s \<Longrightarrow> 0 < ev_uid (events s a) \<longleftrightarrow> a \<in> elems (queue s)"
  by (simp add: sched_ok_def)

lemma ok_halt: "ok n s \<Longrightarrow> ok n (s\<lparr>halted := b\<rparr>)"
  by (simp add: sched_ok_def)

lemma ok_clock: "ok n s \<Longrightarrow> ok n (s\<lparr>clock := t\<rparr>)"
  by (simp add: sched_ok_def)

text \<open>An object outside the queue may change, as long as it does not look as if it were in the queue.\<close>

lemma ok_event: "ok n s \<Longrightarrow> a \<notin> elems (queue s) \<Longrightarrow> ev_uid e \<le> 0 \<Longrightarrow> ok n (s\<lparr>events := (events s)(a := e)\<rparr>)"
proof -
  assume *: "ok n s" "a \<notin> elems (queue s)" "ev_uid e \<le> 0"
  have "ready n ((events s)(a := e)) (queue s)"
    by (rule ready_cong [of n "events s"]) (use * in \<open>auto simp: sched_ok_def\<close>)
  moreover have "inj_on (\<lambda>b. ev_uid (((events s)(a := e)) b)) (elems (queue s))
    \<longleftrightarrow> inj_on (\<lambda>b. ev_uid (events s b)) (elems (queue s))"
    by (rule inj_on_cong) (use * in auto)
  ultimately show ?thesis using * by (auto simp: sched_ok_def)
qed

lemma ok_remove:
  assumes "ok n s" "a \<in> elems (queue s)" "elems q = elems (queue s) - {a}" "ready n (events s) q"
  shows "ok n (s\<lparr>events := negate_uid a (events s), queue := q\<rparr>)"
proof -
  have "ready n (negate_uid a (events s)) q"
    by (rule ready_cong [OF assms(4)]) (use assms(3) in auto)
  moreover have "inj_on (\<lambda>b. ev_uid (negate_uid a (events s) b)) (elems q)
    \<longleftrightarrow> inj_on (\<lambda>b. ev_uid (events s b)) (elems q)"
    by (rule inj_on_cong) (use assms(3) in auto)
  moreover have "inj_on (\<lambda>b. ev_uid (events s b)) (elems q)"
    using assms(1,3) by (auto simp: sched_ok_def intro: inj_on_subset)
  moreover have "0 < ev_uid (negate_uid a (events s) b) \<longleftrightarrow> b \<in> elems q" for b
  proof (cases "b = a")
    case True
    moreover have "0 < ev_uid (events s a)" using assms(1,2) by (simp add: sched_ok_def)
    ultimately show ?thesis using assms(3) by simp
  next
    case False
    then show ?thesis using assms(1,3) by (simp add: sched_ok_def)
  qed
  ultimately show ?thesis using assms(1,3) by (auto simp: sched_ok_def)
qed

lemma schedule_refines:
  assumes "ok (Suc n) s"
  shows "sim n (with_unit (schedule Q h e d s)) (with_unit (schedule Set_queue h e d (view s)))"
proof (cases "h = None \<or> 0 < ev_uid (events s e) \<or> uid_next s < 0 \<or> uid_next s = uid_max")
  case True
  then show ?thesis by (auto simp: schedule_def)
next
  case False
  let ?m = "(events s)(e := (events s e)\<lparr>ev_uid := uid_next s, ev_handler := h, ev_time := clock s + d\<rparr>)"
  have fresh_e: "e \<notin> elems (queue s)" using False assms by (simp add: sched_ok_def)
  have "ready (Suc n) ?m (queue s)"
    by (rule ready_cong [of _ "events s"]) (use assms fresh_e in \<open>auto simp: sched_ok_def\<close>)
  moreover have "ev_uid (?m b) < ev_uid (?m e)" if "b \<in> elems (queue s)" for b
    using that assms fresh_e by (auto simp: sched_ok_def)
  ultimately obtain q where q: "q_insert Q ?m e (queue s) = Some q" "elems q = insert e (elems (queue s))" "ready n ?m q"
    using insert_law by blast
  let ?s = "s\<lparr>uid_next := uid_next s + 1, events := ?m, queue := q\<rparr>"
  have below: "ev_uid (events s b) < uid_next s" "ev_handler (events s b) \<noteq> None" if "b \<in> elems (queue s)" for b
    using that assms by (simp_all add: sched_ok_def)
  have inj: "inj_on (\<lambda>b. ev_uid (?m b)) (elems q)"
  proof (rule inj_onI)
    fix a b assume "a \<in> elems q" "b \<in> elems q" "ev_uid (?m a) = ev_uid (?m b)"
    then show "a = b"
      using below [of a] below [of b] assms fresh_e q(2)
      by (cases "a = e"; cases "b = e") (auto simp: sched_ok_def dest: inj_onD)
  qed
  have "0 < uid_next s" "uid_next s + int (Suc n) \<le> uid_max" and pend: "\<And>b. 0 < ev_uid (events s b) \<longleftrightarrow> b \<in> elems (queue s)"
    using assms by (simp_all add: sched_ok_def)
  moreover have "ev_uid (?m b) < uid_next s + 1 \<and> ev_handler (?m b) \<noteq> None" if "b \<in> elems q" for b
    using that False q(2) below(1,2) [of b] by (cases "b = e") auto
  moreover have "0 < ev_uid (?m b) \<longleftrightarrow> b \<in> elems q" for b
    using q(2) pend [of b] \<open>0 < uid_next s\<close> by (cases "b = e") simp_all
  ultimately have "ok n ?s" using inj q(3) unfolding sched_ok_def by simp
  moreover have "schedule Q h e d s = Some ?s" using False q(1) by (simp add: schedule_def Let_def)
  moreover have "schedule Set_queue h e d (view s) = Some (view ?s)"
    using False q(2) by (simp add: schedule_def Set_queue_def Let_def abs_sched_def)
  ultimately show ?thesis by simp
qed

lemma cancel_refines:
  assumes "ok n s"
  shows "sim n (with_unit (cancel Q e s)) (with_unit (cancel Set_queue e (view s)))"
proof (cases "0 < ev_uid (events s e)")
  case True
  then have e: "e \<in> elems (queue s)" using assms by (simp add: sched_ok_def)
  then obtain q where q: "q_cancel Q (events s) e (queue s) = Some (negate_uid e (events s), q)"
    "elems q = elems (queue s) - {e}" "ready n (events s) q"
    using cancel_law True assms unfolding sched_ok_def by blast
  then show ?thesis
    using True ok_remove [OF assms e q(2,3)] by (simp add: cancel_def Set_queue_def abs_sched_def)
next
  case False
  then show ?thesis using assms by (simp add: cancel_def cancel_idle Set_queue_def abs_sched_def)
qed

lemma at_command_refines:
  assumes "ok (Suc n) s"
  shows "sim n (map_option prod.swap (at_command Q h e t s)) (map_option prod.swap (at_command Set_queue h e t (view s)))"
proof -
  let ?s = "s\<lparr>events := (events s)(e := new_event)\<rparr>"
  define d where "d = (if t < 0 then - t else t - clock s)"
  have *: "at_command P h e t u = (if 0 < ev_uid (events s e) then None else if d < 0 then Some (False, u)
      else map_option (Pair True) (schedule P h e d (u\<lparr>events := (events s)(e := new_event)\<rparr>)))"
    if "events u = events s" "clock u = clock s" for P :: "('t, 'p) queue_ops" and u
    using that unfolding at_command_def d_def Let_def by (cases "0 < ev_uid (events s e)") (simp_all add: map_conv_bind_option comp_def)
  show ?thesis
  proof (cases "0 < ev_uid (events s e) \<or> d < 0")
    case True
    then show ?thesis using ok_mono [OF assms, of n] by (auto simp: *)
  next
    case False
    have "ok (Suc n) ?s"
      by (rule ok_event) (use False assms in \<open>auto simp: sched_ok_def new_event_def\<close>)
    from schedule_refines [OF this, of h e d] show ?thesis
      by (cases rule: refines_cases) (use False in \<open>simp_all add: * with_unit_def\<close>)
  qed
qed

lemma lookup_refines:
  assumes "ok n s" "q_lookup Q (events s) u (queue s) = (r, q)"
  shows "q_lookup Set_queue (events s) u (elems (queue s)) = (r, elems q)" "ok n (s\<lparr>queue := q\<rparr>)"
proof -
  have q: "elems q = elems (queue s)" "ready n (events s) q"
    "case r of None \<Rightarrow> \<forall>a\<in>elems (queue s). ev_uid (events s a) \<noteq> u
      | Some a \<Rightarrow> a \<in> elems (queue s) \<and> ev_uid (events s a) = u"
    using lookup_law [OF _ assms(2)] assms(1) unfolding sched_ok_def by blast+
  then show "ok n (s\<lparr>queue := q\<rparr>)" using assms(1) by (simp add: sched_ok_def)
  have "(THE a. a \<in> elems (queue s) \<and> ev_uid (events s a) = u) = a" if "r = Some a" for a
    using q(3) that assms(1) by (intro the_equality) (auto simp: sched_ok_def inj_on_def)
  then show "q_lookup Set_queue (events s) u (elems (queue s)) = (r, elems q)"
    using q(1,3) by (cases r) (auto simp: Set_queue_def)
qed

lemma cancel_command_refines:
  assumes "ok n s"
  shows "sim n (map_option prod.swap (cancel_command Q u s)) (map_option prod.swap (cancel_command Set_queue u (view s)))"
proof -
  obtain r q where look: "q_lookup Q (events s) u (queue s) = (r, q)" by fastforce
  note q = lookup_refines [OF assms look]
  show ?thesis
  proof (cases r)
    case None
    then show ?thesis using q by (simp add: cancel_command_def look)
  next
    case (Some e)
    from cancel_refines [OF q(2), of e] show ?thesis
      by (cases rule: refines_cases) (use q(1) Some in \<open>auto simp: cancel_command_def look with_unit_def\<close>)
  qed
qed

lemma do_call_refines:
  assumes "ok (Suc n) s"
  shows "sim n (do_call Q c s) (do_call Set_queue c (view s))"
proof (cases c)
  case (Schedule h e d)
  from schedule_refines [OF assms, of h e d] show ?thesis
    by (cases rule: refines_cases) (auto simp: Schedule with_unit_def)
next
  case (Cancel e)
  from cancel_refines [OF ok_mono [OF assms], of n e] show ?thesis
    by (simp, cases rule: refines_cases) (auto simp: Cancel with_unit_def)
next
  case (At h e t)
  from at_command_refines [OF assms, of h e t] show ?thesis
    by (cases rule: refines_cases) (auto simp: At)
next
  case (Cancel_uid u)
  from cancel_command_refines [OF ok_mono [OF assms], of n u] show ?thesis
    by (simp, cases rule: refines_cases) (auto simp: Cancel_uid split: option.split)
next
  case Halt
  then show ?thesis using ok_halt [OF ok_mono [OF assms], of n] by simp
qed

lemma do_calls_refines: "ok (length cs + n) s \<Longrightarrow> sim n (do_calls Q cs s) (do_calls Set_queue cs (view s))"
proof (induction cs arbitrary: s)
  case (Cons c cs)
  then have "ok (Suc (length cs + n)) s" by simp
  from do_call_refines [OF this, of c] show ?case
  proof (cases rule: refines_cases)
    case (2 s1 l1)
    from Cons.IH [OF 2(3)] show ?thesis
      by (cases rule: refines_cases) (simp_all add: 2)
  qed simp
qed simp

lemma deque_refines:
  assumes "ok n s"
  shows "elems (queue s) = {} \<and> (\<exists>q. q_deque Q (events s) (queue s) = (None, q) \<and> elems q = {} \<and> ok n (s\<lparr>queue := q\<rparr>))
    \<or> (\<exists>p q. q_deque Q (events s) (queue s) = (Some p, q) \<and> p \<in> elems (queue s) \<and> elems q = elems (queue s) - {p} \<and>
        (\<forall>b\<in>elems (queue s) - {p}. event_key (events s) p < event_key (events s) b) \<and>
        q_deque Set_queue (events s) (elems (queue s)) = (Some p, elems q) \<and> ready n (events s) q)"
proof (cases "elems (queue s) = {}")
  case True
  then show ?thesis using deque_empty [of n "events s" "queue s"] assms by (auto simp: sched_ok_def)
next
  case False
  then obtain p q where "q_deque Q (events s) (queue s) = (Some p, q)" "p \<in> elems (queue s)"
    "\<forall>b\<in>elems (queue s) - {p}. event_key (events s) p < event_key (events s) b"
    "elems q = elems (queue s) - {p}" "ready n (events s) q"
    using deque_law [of n "events s" "queue s"] assms unfolding sched_ok_def by blast
  moreover from this have "first_pending (events s) (elems (queue s)) = p" by (intro first_pending_eq) auto
  ultimately show ?thesis using False by (simp add: Set_queue_def)
qed

lemma ok_dequeued:
  assumes "ok n s" "p \<in> elems (queue s)" "elems q = elems (queue s) - {p}" "ready n (events s) q"
  shows "ok n (s\<lparr>queue := q, clock := t, events := negate_uid p (events s)\<rparr>)"
  using ok_remove [OF assms] by (simp add: sched_ok_def)

lemma dispatch_refines:
  assumes "ok (c + n) s" "p \<in> elems (queue s)" "elems q = elems (queue s) - {p}" "ready (c + n) (events s) q"
    and calls: "\<And>h e t m w. length (snd (handle h e t m w)) \<le> c"
  shows "sim n (dispatch Q handle p (s\<lparr>queue := q\<rparr>) w) (dispatch Set_queue handle p ((view s)\<lparr>queue := elems q\<rparr>) w)"
proof (cases "ev_time (events s p) < clock s \<or> ev_handler (events s p) = None")
  case True
  then show ?thesis by (auto simp: dispatch_def Let_def)
next
  case False
  let ?t = "ev_time (events s p)"
  let ?s = "s\<lparr>queue := q, clock := ?t, events := negate_uid p (events s)\<rparr>"
  obtain h where h: "ev_handler (events s p) = Some h" using False by auto
  obtain w' cs where cs: "handle h p ?t (negate_uid p (events s)) w = (w', cs)" by fastforce
  have "ok (length cs + n) ?s"
    using ok_mono [OF ok_dequeued [OF assms(1-4)]] calls [of h p ?t "negate_uid p (events s)" w] cs by simp
  from do_calls_refines [OF this] show ?thesis
    by (cases rule: refines_cases) (use False in \<open>simp_all add: dispatch_def h cs Let_def\<close>)
qed

lemma run_refines:
  assumes "\<And>h e t m w. length (snd (handle h e t m w)) \<le> c"
  shows "ok (k * c + n) s \<Longrightarrow> sim n (run Q handle k s w) (run Set_queue handle k (view s) w)"
proof (induction k arbitrary: s w)
  case (Suc k)
  then have room: "ok (c + (k * c + n)) s" by (simp add: add.assoc)
  show ?case
  proof (cases "halted s")
    case True
    then show ?thesis using ok_mono [OF room, of n] by simp
  next
    case False
    from deque_refines [OF room] show ?thesis
    proof (elim disjE conjE exE)
      fix q assume "elems (queue s) = {}" "q_deque Q (events s) (queue s) = (None, q)" "elems q = {}"
        "ok (c + (k * c + n)) (s\<lparr>queue := q\<rparr>)"
      then show ?thesis using False ok_mono [of _ _ n] by (simp add: Set_queue_def)
    next
      fix p q
      assume q: "q_deque Q (events s) (queue s) = (Some p, q)" "p \<in> elems (queue s)" "elems q = elems (queue s) - {p}"
        "ready (c + (k * c + n)) (events s) q" "q_deque Set_queue (events s) (elems (queue s)) = (Some p, elems q)"
      from dispatch_refines [where handle = handle and w = w, OF room q(2,3,4) assms] show ?thesis
      proof (cases rule: refines_cases)
        case 1
        then show ?thesis using False q by simp
      next
        case (2 s1 wl)
        obtain w1 l1 where wl: "wl = (w1, l1)" by fastforce
        have "sim n (run Q handle k s1 w1) (run Set_queue handle k (view s1) w1)" by (rule Suc.IH [OF 2(3)])
        then show ?thesis
          by (cases rule: refines_cases) (auto simp: False q(1,5) 2(1,2) wl split: prod.split)
      qed
    qed
  qed
qed simp

lemma simulate_refines:
  assumes "\<And>h e t m w. length (snd (handle h e t m w)) \<le> c" "length script + k * c \<le> capacity"
  shows "simulate Set_queue {} handle script k w
    = map_option (map_prod view id) (simulate Q fresh handle script k w)"
proof -
  have new: "view (new_sched fresh) = new_sched {}"
    by (simp add: new_sched_def elems_fresh abs_sched_def)
  have "ok (length script + (k * c + 0)) (new_sched fresh)" using ok_new assms(2) by simp
  from do_calls_refines [OF this] show ?thesis
  proof (cases rule: refines_cases)
    case 1
    then show ?thesis by (simp add: simulate_def new)
  next
    case (2 s l)
    have "sim 0 (run Q handle k (s\<lparr>clock := 0\<rparr>) w) (run Set_queue handle k (view (s\<lparr>clock := 0\<rparr>)) w)"
      by (rule run_refines [OF assms(1) ok_clock [OF 2(3)]])
    then show ?thesis
      by (cases rule: refines_cases)
        (auto simp: simulate_def run_command_def 2(1,2) simp flip: new split: prod.split)
  qed
qed

end

section \<open>The log\<close>

text \<open>The pending events with their times and numbers, and what a log makes of them: it is the run of an abstract
  priority queue, in which only the first event can be dispatched.\<close>

definition entries :: "('q \<Rightarrow> eptr set) \<Rightarrow> ('t, 'q) sched \<Rightarrow> (eptr \<times> 't \<times> int) set" where
  "entries elems s = (\<lambda>a. (a, event_key (events s) a)) ` elems (queue s)"

fun replay :: "(eptr \<times> 't::linorder \<times> int) set \<Rightarrow> 't action list \<Rightarrow> (eptr \<times> 't \<times> int) set option" where
  "replay A [] = Some A"
| "replay A (Scheduled e t u # l) = (if e \<in> fst ` A then None else replay (insert (e, t, u) A) l)"
| "replay A (Cancelled e t u # l) = (if (e, t, u) \<in> A then replay (A - {(e, t, u)}) l else None)"
| "replay A (Dispatched e t u # l) =
    (if (e, t, u) \<in> A \<and> (\<forall>x\<in>A - {(e, t, u)}. (t, u) < snd x) then replay (A - {(e, t, u)}) l else None)"

lemma replay_append: "replay A (l @ k) = Option.bind (replay A l) (\<lambda>B. replay B k)"
  by (induction A l rule: replay.induct) simp_all

fun dispatched :: "'t action list \<Rightarrow> ('t \<times> int) list" where
  "dispatched [] = []"
| "dispatched (Dispatched e t u # l) = (t, u) # dispatched l"
| "dispatched (a # l) = dispatched l"

lemma dispatched_append [simp]: "dispatched (l @ k) = dispatched l @ dispatched k"
  by (induction l rule: dispatched.induct) simp_all

lemma dispatched_calls [simp]: "dispatched [scheduled_entry e m] = []" "dispatched (cancelled_entries e m) = []"
  by (simp_all add: scheduled_entry_def cancelled_entries_def)

context scheduler
begin

lemma schedule_effect:
  assumes "ok (Suc n) s" "schedule Q h e d s = Some s'"
  shows "ok n s'" "e \<notin> elems (queue s)" "clock s' = clock s" "elems (queue s') = insert e (elems (queue s))"
    "events s' = (events s)(e := (events s e)\<lparr>ev_uid := uid_next s, ev_handler := h, ev_time := clock s + d\<rparr>)"
    "uid_next s' = uid_next s + 1"
proof -
  have *: "ok n s'" "schedule Set_queue h e d (view s) = Some (view s')"
    using schedule_refines [OF assms(1), of h e d] assms(2) by (auto simp: refines_def with_unit_def)
  then show "ok n s'" by simp
  have "(view s)\<lparr>uid_next := uid_next s + 1,
      events := (events s)(e := (events s e)\<lparr>ev_uid := uid_next s, ev_handler := h, ev_time := clock s + d\<rparr>),
      queue := insert e (elems (queue s))\<rparr> = view s'" (is "?v = _") and "\<not> 0 < ev_uid (events s e)"
    using *(2) by (auto simp: schedule_def Set_queue_def Let_def split: if_splits)
  then have "clock (view s') = clock ?v" "queue (view s') = queue ?v" "events (view s') = events ?v"
    "uid_next (view s') = uid_next ?v" by simp_all
  then show "clock s' = clock s" "elems (queue s') = insert e (elems (queue s))" "uid_next s' = uid_next s + 1"
    "events s' = (events s)(e := (events s e)\<lparr>ev_uid := uid_next s, ev_handler := h, ev_time := clock s + d\<rparr>)"
    by simp_all
  show "e \<notin> elems (queue s)" using \<open>\<not> 0 < ev_uid (events s e)\<close> assms(1) by (simp add: sched_ok_def)
qed

lemma cancel_effect:
  assumes "ok n s"
  shows "\<exists>s'. cancel Q e s = Some s' \<and> ok n s' \<and> clock s' = clock s \<and> uid_next s' = uid_next s \<and>
    elems (queue s') = elems (queue s) - {e} \<and>
    events s' = (if e \<in> elems (queue s) then negate_uid e (events s) else events s)"
proof -
  have "cancel Set_queue e (view s) \<noteq> None" by (simp add: cancel_def Set_queue_def)
  then obtain s' where s': "cancel Q e s = Some s'" "ok n s'" "cancel Set_queue e (view s) = Some (view s')"
    using cancel_refines [OF assms, of e] by (cases "cancel Q e s") (auto simp: refines_def)
  let ?v = "(view s)\<lparr>events := (if e \<in> elems (queue s) then negate_uid e (events s) else events s),
    queue := elems (queue s) - {e}\<rparr>"
  have "cancel Set_queue e (view s) = Some ?v"
    using ok_pending [OF assms, of e] by (auto simp: cancel_def Set_queue_def abs_sched_def)
  then have "view s' = ?v" using s'(3) by simp
  then have "clock (view s') = clock ?v" "queue (view s') = queue ?v" "events (view s') = events ?v"
    "uid_next (view s') = uid_next ?v" by simp_all
  then show ?thesis using s'(1,2) by simp
qed

lemma schedule_replay:
  assumes "ok (Suc n) s" "schedule Q h e d s = Some s'"
  shows "replay (entries elems s) [scheduled_entry e (events s')] = Some (entries elems s')"
proof -
  note eff = schedule_effect [OF assms]
  have "entries elems s' = insert (e, event_key (events s') e) (entries elems s)"
  proof -
    have "(\<lambda>a. (a, event_key (events s') a)) ` elems (queue s) = entries elems s"
      unfolding entries_def by (rule image_cong [OF refl]) (metis eff(2,5) event_key_upd)
    then show ?thesis by (simp add: entries_def eff(4))
  qed
  moreover have "e \<notin> fst ` entries elems s" using eff(2) by (auto simp: entries_def)
  ultimately show ?thesis by (simp add: scheduled_entry_def event_key_def)
qed

lemma cancel_replay:
  assumes "ok n s" "cancel Q e s = Some s'"
  shows "replay (entries elems s) (cancelled_entries e (events s)) = Some (entries elems s')"
proof -
  have eff: "elems (queue s') = elems (queue s) - {e}"
    "events s' = (if e \<in> elems (queue s) then negate_uid e (events s) else events s)"
    using cancel_effect [OF assms(1), of e] assms(2) by auto
  have "entries elems s' = entries elems s - {(e, event_key (events s) e)}"
  proof -
    have "entries elems s' = (\<lambda>a. (a, event_key (events s) a)) ` (elems (queue s) - {e})"
      unfolding entries_def eff(1) by (rule image_cong) (simp_all add: eff(2) event_key_def)
    then show ?thesis by (auto simp: entries_def)
  qed
  then show ?thesis
    using ok_pending [OF assms(1), of e] by (auto simp: cancelled_entries_def entries_def event_key_def)
qed

lemma at_command_effect:
  assumes "ok (Suc n) s" "at_command Q h e t s = Some (b, s')"
  shows "(\<not> b \<and> s' = s) \<or> (b \<and> (\<exists>d u. 0 \<le> d \<and> e \<notin> elems (queue s) \<and> schedule Q h e d u = Some s' \<and>
    u = s\<lparr>events := (events s)(e := new_event)\<rparr> \<and> ok (Suc n) u \<and> entries elems u = entries elems s))"
proof (cases b)
  case True
  let ?u = "s\<lparr>events := (events s)(e := new_event)\<rparr>"
  define d where "d = (if t < 0 then - t else t - clock s)"
  have *: "\<not> 0 < ev_uid (events s e)" "\<not> d < 0" "schedule Q h e d ?u = Some s'"
    using assms(2) True by (auto simp: at_command_def d_def Let_def bind_eq_Some_conv split: if_splits)
  then have e: "e \<notin> elems (queue s)" using assms(1) by (simp add: sched_ok_def)
  then have "ok (Suc n) ?u" by (rule ok_event [OF assms(1)]) (simp add: new_event_def)
  moreover have "entries elems ?u = entries elems s"
    unfolding entries_def by (rule image_cong) (simp, metis e event_key_upd sched.select_convs(4) sched.update_convs(4) sched.surjective)
  ultimately show ?thesis using * e True by (intro disjI2 conjI exI [of _ d] exI [of _ ?u]) simp_all
next
  case False
  then show ?thesis using assms(2)
    by (auto simp: at_command_def Let_def bind_eq_Some_conv split: if_splits)
qed

lemma cancel_command_effect:
  assumes "ok n s" "cancel_command Q u s = Some (r, s')"
  shows "case r of None \<Rightarrow> ok n s' \<and> clock s' = clock s \<and> uid_next s' = uid_next s \<and> events s' = events s \<and>
      elems (queue s') = elems (queue s)
    | Some e \<Rightarrow> \<exists>v. cancel Q e v = Some s' \<and> ok n v \<and> clock v = clock s \<and> uid_next v = uid_next s \<and>
      events v = events s \<and> elems (queue v) = elems (queue s)"
proof -
  obtain r' q where look: "q_lookup Q (events s) u (queue s) = (r', q)" by fastforce
  have q: "elems q = elems (queue s)"
    using lookup_law [OF _ look, of n] assms(1) by (simp add: sched_ok_def)
  show ?thesis
  proof (cases r')
    case None
    then have "r = None" "s' = s\<lparr>queue := q\<rparr>" using assms(2) unfolding cancel_command_def look by simp_all
    then show ?thesis using q lookup_refines(2) [OF assms(1) look] by simp
  next
    case (Some e)
    then have r: "r = Some e" "cancel Q e (s\<lparr>queue := q\<rparr>) = Some s'"
      using assms(2) unfolding cancel_command_def look by (simp_all add: bind_eq_Some_conv)
    show ?thesis
      unfolding r(1) option.case
      by (rule exI [of _ "s\<lparr>queue := q\<rparr>"]) (use r(2) q lookup_refines(2) [OF assms(1) look] in simp)
  qed
qed

lemma cancel_command_total: "ok n s \<Longrightarrow> cancel_command Q u s \<noteq> None"
proof -
  assume *: "ok n s"
  obtain r' q where look: "q_lookup Q (events s) u (queue s) = (r', q)" by fastforce
  show ?thesis
  proof (cases r')
    case (Some e)
    then show ?thesis
      using cancel_effect [OF lookup_refines(2) [OF * look], of e] by (auto simp: cancel_command_def look)
  qed (simp add: cancel_command_def look)
qed

lemma do_call_replay:
  assumes "ok (Suc n) s" "do_call Q c s = Some (s', l)"
  shows "replay (entries elems s) l = Some (entries elems s')" "dispatched l = []"
proof -
  have "replay (entries elems s) l = Some (entries elems s') \<and> dispatched l = []"
  proof (cases c)
    case (Schedule h e d)
    then have "schedule Q h e d s = Some s'" "l = [scheduled_entry e (events s')]"
      using assms(2) unfolding Schedule do_call.simps bind_eq_Some_conv by auto
    then show ?thesis using schedule_replay [OF assms(1)] by simp
  next
    case (Cancel e)
    then have "cancel Q e s = Some s'" "l = cancelled_entries e (events s)"
      using assms(2) unfolding Cancel do_call.simps bind_eq_Some_conv by auto
    then show ?thesis using cancel_replay [OF assms(1)] by simp
  next
    case (At h e t)
    then obtain b where b: "at_command Q h e t s = Some (b, s')"
      "l = (if b then [scheduled_entry e (events s')] else [])"
      using assms(2) unfolding At do_call.simps bind_eq_Some_conv by auto
    from at_command_effect [OF assms(1) b(1)] show ?thesis
    proof (elim disjE exE conjE)
      assume "\<not> b" "s' = s"
      then show ?thesis using b(2) by simp
    next
      fix d u assume "b" "schedule Q h e d u = Some s'" "ok (Suc n) u" "entries elems u = entries elems s"
      then show ?thesis using b(2) schedule_replay [of n u h e d s'] by simp
    qed
  next
    case (Cancel_uid u)
    then obtain r where r: "cancel_command Q u s = Some (r, s')"
      "l = (case r of None \<Rightarrow> [] | Some e \<Rightarrow> cancelled_entries e (events s))"
      using assms(2) unfolding Cancel_uid do_call.simps bind_eq_Some_conv by auto
    have *: "entries elems v = entries elems s" if "events v = events s" "elems (queue v) = elems (queue s)" for v
      using that by (simp add: entries_def)
    show ?thesis
    proof (cases r)
      case None
      then have "events s' = events s" "elems (queue s') = elems (queue s)"
        using cancel_command_effect [OF assms(1) r(1)] unfolding None option.case by blast+
      then show ?thesis using * [of s'] r(2) None by simp
    next
      case (Some e)
      then obtain v where v: "cancel Q e v = Some s'" "ok (Suc n) v" "events v = events s"
        "elems (queue v) = elems (queue s)"
        using cancel_command_effect [OF assms(1) r(1)] unfolding Some option.case by blast
      then show ?thesis using cancel_replay [OF v(2,1)] * [OF v(3,4)] r(2) Some by simp
    qed
  next
    case Halt
    then show ?thesis using assms(2) by (auto simp: entries_def)
  qed
  then show "replay (entries elems s) l = Some (entries elems s')" "dispatched l = []" by auto
qed

lemma do_call_ok: "ok (Suc n) s \<Longrightarrow> do_call Q c s = Some (s', l) \<Longrightarrow> ok n s'"
  using do_call_refines [of n s c] by simp

lemma do_calls_replay:
  "ok (length cs + n) s \<Longrightarrow> do_calls Q cs s = Some (s', l) \<Longrightarrow>
    replay (entries elems s) l = Some (entries elems s') \<and> dispatched l = [] \<and> ok n s'"
proof (induction cs arbitrary: s l)
  case (Cons c cs)
  obtain s1 l1 l2 where step: "do_call Q c s = Some (s1, l1)" "do_calls Q cs s1 = Some (s', l2)" "l = l1 @ l2"
    using Cons.prems(2) by (auto simp: bind_eq_Some_conv)
  have "ok (Suc (length cs + n)) s" using Cons.prems(1) by simp
  from do_call_replay [OF this step(1)] do_call_ok [OF this step(1)] Cons.IH [OF _ step(2)]
  show ?case by (simp add: step(3) replay_append)
qed (simp add: entries_def)

lemma dispatch_effect:
  assumes "ok (c + n) s" "p \<in> elems (queue s)" "elems q = elems (queue s) - {p}" "ready (c + n) (events s) q"
    and first: "\<forall>b\<in>elems (queue s) - {p}. event_key (events s) p < event_key (events s) b"
    and calls: "\<And>h e t m w. length (snd (handle h e t m w)) \<le> c"
    and "dispatch Q handle p (s\<lparr>queue := q\<rparr>) w = Some (s', w', l)"
  shows "replay (entries elems s) l = Some (entries elems s')" "dispatched l = [event_key (events s) p]" "ok n s'"
proof -
  let ?t = "ev_time (events s p)"
  let ?s = "s\<lparr>queue := q, clock := ?t, events := negate_uid p (events s)\<rparr>"
  obtain h cs k where h: "ev_handler (events s p) = Some h" "handle h p ?t (negate_uid p (events s)) w = (w', cs)"
    "do_calls Q cs ?s = Some (s', k)" "l = Dispatched p ?t (ev_uid (events s p)) # k"
    using assms(7) by (auto simp: dispatch_def Let_def bind_eq_Some_conv split: if_splits option.splits prod.splits)
  have "ok (length cs + n) ?s"
    using ok_mono [OF ok_dequeued [OF assms(1-4)]] calls [of h p ?t "negate_uid p (events s)" w] h(2) by simp
  note tail = do_calls_replay [OF this h(3)]
  have "entries elems ?s = entries elems s - {(p, event_key (events s) p)}"
  proof -
    have "entries elems ?s = (\<lambda>a. (a, event_key (events s) a)) ` (elems (queue s) - {p})"
      unfolding entries_def by (rule image_cong) (simp_all add: assms(3) event_key_def)
    then show ?thesis by (auto simp: entries_def)
  qed
  moreover have "\<forall>x\<in>entries elems s - {(p, event_key (events s) p)}. event_key (events s) p < snd x"
    using first by (auto simp: entries_def)
  moreover have "(p, event_key (events s) p) \<in> entries elems s" using assms(2) by (simp add: entries_def)
  ultimately show "replay (entries elems s) l = Some (entries elems s')"
    using tail unfolding h(4) by (simp add: event_key_def)
  show "dispatched l = [event_key (events s) p]" "ok n s'" using tail by (simp_all add: h(4) event_key_def)
qed

lemma run_replay:
  assumes "\<And>h e t m w. length (snd (handle h e t m w)) \<le> c"
  shows "ok (k * c + n) s \<Longrightarrow> run Q handle k s w = Some (s', w', l) \<Longrightarrow> replay (entries elems s) l = Some (entries elems s')"
proof (induction k arbitrary: s w l)
  case (Suc k)
  then have room: "ok (c + (k * c + n)) s" by (simp add: add.assoc)
  show ?case
  proof (cases "halted s")
    case False
    from deque_refines [OF room] show ?thesis
    proof (elim disjE conjE exE)
      fix q assume "q_deque Q (events s) (queue s) = (None, q)" "elems (queue s) = {}" "elems q = {}"
      then show ?thesis using Suc.prems(2) False by (auto simp: entries_def)
    next
      fix p q
      assume q: "q_deque Q (events s) (queue s) = (Some p, q)" "p \<in> elems (queue s)" "elems q = elems (queue s) - {p}"
        "ready (c + (k * c + n)) (events s) q" "\<forall>b\<in>elems (queue s) - {p}. event_key (events s) p < event_key (events s) b"
      then obtain s1 w1 l1 l2 where step: "dispatch Q handle p (s\<lparr>queue := q\<rparr>) w = Some (s1, w1, l1)"
        "run Q handle k s1 w1 = Some (s', w', l2)" "l = l1 @ l2"
        using Suc.prems(2) False by (auto simp: bind_eq_Some_conv)
      note eff = dispatch_effect [where handle = handle and w = w, OF room q(2-5) assms step(1)]
      show ?thesis using eff(1) Suc.IH [OF eff(3) step(2)] by (simp add: step(3) replay_append)
    qed
  qed (use Suc.prems in \<open>simp add: entries_def\<close>)
qed (simp add: entries_def)

text \<open>A halted simulation has lost no event: resumed, it goes on from the events that were pending.\<close>

lemma resume_replay:
  assumes "\<And>h e t m w. length (snd (handle h e t m w)) \<le> c" "ok (k * c + n) s"
    "resume_command Q handle k s w = Some (s', w', l)"
  shows "replay (entries elems s) l = Some (entries elems s')"
proof -
  have "replay (entries elems (s\<lparr>halted := False\<rparr>)) l = Some (entries elems s')"
    by (rule run_replay [OF assms(1) ok_halt [OF assms(2)] assms(3) [unfolded resume_command_def]])
  then show ?thesis by (simp add: entries_def)
qed

end

end
