(* ===== verification/Event_Order.thy ===== *)
theory Event_Order
  imports Event_Loop
begin

text \<open>
  The order of dispatches. Handlers that respect the rules of \<^verbatim>\<open>Scheduler::schedule\<close> (a handler, no event that is
  pending, no negative delay) never make the scheduler abort, and events are then dispatched by time, and at one
  time in the order in which they were scheduled.
\<close>

section \<open>Calls that follow the rules\<close>

text \<open>The agenda: the events in the queue, and the handler of each. The calls are followed on a map that contains the
  agenda; a command that names an event by its number leaves the map as it is.\<close>

definition agenda :: "'t store \<Rightarrow> eptr \<Rightarrow> nat option" where
  "agenda m e = (if 0 < ev_uid (m e) then ev_handler (m e) else None)"

fun legal_call :: "(eptr \<Rightarrow> nat option) \<Rightarrow> 't::{linorder,zero} call \<Rightarrow> bool" where
  "legal_call P (Schedule h e d) \<longleftrightarrow> h \<noteq> None \<and> P e = None \<and> 0 \<le> d"
| "legal_call P (At h e t) \<longleftrightarrow> h \<noteq> None \<and> P e = None"
| "legal_call P c \<longleftrightarrow> True"

fun after_call :: "(eptr \<Rightarrow> nat option) \<Rightarrow> 't call \<Rightarrow> eptr \<Rightarrow> nat option" where
  "after_call P (Schedule h e d) = P(e := h)"
| "after_call P (At h e t) = P(e := h)"
| "after_call P (Cancel e) = P(e := None)"
| "after_call P c = P"

fun legal_calls :: "(eptr \<Rightarrow> nat option) \<Rightarrow> 't::{linorder,zero} call list \<Rightarrow> bool" where
  "legal_calls P [] \<longleftrightarrow> True"
| "legal_calls P (c # cs) \<longleftrightarrow> legal_call P c \<and> legal_calls (after_call P c) cs"

fun after_calls :: "(eptr \<Rightarrow> nat option) \<Rightarrow> 't call list \<Rightarrow> eptr \<Rightarrow> nat option" where
  "after_calls P [] = P"
| "after_calls P (c # cs) = after_calls (after_call P c) cs"

lemma calls_append [simp]:
  "legal_calls P (cs @ ds) \<longleftrightarrow> legal_calls P cs \<and> legal_calls (after_calls P cs) ds"
  "after_calls P (cs @ ds) = after_calls (after_calls P cs) ds"
  by (induction cs arbitrary: P) simp_all

text \<open>The handlers follow the rules, by a relation \<open>J\<close> that they keep between the agenda and their own state.\<close>

definition legal_handlers :: "((eptr \<Rightarrow> nat option) \<Rightarrow> 'w \<Rightarrow> bool) \<Rightarrow> ('t::{linorder,zero}, 'w) handlers \<Rightarrow> bool" where
  "legal_handlers J handle \<longleftrightarrow> (\<forall>h e t m w P. J P w \<longrightarrow> P e = Some h \<longrightarrow> agenda m \<subseteq>\<^sub>m P(e := None) \<longrightarrow>
    (case handle h e t m w of (w', cs) \<Rightarrow>
      legal_calls (P(e := None)) cs \<and> J (after_calls (P(e := None)) cs) w'))"

text \<open>How many calls a handler makes at most.\<close>

definition bounded_calls :: "nat \<Rightarrow> ('t, 'w) handlers \<Rightarrow> bool" where
  "bounded_calls c handle \<longleftrightarrow> (\<forall>h e t m w. length (snd (handle h e t m w)) \<le> c)"

text \<open>Adding a delay, exactly or rounded, does not go back in time.\<close>

definition time_flows :: "'t::{linorder,plus,zero} itself \<Rightarrow> bool" where
  "time_flows T \<longleftrightarrow> (\<forall>(t::'t) d. 0 \<le> d \<longrightarrow> t \<le> t + d)"

section \<open>The order\<close>

text \<open>All pending events come after the last one dispatched.\<close>

definition ahead :: "('q \<Rightarrow> eptr set) \<Rightarrow> 't::linorder \<times> int \<Rightarrow> ('t, 'q) sched \<Rightarrow> bool" where
  "ahead elems b s \<longleftrightarrow> clock s = fst b \<and> snd b < uid_next s \<and> (\<forall>a\<in>elems (queue s). b < event_key (events s) a)"

context scheduler
begin

text \<open>One call that follows the rules returns, and what it schedules comes later than the last dispatch.\<close>

lemma schedule_progress:
  assumes "ok (Suc n) s" "h \<noteq> None" "e \<notin> elems (queue s)"
  shows "\<exists>s'. schedule Q h e d s = Some s'"
proof -
  have "0 < uid_next s" "uid_next s < uid_max" "\<not> 0 < ev_uid (events s e)"
    using assms(1,3) by (auto simp: sched_ok_def)
  then have "schedule Set_queue h e d (view s) \<noteq> None"
    using assms(2) by (simp add: schedule_def Set_queue_def Let_def)
  then show ?thesis
    using schedule_refines [OF assms(1), of h e d] by (cases "schedule Q h e d s") (auto simp: refines_def)
qed

lemma schedule_ahead:
  assumes "ok (Suc n) s" "schedule Q h e d s = Some s'" "ahead elems b s" "clock s \<le> clock s + d"
  shows "ahead elems b s'"
proof -
  note eff = schedule_effect [OF assms(1,2)]
  have "b < event_key (events s') a" if "a \<in> elems (queue s')" for a
  proof (cases "a = e")
    case True
    then have "event_key (events s') a = (clock s + d, uid_next s)" by (simp add: eff(5) event_key_def)
    then show ?thesis using assms(3,4) by (cases b) (auto simp: ahead_def le_less)
  next
    case False
    then have "event_key (events s') a = event_key (events s) a" unfolding eff(5) by (rule event_key_upd)
    then show ?thesis using assms(3) that False eff(4) by (simp add: ahead_def)
  qed
  then show ?thesis using assms(3) eff(3,6) by (simp add: ahead_def)
qed

lemma cancel_ahead:
  assumes "ok n s" "cancel Q e s = Some s'" "ahead elems b s"
  shows "ahead elems b s'" "elems (queue s') = elems (queue s) - {e}"
proof -
  have eff: "clock s' = clock s" "uid_next s' = uid_next s" "elems (queue s') = elems (queue s) - {e}"
    "events s' = (if e \<in> elems (queue s) then negate_uid e (events s) else events s)"
    using cancel_effect [OF assms(1), of e] assms(2) by auto
  have "event_key (events s') a = event_key (events s) a" if "a \<noteq> e" for a
    using that by (simp add: eff(4) event_key_def)
  then show "ahead elems b s'" using assms(3) eff(1-3) by (simp add: ahead_def)
  show "elems (queue s') = elems (queue s) - {e}" by (rule eff(3))
qed

text \<open>The agenda after a call.\<close>

lemma ok_agenda: "ok n s \<Longrightarrow> agenda (events s) e = None \<longleftrightarrow> e \<notin> elems (queue s)"
  by (auto simp: agenda_def sched_ok_def)

lemma schedule_agenda:
  assumes "ok (Suc n) s" "schedule Q h e d s = Some s'"
  shows "agenda (events s') = (agenda (events s))(e := h)"
  using assms(1) by (auto simp: schedule_effect(5) [OF assms] agenda_def sched_ok_def)

lemma agenda_negate: "ok n s \<Longrightarrow> agenda (negate_uid e (events s)) = (agenda (events s))(e := None)"
  if "e \<in> elems (queue s)"
proof -
  assume "ok n s"
  then have "0 < ev_uid (events s e)" using that by (simp add: sched_ok_def)
  then show ?thesis by (auto simp: agenda_def negate_uid_def fun_eq_iff)
qed

lemma cancel_agenda:
  assumes "ok n s" "cancel Q e s = Some s'"
  shows "agenda (events s') = (agenda (events s))(e := None)"
proof (cases "e \<in> elems (queue s)")
  case True
  then show ?thesis using cancel_effect [OF assms(1), of e] assms(2) agenda_negate [OF True assms(1)] by auto
next
  case False
  then show ?thesis
    using cancel_effect [OF assms(1), of e] assms(2) ok_agenda [OF assms(1), of e] by auto
qed

lemma do_call_progress:
  assumes "ok (Suc n) s" "ahead elems b s" "legal_call P c" "agenda (events s) \<subseteq>\<^sub>m P"
    and flows: "time_flows TYPE('t)"
  shows "\<exists>s' l. do_call Q c s = Some (s', l) \<and> ok n s' \<and> ahead elems b s' \<and> agenda (events s') \<subseteq>\<^sub>m after_call P c"
proof -
  have absent: "e \<notin> elems (queue s)" if "P e = None" for e
    using that assms(4) ok_agenda [OF assms(1), of e] by (metis domI map_le_def option.exhaust option.simps(3))
  show ?thesis
  proof (cases c)
    case (Schedule h e d)
    then have h: "h \<noteq> None" "e \<notin> elems (queue s)" "0 \<le> d" using assms(3) absent by auto
    then obtain s' where s': "schedule Q h e d s = Some s'" using schedule_progress [OF assms(1)] by blast
    have "clock s \<le> clock s + d" using flows h(3) by (simp add: time_flows_def)
    then show ?thesis
      using schedule_effect(1) [OF assms(1) s'] schedule_ahead [OF assms(1) s' assms(2)] assms(4) s' Schedule
        schedule_agenda [OF assms(1) s'] by simp
  next
    case (Cancel e)
    obtain s' where s': "cancel Q e s = Some s'" "ok (Suc n) s'" using cancel_effect [OF assms(1), of e] by blast
    then show ?thesis
      using ok_mono [OF s'(2), of n] cancel_ahead [OF assms(1) s'(1) assms(2)] assms(4) Cancel
        cancel_agenda [OF assms(1) s'(1)] by simp
  next
    case (At h e t)
    then have h: "h \<noteq> None" "P e = None" "e \<notin> elems (queue s)" using assms(3) absent by auto
    let ?u = "s\<lparr>events := (events s)(e := new_event)\<rparr>"
    define d where "d = (if t < 0 then - t else t - clock s)"
    have call: "at_command Q h e t s = (if d < 0 then Some (False, s) else map_option (Pair True) (schedule Q h e d ?u))"
      using ok_pending [OF assms(1), of e] h(3) unfolding at_command_def d_def Let_def
      by (simp add: map_conv_bind_option comp_def)
    show ?thesis
    proof (cases "d < 0")
      case True
      have "P \<subseteq>\<^sub>m P(e := h)" using h(2) by (auto simp: map_le_def)
      then have "agenda (events s) \<subseteq>\<^sub>m P(e := h)" using assms(4) by (rule map_le_trans [rotated])
      then show ?thesis using True assms ok_mono [OF assms(1), of n] At by (simp add: call)
    next
      case False
      have u: "ok (Suc n) ?u" by (rule ok_event [OF assms(1) h(3)]) (simp add: new_event_def)
      have "event_key (events ?u) a = event_key (events s) a" if "a \<in> elems (queue s)" for a
        using that h(3) by (auto simp: event_key_def)
      then have ahead_u: "ahead elems b ?u" using assms(2) by (simp add: ahead_def)
      have "agenda (events s) e = None" using ok_agenda [OF assms(1)] h(3) by simp
      then have "agenda (events ?u) = agenda (events s)" by (auto simp: agenda_def new_event_def fun_eq_iff)
      moreover obtain s' where s': "schedule Q h e d ?u = Some s'" using schedule_progress [OF u h(1)] h(3) by auto
      moreover have "clock ?u \<le> clock ?u + d" using flows False by (simp add: time_flows_def)
      ultimately show ?thesis
        using schedule_effect(1) [OF u s'] schedule_ahead [OF u s' ahead_u] assms(4) At False
          schedule_agenda [OF u s'] by (simp add: call)
    qed
  next
    case (Cancel_uid u)
    obtain r s' where r: "cancel_command Q u s = Some (r, s')"
      using cancel_command_total [OF assms(1), of u] by auto
    have "ok (Suc n) s' \<and> ahead elems b s' \<and> agenda (events s') \<subseteq>\<^sub>m agenda (events s)"
    proof (cases r)
      case None
      have "ok (Suc n) s'" "clock s' = clock s" "uid_next s' = uid_next s" "events s' = events s"
        "elems (queue s') = elems (queue s)"
        using cancel_command_effect [OF assms(1) r] unfolding None option.case by blast+
      then show ?thesis using assms(2) by (simp add: ahead_def)
    next
      case (Some e)
      obtain v where v: "cancel Q e v = Some s'" "ok (Suc n) v" "clock v = clock s" "uid_next v = uid_next s"
        "events v = events s" "elems (queue v) = elems (queue s)"
        using cancel_command_effect [OF assms(1) r] unfolding Some option.case by blast
      have "ahead elems b v" using assms(2) v(3-6) by (simp add: ahead_def)
      moreover have "ok (Suc n) s'" using cancel_effect [OF v(2), of e] v(1) by auto
      ultimately show ?thesis using cancel_ahead(1) [OF v(2,1)] cancel_agenda [OF v(2,1)] v(5) by simp
    qed
    then show ?thesis
      using ok_mono [of "Suc n" s' n] map_le_trans [OF _ assms(4)] r Cancel_uid by auto
  next
    case Halt
    then show ?thesis using assms ok_mono [OF ok_halt [OF assms(1)], of n True] by (auto simp: ahead_def)
  qed
qed

lemma do_calls_progress:
  assumes "time_flows TYPE('t)"
  shows "ok (length cs + n) s \<Longrightarrow> ahead elems b s \<Longrightarrow> legal_calls P cs \<Longrightarrow> agenda (events s) \<subseteq>\<^sub>m P \<Longrightarrow>
    \<exists>s' l. do_calls Q cs s = Some (s', l) \<and> ok n s' \<and> ahead elems b s' \<and> agenda (events s') \<subseteq>\<^sub>m after_calls P cs"
proof (induction cs arbitrary: s P)
  case (Cons c cs)
  have "ok (Suc (length cs + n)) s" "legal_call P c" using Cons.prems by simp_all
  from do_call_progress [OF this(1) Cons.prems(2) this(2) Cons.prems(4) assms]
  obtain s1 l1 where s1: "do_call Q c s = Some (s1, l1)" "ok (length cs + n) s1" "ahead elems b s1"
    "agenda (events s1) \<subseteq>\<^sub>m after_call P c" by blast
  have "legal_calls (after_call P c) cs" using Cons.prems(3) by simp
  from Cons.IH [OF s1(2,3) this s1(4)] obtain s2 l2 where "do_calls Q cs s1 = Some (s2, l2)" "ok n s2"
    "ahead elems b s2" "agenda (events s2) \<subseteq>\<^sub>m after_calls (after_call P c) cs" by blast
  then show ?case using s1(1) by simp
qed simp

lemma dispatch_progress:
  assumes "ok (c + n) s" "p \<in> elems (queue s)" "elems q = elems (queue s) - {p}" "ready (c + n) (events s) q"
    and first: "\<forall>b\<in>elems (queue s) - {p}. event_key (events s) p < event_key (events s) b"
    and ahd: "ahead elems b s" and flows: "time_flows TYPE('t)"
    and calls: "bounded_calls c handle" "legal_handlers J handle" "J P w" "agenda (events s) \<subseteq>\<^sub>m P"
  shows "\<exists>s' w' l P'. dispatch Q handle p (s\<lparr>queue := q\<rparr>) w = Some (s', w', l) \<and>
    ahead elems (event_key (events s) p) s' \<and> J P' w' \<and> agenda (events s') \<subseteq>\<^sub>m P'"
proof -
  let ?t = "ev_time (events s p)"
  let ?m = "negate_uid p (events s)"
  let ?s = "s\<lparr>queue := q, clock := ?t, events := ?m\<rparr>"
  obtain h where h: "ev_handler (events s p) = Some h" using assms(1,2) by (auto simp: sched_ok_def)
  then have "agenda (events s) p = Some h" using assms(1,2) by (simp add: sched_ok_def agenda_def)
  then have P: "P p = Some h" using calls(4) by (metis domI map_le_def)
  have "b < event_key (events s) p" using ahd assms(2) by (simp add: ahead_def)
  then have now: "\<not> ?t < clock s" using ahd by (cases b) (auto simp: ahead_def event_key_def)
  obtain w' cs where cs: "handle h p ?t ?m w = (w', cs)" by fastforce
  have agenda: "agenda ?m \<subseteq>\<^sub>m P(p := None)" using agenda_negate [OF assms(2,1)] calls(4) by simp
  have legal: "legal_calls (P(p := None)) cs" "J (after_calls (P(p := None)) cs) w'"
  proof -
    have "case handle h p ?t ?m w of (w', cs) \<Rightarrow>
        legal_calls (P(p := None)) cs \<and> J (after_calls (P(p := None)) cs) w'"
      by (rule calls(2) [unfolded legal_handlers_def, rule_format, OF calls(3) P agenda])
    then show "legal_calls (P(p := None)) cs" "J (after_calls (P(p := None)) cs) w'" by (simp_all add: cs)
  qed
  have oks: "ok (c + n) ?s" by (rule ok_dequeued [OF assms(1-4)])
  then have room: "ok (length cs + n) ?s"
    using ok_mono calls(1) cs unfolding bounded_calls_def by (metis add_le_mono1 snd_conv)
  have "ev_uid (events s p) < uid_next s" using assms(1,2) by (simp add: sched_ok_def)
  moreover have "event_key (events s) p < event_key (events ?s) a" if "a \<in> elems q" for a
    using that first assms(3) by (auto simp: event_key_def)
  ultimately have front: "ahead elems (event_key (events s) p) ?s"
    by (simp add: ahead_def) (simp add: event_key_def)
  have "agenda (events ?s) \<subseteq>\<^sub>m P(p := None)" using agenda by simp
  then obtain s' l where "do_calls Q cs ?s = Some (s', l)" "ahead elems (event_key (events s) p) s'"
    "agenda (events s') \<subseteq>\<^sub>m after_calls (P(p := None)) cs"
    using do_calls_progress [OF flows room front legal(1)] by blast
  then show ?thesis using now h cs legal(2) by (auto simp: dispatch_def Let_def)
qed

lemma run_ordered:
  assumes flows: "time_flows TYPE('t)" and calls: "bounded_calls c handle" "legal_handlers J handle"
  shows "ok (k * c + n) s \<Longrightarrow> ahead elems b s \<Longrightarrow> J P w \<Longrightarrow> agenda (events s) \<subseteq>\<^sub>m P \<Longrightarrow>
    \<exists>s' w' l. run Q handle k s w = Some (s', w', l) \<and> sorted_wrt (<) (dispatched l) \<and> (\<forall>x\<in>set (dispatched l). b < x) \<and>
      (\<exists>P'. J P' w' \<and> agenda (events s') \<subseteq>\<^sub>m P')"
proof (induction k arbitrary: s b w P)
  case (Suc k)
  then have room: "ok (c + (k * c + n)) s" by (simp add: add.assoc)
  show ?case
  proof (cases "halted s")
    case False
    from deque_refines [OF room] show ?thesis
    proof (elim disjE conjE exE)
      fix q assume "q_deque Q (events s) (queue s) = (None, q)"
      then show ?thesis using False Suc.prems(3,4) by auto
    next
      fix p q
      assume q: "q_deque Q (events s) (queue s) = (Some p, q)" "p \<in> elems (queue s)" "elems q = elems (queue s) - {p}"
        "ready (c + (k * c + n)) (events s) q" "\<forall>b\<in>elems (queue s) - {p}. event_key (events s) p < event_key (events s) b"
      obtain s1 w1 l1 P1 where s1: "dispatch Q handle p (s\<lparr>queue := q\<rparr>) w = Some (s1, w1, l1)"
        "ahead elems (event_key (events s) p) s1" "J P1 w1" "agenda (events s1) \<subseteq>\<^sub>m P1"
        using dispatch_progress [OF room q(2-5) Suc.prems(2) flows calls Suc.prems(3,4)] by blast
      have len: "length (snd (handle h e t m w)) \<le> c" for h e t m w
        using calls(1) by (simp add: bounded_calls_def)
      note eff = dispatch_effect [where handle = handle and w = w, OF room q(2-5) len s1(1)]
      from Suc.IH [OF eff(3) s1(2-4)] obtain s2 w2 l2 P2 where s2: "run Q handle k s1 w1 = Some (s2, w2, l2)"
        "sorted_wrt (<) (dispatched l2)" "\<forall>x\<in>set (dispatched l2). event_key (events s) p < x"
        "J P2 w2" "agenda (events s2) \<subseteq>\<^sub>m P2" by blast
      have "b < event_key (events s) p" using Suc.prems(2) q(2) by (simp add: ahead_def)
      then have "\<forall>x\<in>set (dispatched (l1 @ l2)). b < x"
        using s2(3) eff(2) by (auto intro: less_trans)
      moreover have "sorted_wrt (<) (dispatched (l1 @ l2))" using s2(2,3) eff(2) by simp
      moreover have "run Q handle (Suc k) s w = Some (s2, w2, l1 @ l2)"
        using False q(1) s1(1) s2(1) by simp
      ultimately show ?thesis using s2(4,5) by blast
    qed
  qed (use Suc.prems in auto)
qed auto

text \<open>A whole simulation.\<close>

lemma ahead_new: "ahead elems (0, 0) (new_sched fresh)"
  by (simp add: ahead_def new_sched_def elems_fresh)

lemma simulate_ordered:
  assumes "time_flows TYPE('t)" "bounded_calls c handle" "legal_handlers J handle" "legal_calls Map.empty script"
    "J (after_calls Map.empty script) w" "length script + k * c \<le> capacity"
  shows "\<exists>s w' l P. simulate Q fresh handle script k w = Some (s, w', l) \<and> sorted_wrt (<) (dispatched l) \<and> J P w' \<and>
    agenda (events s) \<subseteq>\<^sub>m P"
proof -
  have room: "ok (length script + (k * c + 0)) (new_sched fresh)" using ok_new assms(6) by simp
  have "agenda (events (new_sched fresh :: ('t, 'q) sched)) \<subseteq>\<^sub>m Map.empty"
    by (auto simp: map_le_def agenda_def new_sched_def new_event_def)
  then obtain s l where s: "do_calls Q script (new_sched fresh) = Some (s, l)" "ok (k * c + 0) s" "ahead elems (0, 0) s"
    "agenda (events s) \<subseteq>\<^sub>m after_calls Map.empty script"
    using do_calls_progress [OF assms(1) room ahead_new assms(4)] by blast
  then have "dispatched l = []" "s\<lparr>clock := 0\<rparr> = s"
    using do_calls_replay [OF room s(1)] by (simp_all add: ahead_def)
  moreover obtain s' w' l' P where "run Q handle k s w = Some (s', w', l')" "sorted_wrt (<) (dispatched l')"
    "J P w'" "agenda (events s') \<subseteq>\<^sub>m P"
    using run_ordered [OF assms(1-3) s(2,3) assms(5) s(4)] by blast
  ultimately show ?thesis using s(1) by (simp add: simulate_def run_command_def) blast
qed

lemma simulate_replay:
  assumes "bounded_calls c handle" "length script + k * c \<le> capacity"
    "simulate Q fresh handle script k w = Some (s, w', l)"
  shows "replay {} l = Some (entries elems s)"
proof -
  obtain s1 l1 l2 where s1: "do_calls Q script (new_sched fresh) = Some (s1, l1)" "run Q handle k (s1\<lparr>clock := 0\<rparr>) w = Some (s, w', l2)"
    "l = l1 @ l2"
    using assms(3) unfolding simulate_def run_command_def by (auto simp: bind_eq_Some_conv)
  have room: "ok (length script + (k * c + 0)) (new_sched fresh)" using ok_new assms(2) by simp
  note tail = do_calls_replay [OF room s1(1)]
  have len: "length (snd (handle h e t m w)) \<le> c" for h e t m w
    using assms(1) by (simp add: bounded_calls_def)
  have "replay (entries elems (s1\<lparr>clock := 0\<rparr>)) l2 = Some (entries elems s)"
    by (rule run_replay [OF len _ s1(2)]) (use tail ok_clock in blast)
  then have "replay (entries elems s1) l2 = Some (entries elems s)" by (simp add: entries_def)
  moreover have "entries elems (new_sched fresh :: ('t, 'q) sched) = {}" by (simp add: entries_def new_sched_def elems_fresh)
  ultimately show ?thesis using tail by (simp add: s1(3) replay_append)
qed

end

end
