(* ===== verification/Timers.thy ===== *)
theory Timers
  imports Event_Order
begin

text \<open>
  Timers (\<^verbatim>\<open>common/timer-handler.cc\<close>, \<^verbatim>\<open>common/timer-handler.h\<close>), the handlers by which agents use the scheduler. A timer is
  known by its address; the event it schedules, the member \<^verbatim>\<open>event_\<close>, has the same one. What \<^verbatim>\<open>expire\<close> does is a
  parameter: the operations it calls on timers, its own or others.
\<close>

section \<open>Operations\<close>

datatype timer_status = TIMER_IDLE | TIMER_PENDING | TIMER_HANDLING

type_synonym timers = "nat \<Rightarrow> timer_status"

text \<open>An operation yields the new statuses and its calls to the scheduler, or aborts.\<close>

definition timer_sched_calls :: "nat \<Rightarrow> 't \<Rightarrow> 't call list" where
  "timer_sched_calls i delay = [Schedule (Some i) i delay]"

definition timer_cancel_calls :: "nat \<Rightarrow> 't call list" where
  "timer_cancel_calls i = [Cancel i]"

definition TimerHandler_cancel :: "nat \<Rightarrow> timers \<Rightarrow> (timers \<times> 't call list) option" where
  "TimerHandler_cancel i T =
    (if T i \<noteq> TIMER_PENDING then None else Some (T(i := TIMER_IDLE), timer_cancel_calls i))"

definition TimerHandler_sched :: "nat \<Rightarrow> 't \<Rightarrow> timers \<Rightarrow> (timers \<times> 't call list) option" where
  "TimerHandler_sched i delay T =
    (if T i \<noteq> TIMER_IDLE then None else Some (T(i := TIMER_PENDING), timer_sched_calls i delay))"

definition TimerHandler_resched :: "nat \<Rightarrow> 't \<Rightarrow> timers \<Rightarrow> timers \<times> 't call list" where
  "TimerHandler_resched i delay T =
    (T(i := TIMER_PENDING), (if T i = TIMER_PENDING then timer_cancel_calls i else []) @ timer_sched_calls i delay)"

definition TimerHandler_force_cancel :: "nat \<Rightarrow> timers \<Rightarrow> timers \<times> 't call list" where
  "TimerHandler_force_cancel i T =
    (if T i = TIMER_PENDING then (T(i := TIMER_IDLE), timer_cancel_calls i) else (T, []))"

datatype 't timer_op = Timer_sched nat 't | Timer_resched nat 't | Timer_cancel nat | Timer_force_cancel nat

fun do_timer_op :: "'t timer_op \<Rightarrow> timers \<Rightarrow> (timers \<times> 't call list) option" where
  "do_timer_op (Timer_sched i d) T = TimerHandler_sched i d T"
| "do_timer_op (Timer_resched i d) T = Some (TimerHandler_resched i d T)"
| "do_timer_op (Timer_cancel i) T = TimerHandler_cancel i T"
| "do_timer_op (Timer_force_cancel i) T = Some (TimerHandler_force_cancel i T)"

fun do_timer_ops :: "'t timer_op list \<Rightarrow> timers \<Rightarrow> (timers \<times> 't call list) option" where
  "do_timer_ops [] T = Some (T, [])"
| "do_timer_ops (p # ps) T = do {
     (T1, cs1) \<leftarrow> do_timer_op p T;
     (T2, cs2) \<leftarrow> do_timer_ops ps T1;
     Some (T2, cs1 @ cs2)
   }"

text \<open>\<^verbatim>\<open>handle\<close> with the operations that \<^verbatim>\<open>expire\<close> performs.\<close>

definition TimerHandler_handle :: "'t timer_op list \<Rightarrow> nat \<Rightarrow> timers \<Rightarrow> (timers \<times> 't call list) option" where
  "TimerHandler_handle expire i T =
    (if T i \<noteq> TIMER_PENDING then None
     else do {
       (T1, cs) \<leftarrow> do_timer_ops expire (T(i := TIMER_HANDLING));
       Some (if T1 i = TIMER_HANDLING then T1(i := TIMER_IDLE) else T1, cs)
     })"

text \<open>Timers as handlers of the scheduler. The state is that of the agents and the statuses, or \<^term>\<open>None\<close> after an abort.\<close>

type_synonym ('t, 'x) expiry = "nat \<Rightarrow> 't \<Rightarrow> 'x \<Rightarrow> 'x \<times> 't timer_op list"

definition timer_handlers :: "('t, 'x) expiry \<Rightarrow> ('t, ('x \<times> timers) option) handlers" where
  "timer_handlers expire h e t m w =
    (case w of
       None \<Rightarrow> (None, [])
     | Some (x, T) \<Rightarrow> (case expire h t x of (x', ops) \<Rightarrow>
         (case TimerHandler_handle ops h T of
            None \<Rightarrow> (None, [])
          | Some (T', cs) \<Rightarrow> (Some (x', T'), cs))))"

section \<open>Statuses and the queue\<close>

text \<open>Every event in the queue is that of a pending timer, with the timer as its handler.\<close>

definition timers_agree :: "(eptr \<Rightarrow> nat option) \<Rightarrow> timers \<Rightarrow> bool" where
  "timers_agree P T \<longleftrightarrow> (\<forall>e h. P e = Some h \<longrightarrow> h = e \<and> T e = TIMER_PENDING)"

lemma timers_agreeI: "(\<And>e h. P e = Some h \<Longrightarrow> h = e \<and> T e = TIMER_PENDING) \<Longrightarrow> timers_agree P T"
  by (simp add: timers_agree_def)

lemma timers_agree_absent: "timers_agree P T \<Longrightarrow> T i \<noteq> TIMER_PENDING \<Longrightarrow> P i = None"
  unfolding timers_agree_def by (cases "P i") auto

text \<open>What each operation asks for: \<^verbatim>\<open>sched\<close> an idle timer, \<^verbatim>\<open>cancel\<close> a pending one; the other two ask for
  nothing.\<close>

fun op_allowed :: "timers \<Rightarrow> 't::{linorder,zero} timer_op \<Rightarrow> bool" where
  "op_allowed T (Timer_sched i d) \<longleftrightarrow> T i = TIMER_IDLE \<and> 0 \<le> d"
| "op_allowed T (Timer_resched i d) \<longleftrightarrow> 0 \<le> d"
| "op_allowed T (Timer_cancel i) \<longleftrightarrow> T i = TIMER_PENDING"
| "op_allowed T (Timer_force_cancel i) \<longleftrightarrow> True"

lemma timer_op_agrees:
  assumes "timers_agree P T" "op_allowed T p"
  shows "\<exists>T' cs. do_timer_op p T = Some (T', cs) \<and> legal_calls P cs \<and> timers_agree (after_calls P cs) T' \<and> length cs \<le> 2"
proof (cases p)
  case (Timer_sched i d)
  then have "P i = None" using timers_agree_absent [OF assms(1), of i] assms(2) by simp
  then show ?thesis using assms Timer_sched
    by (auto simp: TimerHandler_sched_def timer_sched_calls_def timers_agree_def)
next
  case (Timer_resched i d)
  then show ?thesis using assms timers_agree_absent [OF assms(1), of i]
    by (auto simp: TimerHandler_resched_def timer_sched_calls_def timer_cancel_calls_def timers_agree_def)
next
  case (Timer_cancel i)
  then show ?thesis using assms
    by (auto simp: TimerHandler_cancel_def timer_cancel_calls_def timers_agree_def)
next
  case (Timer_force_cancel i)
  then show ?thesis using assms
    by (auto simp: TimerHandler_force_cancel_def timer_cancel_calls_def timers_agree_def)
qed

text \<open>Operations one after another: their abort is the only way they can fail.\<close>

fun ops_allowed :: "timers \<Rightarrow> 't::{linorder,zero} timer_op list \<Rightarrow> bool" where
  "ops_allowed T [] \<longleftrightarrow> True"
| "ops_allowed T (p # ps) \<longleftrightarrow> op_allowed T p \<and>
    (case do_timer_op p T of None \<Rightarrow> False | Some (T', cs) \<Rightarrow> ops_allowed T' ps)"

lemma timer_ops_agree:
  "timers_agree P T \<Longrightarrow> ops_allowed T ps \<Longrightarrow>
    \<exists>T' cs. do_timer_ops ps T = Some (T', cs) \<and> legal_calls P cs \<and> timers_agree (after_calls P cs) T' \<and>
      length cs \<le> 2 * length ps"
proof (induction ps arbitrary: P T)
  case (Cons p ps)
  obtain T1 cs1 where 1: "do_timer_op p T = Some (T1, cs1)" "legal_calls P cs1" "timers_agree (after_calls P cs1) T1"
    "length cs1 \<le> 2"
    using timer_op_agrees [OF Cons.prems(1), of p] Cons.prems(2) by auto
  have "ops_allowed T1 ps" using Cons.prems(2) 1(1) by simp
  from Cons.IH [OF 1(3) this] obtain T2 cs2 where 2: "do_timer_ops ps T1 = Some (T2, cs2)"
    "legal_calls (after_calls P cs1) cs2" "timers_agree (after_calls (after_calls P cs1) cs2) T2"
    "length cs2 \<le> 2 * length ps" by blast
  then show ?case using 1 by auto
qed simp

lemma ops_allowed_resched:
  "(\<forall>p\<in>set ps. (\<exists>i d. p = Timer_resched i d \<and> 0 \<le> d) \<or> (\<exists>i. p = Timer_force_cancel i)) \<Longrightarrow> ops_allowed T ps"
  by (induction ps arbitrary: T) auto

text \<open>An expiry that keeps to \<^verbatim>\<open>resched\<close> and \<^verbatim>\<open>force_cancel\<close>, and makes at most \<open>c\<close> operations.\<close>

definition careful_expiry :: "nat \<Rightarrow> ('t::{linorder,zero}, 'x) expiry \<Rightarrow> bool" where
  "careful_expiry c expire \<longleftrightarrow> (\<forall>i t x. length (snd (expire i t x)) \<le> c \<and> (\<forall>p\<in>set (snd (expire i t x)).
    (\<exists>j d. p = Timer_resched j d \<and> 0 \<le> d) \<or> (\<exists>j. p = Timer_force_cancel j)))"

definition timers_running :: "(eptr \<Rightarrow> nat option) \<Rightarrow> ('x \<times> timers) option \<Rightarrow> bool" where
  "timers_running P w \<longleftrightarrow> (\<exists>x T. w = Some (x, T) \<and> timers_agree P T)"

lemma timer_handle_agrees:
  assumes "timers_agree P T" "P i = Some h" "ops_allowed (T(i := TIMER_HANDLING)) ps"
  shows "\<exists>T' cs. TimerHandler_handle ps i T = Some (T', cs) \<and> legal_calls (P(i := None)) cs \<and>
    timers_agree (after_calls (P(i := None)) cs) T'"
proof -
  have pend: "T i = TIMER_PENDING" using assms(1,2) by (simp add: timers_agree_def)
  have "timers_agree (P(i := None)) (T(i := TIMER_HANDLING))"
    using assms(1) by (auto simp: timers_agree_def)
  from timer_ops_agree [OF this assms(3)] obtain T1 cs where 1: "do_timer_ops ps (T(i := TIMER_HANDLING)) = Some (T1, cs)"
    "legal_calls (P(i := None)) cs" "timers_agree (after_calls (P(i := None)) cs) T1" by blast
  have "timers_agree (after_calls (P(i := None)) cs) (T1(i := TIMER_IDLE))" if "T1 i = TIMER_HANDLING"
    using 1(3) timers_agree_absent [OF 1(3), of i] that by (auto simp: timers_agree_def)
  then show ?thesis using pend 1 by (auto simp: TimerHandler_handle_def)
qed

lemma timer_handlers_legal:
  fixes expire :: "('t::{linorder,zero}, 'x) expiry"
  assumes "careful_expiry c expire"
  shows "legal_handlers timers_running (timer_handlers expire)"
  unfolding legal_handlers_def
proof (intro allI impI)
  fix h e t m and w :: "('x \<times> timers) option" and P
  assume w: "timers_running P w" "P e = Some h"
  then obtain x T where xT: "w = Some (x, T)" "timers_agree P T" by (auto simp: timers_running_def)
  have [simp]: "h = e" using xT(2) w(2) by (simp add: timers_agree_def)
  obtain x' ps where ps: "expire h t x = (x', ps)" by fastforce
  then have "ops_allowed (T(e := TIMER_HANDLING)) ps"
    using assms unfolding careful_expiry_def by (metis ops_allowed_resched snd_conv)
  from timer_handle_agrees [OF xT(2) w(2) this]
  show "case timer_handlers expire h e t m w of (w', cs) \<Rightarrow>
      legal_calls (P(e := None)) cs \<and> timers_running (after_calls (P(e := None)) cs) w'"
    using ps by (auto simp: timer_handlers_def timers_running_def xT(1))
qed

lemma timer_ops_length: "do_timer_ops ps T = Some (T', cs) \<Longrightarrow> length cs \<le> 2 * length ps"
proof (induction ps arbitrary: T T' cs)
  case (Cons p ps)
  obtain T1 cs1 cs2 where 1: "do_timer_op p T = Some (T1, cs1)" "do_timer_ops ps T1 = Some (T', cs2)" "cs = cs1 @ cs2"
    using Cons.prems by (auto simp: bind_eq_Some_conv)
  have "length cs1 \<le> 2"
    using 1(1) by (cases p) (auto simp: TimerHandler_sched_def TimerHandler_resched_def TimerHandler_cancel_def
        TimerHandler_force_cancel_def timer_sched_calls_def timer_cancel_calls_def split: if_splits)
  then show ?case using Cons.IH [OF 1(2)] 1(3) by simp
qed simp

lemma timer_handlers_bounded:
  fixes expire :: "('t::{linorder,zero}, 'x) expiry"
  assumes "careful_expiry c expire"
  shows "bounded_calls (2 * c) (timer_handlers expire)"
  unfolding bounded_calls_def
proof (intro allI)
  fix h e t m and w :: "('x \<times> timers) option"
  show "length (snd (timer_handlers expire h e t m w)) \<le> 2 * c"
  proof (cases w)
    case (Some xT)
    obtain x T where xT: "xT = (x, T)" by fastforce
    obtain x' ps where ps: "expire h t x = (x', ps)" by fastforce
    then have "length ps \<le> c" using assms unfolding careful_expiry_def by (metis snd_conv)
    moreover have "length cs \<le> 2 * length ps" if "TimerHandler_handle ps h T = Some (T', cs)" for T' cs
      using that timer_ops_length by (auto simp: TimerHandler_handle_def bind_eq_Some_conv split: if_splits)
    ultimately show ?thesis
      using Some xT ps by (fastforce simp: timer_handlers_def split: option.splits)
  qed (simp add: timer_handlers_def)
qed

end
