(* ===== verification/Schedulers.thy ===== *)
theory Schedulers
  imports Event_Heap Event_Splay Timers
begin

text \<open>
  The schedulers \<^verbatim>\<open>Scheduler/List\<close>, \<^verbatim>\<open>Scheduler/Heap\<close> and \<^verbatim>\<open>Scheduler/Splay\<close>: the results about \<^verbatim>\<open>Scheduler\<close> over any queue,
  for these three.
\<close>

section \<open>Interpretations\<close>

lemma uid_room: "int (2 ^ 31 - 1) < uid_max"
  by (simp add: uid_max_def)

interpretation list_scheduler: scheduler ListScheduler "[]" "2 ^ 31 - 1" set "\<lambda>n. in_order"
  by unfold_locales (rule uid_room)

interpretation heap_scheduler: scheduler HeapScheduler new_heap "2 ^ 31 - 1" heap_events heap_ready
  by unfold_locales (rule uid_room)

interpretation splay_scheduler: scheduler SplayScheduler new_splay "2 ^ 31 - 1" "\<lambda>s. set_tree (root s)" "\<lambda>n. splay_ready"
  by unfold_locales (rule uid_room)

section \<open>The schedulers agree\<close>

text \<open>What can be seen of a simulation: the clock, the event objects, the state of the handlers, and the log.\<close>

definition observed :: "(('t, 'q) sched \<times> 'w \<times> 't action list) option \<Rightarrow> ('t \<times> 't store \<times> 'w \<times> 't action list) option" where
  "observed r = map_option (\<lambda>(s, w, l). (clock s, events s, w, l)) r"

lemma observed_abs: "observed (map_option (map_prod (abs_sched f) id) r) = observed r"
  by (cases r) (auto simp: observed_def)

lemma simulations_agree:
  assumes "bounded_calls c handle" "length script + k * c < 2 ^ 31"
  shows "observed (simulate HeapScheduler new_heap handle script k w) = observed (simulate ListScheduler [] handle script k w)
    \<and> observed (simulate SplayScheduler new_splay handle script k w) = observed (simulate ListScheduler [] handle script k w)"
proof -
  have calls: "length (snd (handle h e t m w)) \<le> c" for h e t m w
    using assms(1) by (simp add: bounded_calls_def)
  have room: "length script + k * c \<le> 2 ^ 31 - 1" using assms(2) by simp
  have "observed (simulate HeapScheduler new_heap handle script k w) = observed (simulate Set_queue {} handle script k w)"
    using heap_scheduler.simulate_refines [where w = w, OF calls room] by (simp add: observed_abs)
  moreover have "observed (simulate ListScheduler [] handle script k w) = observed (simulate Set_queue {} handle script k w)"
    using list_scheduler.simulate_refines [where w = w, OF calls room] by (simp add: observed_abs)
  moreover have "observed (simulate SplayScheduler new_splay handle script k w) = observed (simulate Set_queue {} handle script k w)"
    using splay_scheduler.simulate_refines [where w = w, OF calls room] by (simp add: observed_abs)
  ultimately show ?thesis by simp
qed

text \<open>
  C7: Whatever the handlers do, legal or not, the three schedulers give the same simulation: the same log, and an
  abort of one is an abort of all. \<open>c\<close> bounds the calls of a handler; with the script they are at most
  \<open>2 ^ 31 - 1\<close>.
\<close>

theorem schedulers_agree:
  assumes "bounded_calls c handle" "length script + k * c < 2 ^ 31"
  shows "observed (simulate HeapScheduler new_heap handle script k w) = observed (simulate ListScheduler [] handle script k w)
    \<and> observed (simulate SplayScheduler new_splay handle script k w) = observed (simulate ListScheduler [] handle script k w)"
  by (rule simulations_agree [OF assms])

text \<open>An event that reschedules itself after its own delay; three of them with two at the same times.\<close>

definition ticking :: "(int, nat) handlers" where
  "ticking h e t m w = (Suc w, [Schedule (Some h) e (int e)])"

lemma ticking_bounded: "bounded_calls 1 ticking"
  by (simp add: bounded_calls_def ticking_def)

definition ticking_script :: "int call list" where
  "ticking_script = [Schedule (Some 0) 2 4, Schedule (Some 0) 1 4, At (Some 0) 3 1, Cancel 1, At (Some 1) 1 4]"

lemma schedulers_agree_witness:
  "observed (simulate HeapScheduler new_heap ticking ticking_script 5 0)
     = observed (simulate ListScheduler [] ticking ticking_script 5 0)
   \<and> map_option dispatched (map_option (snd \<circ> snd) (simulate HeapScheduler new_heap ticking ticking_script 5 0))
     = Some [(1, 3), (4, 1), (4, 4), (4, 5), (5, 7)]"
proof
  show "observed (simulate HeapScheduler new_heap ticking ticking_script 5 0)
     = observed (simulate ListScheduler [] ticking ticking_script 5 0)"
    using schedulers_agree [OF ticking_bounded, of ticking_script 5 0] by (simp add: ticking_script_def)
  show "map_option dispatched (map_option (snd \<circ> snd) (simulate HeapScheduler new_heap ticking ticking_script 5 0))
     = Some [(1, 3), (4, 1), (4, 4), (4, 5), (5, 7)]"
    by code_simp
qed

section \<open>Order and completeness\<close>

text \<open>The times and numbers of the events a simulation dispatches, in their order.\<close>

definition dispatches :: "(('t, 'q) sched \<times> 'w \<times> 't action list) option \<Rightarrow> ('t \<times> int) list option" where
  "dispatches r = map_option (\<lambda>(s, w, l). dispatched l) r"

text \<open>
  C2: When script and handlers follow the rules of \<^verbatim>\<open>schedule\<close>, no scheduler aborts, and the events are dispatched in
  the order of their times, those of one time in the order in which they were scheduled.
\<close>

theorem events_in_order:
  assumes "time_flows TYPE('t::{linorder,plus,minus,uminus,zero})" "bounded_calls c (handle :: ('t, 'w) handlers)"
    "legal_handlers J handle" "legal_calls Map.empty script" "J (after_calls Map.empty script) w"
    "length script + k * c < 2 ^ 31"
  shows "\<exists>ds. sorted_wrt (<) ds \<and> dispatches (simulate HeapScheduler new_heap handle script k w) = Some ds \<and>
    dispatches (simulate SplayScheduler new_splay handle script k w) = Some ds \<and>
    dispatches (simulate ListScheduler [] handle script k w) = Some ds"
proof -
  have room: "length script + k * c \<le> 2 ^ 31 - 1" using assms(6) by simp
  obtain s w' l where heap: "simulate HeapScheduler new_heap handle script k w = Some (s, w', l)"
    "sorted_wrt (<) (dispatched l)"
    using heap_scheduler.simulate_ordered [OF assms(1-5) room] by blast
  have obs: "dispatches r = map_option (\<lambda>(_, _, _, l). dispatched l) (observed r)"
    for r :: "(('t, 'q) sched \<times> 'w \<times> 't action list) option"
    by (cases r) (auto simp: dispatches_def observed_def)
  have agree: "observed (simulate HeapScheduler new_heap handle script k w) = observed (simulate ListScheduler [] handle script k w)"
    "observed (simulate SplayScheduler new_splay handle script k w) = observed (simulate ListScheduler [] handle script k w)"
    using simulations_agree [OF assms(2,6)] by blast+
  have "dispatches (simulate HeapScheduler new_heap handle script k w) = Some (dispatched l)"
    using heap(1) by (simp add: dispatches_def)
  then show ?thesis
    using heap(2) agree unfolding obs by auto
qed

lemma time_flows_int: "time_flows TYPE(int)"
  by (simp add: time_flows_def)

lemma ticking_legal: "legal_handlers (\<lambda>P w. True) ticking"
  by (simp add: legal_handlers_def ticking_def)

lemma events_in_order_witness:
  "\<exists>ds. sorted_wrt (<) ds \<and> dispatches (simulate HeapScheduler new_heap ticking ticking_script 5 0) = Some ds \<and>
    dispatches (simulate SplayScheduler new_splay ticking ticking_script 5 0) = Some ds \<and>
    dispatches (simulate ListScheduler [] ticking ticking_script 5 0) = Some ds"
  using events_in_order [OF time_flows_int ticking_bounded ticking_legal, where script = ticking_script and k = 5 and w = 0]
  by (simp add: ticking_script_def)

text \<open>
  C5: The log against an abstract priority queue: every event dispatched had been scheduled, with this time and this number,
  and was the first of those pending; what was scheduled and neither dispatched nor cancelled is in the queue.
\<close>

theorem simulation_replays:
  assumes "bounded_calls c handle" "length script + k * c < 2 ^ 31"
  shows "(\<forall>s w' l. simulate HeapScheduler new_heap handle script k w = Some (s, w', l) \<longrightarrow>
      replay {} l = Some (entries heap_events s)) \<and>
    (\<forall>s w' l. simulate SplayScheduler new_splay handle script k w = Some (s, w', l) \<longrightarrow>
      replay {} l = Some (entries (\<lambda>q. set_tree (root q)) s)) \<and>
    (\<forall>s w' l. simulate ListScheduler [] handle script k w = Some (s, w', l) \<longrightarrow>
      replay {} l = Some (entries set s))"
proof -
  have room: "length script + k * c \<le> 2 ^ 31 - 1" using assms(2) by simp
  show ?thesis
    using heap_scheduler.simulate_replay [OF assms(1) room] splay_scheduler.simulate_replay [OF assms(1) room]
      list_scheduler.simulate_replay [OF assms(1) room] by blast
qed

lemma simulation_replays_witness:
  "\<exists>s w' l. simulate HeapScheduler new_heap ticking ticking_script 5 0 = Some (s, w', l) \<and>
     replay {} l = Some (entries heap_events s)"
proof -
  have "map_option dispatched (map_option (snd \<circ> snd) (simulate HeapScheduler new_heap ticking ticking_script 5 0))
    = Some [(1, 3), (4, 1), (4, 4), (4, 5), (5, 7)]" by code_simp
  then obtain s w' l where "simulate HeapScheduler new_heap ticking ticking_script 5 0 = Some (s, w', l)" by auto
  then show ?thesis
    using simulation_replays [OF ticking_bounded, of ticking_script 5 0] by (simp add: ticking_script_def)
qed

section \<open>Timers\<close>

text \<open>
  C6: Agents that only use \<^verbatim>\<open>resched\<close>, with delays that are not negative, and \<^verbatim>\<open>force_cancel\<close> when timers expire never run
  into an abort of a timer or of the scheduler, and every timer whose own event is in the queue is pending.
\<close>

theorem timers_never_abort:
  assumes "time_flows TYPE('t::{linorder,plus,minus,uminus,zero})" "careful_expiry c (expire :: ('t, 'x) expiry)"
    "ops_allowed (\<lambda>_. TIMER_IDLE) start" "do_timer_ops start (\<lambda>_. TIMER_IDLE) = Some (T, script)"
    "length script + k * (2 * c) < 2 ^ 31"
  shows "\<exists>s x' T' l. simulate HeapScheduler new_heap (timer_handlers expire) script k (Some (x, T)) = Some (s, Some (x', T'), l) \<and>
    (\<forall>e. 0 < ev_uid (events s e) \<longrightarrow> ev_handler (events s e) = Some e \<longrightarrow> T' e = TIMER_PENDING)"
proof -
  have room: "length script + k * (2 * c) \<le> 2 ^ 31 - 1" using assms(5) by simp
  have "timers_agree Map.empty (\<lambda>_. TIMER_IDLE)" by (simp add: timers_agree_def)
  from timer_ops_agree [OF this assms(3)] assms(4)
  have script: "legal_calls Map.empty script" "timers_running (after_calls Map.empty script) (Some (x, T))"
    by (auto simp: timers_running_def)
  obtain s w' l P where sim: "simulate HeapScheduler new_heap (timer_handlers expire) script k (Some (x, T)) = Some (s, w', l)"
    "timers_running P w'" "agenda (events s) \<subseteq>\<^sub>m P"
    using heap_scheduler.simulate_ordered [OF assms(1) timer_handlers_bounded [OF assms(2)]
        timer_handlers_legal [OF assms(2)] script room] by blast
  then obtain x' T' where w': "w' = Some (x', T')" "timers_agree P T'" by (auto simp: timers_running_def)
  have "T' e = TIMER_PENDING" if "0 < ev_uid (events s e)" "ev_handler (events s e) = Some e" for e
  proof -
    have "agenda (events s) e = Some e" using that by (simp add: agenda_def)
    then have "P e = Some e" using sim(3) by (metis domI map_le_def)
    then show ?thesis using w'(2) by (simp add: timers_agree_def)
  qed
  then show ?thesis using sim(1) w'(1) by blast
qed

text \<open>A retransmission timer (0) that backs off, and a delayed acknowledgment (1) that it cancels.\<close>

definition backoff :: "(int, int) expiry" where
  "backoff i t x = (2 * x, if i = 0 then [Timer_resched 0 \<bar>x\<bar>, Timer_force_cancel 1] else [Timer_resched 1 3])"

lemma backoff_careful: "careful_expiry 2 backoff"
  by (simp add: careful_expiry_def backoff_def)

lemma timers_never_abort_witness:
  "\<exists>s x' T' l. simulate HeapScheduler new_heap (timer_handlers backoff)
      [Schedule (Some 0) 0 5, Schedule (Some 1) 1 2] 9 (Some (1, (\<lambda>_. TIMER_IDLE)(0 := TIMER_PENDING, 1 := TIMER_PENDING)))
      = Some (s, Some (x', T'), l) \<and>
    (\<forall>e. 0 < ev_uid (events s e) \<longrightarrow> ev_handler (events s e) = Some e \<longrightarrow> T' e = TIMER_PENDING)"
  by (rule timers_never_abort [OF time_flows_int backoff_careful, where start = "[Timer_sched 0 5, Timer_sched 1 2]"])
    (simp_all add: TimerHandler_sched_def timer_sched_calls_def)

section \<open>The limits\<close>



text \<open>Insertions one after another, each with its \<^verbatim>\<open>deque\<close>, of events for one time.\<close>

definition same_time :: "'t \<Rightarrow> 't store" where
  "same_time t = (\<lambda>e. \<lparr>ev_handler = Some 0, ev_time = t, ev_uid = int e\<rparr>)"

definition insert_and_deque :: "'t::linorder store \<Rightarrow> 't heap \<Rightarrow> 't heap option" where
  "insert_and_deque m h = do { h' \<leftarrow> HeapScheduler_insert m 0 h; Some (snd (heap_extract_min h')) }"

lemma insert_and_deque_empty: "h_elems h = [] \<Longrightarrow> h_maxsize h = 32 \<Longrightarrow>
    insert_and_deque m h = Some (h\<lparr>h_s_key := h_s_key h + 1\<rparr>)"
  by (simp add: insert_and_deque_def HeapScheduler_insert_def heap_insert_def sift_up.simps heap_extract_min_def
      sift_down.simps)

lemma insert_and_deque_many:
  "((\<lambda>r. Option.bind r (insert_and_deque m)) ^^ n) (Some new_heap) = Some (new_heap\<lparr>h_s_key := of_nat n\<rparr>)"
proof (induction n)
  case (Suc n)
  have "insert_and_deque m (new_heap\<lparr>h_s_key := of_nat n\<rparr>) = Some (new_heap\<lparr>h_s_key := of_nat (Suc n)\<rparr>)"
    by (subst insert_and_deque_empty) (simp_all add: new_heap_def HEAP_DEFAULT_SIZE_def add.commute)
  then show ?case by (simp add: Suc.IH)
qed (simp add: new_heap_def)

text \<open>
  C21: The heap breaks ties by a counter of 32 bits. After \<open>2 ^ 32 - 1\<close> insertions it is at its end, and of two events for
  the same time that are inserted then, the second one is dispatched first.
\<close>

theorem heap_ties_wrap:
  "\<exists>h1 h2 h3. ((\<lambda>r. Option.bind r (insert_and_deque (same_time t))) ^^ (2 ^ 32 - 1)) (Some new_heap) = Some h1 \<and>
    HeapScheduler_insert (same_time t) 1 h1 = Some h2 \<and> HeapScheduler_insert (same_time t) 2 h2 = Some h3 \<and>
    fst (heap_extract_min h3) = Some 2"
proof -
  have "(of_nat (2 ^ 32 - 1) :: 32 word) = - 1" by simp
  then show ?thesis
    unfolding insert_and_deque_many
    by (simp add: HeapScheduler_insert_def heap_insert_def same_time_def new_heap_def HEAP_DEFAULT_SIZE_def
        sift_up.simps heap_parent_def KEY_LESS_THAN_def heap_extract_min_def)
qed

end
