(* ===== verification/Spec2Isabelle.thy ===== *)
theory Spec2Isabelle
  imports Bic Cubic Scalable Highspeed Hybla Htcp Illinois Veno Vegas Lp Westwood Yeah Compound
    Scoreboard Param_Manager Network Schedulers
begin

text \<open>
  TCP-Linux in NS-2 (\<^verbatim>\<open>ns-allinone-2.35/ns-2.35/tcp\<close>): the part of the network simulator that runs
  the congestion control modules of Linux 2.6.22 unchanged inside a simulated TCP sender, and the receivers
  it sends to; and the event loop of the simulator (\<^verbatim>\<open>ns-2.35/common\<close>) with its queues and timers.

  \<^bold>\<open>The program and the theories.\<close>
  The modules are C files that see one structure, \<^verbatim>\<open>struct tcp_sock\<close>, and register a table of
  functions, \<^verbatim>\<open>struct tcp_congestion_ops\<close>. The agent, a C++ class, keeps that structure, calls the
  functions on acknowledgments, losses and timeouts, and sends what the window allows; the
  scoreboard tells it what is outstanding. The receiver answers every packet, or every second one, with an
  acknowledgment and the blocks of packets it has beyond the first one missing.

  \<^item> \<^theory_text>\<open>Prelude\<close>, \<^theory_text>\<open>Tcp_Types\<close>: C arithmetic on words, and the data of \<^verbatim>\<open>linux/ns-linux-util.h\<close> and
    \<^verbatim>\<open>ns-linux-c.h\<close>: the record \<open>tcp_sock\<close>, the events and states, the globals (record \<open>env\<close>).
  \<^item> \<^theory_text>\<open>Linux_Shim\<close>: \<^verbatim>\<open>linux/ns-linux-c.c\<close>, the substitutes of kernel services (\<^verbatim>\<open>fls\<close>, \<^verbatim>\<open>fls64\<close>, \<^verbatim>\<open>do_div\<close>,
    \<^verbatim>\<open>div64_64\<close>, kernel time) and the registry of module parameters.
  \<^item> \<^theory_text>\<open>Cong_List\<close>, \<^theory_text>\<open>Registry\<close>: \<^verbatim>\<open>linux/src/tcp_cong.c\<close>, the registry of algorithms on a circular doubly linked
    list: register, remove, search, default, allowed set, listings into a bounded buffer.
  \<^item> \<^theory_text>\<open>Module_Ops\<close>: the table of a module with its functions as functions, and the contract
    \<open>cong_module\<close> between the agent and a module.
  \<^item> \<^theory_text>\<open>Reno\<close> (slow start, Reno, and \<^verbatim>\<open>tcp_naivereno.c\<close>), \<^theory_text>\<open>Bic\<close>, \<^theory_text>\<open>Cubic\<close>, \<^theory_text>\<open>Scalable\<close>, \<^theory_text>\<open>Highspeed\<close>, \<^theory_text>\<open>Hybla\<close>,
    \<^theory_text>\<open>Htcp\<close>, \<^theory_text>\<open>Illinois\<close>, \<^theory_text>\<open>Veno\<close>, \<^theory_text>\<open>Vegas\<close>, \<^theory_text>\<open>Lp\<close>, \<^theory_text>\<open>Westwood\<close>, \<^theory_text>\<open>Yeah\<close>, \<^theory_text>\<open>Compound\<close>: the modules, each with
    its private structure as a record, every function of its table, and the table.
  \<^item> \<^theory_text>\<open>Scoreboard\<close>: \<^verbatim>\<open>scoreboard1.cc\<close> and \<^verbatim>\<open>scoreboard1.h\<close>, the linked list of blocks of packets that
    are in flight, sacked, lost or retransmitted, with node addresses for the pointer into it.
  \<^item> \<^theory_text>\<open>Param_Manager\<close>: \<^verbatim>\<open>ParamList\<close> and \<^verbatim>\<open>LinuxParamManager\<close> of \<^verbatim>\<open>tcp-linux.cc\<close>, the parameters of a module
    that a connection sets for itself.
  \<^item> \<^theory_text>\<open>Agent\<close>: \<^verbatim>\<open>LinuxTcpAgent\<close> of \<^verbatim>\<open>tcp-linux.cc\<close>, with the functions of the base class in \<^verbatim>\<open>tcp.cc\<close> it uses:
    \<open>recv\<close> and its parts, \<open>send_much\<close>, \<open>timeout\<close>, \<open>reset\<close>, \<open>sendmsg\<close>. \<^theory_text>\<open>Agent_Safety\<close> proves its
    invariant for any module that fulfils the contract; \<^theory_text>\<open>Connections\<close> does so for the modules.
  \<^item> \<^theory_text>\<open>Sink\<close>: \<^verbatim>\<open>tcp-sink.cc\<close> and \<^verbatim>\<open>tcp-sink.h\<close>, the receiver: \<open>acker\<close> with its ring buffer that grows, the stack of
    blocks, \<open>sacker\<close>, and the sinks with and without delayed acknowledgments. \<^theory_text>\<open>Sink_Safety\<close> proves that
    the ring represents what was received and the stack the blocks of it; \<^theory_text>\<open>Receiver\<close> has the contract of the
    virtual \<^verbatim>\<open>append_ack\<close> (\<open>block_reporter\<close>), the correctness of the sinks over any acker that fulfils it, and
    its two interpretations.
  \<^item> \<^theory_text>\<open>Network\<close>: the agent and a receiver over a network that loses, repeats and reorders packets and
    acknowledgments, as an inductive step relation on both states and what was ever sent.
  \<^item> \<^theory_text>\<open>Event_Queue\<close>: events (\<^verbatim>\<open>common/scheduler.h\<close>), the contract \<open>event_queue\<close> of the virtual functions by which
    \<^verbatim>\<open>Scheduler\<close> uses its queue, and the list queue; \<^theory_text>\<open>Event_Splay\<close>: the splay tree of \<^verbatim>\<open>common/splay-scheduler.cc\<close>;
    \<^theory_text>\<open>Event_Heap\<close>: the array heap of \<^verbatim>\<open>common/heap.h\<close>. Each ends with the interpretation of the contract.
  \<^item> \<^theory_text>\<open>Event_Loop\<close>: \<^verbatim>\<open>schedule\<close>, \<^verbatim>\<open>cancel\<close>, \<^verbatim>\<open>dispatch\<close>, \<^verbatim>\<open>run\<close> and the commands of \<^verbatim>\<open>common/scheduler.cc\<close> over any queue; in
    the locale \<open>scheduler\<close> they refine the scheduler over a set of events. \<^theory_text>\<open>Event_Order\<close> proves the order of
    dispatches, \<^theory_text>\<open>Timers\<close> models \<^verbatim>\<open>common/timer-handler.cc\<close> as handlers of the scheduler, and \<^theory_text>\<open>Schedulers\<close> has the
    results for the three schedulers. The senders and receivers above are not run by this loop: their timer events are steps
    of \<^theory_text>\<open>Network\<close>.

  \<^bold>\<open>Conventions.\<close>
  The machine is LP64: \<^verbatim>\<open>u32\<close>, which the shim makes \<^verbatim>\<open>unsigned long\<close>, is a 64-bit word, \<^verbatim>\<open>u16\<close>, which it makes \<^verbatim>\<open>unsigned
  int\<close>, a 32-bit word, and \<^verbatim>\<open>int\<close> a 32-bit word read signed. A result \<^term>\<open>None\<close> is a call that
  does not return normally: a division by zero, an index out of a table, a failed assertion, a
  null or dangling pointer, a shift by the width or more, a loop that does not end. Loops that
  may not end are \<^theory_text>\<open>partial_function (option)\<close>. The loop of the scheduler, which a simulation need not leave, takes a
  number of events to dispatch instead, and what is shown of it holds for every number. Times of events are of any linearly
  ordered type with an addition (\<^verbatim>\<open>double\<close> without NaN is one); that a delay that is not negative does not go back
  in time, rounded or not, is a hypothesis. Simulations are those with less than \<open>2 ^ 31\<close> calls to
  the scheduler, below which no counter or index of the heap wraps. Packet numbers of the scoreboard and the
  agent are integers, with the bounds of \<^verbatim>\<open>int\<close> as an invariant. The receiver takes packet numbers
  below \<open>2 ^ 30 - 2\<close>, for which the size of its ring stays an \<^verbatim>\<open>int\<close>.

  \<^bold>\<open>What is shown.\<close>
  Of the shim: the bounds of \<^verbatim>\<open>div64_64\<close> and the round trips of the parameter registry. Of the registry: the list stays
  well formed under every sequence of operations, and what each operation does on every branch.
  Of the modules: that each operation returns on usable sockets (or exactly when it traps), the
  bounds and the functional behaviour of their arithmetic, and, as interpretations of
  \<open>cong_module\<close>, the contract for eleven of them. Of the scoreboard: an invariant over all its
  steps, from which the exactness of the packet counts, of sack processing, of retransmission and of
  timeouts follows. Of the agent: with each of these eleven modules every reachable connection
  keeps a usable socket and an open window, processes every event, and uses the scoreboard
  by its own protocol (a refinement), and what is sent is exact. Of the receivers: after any sequence of packets and timer
  events an acknowledgment says exactly which packets arrived, and the application got exactly the bytes in order. Of both
  together: the sender never takes a packet for delivered that the receiver does not have, and
  every packet and acknowledgment the other side sent is processed. Of the event loop: the three queues give the
  same simulation, whose log is a run of an abstract priority queue; events are dispatched by time and then in the
  order they were scheduled, and agents that use their timers by \<^verbatim>\<open>resched\<close> and \<^verbatim>\<open>force_cancel\<close> never run into an abort. The properties that are findings state where the code does
  something else than it means to; the manifest lists them.

  \<^bold>\<open>Not modelled.\<close>
  The calendar queue (its buckets are quotients in \<^verbatim>\<open>double\<close>) and the real-time scheduler; the timers of the
  agent, tracing, the clock arithmetic in \<^verbatim>\<open>double\<close> (its results are inputs of \<open>recv\<close>), the agent
  without a module (\<^verbatim>\<open>opencwnd\<close> and the other cases of \<^verbatim>\<open>slowdown\<close>), a change of the module during a
  connection, Quick-Start, the commands of the script language, printing, and the parts of NS-2 outside TCP-Linux, its
  receivers and the event loop. Illinois,
  Westwood, YeAH and Compound are modelled, but do not fulfil the contract (a window or threshold can
  become 0 or wrap), so nothing is claimed of whole connections with them.
\<close>

end
